(* ===== verification/Scrip_Prelude.thy ===== *)
theory Scrip_Prelude
  imports Main "HOL-Library.Word" "HOL-Library.Signed_Division" "HOL-Library.Char_ord"
begin

text \<open>
  Shared vocabulary of the SCRIP development: the machine words the C sources use, the
  collections of facts the component theories extend, and the generic lemmas on lists, options
  and words that more than one component needs. Nothing here models a file of the repository by
  itself.
\<close>

unbundle bit_operations_syntax

named_theorems limb_simps \<open>values of limb lists under the list operations\<close>
named_theorems word_split \<open>low and high halves of a 64-bit accumulator\<close>
named_theorems scan_progress \<open>a scanner consumes input\<close>

type_synonym u8 = "8 word"
type_synonym u32 = "32 word"
type_synonym u64 = "64 word"

section \<open>Words\<close>

text \<open>
  A \<open>uint64_t\<close> accumulator is stored back into a \<open>uint32_t\<close> cell by a cast and carried on by
  \<open>>> 32\<close>; \<open>lo32\<close> and \<open>hi32\<close> are the two halves and \<open>w64\<close> the widening cast.
\<close>

definition lo32 :: "u64 \<Rightarrow> u32" where "lo32 s = ucast s"
definition hi32 :: "u64 \<Rightarrow> u64" where "hi32 s = drop_bit 32 s"
definition w64 :: "u32 \<Rightarrow> u64" where "w64 x = ucast x"

definition lbase :: nat where "lbase = 4294967296"

lemma lbase_pos [simp]: "0 < lbase" by (simp add: lbase_def)
lemma lbase_neq0 [simp]: "lbase \<noteq> 0" by (simp add: lbase_def)
lemma lbase_gt1 [simp]: "1 < lbase" "Suc 0 < lbase" "1 \<le> lbase" "Suc 0 \<le> lbase" by (simp_all add: lbase_def)

lemma unat_u32_less [simp]: "unat (x :: u32) < lbase"
  using unsigned_less [of x, where ?'a = nat] by (simp add: lbase_def)

lemma unat_u32_le [simp]: "unat (x :: u32) \<le> lbase - 1"
  using unat_u32_less [of x] by linarith

lemma uint_u32_less [simp]: "uint (x :: u32) < int lbase"
  using unsigned_less [of x, where ?'a = int] by (simp add: lbase_def)

lemma unat_u64_less: "unat (s :: u64) < lbase * lbase"
  using unsigned_less [of s, where ?'a = nat] by (simp add: lbase_def)

lemma unat_w64 [simp]: "unat (w64 x) = unat x"
  using unsigned_less [of x, where ?'a = nat]
  by (simp add: w64_def unsigned_ucast_eq take_bit_nat_eq_self)

lemma unat_lo32 [word_split]: "unat (lo32 s) = unat s mod lbase"
  by (simp add: lo32_def unsigned_ucast_eq take_bit_nat_def lbase_def)

lemma unat_hi32 [word_split]: "unat (hi32 s) = unat s div lbase"
  by (simp add: hi32_def unat_drop_bit_eq drop_bit_nat_def lbase_def)

lemma lo_hi_32: "unat (lo32 s) + lbase * unat (hi32 s) = unat s"
  by (simp add: word_split)

lemma unat_hi32_less [simp]: "unat (hi32 s) < lbase"
  using unat_u64_less [of s] by (simp add: word_split less_mult_imp_div_less)

text \<open>Sums and products of 64-bit accumulators that do not wrap.\<close>

lemma unat_add64: "unat a + unat b < lbase * lbase \<Longrightarrow> unat (a + b :: u64) = unat a + unat b"
  by (subst unat_add_lem [symmetric]) (simp add: lbase_def)

lemma unat_mult64: "unat a * unat b < lbase * lbase \<Longrightarrow> unat (a * b :: u64) = unat a * unat b"
  by (subst unat_mult_lem [symmetric]) (simp add: lbase_def)

lemma unat_w64_mult [simp]: "unat (w64 x * w64 y) = unat x * unat y"
proof -
  have "unat x * unat y \<le> (lbase - 1) * (lbase - 1)"
    by (rule mult_le_mono) (rule unat_u32_le)+
  also have "\<dots> < lbase * lbase" by (simp add: lbase_def)
  finally show ?thesis by (simp add: unat_mult64)
qed

section \<open>Texts\<close>

text \<open>Decimal notation of a number, without leading zeros.\<close>

definition digit_char :: "nat \<Rightarrow> char" where
  "digit_char d = char_of (48 + d)"

lemma digit_char_0: "digit_char 0 = CHR ''0''"
  by (simp add: digit_char_def char_of_def bit_0)

fun dec_str :: "nat \<Rightarrow> string" where
  "dec_str n = (if n < 10 then [digit_char n] else dec_str (n div 10) @ [digit_char (n mod 10)])"

declare dec_str.simps [simp del]

lemma dec_str_small: "n < 10 \<Longrightarrow> dec_str n = [digit_char n]"
  by (subst dec_str.simps) simp

lemma dec_str_big: "10 \<le> n \<Longrightarrow> dec_str n = dec_str (n div 10) @ [digit_char (n mod 10)]"
  by (subst dec_str.simps) simp

lemma of_char_digit: "d < 10 \<Longrightarrow> of_char (digit_char d) = 48 + d"
  by (simp add: digit_char_def)

text \<open>
  A scanner reads at offsets from its pointer into a NUL-terminated text; the text from the pointer
  on is a list of characters and past its end the NUL is read.
\<close>

definition pk :: "nat \<Rightarrow> string \<Rightarrow> char" where
  "pk n p = (if n < length p then p ! n else CHR 0x00)"

lemma pk_Nil [simp]: "pk n [] = CHR 0x00" by (simp add: pk_def)
lemma pk_0 [simp]: "pk 0 (c # p) = c" by (simp add: pk_def)
lemma pk_1 [simp]: "pk (Suc n) (c # p) = pk n p" by (simp add: pk_def)

lemma pk_live: "pk n p \<noteq> CHR 0x00 \<Longrightarrow> n < length p"
  by (simp add: pk_def split: if_splits)

lemma pk_is: "pk n p = c \<Longrightarrow> c \<noteq> CHR 0x00 \<Longrightarrow> n < length p"
  by (auto intro: pk_live)

text \<open>The character classes of \<open>ctype.h\<close> in the C locale.\<close>

definition c_isdigit :: "char \<Rightarrow> bool" where
  "c_isdigit c \<longleftrightarrow> CHR ''0'' \<le> c \<and> c \<le> CHR ''9''"
definition c_islower :: "char \<Rightarrow> bool" where
  "c_islower c \<longleftrightarrow> CHR ''a'' \<le> c \<and> c \<le> CHR ''z''"
definition c_isupper :: "char \<Rightarrow> bool" where
  "c_isupper c \<longleftrightarrow> CHR ''A'' \<le> c \<and> c \<le> CHR ''Z''"
definition c_isalpha :: "char \<Rightarrow> bool" where
  "c_isalpha c \<longleftrightarrow> c_islower c \<or> c_isupper c"
definition c_isalnum :: "char \<Rightarrow> bool" where
  "c_isalnum c \<longleftrightarrow> c_isalpha c \<or> c_isdigit c"
definition c_isspace :: "char \<Rightarrow> bool" where
  "c_isspace c \<longleftrightarrow> c = CHR '' '' \<or> CHR 0x09 \<le> c \<and> c \<le> CHR 0x0D"
definition c_isxdigit :: "char \<Rightarrow> bool" where
  "c_isxdigit c \<longleftrightarrow> c_isdigit c \<or> CHR ''a'' \<le> c \<and> c \<le> CHR ''f'' \<or> CHR ''A'' \<le> c \<and> c \<le> CHR ''F''"

lemmas c_class_defs = c_isdigit_def c_islower_def c_isupper_def c_isalpha_def c_isalnum_def
  c_isspace_def c_isxdigit_def less_eq_char_def

lemma c_class_nul [simp]:
  "\<not> c_isdigit (CHR 0x00)" "\<not> c_isalpha (CHR 0x00)" "\<not> c_isalnum (CHR 0x00)"
  "\<not> c_isspace (CHR 0x00)" "\<not> c_isxdigit (CHR 0x00)"
  by (simp_all add: c_class_defs)

text \<open>\<open>%d\<close> of a number.\<close>

definition fmt_int :: "int \<Rightarrow> string" where
  "fmt_int n = (if n < 0 then CHR ''-'' # dec_str (nat (- n)) else dec_str (nat n))"

text \<open>The new lines of a text.\<close>

fun nl :: "string \<Rightarrow> nat" where
  "nl [] = 0"
| "nl (c # p) = (if c = CHR 0x0A then 1 else 0) + nl p"

lemma nl_append [simp]: "nl (s @ t) = nl s + nl t"
  by (induction s) auto

end
