(* ===== verification/Descr.thy ===== *)
theory Descr
  imports Scrip_Prelude
begin

text \<open>
  The value descriptor of the runtime (\<open>src/ir/descr.h\<close>, \<open>src/ir/descr_tags.h\<close>): the 16-byte
  \<open>DESCR_t\<close>, its type tags, the constructors and the predicates every component tests. Tags are
  plain bytes because the runtime tests them by masks and ranges; \<open>dtype\<close> lists the tags the
  enumeration names. Memory behind a pointer payload is an argument \<open>mem\<close> of the predicates that
  look at a first character.
\<close>

section \<open>Tags\<close>

datatype dtype =
    DT_SNUL | DT_S | DT_I | DT_R | DT_P | DT_A | DT_T | DT_C | DT_N | DT_K | DT_E | DT_FH
  | DT_PLVAR | DT_PLREF | DT_X | DT_BLK | DT_FAIL | DT_DATA | DT_BIG | DT_CO | DT_BOOL
  | DT_ORDER | DT_RAW | DT_CPLX | DT_PLATOM | DT_EXTL | DT_PCELL | DT_XR

fun dt_code :: "dtype \<Rightarrow> u8" where
  "dt_code DT_SNUL = 0x00" | "dt_code DT_S = 0x02" | "dt_code DT_I = 0x03" | "dt_code DT_R = 0x05"
| "dt_code DT_P = 0x08" | "dt_code DT_A = 0x10" | "dt_code DT_T = 0x18" | "dt_code DT_C = 0x20"
| "dt_code DT_N = 0x28" | "dt_code DT_K = 0x30" | "dt_code DT_E = 0x38" | "dt_code DT_FH = 0x40"
| "dt_code DT_PLVAR = 0x48" | "dt_code DT_PLREF = 0x50" | "dt_code DT_X = 0x58"
| "dt_code DT_BLK = 0x60" | "dt_code DT_FAIL = 0x68" | "dt_code DT_DATA = 0x70"
| "dt_code DT_BIG = 0x78" | "dt_code DT_CO = 0x80" | "dt_code DT_BOOL = 0x88"
| "dt_code DT_ORDER = 0x90" | "dt_code DT_RAW = 0x98" | "dt_code DT_CPLX = 0xA8"
| "dt_code DT_PLATOM = 0xB0" | "dt_code DT_EXTL = 0xB8" | "dt_code DT_PCELL = 0xC0"
| "dt_code DT_XR = 0xC8"

definition DT_NUMERIC_BIT :: u8 where "DT_NUMERIC_BIT = 0x01"
definition DT_REAL_BIT :: u8 where "DT_REAL_BIT = 0x04"
definition DT_NOTSTR_MASK8 :: u8 where "DT_NOTSTR_MASK8 = 0xFD"
definition DT_DATA_STRIDE :: u8 where "DT_DATA_STRIDE = 8"
definition RTX_NOT_HANDLED :: u8 where "RTX_NOT_HANDLED = 0xFF"

definition reads_numeric :: "u8 \<Rightarrow> bool" where
  "reads_numeric t \<longleftrightarrow> t AND DT_NUMERIC_BIT \<noteq> 0"

definition reads_string :: "u8 \<Rightarrow> bool" where
  "reads_string t \<longleftrightarrow> t AND DT_NOTSTR_MASK8 = 0"

text \<open>The compile-time assertions of the header, on an arbitrary numbering of the tags.\<close>

definition tag_asserts :: "(dtype \<Rightarrow> u8) \<Rightarrow> bool" where
  "tag_asserts c \<longleftrightarrow>
     c DT_SNUL = 0
     \<and> reads_numeric (c DT_I) \<and> reads_numeric (c DT_R)
     \<and> \<not> reads_numeric (c DT_S) \<and> \<not> reads_numeric (c DT_SNUL)
     \<and> c DT_I AND DT_REAL_BIT = 0 \<and> c DT_R AND DT_REAL_BIT \<noteq> 0
     \<and> c DT_I AND c DT_R \<noteq> c DT_I \<and> reads_numeric (c DT_I AND c DT_R)
     \<and> reads_string (c DT_SNUL OR c DT_S)
     \<and> \<not> reads_string (c DT_I) \<and> \<not> reads_string (c DT_R)
     \<and> (\<forall>t\<in>{DT_FAIL, DT_BOOL, DT_ORDER, DT_RAW, DT_PLATOM, DT_PCELL, DT_XR}.
          \<not> reads_numeric (c t) \<and> \<not> reads_string (c t))
     \<and> \<not> reads_numeric (c DT_DATA) \<and> \<not> reads_numeric DT_DATA_STRIDE
     \<and> RTX_NOT_HANDLED AND 7 = 7 \<and> DT_DATA_STRIDE AND 7 = 0 \<and> c DT_DATA AND 7 = 0
     \<and> c DT_FAIL < c DT_DATA \<and> c DT_RAW > c DT_ORDER \<and> c DT_T - c DT_A = 8
     \<and> c DT_PLATOM > c DT_CPLX \<and> c DT_PCELL > c DT_EXTL \<and> c DT_PCELL AND 7 = 0
     \<and> c DT_XR > c DT_PCELL \<and> c DT_XR AND 7 = 0"

section \<open>The descriptor\<close>

record descr_t =
  d_v :: u8
  src_node0 :: u8
  src_node1 :: u8
  src_node2 :: u8
  d_slen :: u32
  d_payload :: u64

definition DESCR_SRC_NODE_OVERFLOW :: u32 where "DESCR_SRC_NODE_OVERFLOW = 0xFFFFFF"

definition descr_src_node :: "descr_t \<Rightarrow> u32" where
  "descr_src_node d =
     ucast (src_node0 d) OR push_bit 8 (ucast (src_node1 d)) OR push_bit 16 (ucast (src_node2 d))"

definition descr_set_src_node :: "descr_t \<Rightarrow> u32 \<Rightarrow> descr_t" where
  "descr_set_src_node d id0 =
     (let i = (if id0 > DESCR_SRC_NODE_OVERFLOW then DESCR_SRC_NODE_OVERFLOW else id0)
      in d\<lparr>src_node0 := ucast i, src_node1 := ucast (drop_bit 8 i),
           src_node2 := ucast (drop_bit 16 i)\<rparr>)"

definition mk_descr :: "dtype \<Rightarrow> u32 \<Rightarrow> u64 \<Rightarrow> descr_t" where
  "mk_descr t slen p =
     \<lparr>d_v = dt_code t, src_node0 = 0, src_node1 = 0, src_node2 = 0, d_slen = slen, d_payload = p\<rparr>"

definition FAILDESCR :: descr_t where "FAILDESCR = mk_descr DT_FAIL 0 0"
definition NAMETRAP :: "u64 \<Rightarrow> descr_t" where "NAMETRAP vc = mk_descr DT_N 2 vc"
definition NAMEPTR :: "u64 \<Rightarrow> descr_t" where "NAMEPTR p = mk_descr DT_N 1 p"
definition NAMEVAL :: "u64 \<Rightarrow> descr_t" where "NAMEVAL s = mk_descr DT_N 0 s"
definition INTVAL :: "u64 \<Rightarrow> descr_t" where "INTVAL i = mk_descr DT_I 0 i"
definition REALVAL :: "u64 \<Rightarrow> descr_t" where "REALVAL r = mk_descr DT_R 0 r"
definition CSETVAL :: "u64 \<Rightarrow> descr_t" where "CSETVAL s = mk_descr DT_S 0xFFFFFFFF s"
definition BSTRVAL :: "u64 \<Rightarrow> u32 \<Rightarrow> descr_t" where "BSTRVAL s n = mk_descr DT_S n s"
definition FHVAL :: "u64 \<Rightarrow> descr_t" where "FHVAL i = mk_descr DT_FH 0 i"
definition DATA_ELEMS :: "u64 \<Rightarrow> descr_t" where "DATA_ELEMS p = mk_descr DT_DATA 1 p"

definition PROCVAL_SLEN :: u32 where "PROCVAL_SLEN = 0xFFFFFFFE"
definition PROCVAL_BUILTIN_SLEN :: u32 where "PROCVAL_BUILTIN_SLEN = 0xFFFFFFFC"
definition PROCVAL_EXTERNAL_SLEN :: u32 where "PROCVAL_EXTERNAL_SLEN = 0xFFFFFFFB"
definition PROCVAL_EXTERNAL :: "u64 \<Rightarrow> descr_t" where
  "PROCVAL_EXTERNAL name = mk_descr DT_E PROCVAL_EXTERNAL_SLEN name"
definition PROCVAL_BUILTIN :: "u64 \<Rightarrow> descr_t" where
  "PROCVAL_BUILTIN name = mk_descr DT_E PROCVAL_BUILTIN_SLEN name"

section \<open>Predicates\<close>

definition has_tag :: "dtype \<Rightarrow> descr_t \<Rightarrow> bool" where
  "has_tag t d \<longleftrightarrow> d_v d = dt_code t"

definition IS_FAIL_fn :: "descr_t \<Rightarrow> bool" where "IS_FAIL_fn d = has_tag DT_FAIL d"
definition IS_DATA_TAG_fn :: "u8 \<Rightarrow> bool" where
  "IS_DATA_TAG_fn v \<longleftrightarrow> v \<ge> dt_code DT_DATA \<and> v < dt_code DT_RAW"
definition IS_NAMETRAP_fn :: "descr_t \<Rightarrow> bool" where
  "IS_NAMETRAP_fn d \<longleftrightarrow> has_tag DT_N d \<and> d_slen d = 2"
definition IS_VARREF_fn :: "(u64 \<Rightarrow> u8) \<Rightarrow> descr_t \<Rightarrow> bool" where
  "IS_VARREF_fn mem d \<longleftrightarrow> has_tag DT_N d \<and>
     (d_slen d = 2 \<or> (d_slen d = 1 \<and> d_payload d \<noteq> 0)
      \<or> (d_slen d = 0 \<and> d_payload d \<noteq> 0 \<and> mem (d_payload d) \<noteq> 0))"
definition IS_KWNAME_fn :: "(u64 \<Rightarrow> u8) \<Rightarrow> descr_t \<Rightarrow> bool" where
  "IS_KWNAME_fn mem d \<longleftrightarrow> has_tag DT_N d \<and> d_slen d = 0 \<and> d_payload d \<noteq> 0
     \<and> mem (d_payload d) = 38 \<and> mem (d_payload d + 1) = 38"
definition IS_DATA_INST_fn :: "descr_t \<Rightarrow> bool" where
  "IS_DATA_INST_fn d \<longleftrightarrow> has_tag DT_DATA d \<and> d_slen d = 0"
definition IS_DATA_ELEMS_fn :: "descr_t \<Rightarrow> bool" where
  "IS_DATA_ELEMS_fn d \<longleftrightarrow> has_tag DT_DATA d \<and> d_slen d = 1"
definition IS_FH_fn :: "descr_t \<Rightarrow> bool" where "IS_FH_fn d = has_tag DT_FH d"
definition IS_PROCVAL_EXTERNAL_fn :: "descr_t \<Rightarrow> bool" where
  "IS_PROCVAL_EXTERNAL_fn d \<longleftrightarrow> has_tag DT_E d \<and> d_slen d = PROCVAL_EXTERNAL_SLEN"
definition IS_PROCVAL_BUILTIN_fn :: "descr_t \<Rightarrow> bool" where
  "IS_PROCVAL_BUILTIN_fn d \<longleftrightarrow> has_tag DT_E d \<and> d_slen d = PROCVAL_BUILTIN_SLEN"
definition IS_PROCVAL_fn :: "descr_t \<Rightarrow> bool" where
  "IS_PROCVAL_fn d \<longleftrightarrow> has_tag DT_E d \<and>
     (d_slen d = PROCVAL_SLEN \<or> d_slen d = PROCVAL_BUILTIN_SLEN \<or> d_slen d = PROCVAL_EXTERNAL_SLEN)"
definition IS_NULL_fn :: "(u64 \<Rightarrow> u8) \<Rightarrow> descr_t \<Rightarrow> bool" where
  "IS_NULL_fn mem d \<longleftrightarrow> has_tag DT_SNUL d \<or>
     (has_tag DT_S d \<and> d_slen d = 0 \<and> (d_payload d = 0 \<or> mem (d_payload d) = 0))"
definition IS_STR_fn :: "descr_t \<Rightarrow> bool" where
  "IS_STR_fn d \<longleftrightarrow> has_tag DT_S d \<or> has_tag DT_SNUL d"
definition IS_INT_fn :: "descr_t \<Rightarrow> bool" where "IS_INT_fn d = has_tag DT_I d"
definition IS_REAL_fn :: "descr_t \<Rightarrow> bool" where "IS_REAL_fn d = has_tag DT_R d"
definition IS_CSET_fn :: "descr_t \<Rightarrow> bool" where
  "IS_CSET_fn d \<longleftrightarrow> has_tag DT_S d \<and> d_slen d = 0xFFFFFFFF"
definition IS_DATA_fn :: "descr_t \<Rightarrow> bool" where "IS_DATA_fn d = has_tag DT_DATA d"

text \<open>\<open>descr_slen\<close>: the length a string descriptor answers; a cset keeps it in its block header.\<close>

definition descr_slen :: "(u64 \<Rightarrow> u32) \<Rightarrow> descr_t \<Rightarrow> u32" where
  "descr_slen cset_blk_len d =
     (if has_tag DT_S d
      then if d_slen d = 0xFFFFFFFF then (if d_payload d \<noteq> 0 then cset_blk_len (d_payload d) else 0)
           else d_slen d
      else 0)"

section \<open>Properties\<close>

lemma dt_code_inject: "dt_code s = dt_code t \<longleftrightarrow> s = t"
  by (cases s; cases t) simp_all

lemma has_tag_unique: "has_tag s d \<Longrightarrow> has_tag t d \<Longrightarrow> s = t"
  by (metis dt_code_inject has_tag_def)

text \<open>
  The numbering of the tags satisfies every compile-time assertion of the header, no two tags
  share a code, and no tag reads as the not-handled byte of the assembly routines.
\<close>

theorem tag_numbering_sound:
  "tag_asserts dt_code \<and> (dt_code s = dt_code t \<longleftrightarrow> s = t) \<and> dt_code t AND 7 \<noteq> RTX_NOT_HANDLED AND 7"
proof -
  have "tag_asserts dt_code"
    by (simp add: tag_asserts_def reads_numeric_def reads_string_def DT_NUMERIC_BIT_def
        DT_REAL_BIT_def DT_NOTSTR_MASK8_def DT_DATA_STRIDE_def RTX_NOT_HANDLED_def)
  moreover have "dt_code t AND 7 \<noteq> RTX_NOT_HANDLED AND 7"
    by (cases t) (simp_all add: RTX_NOT_HANDLED_def)
  ultimately show ?thesis using dt_code_inject by blast
qed

lemma src_node_bytes:
  fixes i :: u32
  assumes "i \<le> 0xFFFFFF"
  shows "ucast (ucast i :: u8) OR push_bit 8 (ucast (ucast (drop_bit 8 i) :: u8))
    OR push_bit 16 (ucast (ucast (drop_bit 16 i) :: u8)) = i"
proof (rule bit_eqI)
  fix n assume "possible_bit TYPE(u32) n"
  have "i = take_bit 24 i"
    using assms by (simp add: word_le_nat_alt word_unat_eq_iff unsigned_take_bit_eq take_bit_nat_eq_self)
  then have "bit i n \<Longrightarrow> n < 24" by (metis bit_take_bit_iff)
  moreover have "bit (ucast (ucast i :: u8) OR push_bit 8 (ucast (ucast (drop_bit 8 i) :: u8))
      OR push_bit 16 (ucast (ucast (drop_bit 16 i) :: u8)) :: u32) n = (bit i n \<and> n < 24)"
    by (cases "n < 8"; cases "n < 16") (auto simp: bit_simps)
  ultimately show "bit (ucast (ucast i :: u8) OR push_bit 8 (ucast (ucast (drop_bit 8 i) :: u8))
      OR push_bit 16 (ucast (ucast (drop_bit 16 i) :: u8)) :: u32) n = bit i n"
    by blast
qed

text \<open>
  C29. The provenance stamp: what \<open>descr_set_src_node\<close> stores in 24 bits \<open>descr_src_node\<close> reads
  back, an id past the field saturates instead of wrapping, and the tag, length and payload of
  the descriptor are untouched.
\<close>

theorem src_node_roundtrip:
  "descr_src_node (descr_set_src_node d i) = min i DESCR_SRC_NODE_OVERFLOW
   \<and> d_v (descr_set_src_node d i) = d_v d \<and> d_slen (descr_set_src_node d i) = d_slen d
   \<and> d_payload (descr_set_src_node d i) = d_payload d"
proof -
  define j where "j = min i DESCR_SRC_NODE_OVERFLOW"
  have j: "(if i > DESCR_SRC_NODE_OVERFLOW then DESCR_SRC_NODE_OVERFLOW else i) = j"
    by (auto simp: j_def min_def)
  have "j \<le> 0xFFFFFF" by (simp add: j_def DESCR_SRC_NODE_OVERFLOW_def)
  then have "descr_src_node (descr_set_src_node d i) = min i DESCR_SRC_NODE_OVERFLOW"
    using src_node_bytes [of j] unfolding descr_src_node_def descr_set_src_node_def Let_def j
    by (simp add: or.assoc j_def)
  then show ?thesis by (simp add: descr_set_src_node_def Let_def)
qed

text \<open>
  The predicates separate the kinds of value: a null is a string, a cset is a string of no
  measured length, a failure, a number, a name and a procedure value are none of the others, and
  the three kinds of procedure value exclude one another.
\<close>

theorem predicates_exclusive:
  "(IS_NULL_fn mem d \<longrightarrow> IS_STR_fn d \<and> \<not> IS_CSET_fn d) \<and> (IS_CSET_fn d \<longrightarrow> IS_STR_fn d)
   \<and> (IS_STR_fn d \<longrightarrow> reads_string (d_v d) \<and> \<not> reads_numeric (d_v d))
   \<and> (IS_INT_fn d \<or> IS_REAL_fn d \<longrightarrow> reads_numeric (d_v d) \<and> \<not> reads_string (d_v d))
   \<and> (IS_FAIL_fn d \<longrightarrow> \<not> reads_string (d_v d) \<and> \<not> reads_numeric (d_v d) \<and> \<not> IS_DATA_TAG_fn (d_v d))
   \<and> (IS_KWNAME_fn mem d \<longrightarrow> IS_VARREF_fn mem d) \<and> (IS_NAMETRAP_fn d \<longrightarrow> IS_VARREF_fn mem d)
   \<and> (IS_PROCVAL_BUILTIN_fn d \<longrightarrow> IS_PROCVAL_fn d \<and> \<not> IS_PROCVAL_EXTERNAL_fn d)
   \<and> (IS_PROCVAL_EXTERNAL_fn d \<longrightarrow> IS_PROCVAL_fn d)
   \<and> \<not> (IS_DATA_INST_fn d \<and> IS_DATA_ELEMS_fn d)"
  by (auto simp: IS_NULL_fn_def IS_STR_fn_def IS_CSET_fn_def IS_INT_fn_def IS_REAL_fn_def
      IS_FAIL_fn_def IS_DATA_TAG_fn_def IS_KWNAME_fn_def IS_VARREF_fn_def IS_NAMETRAP_fn_def
      IS_PROCVAL_fn_def IS_PROCVAL_BUILTIN_fn_def IS_PROCVAL_EXTERNAL_fn_def IS_DATA_INST_fn_def
      IS_DATA_ELEMS_fn_def has_tag_def reads_numeric_def reads_string_def DT_NUMERIC_BIT_def
      DT_NOTSTR_MASK8_def PROCVAL_BUILTIN_SLEN_def PROCVAL_EXTERNAL_SLEN_def)

theorem predicates_exclusive_witness:
  "IS_STR_fn (mk_descr DT_SNUL 0 0) \<and> \<not> IS_CSET_fn (mk_descr DT_SNUL 0 0)"
  using predicates_exclusive [of "\<lambda>_. 0" "mk_descr DT_SNUL 0 0"]
  by (simp add: IS_NULL_fn_def has_tag_def mk_descr_def)

end
