(* ===== verification/Limbs.thy ===== *)
theory Limbs
  imports Scrip_Prelude
begin

text \<open>
  Magnitudes of \<open>src/runtime/bignum.c\<close>: little-endian vectors of 32-bit limbs. A limb vector is
  the list of its first \<open>n\<close> cells, so \<open>b->n\<close> is its length. This theory holds the value of a
  limb vector and the linear routines: \<open>big_trim\<close>, \<open>big_ucmp\<close>, \<open>big_uadd\<close>, \<open>big_usub\<close>,
  \<open>ladd_into\<close>, \<open>lsub_from\<close>, \<open>lsum_into\<close>. An \<open>int64_t\<close> local that only ever holds a
  difference of two limbs and a borrow is an \<open>int\<close>; a \<open>uint64_t\<close> accumulator is a 64-bit word.
\<close>

type_synonym limbs = "u32 list"

section \<open>The number a limb vector stands for\<close>

fun lval :: "limbs \<Rightarrow> nat" where
  "lval [] = 0"
| "lval (x # xs) = unat x + lbase * lval xs"

lemma lval_append [limb_simps]: "lval (xs @ ys) = lval xs + lbase ^ length xs * lval ys"
  by (induction xs) (simp_all add: algebra_simps)

lemma lval_replicate0 [simp, limb_simps]: "lval (replicate n 0) = 0"
  by (induction n) simp_all

lemma lval_less [simp]: "lval xs < lbase ^ length xs"
proof (induction xs)
  case (Cons x xs)
  have "lval (x # xs) < lbase + lbase * lval xs" by simp
  also have "\<dots> = lbase * Suc (lval xs)" by simp
  also have "\<dots> \<le> lbase * lbase ^ length xs"
    using Cons.IH by (intro mult_le_mono) simp_all
  finally show ?case by simp
qed simp

lemma lval_take_drop: "lval (take k xs) + lbase ^ min k (length xs) * lval (drop k xs) = lval xs"
  using lval_append [of "take k xs" "drop k xs"] by (simp add: min.commute)

lemma lval_take_drop_le:
  "k \<le> length xs \<Longrightarrow> lval (take k xs) + lbase ^ k * lval (drop k xs) = lval xs"
  using lval_take_drop [of k xs] by simp

lemma lval_snoc [limb_simps]: "lval (xs @ [x]) = lval xs + lbase ^ length xs * unat x"
  by (simp add: lval_append)

lemma lval_last_bound:
  assumes "xs \<noteq> []" "last xs \<noteq> 0"
  shows "lbase ^ (length xs - 1) \<le> lval xs"
proof -
  have "lval xs = lval (butlast xs) + lbase ^ length (butlast xs) * unat (last xs)"
    using assms(1) by (metis append_butlast_last_id lval_snoc)
  also have "\<dots> \<ge> lbase ^ length (butlast xs) * 1"
  proof -
    have "1 \<le> unat (last xs)" using assms(2) by (simp add: Suc_le_eq unat_gt_0)
    then have "lbase ^ length (butlast xs) * 1 \<le> lbase ^ length (butlast xs) * unat (last xs)"
      by (rule mult_le_mono2)
    then show ?thesis by (rule trans_le_add2)
  qed
  finally show ?thesis by simp
qed

lemma lval_zero_iff: "lval xs = 0 \<longleftrightarrow> (\<forall>x\<in>set xs. x = 0)"
  by (induction xs) (auto simp: unat_0_iff)

text \<open>Two vectors of one length with the same value are the same vector.\<close>

lemma lval_inject: "length xs = length ys \<Longrightarrow> lval xs = lval ys \<Longrightarrow> xs = ys"
proof (induction xs ys rule: list_induct2)
  case (Cons x xs y ys)
  have "unat x = lval (x # xs) mod lbase" "unat y = lval (y # ys) mod lbase" by simp_all
  with Cons.prems have "unat x = unat y" by metis
  moreover from this Cons.prems have "lval xs = lval ys" by simp
  ultimately show ?case using Cons.IH by (simp add: word_unat_eq_iff)
qed simp

text \<open>The limb at an index, 0 past the end: the \<open>i < b->n ? b->limb[i] : 0\<close> of the source.\<close>

definition limb0 :: "limbs \<Rightarrow> u32" where
  "limb0 xs = (case xs of [] \<Rightarrow> 0 | x # _ \<Rightarrow> x)"

lemma limb0_simps [simp]: "limb0 [] = 0" "limb0 (x # xs) = x"
  by (simp_all add: limb0_def)

lemma lval_limb0_tl: "unat (limb0 xs) + lbase * lval (tl xs) = lval xs"
  by (cases xs) simp_all

section \<open>Trimming: \<open>big_trim\<close>\<close>

text \<open>
  \<open>while (b->n > 1 && b->limb[b->n - 1] == 0) b->n--\<close>. The sign reset that follows it belongs to
  the signed record and is in theory \<open>Bignum\<close>.
\<close>

fun trim_limbs :: "limbs \<Rightarrow> limbs" where
  "trim_limbs xs = (if 1 < length xs \<and> last xs = 0 then trim_limbs (butlast xs) else xs)"

declare trim_limbs.simps [simp del]

lemma trim_step: "1 < length xs \<Longrightarrow> last xs = 0 \<Longrightarrow> trim_limbs xs = trim_limbs (butlast xs)"
  by (subst trim_limbs.simps) simp

lemma trim_stop: "length xs \<le> 1 \<or> last xs \<noteq> 0 \<Longrightarrow> trim_limbs xs = xs"
  by (subst trim_limbs.simps) auto

lemma lval_butlast0: "xs \<noteq> [] \<Longrightarrow> last xs = 0 \<Longrightarrow> lval (butlast xs) = lval xs"
  by (metis add.right_neutral append_butlast_last_id lval_snoc mult_zero_right unat_0)

lemma lval_trim [simp, limb_simps]: "lval (trim_limbs xs) = lval xs"
proof (induction xs rule: trim_limbs.induct)
  case (1 xs)
  show ?case
  proof (cases "1 < length xs \<and> last xs = 0")
    case True
    then have "lval (butlast xs) = lval xs" by (intro lval_butlast0) auto
    with 1 True show ?thesis by (simp add: trim_step)
  next
    case False
    then have "trim_limbs xs = xs" by (intro trim_stop) auto
    then show ?thesis by simp
  qed
qed

text \<open>A magnitude is trimmed when it has a limb and no leading zero above the lowest one.\<close>

definition trimmed :: "limbs \<Rightarrow> bool" where
  "trimmed xs \<longleftrightarrow> xs \<noteq> [] \<and> (length xs = 1 \<or> last xs \<noteq> 0)"

lemma trimmed_trim [simp]: "xs \<noteq> [] \<Longrightarrow> trimmed (trim_limbs xs)"
proof (induction xs rule: trim_limbs.induct)
  case (1 xs)
  show ?case
  proof (cases "1 < length xs \<and> last xs = 0")
    case True
    then have "butlast xs \<noteq> []" by (cases xs rule: rev_cases) auto
    with 1 True show ?thesis by (simp add: trim_step)
  next
    case False
    then have "trim_limbs xs = xs" by (intro trim_stop) auto
    with 1 False show ?thesis by (cases xs) (auto simp: trimmed_def)
  qed
qed

lemma trim_trimmed [simp]: "trimmed xs \<Longrightarrow> trim_limbs xs = xs"
  by (rule trim_stop) (auto simp: trimmed_def)

lemma length_trim: "length (trim_limbs xs) \<le> length xs"
proof (induction xs rule: trim_limbs.induct)
  case (1 xs)
  then show ?case
    by (cases "1 < length xs \<and> last xs = 0") (auto simp: trim_step trim_stop intro: le_trans)
qed

lemma trim_nonempty [simp]: "trim_limbs xs = [] \<longleftrightarrow> xs = []"
  using trimmed_trim [of xs] by (cases "xs = []") (auto simp: trimmed_def trim_stop)

lemma trimmed_length_le:
  assumes "trimmed xs" "lval xs < lbase ^ k" "0 < k"
  shows "length xs \<le> k"
proof (rule ccontr)
  assume "\<not> length xs \<le> k"
  with assms(1,3) have "last xs \<noteq> 0" "xs \<noteq> []" by (auto simp: trimmed_def)
  then have "lbase ^ (length xs - 1) \<le> lval xs" by (intro lval_last_bound)
  moreover have "lbase ^ k \<le> lbase ^ (length xs - 1)"
    using \<open>\<not> length xs \<le> k\<close> by (intro power_increasing) simp_all
  ultimately show False using assms(2) by linarith
qed

text \<open>Trimmed magnitudes are canonical: the value determines the limbs.\<close>

lemma trimmed_inject:
  assumes "trimmed xs" "trimmed ys" "lval xs = lval ys"
  shows "xs = ys"
proof (rule lval_inject)
  have "length xs \<le> length ys" if "trimmed xs" "trimmed ys" "lval xs = lval ys" for xs ys
    using that lval_less [of ys] by (intro trimmed_length_le) (auto simp: trimmed_def)
  then show "length xs = length ys" using assms by (metis le_antisym)
qed (rule assms(3))

section \<open>Comparison: \<open>big_ucmp\<close>\<close>

text \<open>The loop runs from the top limb down and stops at the first difference.\<close>

fun ucmp_loop :: "nat \<Rightarrow> limbs \<Rightarrow> limbs \<Rightarrow> int" where
  "ucmp_loop 0 a b = 0"
| "ucmp_loop (Suc i) a b =
     (if a ! i \<noteq> b ! i then (if a ! i < b ! i then -1 else 1) else ucmp_loop i a b)"

definition big_ucmp :: "limbs \<Rightarrow> limbs \<Rightarrow> int" where
  "big_ucmp a b =
     (if length a \<noteq> length b then (if length a < length b then -1 else 1)
      else ucmp_loop (length a) a b)"

lemma lval_take_Suc:
  "i < length xs \<Longrightarrow> lval (take (Suc i) xs) = lval (take i xs) + lbase ^ i * unat (xs ! i)"
  by (simp add: take_Suc_conv_app_nth lval_snoc)

lemma lval_take_less: "lval (take i xs) < lbase ^ i"
proof -
  have "lval (take i xs) < lbase ^ length (take i xs)" by (rule lval_less)
  also have "\<dots> \<le> lbase ^ i" by (rule power_increasing) simp_all
  finally show ?thesis .
qed

lemma top_limb_less:
  assumes "i < length a" "i < length b" "a ! i < b ! i"
  shows "lval (take (Suc i) a) < lval (take (Suc i) b)"
proof -
  have "unat (a ! i) + 1 \<le> unat (b ! i)" using assms(3) by (simp add: word_less_nat_alt)
  then have "lbase ^ i * (unat (a ! i) + 1) \<le> lbase ^ i * unat (b ! i)" by (rule mult_le_mono2)
  moreover have "lval (take (Suc i) a) < lbase ^ i * (unat (a ! i) + 1)"
    using lval_take_less [of i a] assms(1) by (simp add: lval_take_Suc)
  ultimately show ?thesis using assms(2) by (simp add: lval_take_Suc)
qed

lemma ucmp_loop_sgn:
  "i \<le> length a \<Longrightarrow> i \<le> length b \<Longrightarrow>
   ucmp_loop i a b = sgn (int (lval (take i a)) - int (lval (take i b)))"
proof (induction i)
  case (Suc i)
  consider "a ! i = b ! i" | "a ! i < b ! i" | "b ! i < a ! i" by fastforce
  then show ?case
  proof cases
    case 1
    with Suc show ?thesis by (simp add: lval_take_Suc)
  next
    case 2
    with Suc top_limb_less [of i a b] show ?thesis by auto
  next
    case 3
    with Suc top_limb_less [of i b a] show ?thesis by auto
  qed
qed simp

lemma longer_greater:
  assumes "trimmed a" "trimmed b" "length a < length b"
  shows "lval a < lval b"
proof -
  have "length b \<noteq> 1" "b \<noteq> []" using assms by (auto simp: trimmed_def)
  with assms(2) have "last b \<noteq> 0" by (simp add: trimmed_def)
  with \<open>b \<noteq> []\<close> have "lbase ^ (length b - 1) \<le> lval b" by (intro lval_last_bound)
  moreover have "lbase ^ length a \<le> lbase ^ (length b - 1)"
    using assms(3) by (intro power_increasing) simp_all
  ultimately show ?thesis using lval_less [of a] by linarith
qed

lemma big_ucmp_sgn:
  assumes "trimmed a" "trimmed b"
  shows "big_ucmp a b = sgn (int (lval a) - int (lval b))"
proof (cases "length a = length b")
  case True
  then show ?thesis by (simp add: big_ucmp_def ucmp_loop_sgn)
next
  case False
  then show ?thesis
    using longer_greater [OF assms] longer_greater [OF assms(2,1)]
    by (auto simp: big_ucmp_def)
qed

section \<open>Addition: \<open>big_uadd\<close>\<close>

text \<open>
  One pass over \<open>n\<close> cells; a vector that has run out contributes nothing, the carry is the high
  half of the accumulator.
\<close>

fun uadd_loop :: "nat \<Rightarrow> u64 \<Rightarrow> limbs \<Rightarrow> limbs \<Rightarrow> limbs" where
  "uadd_loop 0 c a b = []"
| "uadd_loop (Suc m) c a b =
     (let s = c + w64 (limb0 a) + w64 (limb0 b)
      in lo32 s # uadd_loop m (hi32 s) (tl a) (tl b))"

definition big_uadd :: "limbs \<Rightarrow> limbs \<Rightarrow> limbs" where
  "big_uadd a b = trim_limbs (uadd_loop (max (length a) (length b) + 1) 0 a b)"

text \<open>The one arithmetic fact behind every carry loop.\<close>

lemma carry_step:
  "s mod lbase + lbase * ((s div lbase + t) mod lbase ^ m) = (s + lbase * t) mod lbase ^ Suc m"
proof -
  have "(s + lbase * t) div lbase = s div lbase + t" by simp
  then show ?thesis by (simp add: mod_mult2_eq add.commute)
qed

lemma uadd_loop_val:
  "unat c \<le> 1 \<Longrightarrow> length a \<le> m \<Longrightarrow> length b \<le> m \<Longrightarrow>
   lval (uadd_loop m c a b) = (unat c + lval a + lval b) mod lbase ^ m"
proof (induction m arbitrary: c a b)
  case (Suc m)
  define s where "s = c + w64 (limb0 a) + w64 (limb0 b)"
  have bound: "unat c + unat (limb0 a) + unat (limb0 b) < 2 * lbase"
    using Suc.prems(1) unat_u32_less [of "limb0 a"] unat_u32_less [of "limb0 b"] by linarith
  also have "\<dots> < lbase * lbase" by (simp add: lbase_def)
  finally have s: "unat s = unat c + unat (limb0 a) + unat (limb0 b)"
    by (simp add: s_def unat_add64)
  with bound have "unat (hi32 s) < 2" by (simp add: word_split less_mult_imp_div_less)
  then have "unat (hi32 s) \<le> 1" by simp
  then have IH: "lval (uadd_loop m (hi32 s) (tl a) (tl b))
      = (unat s div lbase + (lval (tl a) + lval (tl b))) mod lbase ^ m"
    using Suc.IH [of "hi32 s" "tl a" "tl b"] Suc.prems by (simp add: word_split add.assoc)
  have "uadd_loop (Suc m) c a b = lo32 s # uadd_loop m (hi32 s) (tl a) (tl b)"
    by (simp add: s_def Let_def)
  then have "lval (uadd_loop (Suc m) c a b)
      = unat s mod lbase + lbase * ((unat s div lbase + (lval (tl a) + lval (tl b))) mod lbase ^ m)"
    using IH by (simp add: word_split)
  also have "\<dots> = (unat s + lbase * (lval (tl a) + lval (tl b))) mod lbase ^ Suc m"
    by (rule carry_step)
  also have "unat s + lbase * (lval (tl a) + lval (tl b)) = unat c + lval a + lval b"
    using lval_limb0_tl [of a] lval_limb0_tl [of b] s by (simp add: algebra_simps)
  finally show ?case .
qed simp

lemma length_uadd_loop [simp]: "length (uadd_loop m c a b) = m"
  by (induction m arbitrary: c a b) (simp_all add: Let_def)

lemma lval_sum_bound: "lval a + lval b < lbase ^ (max (length a) (length b) + 1)"
proof -
  have "lval a < lbase ^ max (length a) (length b)"
    by (rule less_le_trans [OF lval_less]) (rule power_increasing, simp_all)
  moreover have "lval b < lbase ^ max (length a) (length b)"
    by (rule less_le_trans [OF lval_less]) (rule power_increasing, simp_all)
  ultimately have "lval a + lval b < 2 * lbase ^ max (length a) (length b)" by linarith
  also have "\<dots> \<le> lbase * lbase ^ max (length a) (length b)"
    by (rule mult_le_mono1) (simp add: lbase_def)
  finally show ?thesis by simp
qed

lemma lval_big_uadd [limb_simps]: "lval (big_uadd a b) = lval a + lval b"
  using lval_sum_bound [of a b] uadd_loop_val [of 0 a "max (length a) (length b) + 1" b]
  by (simp add: big_uadd_def del: power_Suc uadd_loop.simps)

lemma trimmed_big_uadd [simp]: "trimmed (big_uadd a b)"
proof -
  have "uadd_loop (max (length a) (length b) + 1) 0 a b \<noteq> []"
    by (metis add_is_0 length_0_conv length_uadd_loop one_neq_zero)
  then show ?thesis by (simp add: big_uadd_def)
qed

section \<open>Subtraction: \<open>big_usub\<close> and \<open>lsub_from\<close>\<close>

text \<open>
  \<open>br\<close> is the borrow, \<open>s\<close> the signed 64-bit difference, which stays in
  \<open>-2\<^sup>3\<^sup>2 - 1 .. 2\<^sup>3\<^sup>2\<close>; \<open>(uint32_t)s\<close> is the residue modulo \<open>2\<^sup>3\<^sup>2\<close>.
\<close>

fun usub_loop :: "int \<Rightarrow> limbs \<Rightarrow> limbs \<Rightarrow> limbs" where
  "usub_loop br [] b = []"
| "usub_loop br (x # a) b =
     (let s = uint x - br - uint (limb0 b)
      in if s < 0 then word_of_int (s + 4294967296) # usub_loop 1 a (tl b)
         else word_of_int s # usub_loop 0 a (tl b))"

definition big_usub :: "limbs \<Rightarrow> limbs \<Rightarrow> limbs" where
  "big_usub a b = trim_limbs (usub_loop 0 a b)"

lemma length_usub_loop [simp]: "length (usub_loop br a b) = length a"
  by (induction br a b rule: usub_loop.induct) (simp_all add: Let_def)

lemma uint_word_of_int32:
  "0 \<le> s \<Longrightarrow> s < int lbase \<Longrightarrow> uint (word_of_int s :: u32) = s"
  by (simp add: lbase_def uint_word_of_int_eq take_bit_int_eq_self)

lemma usub_loop_val:
  "br \<in> {0, 1} \<Longrightarrow> length b \<le> length a \<Longrightarrow> \<exists>bo \<in> {0, 1}.
   int (lval (usub_loop br a b)) = int (lval a) - int (lval b) - br + bo * int lbase ^ length a"
proof (induction br a b rule: usub_loop.induct)
  case (1 br b)
  then show ?case by auto
next
  case (2 br x a b)
  define s where "s = uint x - br - uint (limb0 b)"
  have lb: "int lbase = 4294967296" by (simp add: lbase_def)
  have br: "0 \<le> br" "br \<le> 1" using 2(3) by auto
  have y: "uint (limb0 b) < int lbase" "0 \<le> uint (limb0 b)"
    and x: "uint x < int lbase" "0 \<le> uint x" by simp_all
  have vb: "uint (limb0 b) + int lbase * int (lval (tl b)) = int (lval b)"
    using lval_limb0_tl [of b] by (metis of_nat_add of_nat_mult of_nat_unat)
  have len: "length (tl b) \<le> length a" using 2(4) by simp
  show ?case
  proof (cases "s < 0")
    case True
    obtain bo where bo: "bo \<in> {0, 1}" "int (lval (usub_loop 1 a (tl b)))
        = int (lval a) - int (lval (tl b)) - 1 + bo * int lbase ^ length a"
      using 2(1) [OF s_def True _ len] by auto
    have "0 \<le> s + 4294967296" "s + 4294967296 < int lbase"
      using True y x br unfolding s_def lb by linarith+
    then have w: "uint (word_of_int (s + 4294967296) :: u32) = s + 4294967296"
      by (rule uint_word_of_int32)
    have "int (lval (usub_loop br (x # a) b))
        = s + int lbase + int lbase * (int (lval a) - int (lval (tl b)) - 1 + bo * int lbase ^ length a)"
      using True w bo(2) by (simp add: s_def [symmetric] Let_def lb)
    also have "\<dots> = int (lval (x # a)) - int (lval b) - br + bo * int lbase ^ length (x # a)"
      using vb [symmetric] by (simp add: s_def algebra_simps)
    finally show ?thesis using bo(1) by auto
  next
    case False
    obtain bo where bo: "bo \<in> {0, 1}" "int (lval (usub_loop 0 a (tl b)))
        = int (lval a) - int (lval (tl b)) - 0 + bo * int lbase ^ length a"
      using 2(2) [OF s_def False _ len] by auto
    have "0 \<le> s" "s < int lbase"
      using False y x br unfolding s_def lb by linarith+
    then have w: "uint (word_of_int s :: u32) = s"
      by (rule uint_word_of_int32)
    have "int (lval (usub_loop br (x # a) b))
        = s + int lbase * (int (lval a) - int (lval (tl b)) + bo * int lbase ^ length a)"
      using False w bo(2) by (simp add: s_def [symmetric] Let_def)
    also have "\<dots> = int (lval (x # a)) - int (lval b) - br + bo * int lbase ^ length (x # a)"
      using vb [symmetric] by (simp add: s_def algebra_simps)
    finally show ?thesis using bo(1) by auto
  qed
qed

text \<open>A difference that is not negative leaves no borrow.\<close>

lemma no_borrow_out:
  fixes r a b p :: nat
  assumes "int r = int a - int b + bo * int p" "bo \<in> {0, 1}" "r < p" "b \<le> a"
  shows "r = a - b"
proof -
  have "bo = 0"
  proof (rule ccontr)
    assume "bo \<noteq> 0"
    with assms(2) have "bo = 1" by simp
    with assms have "int p \<le> int r" by simp
    with assms(3) show False by simp
  qed
  with assms show ?thesis by simp
qed

lemma usub_loop_sub:
  assumes "length b \<le> length a" "lval b \<le> lval a"
  shows "lval (usub_loop 0 a b) = lval a - lval b"
proof -
  obtain bo where "bo \<in> {0, 1}" "int (lval (usub_loop 0 a b))
      = int (lval a) - int (lval b) + bo * int (lbase ^ length a)"
    using usub_loop_val [of 0 b a] assms by auto
  moreover have "lval (usub_loop 0 a b) < lbase ^ length a"
    using lval_less [of "usub_loop 0 a b"] by simp
  ultimately show ?thesis using assms(2) by (intro no_borrow_out)
qed

lemma lval_big_usub [limb_simps]:
  "length b \<le> length a \<Longrightarrow> lval b \<le> lval a \<Longrightarrow> lval (big_usub a b) = lval a - lval b"
  by (simp add: big_usub_def usub_loop_sub)

lemma trimmed_big_usub [simp]: "a \<noteq> [] \<Longrightarrow> trimmed (big_usub a b)"
  by (metis big_usub_def length_0_conv length_usub_loop trimmed_trim)

section \<open>In-place accumulation: \<open>ladd_into\<close>, \<open>lsub_from\<close>, \<open>lsum_into\<close>\<close>

text \<open>
  Both routines work on the window \<open>r[0 .. rn - 1]\<close>: a first loop over the \<open>bn\<close> limbs of the
  operand and a second loop that only moves the carry (the borrow) and stops when it is spent. The
  window must be as long as the operand, as it is at every call.
\<close>

fun carry_loop :: "u64 \<Rightarrow> limbs \<Rightarrow> limbs" where
  "carry_loop c [] = []"
| "carry_loop c (x # r) =
     (if c = 0 then x # r else let s = c + w64 x in lo32 s # carry_loop (hi32 s) r)"

fun ladd_loop :: "u64 \<Rightarrow> limbs \<Rightarrow> limbs \<Rightarrow> limbs" where
  "ladd_loop c r [] = carry_loop c r"
| "ladd_loop c [] (y # b) = []"
| "ladd_loop c (x # r) (y # b) =
     (let s = c + (w64 x + w64 y) in lo32 s # ladd_loop (hi32 s) r b)"

definition ladd_into :: "limbs \<Rightarrow> limbs \<Rightarrow> limbs" where
  "ladd_into r b = ladd_loop 0 r b"

fun borrow_loop :: "int \<Rightarrow> limbs \<Rightarrow> limbs" where
  "borrow_loop br [] = []"
| "borrow_loop br (x # r) =
     (if br = 0 then x # r
      else let t = uint x - br in word_of_int t # borrow_loop (if t < 0 then 1 else 0) r)"

fun lsub_loop :: "int \<Rightarrow> limbs \<Rightarrow> limbs \<Rightarrow> limbs" where
  "lsub_loop br r [] = borrow_loop br r"
| "lsub_loop br [] (y # b) = []"
| "lsub_loop br (x # r) (y # b) =
     (let t = uint x - uint y - br in word_of_int t # lsub_loop (if t < 0 then 1 else 0) r b)"

definition lsub_from :: "limbs \<Rightarrow> limbs \<Rightarrow> limbs" where
  "lsub_from r b = lsub_loop 0 r b"

definition lsum_into :: "limbs \<Rightarrow> limbs \<Rightarrow> limbs" where
  "lsum_into x y =
     (let n = max (length x) (length y) + 1
      in ladd_into (x @ replicate (n - length x) 0) y)"

lemma length_carry_loop [simp]: "length (carry_loop c r) = length r"
  by (induction c r rule: carry_loop.induct) (simp_all add: Let_def)

lemma length_ladd_loop [simp]: "length (ladd_loop c r b) = length r"
  by (induction c r b rule: ladd_loop.induct) (simp_all add: Let_def)

lemma length_ladd_into [simp]: "length (ladd_into r b) = length r"
  by (simp add: ladd_into_def)

lemma length_borrow_loop [simp]: "length (borrow_loop br r) = length r"
  by (induction br r rule: borrow_loop.induct) (simp_all add: Let_def)

lemma length_lsub_loop [simp]: "length (lsub_loop br r b) = length r"
  by (induction br r b rule: lsub_loop.induct) (simp_all add: Let_def)

lemma length_lsub_from [simp]: "length (lsub_from r b) = length r"
  by (simp add: lsub_from_def)

lemma length_lsum_into [simp]: "length (lsum_into x y) = max (length x) (length y) + 1"
  by (simp add: lsum_into_def Let_def)

lemma carry_loop_val:
  "unat c \<le> 1 \<Longrightarrow> lval (carry_loop c r) = (unat c + lval r) mod lbase ^ length r"
proof (induction c r rule: carry_loop.induct)
  case (2 c x r)
  show ?case
  proof (cases "c = 0")
    case True
    then show ?thesis using lval_less [of "x # r"] by (simp del: lval_less)
  next
    case False
    define s where "s = c + w64 x"
    have bound: "unat c + unat x < 2 * lbase"
      using 2(2) unat_u32_less [of x] lbase_gt1(1) by linarith
    also have "\<dots> < lbase * lbase" by (simp add: lbase_def)
    finally have s: "unat s = unat c + unat x" by (simp add: s_def unat_add64)
    with bound have "unat (hi32 s) < 2" by (simp add: word_split less_mult_imp_div_less)
    then have IH: "lval (carry_loop (hi32 s) r) = (unat s div lbase + lval r) mod lbase ^ length r"
      using 2(1) [OF False s_def] by (simp add: word_split)
    have "carry_loop c (x # r) = lo32 s # carry_loop (hi32 s) r"
      using False by (simp add: s_def Let_def)
    then have "lval (carry_loop c (x # r)) = (unat s + lbase * lval r) mod lbase ^ Suc (length r)"
      using IH carry_step [of "unat s" "lval r" "length r"] by (simp add: word_split)
    then show ?thesis using s by (simp add: add.assoc)
  qed
qed simp

lemma ladd_loop_val:
  "unat c \<le> 1 \<Longrightarrow> length b \<le> length r \<Longrightarrow>
   lval (ladd_loop c r b) = (unat c + lval r + lval b) mod lbase ^ length r"
proof (induction c r b rule: ladd_loop.induct)
  case (1 c r)
  then show ?case by (simp add: carry_loop_val)
next
  case (3 c x r y b)
  define s where "s = c + (w64 x + w64 y)"
  have bound: "unat c + (unat x + unat y) < 2 * lbase"
    using 3(2) unat_u32_less [of x] unat_u32_less [of y] by linarith
  have big: "2 * lbase < lbase * lbase" by (simp add: lbase_def)
  have xy: "unat x + unat y < lbase * lbase" using bound big by linarith
  then have "unat (w64 x + w64 y) = unat x + unat y"
    by (subst unat_add64) simp_all
  moreover have "unat c + (unat x + unat y) < lbase * lbase" using bound big by linarith
  ultimately have s: "unat s = unat c + (unat x + unat y)"
    by (simp add: s_def unat_add64)
  with bound have "unat (hi32 s) < 2" by (simp add: word_split less_mult_imp_div_less)
  then have IH: "lval (ladd_loop (hi32 s) r b)
      = (unat s div lbase + (lval r + lval b)) mod lbase ^ length r"
    using 3(1) [OF s_def] 3(3) by (simp add: word_split add.assoc)
  have "ladd_loop c (x # r) (y # b) = lo32 s # ladd_loop (hi32 s) r b"
    by (simp add: s_def Let_def)
  then have "lval (ladd_loop c (x # r) (y # b))
      = (unat s + lbase * (lval r + lval b)) mod lbase ^ Suc (length r)"
    using IH carry_step [of "unat s" "lval r + lval b" "length r"] by (simp add: word_split)
  then show ?case using s by (simp add: algebra_simps)
qed simp

lemma lval_ladd_into:
  "length b \<le> length r \<Longrightarrow> lval (ladd_into r b) = (lval r + lval b) mod lbase ^ length r"
  by (simp add: ladd_into_def ladd_loop_val)

lemma lval_ladd_into_exact [limb_simps]:
  "length b \<le> length r \<Longrightarrow> lval r + lval b < lbase ^ length r \<Longrightarrow>
   lval (ladd_into r b) = lval r + lval b"
  by (simp add: lval_ladd_into)

lemma lval_lsum_into [limb_simps]: "lval (lsum_into x y) = lval x + lval y"
proof -
  define n where "n = max (length x) (length y) + 1"
  define z where "z = x @ replicate (n - length x) 0"
  have v: "lval z = lval x" "length z = n" by (simp_all add: z_def n_def lval_append)
  have "lval (ladd_into z y) = lval z + lval y"
    using lval_sum_bound [of x y] v by (intro lval_ladd_into_exact) (simp_all add: n_def)
  moreover have "lsum_into x y = ladd_into z y"
    by (simp add: lsum_into_def Let_def z_def n_def)
  ultimately show ?thesis using v by simp
qed

text \<open>The same step for a borrow, on integers.\<close>

lemma borrow_step:
  fixes t :: int
  assumes "- int lbase \<le> t" "t < int lbase"
  shows "uint (word_of_int t :: u32)
      + int lbase * ((u - (if t < 0 then 1 else 0)) mod int lbase ^ m)
    = (t + int lbase * u) mod int lbase ^ Suc m"
proof -
  have "uint (word_of_int t :: u32) = t mod int lbase"
    by (simp add: uint_word_of_int_eq take_bit_int_def lbase_def)
  moreover have "t div int lbase = (if t < 0 then -1 else 0)"
  proof (cases "t < 0")
    case True
    have "(t + int lbase * 1) div int lbase = 0"
      using assms True by (intro div_pos_pos_trivial) simp_all
    moreover have "(t + int lbase * 1) div int lbase = 1 + t div int lbase"
      by (rule div_mult_self2) simp
    ultimately show ?thesis using True by simp
  next
    case False
    then show ?thesis using assms by (simp add: div_pos_pos_trivial)
  qed
  moreover have "(t + int lbase * u) mod int lbase ^ Suc m
      = int lbase * ((t + int lbase * u) div int lbase mod int lbase ^ m)
        + (t + int lbase * u) mod int lbase"
    by (simp add: zmod_zmult2_eq)
  ultimately show ?thesis by (simp add: algebra_simps)
qed

lemma borrow_bounds:
  assumes "br \<in> {0, 1}"
  shows "- int lbase \<le> uint (x :: u32) - uint (y :: u32) - br"
    "uint x - uint y - br < int lbase"
proof -
  have "0 \<le> br" "br \<le> 1" using assms by auto
  moreover have "uint x < int lbase" "uint y < int lbase" "0 \<le> uint x" "0 \<le> uint y" by simp_all
  ultimately show "- int lbase \<le> uint x - uint y - br" "uint x - uint y - br < int lbase"
    by linarith+
qed

lemma borrow_loop_val:
  "br \<in> {0, 1} \<Longrightarrow>
   int (lval (borrow_loop br r)) = (int (lval r) - br) mod int lbase ^ length r"
proof (induction br r rule: borrow_loop.induct)
  case (2 br x r)
  show ?case
  proof (cases "br = 0")
    case True
    have "int (lval (x # r)) < int lbase ^ length (x # r)"
      using lval_less [of "x # r"] by (metis of_nat_less_iff of_nat_power)
    then show ?thesis using True by (simp del: lval.simps)
  next
    case False
    define t where "t = uint x - br"
    have tb: "- int lbase \<le> t" "t < int lbase"
      using borrow_bounds [of br x 0] 2(2) unfolding t_def by simp_all
    have IH: "int (lval (borrow_loop (if t < 0 then 1 else 0) r))
        = (int (lval r) - (if t < 0 then 1 else 0)) mod int lbase ^ length r"
      by (rule 2(1) [OF False t_def]) simp
    have "borrow_loop br (x # r)
        = word_of_int t # borrow_loop (if t < 0 then 1 else 0) r"
      using False by (simp add: t_def Let_def)
    then have "int (lval (borrow_loop br (x # r)))
        = (t + int lbase * int (lval r)) mod int lbase ^ Suc (length r)"
      using IH borrow_step [OF tb, of "int (lval r)" "length r"] by simp
    then show ?thesis by (simp add: t_def algebra_simps)
  qed
qed simp

lemma lsub_loop_val:
  "br \<in> {0, 1} \<Longrightarrow> length b \<le> length r \<Longrightarrow>
   int (lval (lsub_loop br r b)) = (int (lval r) - int (lval b) - br) mod int lbase ^ length r"
proof (induction br r b rule: lsub_loop.induct)
  case (1 br r)
  then show ?case by (simp add: borrow_loop_val)
next
  case (3 br x r y b)
  define t where "t = uint x - uint y - br"
  have tb: "- int lbase \<le> t" "t < int lbase"
    using borrow_bounds [of br x y] 3(2) unfolding t_def by simp_all
  have IH: "int (lval (lsub_loop (if t < 0 then 1 else 0) r b))
      = (int (lval r) - int (lval b) - (if t < 0 then 1 else 0)) mod int lbase ^ length r"
    using 3(3) by (intro 3(1) [OF t_def]) simp_all
  have "lsub_loop br (x # r) (y # b)
      = word_of_int t # lsub_loop (if t < 0 then 1 else 0) r b"
    by (simp add: t_def Let_def)
  then have "int (lval (lsub_loop br (x # r) (y # b)))
      = (t + int lbase * (int (lval r) - int (lval b))) mod int lbase ^ Suc (length r)"
    using IH borrow_step [OF tb, of "int (lval r) - int (lval b)" "length r"] by simp
  then show ?case by (simp add: t_def algebra_simps)
qed simp

lemma lval_lsub_from [limb_simps]:
  assumes "length b \<le> length r" "lval b \<le> lval r"
  shows "lval (lsub_from r b) = lval r - lval b"
proof -
  have "int (lval r) < int lbase ^ length r"
    using lval_less [of r] by (metis of_nat_less_iff of_nat_power)
  then have "(int (lval r) - int (lval b)) mod int lbase ^ length r = int (lval r) - int (lval b)"
    using assms by (intro mod_pos_pos_trivial) linarith+
  then have "int (lval (lsub_from r b)) = int (lval r - lval b)"
    using assms lsub_loop_val [of 0 b r] by (simp add: lsub_from_def of_nat_diff)
  then show ?thesis by (simp only: of_nat_eq_iff)
qed

end
