(* ===== verification/Bignum_Mul.thy ===== *)
theory Bignum_Mul
  imports Limbs "HOL-Library.Monad_Syntax"
begin

text \<open>
  Multiplication of magnitudes (\<open>src/runtime/bignum.c\<close>): the schoolbook routine \<open>lmul_school\<close>,
  Karatsuba's \<open>lmul\<close> and the dispatcher \<open>big_umul\<close>. The product of \<open>an\<close> and \<open>bn\<close> limbs fills
  exactly \<open>an + bn\<close> result cells. A row of the schoolbook product works on the window of the
  result array that starts at its index; Karatsuba's pointer arithmetic (\<open>a + m\<close>, \<open>r + 2 * m\<close>) is
  \<open>take\<close> and \<open>drop\<close>. \<open>lmul\<close> is modelled without its scratch array, and once more with it, as \<open>lmul_mem\<close>,
  which checks every pointer into the array and reads the operands of its third product back from there.
\<close>

section \<open>Schoolbook rows\<close>

fun mul_row :: "u64 \<Rightarrow> u32 \<Rightarrow> limbs \<Rightarrow> limbs" where
  "mul_row c x [] = [lo32 c]"
| "mul_row c x (y # b) = (let t = w64 x * w64 y + c in lo32 t # mul_row (hi32 t) x b)"

fun mac_row :: "u64 \<Rightarrow> u32 \<Rightarrow> limbs \<Rightarrow> limbs \<Rightarrow> limbs" where
  "mac_row c x [] r = [lo32 c]"
| "mac_row c x (y # b) r =
     (let t = w64 x * w64 y + w64 (limb0 r) + c in lo32 t # mac_row (hi32 t) x b (tl r))"

fun school_rows :: "limbs \<Rightarrow> limbs \<Rightarrow> limbs \<Rightarrow> limbs" where
  "school_rows [] b r = r"
| "school_rows (x # a) b r = (let w = mac_row 0 x b r in hd w # school_rows a b (tl w))"

definition lmul_school :: "limbs \<Rightarrow> limbs \<Rightarrow> limbs" where
  "lmul_school a0 b0 =
     (let (a, b) = (if length a0 > length b0 then (b0, a0) else (a0, b0))
      in case a of
           [] \<Rightarrow> replicate (length b) 0
         | x # a' \<Rightarrow> (let w = mul_row 0 x b in hd w # school_rows a' b (tl w)))"

lemma length_mul_row [simp]: "length (mul_row c x b) = length b + 1"
  by (induction c x b rule: mul_row.induct) (simp_all add: Let_def)

lemma length_mac_row [simp]: "length (mac_row c x b r) = length b + 1"
  by (induction c x b r rule: mac_row.induct) (simp_all add: Let_def)

lemma length_school_rows [simp]:
  "length r = length b \<Longrightarrow> length (school_rows a b r) = length a + length b"
  by (induction a b r rule: school_rows.induct) (simp_all add: Let_def)

lemma limb_product_bound: "unat (x :: u32) * unat (y :: u32) \<le> (lbase - 1) * (lbase - 1)"
  by (rule mult_le_mono) (rule unat_u32_le)+

text \<open>A limb product leaves room for two more limbs in the 64-bit accumulator.\<close>

lemma acc_bound:
  assumes "p \<le> (lbase - 1) * (lbase - 1)" "c < lbase" "d < lbase"
  shows "p + d + c < lbase * lbase"
  using assms by (simp add: lbase_def)

lemma lval_mul_row:
  "unat c < lbase \<Longrightarrow> lval (mul_row c x b) = unat c + unat x * lval b"
proof (induction c x b rule: mul_row.induct)
  case (1 c x)
  then show ?case by (simp add: word_split)
next
  case (2 c x y b)
  define t where "t = w64 x * w64 y + c"
  have t: "unat t = unat x * unat y + unat c"
    unfolding t_def using acc_bound [OF limb_product_bound [of x y] 2(2), of 0]
    by (subst unat_add64) simp_all
  have "mul_row c x (y # b) = lo32 t # mul_row (hi32 t) x b" by (simp add: t_def Let_def)
  moreover have "lval (mul_row (hi32 t) x b) = unat (hi32 t) + unat x * lval b"
    by (rule 2(1) [OF t_def]) simp
  ultimately have "lval (mul_row c x (y # b)) = unat t + lbase * (unat x * lval b)"
    using lo_hi_32 [of t] by (simp add: algebra_simps)
  then show ?case using t by (simp add: algebra_simps)
qed

lemma lval_mac_row:
  "unat c < lbase \<Longrightarrow> length r = length b \<Longrightarrow>
   lval (mac_row c x b r) = unat c + unat x * lval b + lval r"
proof (induction c x b r rule: mac_row.induct)
  case (1 c x r)
  then show ?case by (simp add: word_split)
next
  case (2 c x y b r)
  define t where "t = w64 x * w64 y + w64 (limb0 r) + c"
  have bound: "unat x * unat y + unat (limb0 r) + unat c < lbase * lbase"
    by (rule acc_bound [OF limb_product_bound 2(2)]) simp
  then have "unat (w64 x * w64 y + w64 (limb0 r)) = unat x * unat y + unat (limb0 r)"
    by (subst unat_add64) simp_all
  with bound have t: "unat t = unat x * unat y + unat (limb0 r) + unat c"
    unfolding t_def by (subst unat_add64) simp_all
  have "mac_row c x (y # b) r = lo32 t # mac_row (hi32 t) x b (tl r)"
    by (simp add: t_def Let_def)
  moreover have "lval (mac_row (hi32 t) x b (tl r)) = unat (hi32 t) + unat x * lval b + lval (tl r)"
    using 2(3) by (intro 2(1) [OF t_def]) simp_all
  ultimately have "lval (mac_row c x (y # b) r)
      = unat t + lbase * (unat x * lval b + lval (tl r))"
    using lo_hi_32 [of t] by (simp add: algebra_simps)
  then show ?case using t lval_limb0_tl [of r] by (simp add: algebra_simps)
qed

lemma lval_hd_tl: "w \<noteq> [] \<Longrightarrow> unat (hd w) + lbase * lval (tl w) = lval w"
  by (cases w) simp_all

lemma lval_school_rows:
  "length r = length b \<Longrightarrow> lval (school_rows a b r) = lval a * lval b + lval r"
proof (induction a b r rule: school_rows.induct)
  case (2 x a b r)
  define w where "w = mac_row 0 x b r"
  have w: "lval w = unat x * lval b + lval r" "w \<noteq> []" "length (tl w) = length b"
    using 2(2) lval_mac_row [of 0 r b x] length_mac_row [of 0 x b r]
    by (auto simp: w_def simp del: length_mac_row)
  have "lval (school_rows (x # a) b r) = unat (hd w) + lbase * (lval a * lval b + lval (tl w))"
    using 2(1) [OF w_def w(3)] by (simp add: w_def [symmetric] Let_def)
  also have "\<dots> = lbase * (lval a * lval b) + (unat (hd w) + lbase * lval (tl w))"
    by (simp add: algebra_simps)
  also have "\<dots> = lval (x # a) * lval b + lval r"
    using lval_hd_tl [OF w(2)] w(1) by (simp add: algebra_simps)
  finally show ?case .
qed simp

lemma school_core:
  fixes x :: u32 and a b :: limbs
  defines "w \<equiv> mul_row 0 x b"
  shows "lval (hd w # school_rows a b (tl w)) = lval (x # a) * lval b"
    "length (hd w # school_rows a b (tl w)) = length (x # a) + length b"
proof -
  have w: "w \<noteq> []" "lval w = unat x * lval b" "length (tl w) = length b"
    using lval_mul_row [of 0 x b] length_mul_row [of 0 x b]
    by (auto simp: w_def simp del: length_mul_row)
  have "lval (hd w # school_rows a b (tl w))
      = lbase * (lval a * lval b) + (unat (hd w) + lbase * lval (tl w))"
    using lval_school_rows [OF w(3)] by (simp add: algebra_simps)
  then show "lval (hd w # school_rows a b (tl w)) = lval (x # a) * lval b"
    using lval_hd_tl [OF w(1)] w(2) by (simp add: algebra_simps)
  show "length (hd w # school_rows a b (tl w)) = length (x # a) + length b"
    using w(3) by simp
qed

lemma school_swap: "length b < length a \<Longrightarrow> lmul_school a b = lmul_school b a"
  by (simp add: lmul_school_def)

lemma lmul_school_le:
  assumes "length a \<le> length b"
  shows "lval (lmul_school a b) = lval a * lval b \<and> length (lmul_school a b) = length a + length b"
proof (cases a)
  case Nil
  then show ?thesis by (simp add: lmul_school_def)
next
  case (Cons x a')
  then have "lmul_school a b = hd (mul_row 0 x b) # school_rows a' b (tl (mul_row 0 x b))"
    using assms by (auto simp: lmul_school_def Let_def)
  then show ?thesis using Cons school_core [of x b a'] by metis
qed

lemma lmul_school_correct:
  "lval (lmul_school a b) = lval a * lval b \<and> length (lmul_school a b) = length a + length b"
proof (cases "length a \<le> length b")
  case True
  then show ?thesis by (rule lmul_school_le)
next
  case False
  then show ?thesis using lmul_school_le [of b a] school_swap [of b a] by simp
qed

lemma lval_lmul_school [limb_simps]: "lval (lmul_school a b) = lval a * lval b"
  using lmul_school_correct by blast

lemma length_lmul_school [simp]: "length (lmul_school a b) = length a + length b"
  using lmul_school_correct by blast

section \<open>Karatsuba: \<open>lmul\<close>\<close>

text \<open>
  \<open>while (zn > 0 && z1[zn - 1] == 0) zn--\<close>: leading zeros are dropped, down to no limb at all.
\<close>

fun strip_zeros :: "limbs \<Rightarrow> limbs" where
  "strip_zeros z = (if z \<noteq> [] \<and> last z = 0 then strip_zeros (butlast z) else z)"

declare strip_zeros.simps [simp del]

lemma strip_step: "z \<noteq> [] \<Longrightarrow> last z = 0 \<Longrightarrow> strip_zeros z = strip_zeros (butlast z)"
  by (subst strip_zeros.simps) simp

lemma strip_stop: "z = [] \<or> last z \<noteq> 0 \<Longrightarrow> strip_zeros z = z"
  by (subst strip_zeros.simps) auto

lemma strip_zeros_props:
  "lval (strip_zeros z) = lval z \<and> (strip_zeros z = [] \<or> last (strip_zeros z) \<noteq> 0)"
proof (induction z rule: strip_zeros.induct)
  case (1 z)
  show ?case
  proof (cases "z \<noteq> [] \<and> last z = 0")
    case True
    with 1 show ?thesis by (simp add: strip_step lval_butlast0)
  next
    case False
    then show ?thesis by (auto simp: strip_stop)
  qed
qed

lemma lval_strip [simp, limb_simps]: "lval (strip_zeros z) = lval z"
  using strip_zeros_props by blast

lemma length_strip_le:
  assumes "lval z < lbase ^ k" shows "length (strip_zeros z) \<le> k"
proof (rule ccontr)
  assume l: "\<not> length (strip_zeros z) \<le> k"
  then have "strip_zeros z \<noteq> []" by auto
  then have "last (strip_zeros z) \<noteq> 0" using strip_zeros_props by blast
  with \<open>strip_zeros z \<noteq> []\<close> have "lbase ^ (length (strip_zeros z) - 1) \<le> lval (strip_zeros z)"
    by (rule lval_last_bound)
  moreover have "lbase ^ k \<le> lbase ^ (length (strip_zeros z) - 1)"
    using l by (intro power_increasing) simp_all
  ultimately show False using assms by (simp only: lval_strip not_less [symmetric])
qed

lemma karatsuba_shrinks:
  fixes an bn :: nat
  assumes "\<not> bn < 32" "\<not> bn \<le> an div 2" "\<not> an < bn"
  shows "Suc (Suc (max (an div 2) (an - an div 2) + max (bn - an div 2) (an div 2))) < an + bn"
proof -
  have "an \<le> 2 * (an div 2) + 1" "2 * (an div 2) \<le> an" by linarith+
  with assms show ?thesis by linarith
qed

text \<open>
  The recursive product of \<open>lmul\<close>: the unbalanced split when the shorter operand does not reach
  the middle of the longer one, Karatsuba's three products otherwise.
\<close>

function lmul :: "limbs \<Rightarrow> limbs \<Rightarrow> limbs" where
  "lmul a b =
     (if length a < length b then lmul b a
      else if length b < 32 then lmul_school a b
      else let m = length a div 2 in
        if length b \<le> m then
          let r = lmul (take m a) b @ replicate (length a - m) 0;
              t = lmul (drop m a) b
          in take m r @ ladd_into (drop m r) t
        else
          let r = lmul (take m a) (take m b) @ lmul (drop m a) (drop m b);
              sa = lsum_into (take m a) (drop m a);
              sb = lsum_into (drop m b) (take m b);
              z1 = lmul sa sb;
              z1 = lsub_from z1 (take (2 * m) r);
              z1 = lsub_from z1 (drop (2 * m) r)
          in take m r @ ladd_into (drop m r) (strip_zeros z1))"
  by pat_completeness auto

termination
proof (relation "measures [\<lambda>(a, b). length a + length b,
    \<lambda>(a, b). if length a < length b then 1 else 0]", goal_cases)
  case (7 a b m r sa sb)
  have "length sa = max (length a div 2) (length a - length a div 2) + 1"
    "length sb = max (length b - length a div 2) (length a div 2) + 1"
    using 7 by simp_all
  then have "length sa + length sb < length a + length b"
    using karatsuba_shrinks [of "length b" "length a"] 7(1,2,3,4) by linarith
  then show ?case by simp
qed auto

declare lmul.simps [simp del]

lemma lmul_swap: "length a < length b \<Longrightarrow> lmul a b = lmul b a"
  by (subst lmul.simps) simp

lemma lmul_short: "length b \<le> length a \<Longrightarrow> length b < 32 \<Longrightarrow> lmul a b = lmul_school a b"
  by (subst lmul.simps) simp

lemma lmul_unbalanced:
  assumes "32 \<le> length b" "length b \<le> length a" "m = length a div 2" "length b \<le> m"
    "r = lmul (take m a) b @ replicate (length a - m) 0"
  shows "lmul a b = take m r @ ladd_into (drop m r) (lmul (drop m a) b)"
  using assms by (subst lmul.simps) (simp add: Let_def)

lemma lmul_karatsuba:
  assumes "32 \<le> length b" "length b \<le> length a" "m = length a div 2" "m < length b"
    "r = lmul (take m a) (take m b) @ lmul (drop m a) (drop m b)"
    "z = lmul (lsum_into (take m a) (drop m a)) (lsum_into (drop m b) (take m b))"
  shows "lmul a b = take m r @ ladd_into (drop m r)
    (strip_zeros (lsub_from (lsub_from z (take (2 * m) r)) (drop (2 * m) r)))"
  using assms by (subst lmul.simps) (simp add: Let_def)

text \<open>The last step of both branches: a product added at limb \<open>m\<close> of the partial result.\<close>

lemma add_at:
  assumes "m \<le> length r" "length t \<le> length r - m"
    "lval r + lbase ^ m * lval t < lbase ^ length r"
  shows "lval (take m r @ ladd_into (drop m r) t) = lval r + lbase ^ m * lval t"
    "length (take m r @ ladd_into (drop m r) t) = length r"
proof -
  have r: "lval (take m r) + lbase ^ m * lval (drop m r) = lval r"
    by (rule lval_take_drop_le [OF assms(1)])
  have "lbase ^ m * (lval (drop m r) + lval t) < lbase ^ length r"
    using r assms(3) by (simp add: algebra_simps)
  also have "lbase ^ length r = lbase ^ m * lbase ^ length (drop m r)"
    using assms(1) by (simp add: power_add [symmetric])
  finally have "lval (drop m r) + lval t < lbase ^ length (drop m r)" by simp
  then have "lval (ladd_into (drop m r) t) = lval (drop m r) + lval t"
    using assms(2) by (intro lval_ladd_into_exact) simp_all
  then show "lval (take m r @ ladd_into (drop m r) t) = lval r + lbase ^ m * lval t"
    using r assms(1) by (simp add: lval_append algebra_simps)
  show "length (take m r @ ladd_into (drop m r) t) = length r" using assms(1) by simp
qed

lemma lval_mult_bound: "lval a * lval b < lbase ^ (length a + length b)"
  unfolding power_add by (rule mult_strict_mono) simp_all

lemma lval_cut: "m \<le> length a \<Longrightarrow> lval a = lval (take m a) + lbase ^ m * lval (drop m a)"
  by (simp add: lval_take_drop_le)

text \<open>
  Karatsuba's identity on the four halves: the middle coefficient is the product of the sums less
  the two outer products, and fits above limb \<open>m\<close>.
\<close>

lemma middle_term:
  fixes x0 x1 y0 y1 z :: nat
  assumes "z = (x0 + x1) * (y1 + y0)"
  shows "z - x0 * y0 - x1 * y1 = x0 * y1 + x1 * y0" "x0 * y0 \<le> z" "x1 * y1 \<le> z - x0 * y0"
  using assms by (simp_all add: algebra_simps)

lemma halves_product:
  fixes x0 x1 y0 y1 p :: nat
  shows "x0 * y0 + p * (p * (x1 * y1)) + p * (x0 * y1 + x1 * y0) = (x0 + p * x1) * (y0 + p * y1)"
  by (simp add: algebra_simps)

lemma karatsuba_step:
  fixes a b :: limbs
  defines "m \<equiv> length a div 2"
  defines "p0 \<equiv> lmul (take m a) (take m b)"
  defines "p1 \<equiv> lmul (drop m a) (drop m b)"
  defines "z \<equiv> lmul (lsum_into (take m a) (drop m a)) (lsum_into (drop m b) (take m b))"
  assumes size: "length b \<le> length a" "32 \<le> length b" "m < length b"
    and p0: "lval p0 = lval (take m a) * lval (take m b)" "length p0 = 2 * m"
    and p1: "lval p1 = lval (drop m a) * lval (drop m b)"
      "length p1 = length a + length b - 2 * m"
    and z: "lval z = (lval (take m a) + lval (drop m a)) * (lval (drop m b) + lval (take m b))"
      "length z = length (lsum_into (take m a) (drop m a)) + length (lsum_into (drop m b) (take m b))"
  shows "lval (lmul a b) = lval a * lval b \<and> length (lmul a b) = length a + length b"
proof -
  let ?r = "p0 @ p1"
  let ?z1 = "lsub_from (lsub_from z (take (2 * m) ?r)) (drop (2 * m) ?r)"
  have m: "2 * m \<le> length a" "m \<le> length a - m" by (simp_all add: m_def)
  have parts: "take (2 * m) ?r = p0" "drop (2 * m) ?r = p1" using p0(2) by simp_all
  have lenz: "length z = (length a - m + 1) + (max (length b - m) m + 1)"
    using z(2) m size by (simp add: max_def)
  have lz: "2 * m \<le> length z" "length a + length b - 2 * m \<le> length z"
    using lenz m(2) by linarith+
  note mt = middle_term [OF z(1), folded p0(1) p1(1)]
  have s1: "lval (lsub_from z p0) = lval z - lval p0"
    using p0(2) lz(1) mt(2) by (intro lval_lsub_from) (simp_all add: p0(1))
  have zv: "lval ?z1 = lval (take m a) * lval (drop m b) + lval (drop m a) * lval (take m b)"
    unfolding parts
    using p1 lz(2) mt s1 by (subst lval_lsub_from) simp_all
  have cut: "lval a = lval (take m a) + lbase ^ m * lval (drop m a)"
    "lval b = lval (take m b) + lbase ^ m * lval (drop m b)"
    using size m by (auto intro: lval_cut)
  have rv: "lval ?r + lbase ^ m * lval ?z1 = lval a * lval b"
    unfolding zv cut lval_append p0 p1
    using halves_product [of "lval (take m a)" "lval (take m b)" "lbase ^ m"
        "lval (drop m a)" "lval (drop m b)"]
    by (simp add: power_add mult_2 mult.assoc)
  have rl: "length ?r = length a + length b" using p0(2) p1(2) m by simp
  have total: "lval ?r + lbase ^ m * lval ?z1 < lbase ^ length ?r"
    unfolding rv rl by (rule lval_mult_bound)
  have "lbase ^ m * lval ?z1 < lbase ^ m * lbase ^ (length a + length b - m)"
    using total m rl by (simp add: power_add [symmetric])
  then have "length (strip_zeros ?z1) \<le> length ?r - m"
    unfolding rl by (intro length_strip_le) simp
  moreover have "m \<le> length ?r" using m rl by linarith
  ultimately have "lval (take m ?r @ ladd_into (drop m ?r) (strip_zeros ?z1)) = lval a * lval b"
    "length (take m ?r @ ladd_into (drop m ?r) (strip_zeros ?z1)) = length a + length b"
    using add_at [of m ?r "strip_zeros ?z1"] total rv unfolding lval_strip rl by (blast intro: trans)+
  moreover have "lmul a b = take m ?r @ ladd_into (drop m ?r) (strip_zeros ?z1)"
    using size by (intro lmul_karatsuba) (simp_all add: m_def p0_def p1_def z_def)
  ultimately show ?thesis by (simp only: simp_thms)
qed

lemma unbalanced_step:
  fixes a b :: limbs
  defines "m \<equiv> length a div 2"
  assumes size: "length b \<le> length a" "32 \<le> length b" "length b \<le> m"
    and p0: "lval (lmul (take m a) b) = lval (take m a) * lval b"
      "length (lmul (take m a) b) = m + length b"
    and p1: "lval (lmul (drop m a) b) = lval (drop m a) * lval b"
      "length (lmul (drop m a) b) = length a - m + length b"
  shows "lval (lmul a b) = lval a * lval b \<and> length (lmul a b) = length a + length b"
proof -
  let ?r = "lmul (take m a) b @ replicate (length a - m) 0"
  have m: "m \<le> length a" by (simp add: m_def)
  have rl: "length ?r = length a + length b" using p0(2) m by simp
  have cut: "lval a = lval (take m a) + lbase ^ m * lval (drop m a)" by (rule lval_cut [OF m])
  have rv: "lval ?r + lbase ^ m * lval (lmul (drop m a) b) = lval a * lval b"
    unfolding cut by (simp add: lval_append p0 p1 algebra_simps)
  then have "lval ?r + lbase ^ m * lval (lmul (drop m a) b) < lbase ^ length ?r"
    using lval_mult_bound [of a b] rl by simp
  moreover have "lmul a b = take m ?r @ ladd_into (drop m ?r) (lmul (drop m a) b)"
    using size by (intro lmul_unbalanced) (simp_all add: m_def)
  ultimately show ?thesis
    using add_at [of m ?r "lmul (drop m a) b"] rv rl m p1(2) by simp
qed

lemma lmul_correct:
  "lval (lmul a b) = lval a * lval b \<and> length (lmul a b) = length a + length b"
proof (induction a b rule: lmul.induct)
  case (1 a b)
  define m where "m = length a div 2"
  consider "length a < length b" | "length b \<le> length a" "length b < 32"
    | "length b \<le> length a" "32 \<le> length b" "length b \<le> m"
    | "length b \<le> length a" "32 \<le> length b" "m < length b" by linarith
  then show ?case
  proof cases
    case 1
    then show ?thesis unfolding lmul_swap [OF 1] using "1.IH"(1) [OF 1] by (simp add: mult.commute)
  next
    case 2
    then show ?thesis by (simp add: lmul_short limb_simps)
  next
    case 3
    then have c: "\<not> length a < length b" "\<not> length b < 32" by simp_all
    show ?thesis
      using "1.IH"(2) [OF c m_def 3(3)] "1.IH"(3) [OF c m_def 3(3) refl] 3
      by (intro unbalanced_step) (simp_all add: m_def)
  next
    case 4
    then have c: "\<not> length a < length b" "\<not> length b < 32" "\<not> length b \<le> m" by simp_all
    show ?thesis
      using "1.IH"(4) [OF c(1,2) m_def c(3)] "1.IH"(5) [OF c(1,2) m_def c(3)]
        "1.IH"(6) [OF c(1,2) m_def c(3) refl refl refl] 4
      by (intro karatsuba_step) (simp_all add: m_def lval_lsum_into min_def)
  qed
qed

lemma lval_lmul [limb_simps]: "lval (lmul a b) = lval a * lval b"
  using lmul_correct by blast

lemma length_lmul [simp]: "length (lmul a b) = length a + length b"
  using lmul_correct by blast

section \<open>The dispatcher \<open>big_umul\<close>\<close>

definition big_umul :: "limbs \<Rightarrow> limbs \<Rightarrow> limbs" where
  "big_umul a b =
     (if length a < 32 \<or> length b < 32 then trim_limbs (lmul_school a b)
      else trim_limbs (lmul a b))"

lemma lval_big_umul [limb_simps]: "lval (big_umul a b) = lval a * lval b"
  by (simp add: big_umul_def lval_lmul_school lval_lmul)

lemma trimmed_big_umul [simp]: "a \<noteq> [] \<Longrightarrow> b \<noteq> [] \<Longrightarrow> trimmed (big_umul a b)"
proof -
  assume ne: "a \<noteq> []" "b \<noteq> []"
  then have "lmul_school a b \<noteq> []" "lmul a b \<noteq> []"
    using length_lmul_school [of a b] length_lmul [of a b] by force+
  then show ?thesis by (simp add: big_umul_def)
qed

text \<open>
  C9. Karatsuba's \<open>lmul\<close> and the schoolbook \<open>lmul_school\<close> fill the result with the same limbs, and
  these hold the product of the operands.
\<close>

theorem lmul_equals_school:
  "lmul a b = lmul_school a b \<and> lval (lmul a b) = lval a * lval b"
proof -
  have "lmul a b = lmul_school a b"
    by (rule lval_inject) (simp_all add: lval_lmul lval_lmul_school)
  then show ?thesis by (simp add: lval_lmul_school)
qed

section \<open>The scratch array\<close>

text \<open>
  \<open>lmul\<close> with the array behind \<open>tmp\<close>: \<open>tmp\<close> is what lies from the pointer to the end of the array, and
  comes back with what was written into it. \<open>tmp_at\<close> forms a pointer into the array and \<open>tmp_put\<close> writes
  limbs; both are \<open>None\<close> past its end. The operands of the third product and the middle of the
  unbalanced split are read back from the array.
\<close>

definition tmp_at :: "nat \<Rightarrow> limbs \<Rightarrow> limbs option" where
  "tmp_at k tmp = (if k \<le> length tmp then Some (drop k tmp) else None)"

definition tmp_put :: "nat \<Rightarrow> limbs \<Rightarrow> limbs \<Rightarrow> limbs option" where
  "tmp_put k xs tmp =
     (if k + length xs \<le> length tmp then Some (take k tmp @ xs @ drop (k + length xs) tmp) else None)"

function lmul_mem :: "limbs \<Rightarrow> limbs \<Rightarrow> limbs \<Rightarrow> (limbs \<times> limbs) option" where
  "lmul_mem a b tmp =
     (if length a < length b then lmul_mem b a tmp
      else if length b < 32 then Some (lmul_school a b, tmp)
      else let m = length a div 2 in
        if length b \<le> m then
          let k = length a - m + length b in do {
            (r, tmp) \<leftarrow> lmul_mem (take m a) b tmp;
            let r = r @ replicate (length a - m) 0;
            free \<leftarrow> tmp_at k tmp;
            (t, free) \<leftarrow> lmul_mem (drop m a) b free;
            let tmp = t @ free;
            Some (take m r @ ladd_into (drop m r) (take k tmp), tmp) }
        else do {
          (lo, tmp) \<leftarrow> lmul_mem (take m a) (take m b) tmp;
          (hi, tmp) \<leftarrow> lmul_mem (drop m a) (drop m b) tmp;
          let r = lo @ hi;
          let sn = length (lsum_into (take m a) (drop m a));
          let tn = length (lsum_into (drop m b) (take m b));
          tmp \<leftarrow> tmp_put 0 (lsum_into (take m a) (drop m a)) tmp;
          tmp \<leftarrow> tmp_put sn (lsum_into (drop m b) (take m b)) tmp;
          free \<leftarrow> tmp_at (2 * (sn + tn)) tmp;
          (z1, free) \<leftarrow> lmul_mem (take sn tmp) (take tn (drop sn tmp)) free;
          let z1 = lsub_from z1 (take (2 * m) r);
          let z1 = lsub_from z1 (drop (2 * m) r);
          Some (take m r @ ladd_into (drop m r) (strip_zeros z1), take (sn + tn) tmp @ z1 @ free) })"
  by pat_completeness auto

termination
proof (relation "measures [\<lambda>(a, b, tmp). length a + length b,
    \<lambda>(a, b, tmp). if length a < length b then 1 else 0]", goal_cases)
  case (7 a b tmp m p lo tmp1 q hi tmp2 r sn tn tmp3 tmp4 free)
  have "sn = length a - length a div 2 + 1" "tn = max (length b - length a div 2) (length a div 2) + 1"
    using 7 by simp_all
  moreover have "max (length a div 2) (length a - length a div 2) = length a - length a div 2" by linarith
  ultimately have "sn + tn < length a + length b"
    using karatsuba_shrinks [of "length b" "length a"] 7(1,2,3,4) by linarith
  then have "length (take sn tmp4) + length (take tn (drop sn tmp4)) < length a + length b"
    unfolding length_take by linarith
  then show ?case by (simp split del: if_split)
qed auto

declare lmul_mem.simps [simp del]

text \<open>
  The cells of the array that \<open>lmul_mem\<close> needs on operands of \<open>an\<close> and \<open>bn\<close> limbs, each recursive call
  charged at the offset of the pointer it is given.
\<close>

function lmul_scratch :: "nat \<Rightarrow> nat \<Rightarrow> nat" where
  "lmul_scratch an bn =
     (if an < bn then lmul_scratch bn an
      else if bn < 32 then 0
      else let m = an div 2 in
        if bn \<le> m then max (lmul_scratch m bn) ((an - m + bn) + lmul_scratch (an - m) bn)
        else let sn = max m (an - m) + 1; tn = max (bn - m) m + 1
          in max (max (lmul_scratch m m) (lmul_scratch (an - m) (bn - m)))
                 (2 * (sn + tn) + lmul_scratch sn tn))"
  by pat_completeness auto

termination
proof (relation "measures [\<lambda>(an, bn). an + bn, \<lambda>(an, bn). if an < bn then 1 else 0]", goal_cases)
  case (7 an bn m sn tn)
  then have "sn + tn < an + bn" using karatsuba_shrinks [of bn an] by linarith
  then show ?case by simp
qed auto

declare lmul_scratch.simps [simp del]

lemma scratch_swap: "an < bn \<Longrightarrow> lmul_scratch an bn = lmul_scratch bn an"
  by (subst lmul_scratch.simps) simp

lemma scratch_short: "bn \<le> an \<Longrightarrow> bn < 32 \<Longrightarrow> lmul_scratch an bn = 0"
  by (subst lmul_scratch.simps) simp

lemma scratch_unbalanced:
  assumes "bn \<le> an" "32 \<le> bn" "m = an div 2" "bn \<le> m"
  shows "lmul_scratch an bn
    = max (lmul_scratch m bn) ((an - m + bn) + lmul_scratch (an - m) bn)"
  using assms by (subst lmul_scratch.simps) (simp add: Let_def)

lemma scratch_karatsuba:
  assumes "bn \<le> an" "32 \<le> bn" "m = an div 2" "m < bn"
    "sn = max m (an - m) + 1" "tn = max (bn - m) m + 1"
  shows "lmul_scratch an bn
    = max (max (lmul_scratch m m) (lmul_scratch (an - m) (bn - m)))
        (2 * (sn + tn) + lmul_scratch sn tn)"
proof -
  have c: "\<not> an < bn" "\<not> bn < 32" "\<not> bn \<le> an div 2" using assms(1-4) by simp_all
  show ?thesis
    unfolding assms(5,6) assms(3) by (subst lmul_scratch.simps) (simp only: c if_False Let_def)
qed

lemma halves:
  fixes an m :: nat
  assumes "m = an div 2"
  obtains k where "k = an - m" "an = m + k" "m \<le> k" "k \<le> m + 1"
proof
  show "an = m + (an - m)" "m \<le> an - m" "an - m \<le> m + 1" using assms by simp_all
qed simp

lemma scratch_cases:
  fixes an bn m :: nat
  obtains "an < bn" | "bn \<le> an" "bn < 32" | "bn \<le> an" "32 \<le> bn" "bn \<le> m"
    | "bn \<le> an" "32 \<le> bn" "m < bn"
  by linarith

lemma scratch_arith:
  fixes an bn m k sn tn x y z :: nat
  assumes "an = m + k" "k \<le> m + 1" "m \<le> k" "32 \<le> bn" "bn \<le> an"
  shows "z \<le> 5 * m \<Longrightarrow> z \<le> 5 * an" "z \<le> 5 * k \<Longrightarrow> z \<le> 5 * an"
    "bn \<le> m \<Longrightarrow> z \<le> 5 * k \<Longrightarrow> k + bn + z \<le> 5 * an"
    "sn = k + 1 \<Longrightarrow> tn \<le> sn \<Longrightarrow> z \<le> 5 * sn \<Longrightarrow> 2 * (sn + tn) + z \<le> 5 * an"
    "z \<le> 4 * (m + bn) \<Longrightarrow> z \<le> 4 * (an + bn)"
    "bn \<le> m \<Longrightarrow> z \<le> 4 * (k + bn) \<Longrightarrow> k + bn + z \<le> 4 * (an + bn)"
    "m < bn \<Longrightarrow> z \<le> 4 * (m + m) \<Longrightarrow> z \<le> 4 * (an + bn)"
    "m < bn \<Longrightarrow> z \<le> 4 * (k + (bn - m)) \<Longrightarrow> z \<le> 4 * (an + bn)"
    "m < bn \<Longrightarrow> sn = k + 1 \<Longrightarrow> tn \<le> sn \<Longrightarrow> z \<le> 5 * sn \<Longrightarrow>
     2 * (sn + tn) + z \<le> 4 * (an + bn)"
  using assms unfolding distrib_left by linarith+

lemma scratch_le_max: "lmul_scratch an bn \<le> 5 * max an bn"
proof (induction an bn rule: lmul_scratch.induct)
  case (1 an bn)
  define m where "m = an div 2"
  obtain k where k: "k = an - m" "an = m + k" "m \<le> k" "k \<le> m + 1" by (rule halves [OF m_def])
  show ?case
  proof (cases rule: scratch_cases [where an = an and bn = bn and m = m])
    case 1
    then show ?thesis unfolding scratch_swap [OF 1] using "1.IH"(1) [OF 1] by simp
  next
    case 2
    then show ?thesis by (simp add: scratch_short)
  next
    case 3
    then have c: "\<not> an < bn" "\<not> bn < 32" by simp_all
    note ar = scratch_arith [OF k(2,4,3) 3(2,1)]
    have "max m bn = m" "max k bn = k" "max an bn = an" using 3 k(2-4) by simp_all
    then have "lmul_scratch m bn \<le> 5 * m" "lmul_scratch k bn \<le> 5 * k"
      using "1.IH"(2,3) [OF c m_def 3(3)] unfolding k(1) [symmetric] by (simp_all only:)
    note ar(1) [OF this(1)] ar(3) [OF 3(3) this(2)]
    then show ?thesis
      unfolding scratch_unbalanced [OF 3(1,2) m_def 3(3)] \<open>max an bn = an\<close> k(1) [symmetric] by (simp only: max.bounded_iff simp_thms)
  next
    case 4
    then have c: "\<not> an < bn" "\<not> bn < 32" "\<not> bn \<le> m" by simp_all
    note ar = scratch_arith [OF k(2,4,3) 4(2,1)]
    define sn tn where "sn = max m (an - m) + 1" "tn = max (bn - m) m + 1"
    have e: "sn = k + 1" "tn \<le> sn" "max an bn = an" "max k (bn - m) = k" "max sn tn = sn"
      using 4 k(2-4) unfolding sn_tn_def k(1) [symmetric] by simp_all
    then have "lmul_scratch m m \<le> 5 * m" "lmul_scratch k (bn - m) \<le> 5 * k"
      "lmul_scratch sn tn \<le> 5 * sn"
      using "1.IH"(4,5) [OF c(1,2) m_def c(3) sn_tn_def]
        "1.IH"(6) [OF c(1,2) m_def c(3) sn_tn_def]
      unfolding k(1) [symmetric] by (simp_all only: max.idem)
    note ar(1) [OF this(1)] ar(2) [OF this(2)] ar(4) [OF e(1,2) this(3)]
    then show ?thesis
      unfolding scratch_karatsuba [OF 4(1,2) m_def 4(3) sn_tn_def] e(3) k(1) [symmetric] by (simp only: max.bounded_iff simp_thms)
  qed
qed

lemma scratch_le_sum: "lmul_scratch an bn \<le> 4 * (an + bn)"
proof (induction an bn rule: lmul_scratch.induct)
  case (1 an bn)
  define m where "m = an div 2"
  obtain k where k: "k = an - m" "an = m + k" "m \<le> k" "k \<le> m + 1" by (rule halves [OF m_def])
  show ?case
  proof (cases rule: scratch_cases [where an = an and bn = bn and m = m])
    case 1
    then show ?thesis unfolding scratch_swap [OF 1] using "1.IH"(1) [OF 1] by simp
  next
    case 2
    then show ?thesis by (simp add: scratch_short)
  next
    case 3
    then have c: "\<not> an < bn" "\<not> bn < 32" by simp_all
    note ar = scratch_arith [OF k(2,4,3) 3(2,1)]
    have "lmul_scratch m bn \<le> 4 * (m + bn)" "lmul_scratch k bn \<le> 4 * (k + bn)"
      using "1.IH"(2,3) [OF c m_def 3(3)] unfolding k(1) [symmetric] by (simp_all only:)
    note ar(5) [OF this(1)] ar(6) [OF 3(3) this(2)]
    then show ?thesis
      unfolding scratch_unbalanced [OF 3(1,2) m_def 3(3)] k(1) [symmetric] by (simp only: max.bounded_iff simp_thms)
  next
    case 4
    then have c: "\<not> an < bn" "\<not> bn < 32" "\<not> bn \<le> m" by simp_all
    note ar = scratch_arith [OF k(2,4,3) 4(2,1)]
    define sn tn where "sn = max m (an - m) + 1" "tn = max (bn - m) m + 1"
    have e: "sn = k + 1" "tn \<le> sn" "max sn tn = sn"
      using 4 k(2-4) unfolding sn_tn_def k(1) [symmetric] by simp_all
    have "lmul_scratch m m \<le> 4 * (m + m)" "lmul_scratch k (bn - m) \<le> 4 * (k + (bn - m))"
      using "1.IH"(4,5) [OF c(1,2) m_def c(3) sn_tn_def]
      unfolding k(1) [symmetric] by (simp_all only:)
    moreover have "lmul_scratch sn tn \<le> 5 * sn" using scratch_le_max [of sn tn] e(3) by simp
    ultimately have "lmul_scratch m m \<le> 4 * (an + bn)" "lmul_scratch k (bn - m) \<le> 4 * (an + bn)"
      "2 * (sn + tn) + lmul_scratch sn tn \<le> 4 * (an + bn)"
      using ar(7) [OF 4(3)] ar(8) [OF 4(3)] ar(9) [OF 4(3) e(1,2)] by blast+
    note this
    then show ?thesis
      unfolding scratch_karatsuba [OF 4(1,2) m_def 4(3) sn_tn_def] k(1) [symmetric] by (simp only: max.bounded_iff simp_thms)
  qed
qed

lemma bind_pair: "x = Some (p, q) \<Longrightarrow> Option.bind x (\<lambda>(y, z). f y z) = f p q"
  by simp

lemma tmp_put_some:
  "k + length xs \<le> length tmp \<Longrightarrow> tmp_put k xs tmp = Some (take k tmp @ xs @ drop (k + length xs) tmp)"
  by (simp add: tmp_put_def)

lemma tmp_at_some: "k \<le> length tmp \<Longrightarrow> tmp_at k tmp = Some (drop k tmp)"
  by (simp add: tmp_at_def)

text \<open>Two rows written side by side are read back.\<close>

lemma put_two:
  assumes "length sa + length sb \<le> length tmp"
  obtains tmp1 tmp2 where "tmp_put 0 sa tmp = Some tmp1" "tmp_put (length sa) sb tmp1 = Some tmp2"
    "length tmp2 = length tmp" "take (length sa) tmp2 = sa" "take (length sb) (drop (length sa) tmp2) = sb"
proof -
  define tmp1 where "tmp1 = sa @ drop (length sa) tmp"
  have 1: "tmp_put 0 sa tmp = Some tmp1" "length tmp1 = length tmp" "take (length sa) tmp1 = sa"
    using assms by (simp_all add: tmp_put_def tmp1_def)
  show thesis
    by (rule that [OF 1(1), of "sa @ sb @ drop (length sa + length sb) tmp1"])
      (use assms 1(2,3) in \<open>simp_all add: tmp_put_def\<close>)
qed

lemma lmul_mem_swap: "length a < length b \<Longrightarrow> lmul_mem a b tmp = lmul_mem b a tmp"
  by (subst lmul_mem.simps) simp

lemma lmul_mem_short: "length b \<le> length a \<Longrightarrow> length b < 32 \<Longrightarrow> lmul_mem a b tmp = Some (lmul_school a b, tmp)"
  by (subst lmul_mem.simps) simp

lemma lmul_mem_unbalanced:
  assumes size: "length b \<le> length a" "32 \<le> length b" "length b \<le> m" and m: "m = length a div 2"
    and one: "lmul_mem (take m a) b tmp = Some (lmul (take m a) b, tmp1)"
    and room: "length a - m + length b \<le> length tmp1"
    and two: "lmul_mem (drop m a) b (drop (length a - m + length b) tmp1) = Some (lmul (drop m a) b, tmp2)"
  shows "lmul_mem a b tmp = Some (lmul a b, lmul (drop m a) b @ tmp2)"
proof -
  have c: "\<not> length a < length b" "\<not> length b < 32" using size by simp_all
  have "lmul a b = take m (lmul (take m a) b @ replicate (length a - m) 0)
      @ ladd_into (drop m (lmul (take m a) b @ replicate (length a - m) 0)) (lmul (drop m a) b)"
    by (rule lmul_unbalanced [OF size(2,1) m size(3) refl])
  then show ?thesis
    using c size(3) one two tmp_at_some [OF room]
    by (subst lmul_mem.simps) (simp add: m [symmetric] Let_def)
qed

lemma lmul_mem_karatsuba:
  fixes a b :: limbs
  defines "sa \<equiv> lsum_into (take (length a div 2) a) (drop (length a div 2) a)"
    and "sb \<equiv> lsum_into (drop (length a div 2) b) (take (length a div 2) b)"
  assumes size: "length b \<le> length a" "32 \<le> length b" "m < length b" and m: "m = length a div 2"
    and one: "lmul_mem (take m a) (take m b) tmp = Some (lmul (take m a) (take m b), tmp1)"
    and two: "lmul_mem (drop m a) (drop m b) tmp1 = Some (lmul (drop m a) (drop m b), tmp2)"
    and room: "2 * (length sa + length sb) \<le> length tmp2"
    and three: "\<And>free. length free = length tmp2 - 2 * (length sa + length sb) \<Longrightarrow>
      \<exists>free'. lmul_mem sa sb free = Some (lmul sa sb, free') \<and> length free' = length free"
  shows "\<exists>tmp'. lmul_mem a b tmp = Some (lmul a b, tmp') \<and> length tmp' = length tmp2"
proof -
  have c: "\<not> length a < length b" "\<not> length b < 32" "\<not> length b \<le> m" using size by simp_all
  let ?r = "lmul (take m a) (take m b) @ lmul (drop m a) (drop m b)"
  have "length sa + length sb \<le> 2 * (length sa + length sb)" by simp
  then have "length sa + length sb \<le> length tmp2" using room by (rule order_trans)
  then obtain tmp3 tmp4 where put: "tmp_put 0 sa tmp2 = Some tmp3" "tmp_put (length sa) sb tmp3 = Some tmp4"
      "length tmp4 = length tmp2" "take (length sa) tmp4 = sa" "take (length sb) (drop (length sa) tmp4) = sb"
    by (rule put_two)
  obtain free where free: "lmul_mem sa sb (drop (2 * (length sa + length sb)) tmp4) = Some (lmul sa sb, free)"
      "length free = length tmp2 - 2 * (length sa + length sb)"
    using three [of "drop (2 * (length sa + length sb)) tmp4"] put(3) by auto
  let ?z = "lsub_from (lsub_from (lmul sa sb) (take (2 * m) ?r)) (drop (2 * m) ?r)"
  have "lmul a b = take m ?r @ ladd_into (drop m ?r) (strip_zeros ?z)"
    unfolding sa_def sb_def m [symmetric] by (rule lmul_karatsuba [OF size(2,1) m size(3) refl refl])
  then have "lmul_mem a b tmp = Some (lmul a b, take (length sa + length sb) tmp4 @ ?z @ free)"
    using c one two put tmp_at_some [OF room [folded put(3)]] free(1)
    by (subst lmul_mem.simps) (simp only: if_False Let_def m [symmetric] sa_def [unfolded m [symmetric], symmetric]
      sb_def [unfolded m [symmetric], symmetric] prod.case Option.bind.bind_lunit)
  moreover have "length (take (length sa + length sb) tmp4 @ ?z @ free) = length tmp2"
    using room put(3) free(2) by simp
  ultimately show ?thesis by blast
qed

lemma lmul_mem_ok:
  "lmul_scratch (length a) (length b) \<le> length tmp \<Longrightarrow>
   \<exists>tmp'. lmul_mem a b tmp = Some (lmul a b, tmp') \<and> length tmp' = length tmp"
proof (induction a b arbitrary: tmp rule: lmul.induct)
  case (1 a b)
  define m where "m = length a div 2"
  show ?case
  proof (cases rule: scratch_cases [where an = "length a" and bn = "length b" and m = m])
    case 1
    have "lmul_scratch (length b) (length a) \<le> length tmp" using "1.prems" unfolding scratch_swap [OF 1] .
    then show ?thesis unfolding lmul_mem_swap [OF 1] lmul_swap [OF 1] by (rule "1.IH"(1) [OF 1])
  next
    case 2
    then show ?thesis by (simp add: lmul_mem_short lmul_short)
  next
    case 3
    then have c: "\<not> length a < length b" "\<not> length b < 32" by simp_all
    let ?k = "length a - m + length b"
    have len: "length (take m a) = m" "length (drop m a) = length a - m" by (simp_all add: m_def)
    have room: "lmul_scratch m (length b) \<le> length tmp" "?k + lmul_scratch (length a - m) (length b) \<le> length tmp"
      using "1.prems" unfolding scratch_unbalanced [OF 3(1,2) m_def 3(3)] by simp_all
    obtain tmp1 where 1: "lmul_mem (take m a) b tmp = Some (lmul (take m a) b, tmp1)" "length tmp1 = length tmp"
      using "1.IH"(2) [OF c m_def 3(3), of tmp] room(1) len by auto
    have "lmul_scratch (length (drop m a)) (length b) \<le> length (drop ?k tmp1)" using room(2) 1(2) len by simp
    from "1.IH"(3) [OF c m_def 3(3) refl this] obtain tmp2 where
      2: "lmul_mem (drop m a) b (drop ?k tmp1) = Some (lmul (drop m a) b, tmp2)" "length tmp2 = length tmp1 - ?k" by auto
    have k: "?k \<le> length tmp1" using room(2) 1(2) by linarith
    show ?thesis
      using lmul_mem_unbalanced [OF 3(1-3) m_def 1(1) k 2(1)] 2(2) 1(2) k len by simp
  next
    case 4
    then have c: "\<not> length a < length b" "\<not> length b < 32" "\<not> length b \<le> m" by simp_all
    define sa sb where "sa = lsum_into (take m a) (drop m a)" and "sb = lsum_into (drop m b) (take m b)"
    have sn: "length sa = max m (length a - m) + 1" "length sb = max (length b - m) m + 1"
      using 4 by (simp_all add: sa_def sb_def m_def min_def)
    have len: "length (take m a) = m" "length (drop m a) = length a - m" "length (take m b) = m" "length (drop m b) = length b - m"
      using 4 by (simp_all add: m_def)
    have room: "lmul_scratch m m \<le> length tmp" "lmul_scratch (length a - m) (length b - m) \<le> length tmp"
      "2 * (length sa + length sb) + lmul_scratch (length sa) (length sb) \<le> length tmp"
      using "1.prems" unfolding scratch_karatsuba [OF 4(1,2) m_def 4(3) sn] by simp_all
    obtain tmp1 where 1: "lmul_mem (take m a) (take m b) tmp = Some (lmul (take m a) (take m b), tmp1)" "length tmp1 = length tmp"
      using "1.IH"(4) [OF c(1,2) m_def c(3), of tmp] room(1) len by auto
    obtain tmp2 where 2: "lmul_mem (drop m a) (drop m b) tmp1 = Some (lmul (drop m a) (drop m b), tmp2)" "length tmp2 = length tmp1"
      using "1.IH"(5) [OF c(1,2) m_def c(3), of tmp1] room(2) len 1(2) by auto
    have 3: "\<exists>free'. lmul_mem sa sb free = Some (lmul sa sb, free') \<and> length free' = length free"
      if "length free = length tmp2 - 2 * (length sa + length sb)" for free
      unfolding sa_def sb_def
      by (rule "1.IH"(6) [OF c(1,2) m_def c(3) refl refl refl]) (use that room(3) 1(2) 2(2) in \<open>simp add: sa_def [symmetric] sb_def [symmetric]\<close>)
    have k: "2 * (length sa + length sb) \<le> length tmp2" using room(3) 1(2) 2(2) by linarith
    from lmul_mem_karatsuba [OF 4(1-3) m_def 1(1) 2(1), folded m_def, folded sa_def sb_def, OF k 3] show ?thesis
      using 1(2) 2(2) by simp
  qed
qed

text \<open>The size \<open>big_umul\<close> gives the array, an unsigned 32-bit number.\<close>

definition big_umul_tmp :: "nat \<Rightarrow> nat \<Rightarrow> u32" where
  "big_umul_tmp an bn = 4 * (of_nat an + of_nat bn) + 256"

lemma big_umul_tmp_val:
  assumes "an + bn < 2 ^ 30 - 64"
  shows "unat (big_umul_tmp an bn) = 4 * (an + bn) + 256"
proof -
  have "big_umul_tmp an bn = of_nat (4 * (an + bn) + 256)" by (simp add: big_umul_tmp_def)
  then show ?thesis using assms by (simp only: unat_of_nat) simp
qed

text \<open>From \<open>2 ^ 30 - 64\<close> limbs on the size wraps, at first to nothing at all.\<close>

lemma big_umul_tmp_wraps: "an + bn = 2 ^ 30 - 64 \<Longrightarrow> big_umul_tmp an bn = 0"
proof -
  assume "an + bn = 2 ^ 30 - 64"
  then have "big_umul_tmp an bn = of_nat (4 * (2 ^ 30 - 64) + 256)"
    unfolding big_umul_tmp_def of_nat_add [symmetric] by simp
  then show ?thesis by simp
qed

text \<open>
  C25. The array \<open>big_umul\<close> gives to \<open>lmul\<close> is long enough. For operands of together less than \<open>2 ^ 30 - 64\<close>
  limbs, \<open>lmul\<close> run on an array of the size \<open>big_umul\<close> computes in 32 bits forms no pointer past its end and
  writes nothing there, at any depth of the recursion, and its result is the one of the model without the
  array: no recursive call overwrites what is still read from it. From \<open>2 ^ 30 - 64\<close> limbs on, four
  gigabytes, the size wraps around (\<open>big_umul_tmp_wraps\<close>).
\<close>

theorem lmul_scratch_fits:
  assumes "length a + length b < 2 ^ 30 - 64" "length tmp = unat (big_umul_tmp (length a) (length b))"
  shows "\<exists>tmp'. lmul_mem a b tmp = Some (lmul a b, tmp') \<and> length tmp' = length tmp"
proof (rule lmul_mem_ok)
  show "lmul_scratch (length a) (length b) \<le> length tmp"
    using scratch_le_sum [of "length a" "length b"] big_umul_tmp_val [OF assms(1)] assms(2) by linarith
qed

theorem lmul_scratch_fits_witness:
  "\<exists>tmp. lmul_mem (replicate 40 7) (replicate 40 9) (replicate 576 0) = Some (lmul (replicate 40 7) (replicate 40 9), tmp)"
  using lmul_scratch_fits [of "replicate 40 7" "replicate 40 9" "replicate 576 0"] by (auto simp: big_umul_tmp_def)

end
