(* ===== verification/Bignum_Div.thy ===== *)
theory Bignum_Div
  imports Bignum_Mul
begin

text \<open>
  Division of magnitudes (\<open>src/runtime/bignum.c\<close>): the one-limb loop and \<open>big_divmnu\<close>, Knuth's
  algorithm D on 32-bit digits, joined by \<open>big_udivmod\<close>. The theory follows the routine: the shift
  that normalises the divisor, the trial digit and its correction loop, multiply-and-subtract on
  a window of the dividend, the add-back, the shift that undoes the normalisation.
\<close>

section \<open>Shifting limbs\<close>

text \<open>The length of a number in binary, and \<open>__builtin_clz\<close> of a word that is not zero.\<close>

fun bit_len :: "nat \<Rightarrow> nat" where
  "bit_len n = (if n = 0 then 0 else Suc (bit_len (n div 2)))"

declare bit_len.simps [simp del]

definition clz32 :: "u32 \<Rightarrow> nat" where
  "clz32 x = 32 - bit_len (unat x)"

lemma bit_len_0 [simp]: "bit_len 0 = 0"
  by (subst bit_len.simps) simp

lemma bit_len_step: "0 < n \<Longrightarrow> bit_len n = Suc (bit_len (n div 2))"
  by (subst bit_len.simps) simp

lemma bit_len_upper: "n < 2 ^ bit_len n"
proof (induction n rule: bit_len.induct)
  case (1 n)
  show ?case
  proof (cases "n = 0")
    case False
    then have "n div 2 < 2 ^ bit_len (n div 2)" by (rule 1)
    then have "n < 2 * 2 ^ bit_len (n div 2)" by linarith
    then show ?thesis using False by (simp add: bit_len_step)
  qed simp
qed

lemma bit_len_lower: "0 < n \<Longrightarrow> 2 ^ bit_len n \<le> 2 * n"
proof (induction n rule: bit_len.induct)
  case (1 n)
  show ?case
  proof (cases "n = 1")
    case True
    then show ?thesis by (simp add: bit_len_step)
  next
    case False
    then have "0 < n div 2" using 1(2) by linarith
    then have "2 ^ bit_len (n div 2) \<le> 2 * (n div 2)" using 1 by simp
    also have "\<dots> \<le> n" by simp
    finally show ?thesis using 1(2) by (simp add: bit_len_step)
  qed
qed

lemma bit_len_le: "n < 2 ^ k \<Longrightarrow> bit_len n \<le> k"
proof (rule ccontr)
  assume n: "n < 2 ^ k" "\<not> bit_len n \<le> k"
  then have "0 < n" by (cases "n = 0") simp_all
  have "(2::nat) ^ Suc k \<le> 2 ^ bit_len n" using n(2) by (intro power_increasing) simp_all
  with bit_len_lower [OF \<open>0 < n\<close>] n(1) show False by simp
qed

lemma clz32_bounds:
  assumes "x \<noteq> 0"
  shows "clz32 x \<le> 31" "2147483648 \<le> unat x * 2 ^ clz32 x" "unat x * 2 ^ clz32 x < lbase"
proof -
  define b where "b = bit_len (unat x)"
  have x: "0 < unat x" using assms by (simp add: unat_gt_0)
  have b: "0 < b" "b \<le> 32" "clz32 x = 32 - b"
    using x unat_u32_less [of x] bit_len_le [of "unat x" 32]
    by (simp_all add: b_def bit_len_step lbase_def clz32_def)
  have p: "2 ^ b * 2 ^ clz32 x = (4294967296 :: nat)"
    using b by (simp add: power_add [symmetric])
  have "unat x * 2 ^ clz32 x < 2 ^ b * 2 ^ clz32 x"
    using bit_len_upper [of "unat x"] by (simp add: b_def)
  then show "unat x * 2 ^ clz32 x < lbase" unfolding p by (simp add: lbase_def)
  have "2 ^ b * 2 ^ clz32 x \<le> 2 * unat x * 2 ^ clz32 x"
    using bit_len_lower [OF x] unfolding b_def by (rule mult_le_mono1)
  then show "2147483648 \<le> unat x * 2 ^ clz32 x" unfolding p by simp
  show "clz32 x \<le> 31" using b by simp
qed

text \<open>The word \<open>(hi << 32) | lo\<close>, and the two shifted neighbours combined with \<open>|\<close>.\<close>

lemma lbase_split: "s \<le> 32 \<Longrightarrow> lbase = 2 ^ s * 2 ^ (32 - s)"
  by (simp add: lbase_def power_add [symmetric])

lemma unat_push_w64:
  assumes "s \<le> 32" shows "unat (push_bit s (w64 x)) = unat x * 2 ^ s"
proof -
  have "unat x * 2 ^ s < lbase * 2 ^ s" by simp
  also have "\<dots> \<le> lbase * 2 ^ 32" using assms by (intro mult_le_mono2 power_increasing) simp_all
  finally have "unat x * 2 ^ s < 2 ^ 64" by (simp add: lbase_def)
  then show ?thesis
    by (simp add: unsigned_push_bit_eq take_bit_nat_eq_self push_bit_nat_def)
qed

lemma unat_drop_w64: "unat (drop_bit s (w64 x)) = unat x div 2 ^ s"
  by (simp add: unat_drop_bit_eq drop_bit_nat_def)

lemma or_push_eq_add:
  fixes a b :: u64
  assumes "\<And>n. bit b n \<Longrightarrow> n < s"
  shows "push_bit s a OR b = push_bit s a + b"
proof -
  have "push_bit s a AND b = 0"
    by (rule bit_eqI) (use assms in \<open>auto simp: bit_simps dest!: assms\<close>)
  then show ?thesis by (simp add: disjunctive_add_eq_or)
qed

lemma bit_drop_w64: "bit (drop_bit k (w64 x)) n \<Longrightarrow> n + k < 32"
  by (auto simp: w64_def bit_simps add.commute dest: bit_imp_le_length)

lemma lo32_shift_left:
  assumes "s \<le> 32"
  shows "unat (lo32 (push_bit s (w64 x) OR drop_bit (32 - s) (w64 p)))
    = (unat x * 2 ^ s) mod lbase + unat p div 2 ^ (32 - s)"
proof -
  let ?w = "push_bit s (w64 x) OR drop_bit (32 - s) (w64 p)"
  have w: "?w = push_bit s (w64 x) + drop_bit (32 - s) (w64 p)"
    by (rule or_push_eq_add) (use assms in \<open>auto dest: bit_drop_w64\<close>)
  have dp: "unat p div 2 ^ (32 - s) < 2 ^ s"
    using unat_u32_less [of p] assms by (simp add: lbase_split less_mult_imp_div_less)
  have "2 ^ s * (unat x + 1) \<le> 2 ^ s * lbase" using unat_u32_less [of x] by (intro mult_le_mono2) (simp add: Suc_le_eq)
  then have "unat x * 2 ^ s + 2 ^ s \<le> 2 ^ s * lbase" by (simp add: algebra_simps)
  also have "\<dots> \<le> 2 ^ 32 * lbase" using assms by (intro mult_le_mono1 power_increasing) simp_all
  also have "\<dots> = lbase * lbase" by (simp add: lbase_def)
  finally have b: "unat x * 2 ^ s + unat p div 2 ^ (32 - s) < lbase * lbase" using dp by linarith
  then have u: "unat ?w = unat x * 2 ^ s + unat p div 2 ^ (32 - s)"
    unfolding w using assms by (subst unat_add64) (simp_all add: unat_push_w64 unat_drop_w64)
  have "(unat x * 2 ^ s + unat p div 2 ^ (32 - s)) mod (2 ^ s * 2 ^ (32 - s))
      = (unat x * 2 ^ s) mod (2 ^ s * 2 ^ (32 - s)) + unat p div 2 ^ (32 - s)"
    using dp by (simp add: mod_mult2_eq mod_mult_self2 mult.commute [of "unat x"])
  then show ?thesis using u assms by (simp add: word_split lbase_split [of s])
qed

definition join64 :: "u64 \<Rightarrow> u32 \<Rightarrow> u64" where
  "join64 hi lo = push_bit 32 hi OR w64 lo"

lemma unat_join64:
  assumes "unat hi < lbase" shows "unat (join64 hi lo) = unat hi * lbase + unat lo"
proof -
  have "hi = w64 (lo32 hi)"
    using assms by (simp add: word_unat_eq_iff word_split)
  then obtain h where h: "hi = w64 h" by blast
  have "join64 hi lo = push_bit 32 (w64 h) + w64 lo"
    unfolding join64_def h by (rule or_push_eq_add) (auto simp: w64_def bit_simps dest: bit_imp_le_length)
  moreover have "unat h * lbase + unat lo < lbase * lbase"
    using unat_u32_less [of h] unat_u32_less [of lo]
    by (simp add: lbase_def)
  ultimately show ?thesis
    by (simp add: h unat_add64 unat_push_w64 lbase_def)
qed

section \<open>Normalising and undoing it\<close>

text \<open>
  \<open>v\<close> and \<open>u\<close> are shifted left by \<open>s\<close>, each limb taking the bits the one below sheds; the dividend
  gets one limb more. The remainder is shifted back down at the end.
\<close>

fun norm_rest :: "nat \<Rightarrow> u32 \<Rightarrow> limbs \<Rightarrow> limbs" where
  "norm_rest s p [] = []"
| "norm_rest s p (x # xs) =
     lo32 (push_bit s (w64 x) OR drop_bit (32 - s) (w64 p)) # norm_rest s x xs"

definition norm_limbs :: "nat \<Rightarrow> limbs \<Rightarrow> limbs" where
  "norm_limbs s xs =
     (case xs of [] \<Rightarrow> [] | x # ys \<Rightarrow> lo32 (push_bit s (w64 x)) # norm_rest s x ys)"

definition norm_dividend :: "nat \<Rightarrow> limbs \<Rightarrow> limbs" where
  "norm_dividend s u = norm_limbs s u @ [lo32 (drop_bit (32 - s) (w64 (last u)))]"

fun denorm :: "nat \<Rightarrow> limbs \<Rightarrow> limbs" where
  "denorm s [] = []"
| "denorm s [x] = [drop_bit s x]"
| "denorm s (x # y # ys) =
     lo32 (drop_bit s (w64 x) OR push_bit (32 - s) (w64 y)) # denorm s (y # ys)"

lemma length_norm_rest [simp]: "length (norm_rest s p xs) = length xs"
  by (induction s p xs rule: norm_rest.induct) simp_all

lemma length_norm_limbs [simp]: "length (norm_limbs s xs) = length xs"
  by (simp add: norm_limbs_def split: list.split)

lemma length_norm_dividend [simp]: "length (norm_dividend s u) = length u + 1"
  by (simp add: norm_dividend_def)

lemma length_denorm [simp]: "length (denorm s xs) = length xs"
  by (induction s xs rule: denorm.induct) simp_all

text \<open>One limb of the shifted vector and what it sheds into the next.\<close>

lemma shed_step:
  assumes "s \<le> 32"
  shows "(unat x * 2 ^ s) mod lbase + lbase * (unat x div 2 ^ (32 - s)) = unat x * 2 ^ s"
proof -
  have "unat x div 2 ^ (32 - s) = (unat x * 2 ^ s) div (2 ^ (32 - s) * 2 ^ s)"
    by (simp add: div_mult2_eq [symmetric])
  also have "2 ^ (32 - s) * 2 ^ s = lbase" using lbase_split [OF assms] by (simp add: mult.commute)
  finally show ?thesis by simp
qed

lemma norm_rest_val:
  assumes "s \<le> 32"
  shows "lval (norm_rest s p xs) + lbase ^ length xs * (unat (last (p # xs)) div 2 ^ (32 - s))
    = 2 ^ s * lval xs + unat p div 2 ^ (32 - s)"
proof (induction xs arbitrary: p)
  case (Cons x xs)
  have "lval (norm_rest s p (x # xs))
        + lbase ^ length (x # xs) * (unat (last (p # x # xs)) div 2 ^ (32 - s))
      = (unat x * 2 ^ s) mod lbase + unat p div 2 ^ (32 - s)
        + lbase * (lval (norm_rest s x xs) + lbase ^ length xs * (unat (last (x # xs)) div 2 ^ (32 - s)))"
    using lo32_shift_left [OF assms, of x p] by (simp add: algebra_simps)
  also have "\<dots> = ((unat x * 2 ^ s) mod lbase + lbase * (unat x div 2 ^ (32 - s)))
        + unat p div 2 ^ (32 - s) + lbase * (2 ^ s * lval xs)"
    unfolding Cons.IH by (simp add: algebra_simps)
  also have "\<dots> = 2 ^ s * lval (x # xs) + unat p div 2 ^ (32 - s)"
    unfolding shed_step [OF assms] by (simp add: algebra_simps)
  finally show ?case .
qed simp

lemma norm_limbs_rest: "s \<le> 32 \<Longrightarrow> norm_limbs s xs = norm_rest s 0 xs"
  by (cases xs) (simp_all add: norm_limbs_def w64_def)

lemma lval_norm_limbs:
  assumes "s \<le> 31" "xs \<noteq> []"
  shows "lval (norm_limbs s xs) + lbase ^ length xs * (unat (last xs) div 2 ^ (32 - s)) = 2 ^ s * lval xs"
  using norm_rest_val [of s 0 xs] assms by (simp add: norm_limbs_rest)

lemma lval_norm_dividend [limb_simps]:
  assumes "s \<le> 31" "u \<noteq> []"
  shows "lval (norm_dividend s u) = 2 ^ s * lval u"
proof -
  have "unat (last u) div 2 ^ (32 - s) mod lbase = unat (last u) div 2 ^ (32 - s)"
    using unat_u32_less [of "last u"] by (metis div_le_dividend le_less_trans mod_less)
  then show ?thesis
    using lval_norm_limbs [OF assms]
    by (simp add: norm_dividend_def lval_append word_split unat_drop_w64)
qed

lemma lval_norm_divisor [limb_simps]:
  assumes "xs \<noteq> []" "last xs \<noteq> 0"
  shows "lval (norm_limbs (clz32 (last xs)) xs) = 2 ^ clz32 (last xs) * lval xs"
proof -
  let ?s = "clz32 (last xs)"
  have s: "?s \<le> 31" by (rule clz32_bounds [OF assms(2)])
  have "unat (last xs) * 2 ^ ?s < 2 ^ ?s * 2 ^ (32 - ?s)"
    using clz32_bounds(3) [OF assms(2)] lbase_split [of ?s] s by simp
  then have "unat (last xs) div 2 ^ (32 - ?s) = 0" by (simp add: mult.commute)
  then show ?thesis using lval_norm_limbs [OF s assms(1)] by simp
qed

lemma lo32_shift_right:
  assumes "s \<le> 31"
  shows "unat (lo32 (drop_bit s (w64 x) OR push_bit (32 - s) (w64 y)))
    = unat x div 2 ^ s + 2 ^ (32 - s) * (unat y mod 2 ^ s)"
proof -
  have "drop_bit s (w64 x) OR push_bit (32 - s) (w64 y)
      = push_bit (32 - s) (w64 y) OR drop_bit (32 - (32 - s)) (w64 x)"
    using assms by (simp add: or.commute)
  then have "unat (lo32 (drop_bit s (w64 x) OR push_bit (32 - s) (w64 y)))
      = (unat y * 2 ^ (32 - s)) mod lbase + unat x div 2 ^ s"
    using lo32_shift_left [of "32 - s" y x] assms by simp
  also have "(unat y * 2 ^ (32 - s)) mod lbase = (2 ^ (32 - s) * unat y) mod (2 ^ (32 - s) * 2 ^ s)"
    using lbase_split [of s] assms by (simp only: mult.commute)
  also have "\<dots> = 2 ^ (32 - s) * (unat y mod 2 ^ s)" by (rule mult_mod_right [symmetric])
  finally show ?thesis by simp
qed

lemma lval_denorm [limb_simps]: "s \<le> 31 \<Longrightarrow> lval (denorm s xs) = lval xs div 2 ^ s"
proof (induction s xs rule: denorm.induct)
  case (2 s x)
  then show ?case by (simp add: unat_drop_bit_eq drop_bit_nat_def)
next
  case (3 s x y ys)
  let ?Y = "lval (y # ys)"
  have b: "lbase = 2 ^ s * 2 ^ (32 - s)" using 3(2) by (intro lbase_split) simp
  have Y: "?Y mod 2 ^ s = unat y mod 2 ^ s"
    by (simp add: b mult.assoc)
  have "lval (denorm s (x # y # ys))
      = unat x div 2 ^ s + 2 ^ (32 - s) * (?Y mod 2 ^ s) + lbase * (?Y div 2 ^ s)"
    using 3 lo32_shift_right [of s x y] Y by (simp del: lval.simps add: lval.simps(2) [of "lo32 _"])
  also have "\<dots> = unat x div 2 ^ s + 2 ^ (32 - s) * (?Y mod 2 ^ s + 2 ^ s * (?Y div 2 ^ s))"
    unfolding b by (simp only: algebra_simps)
  also have "\<dots> = unat x div 2 ^ s + 2 ^ (32 - s) * ?Y" by (simp only: mod_mult_div_eq)
  also have "\<dots> = (unat x + 2 ^ s * (2 ^ (32 - s) * ?Y)) div 2 ^ s" by simp
  also have "unat x + 2 ^ s * (2 ^ (32 - s) * ?Y) = lval (x # y # ys)"
    unfolding lval.simps(2) [of x] b by (simp only: mult.assoc)
  finally show ?case .
qed simp

section \<open>The trial digit\<close>

text \<open>
  The estimate from the two top digits and its correction loop. The loop lowers \<open>qhat\<close> and stops
  at 0 at the latest, since neither disjunct of its condition holds there.
\<close>

lemma unat_minus1: "(q :: u64) \<noteq> 0 \<Longrightarrow> unat (q - 1) = unat q - 1"
  by (simp add: unat_minus_one)

function qhat_loop :: "u64 \<Rightarrow> u64 \<Rightarrow> u32 \<Rightarrow> u32 \<Rightarrow> u32 \<Rightarrow> u64" where
  "qhat_loop q r v1 v2 u2 =
     (if hi32 q \<noteq> 0 \<or> join64 r u2 < q * w64 v2
      then let q' = q - 1; r' = r + w64 v1
        in if hi32 r' \<noteq> 0 then q' else qhat_loop q' r' v1 v2 u2
      else q)"
  by pat_completeness auto

termination
proof (relation "measure (\<lambda>(q, r, v1, v2, u2). unat q)", goal_cases)
  case (2 q r v1 v2 u2 q' r')
  then have "q \<noteq> 0" by (auto simp: hi32_def)
  then show ?case using 2 by (simp add: unat_minus1 unat_gt_0)
qed simp

declare qhat_loop.simps [simp del]

definition trial_digit :: "u32 \<Rightarrow> u32 \<Rightarrow> u32 \<Rightarrow> u32 \<Rightarrow> u32 \<Rightarrow> u64" where
  "trial_digit u0 u1 u2 v1 v2 =
     (let num = join64 (w64 u0) u1
      in qhat_loop (num div w64 v1) (num mod w64 v1) v1 v2 u2)"

lemma hi32_eq0: "hi32 s = 0 \<longleftrightarrow> unat s < lbase"
proof -
  have "hi32 s = 0 \<longleftrightarrow> unat s div lbase = 0" by (simp add: word_unat_eq_iff word_split)
  then show ?thesis by (simp add: div_eq_0_iff)
qed

text \<open>
  What the loop maintains: \<open>q * v1 + r\<close> is the two-digit numerator \<open>num\<close>, \<open>r\<close> is a digit, and \<open>q\<close>
  is not below the true digit \<open>Q\<close>, of which the caller knows that \<open>Q\<close> and one more pass the test.
\<close>

lemma qhat_loop_props:
  fixes num Q :: nat
  assumes "unat q * unat v1 + unat r = num" "unat r < lbase" "unat q \<le> lbase + 1"
    and "Q \<le> unat q" "Q < lbase" "num < (unat v1 + 1) * lbase"
    and "Q * (unat v1 * lbase + unat v2) \<le> num * lbase + unat u2"
  defines "d \<equiv> unat (qhat_loop q r v1 v2 u2)"
  shows "Q \<le> d" "d < lbase" "d * (unat v1 * lbase + unat v2) \<le> num * lbase + unat u2"
proof -
  have "Q \<le> unat (qhat_loop q r v1 v2 u2) \<and> unat (qhat_loop q r v1 v2 u2) < lbase
    \<and> unat (qhat_loop q r v1 v2 u2) * (unat v1 * lbase + unat v2) \<le> num * lbase + unat u2"
    using assms(1-7)
  proof (induction q r v1 v2 u2 rule: qhat_loop.induct)
    case (1 q r v1 v2 u2)
    note p = "1.prems"
    have j: "unat (join64 r u2) = unat r * lbase + unat u2" by (rule unat_join64 [OF p(2)])
    have "unat q * unat v2 \<le> (lbase + 1) * (lbase - 1)"
      using p(3) unat_u32_le [of v2] by (intro mult_le_mono)
    also have "\<dots> < lbase * lbase" by (simp add: lbase_def)
    finally have m: "unat (q * w64 v2) = unat q * unat v2" by (simp add: unat_mult64)
    have id: "unat q * (unat v1 * lbase + unat v2) + unat r * lbase = num * lbase + unat q * unat v2"
      unfolding p(1) [symmetric] by (simp add: algebra_simps)
    show ?case
    proof (cases "hi32 q \<noteq> 0 \<or> join64 r u2 < q * w64 v2")
      case False
      then have "unat q < lbase" "unat q * unat v2 \<le> unat r * lbase + unat u2"
        using j m by (simp_all add: hi32_eq0 not_less word_le_nat_alt)
      moreover have "qhat_loop q r v1 v2 u2 = q" using False by (subst qhat_loop.simps) simp
      ultimately show ?thesis using p(4) id by simp
    next
      case True
      then have q0: "q \<noteq> 0" by (auto simp: hi32_def)
      then have q1: "unat (q - 1) = unat q - 1" "1 \<le> unat q"
        by (simp_all add: unat_minus1 Suc_le_eq unat_gt_0)
      have Qlt: "Q < unat q"
      proof (rule ccontr)
        assume "\<not> Q < unat q"
        with p(4) have Q: "Q = unat q" by simp
        with p(5) True have "unat r * lbase + unat u2 < unat q * unat v2"
          using j m by (simp add: hi32_eq0 word_less_nat_alt)
        then show False using p(7) id unfolding Q by linarith
      qed
      define r' where "r' = r + w64 v1"
      have "unat r + unat v1 < 2 * lbase" using p(2) unat_u32_less [of v1] by linarith
      also have "\<dots> < lbase * lbase" by (simp add: lbase_def)
      finally have r': "unat r' = unat r + unat v1" by (simp add: r'_def unat_add64)
      define k where "k = unat (q - 1)"
      have "unat q = k + 1" using q1 unfolding k_def by linarith
      then have num: "unat (q - 1) * unat v1 + unat r' = num"
        unfolding p(1) [symmetric] r' k_def [symmetric] by (simp add: algebra_simps)
      show ?thesis
      proof (cases "hi32 r' \<noteq> 0")
        case False
        then have l: "qhat_loop q r v1 v2 u2 = qhat_loop (q - 1) r' v1 v2 u2"
          using True by (subst qhat_loop.simps) (simp add: Let_def r'_def)
        show ?thesis unfolding l
          using False num Qlt q1 p
          by (intro "1.IH" [OF True refl r'_def]) (simp_all add: hi32_eq0)
      next
        case brk: True
        then have l: "qhat_loop q r v1 v2 u2 = q - 1"
          using True by (subst qhat_loop.simps) (simp add: Let_def r'_def)
        have big: "lbase \<le> unat r'" using brk by (simp add: hi32_eq0)
        have d: "unat (q - 1) < lbase"
        proof (rule ccontr)
          assume "\<not> unat (q - 1) < lbase"
          then have "lbase * unat v1 \<le> unat (q - 1) * unat v1" by (intro mult_le_mono1) simp
          moreover have "num < lbase * unat v1 + lbase" using p(6) by (simp add: algebra_simps)
          ultimately show False using num big by linarith
        qed
        have "unat (q - 1) * unat v2 \<le> lbase * lbase" using d by (intro mult_le_mono) (simp_all add: less_imp_le)
        also have "\<dots> \<le> unat r' * lbase" using big by (rule mult_le_mono1)
        finally have "unat (q - 1) * (unat v1 * lbase + unat v2) \<le> num * lbase"
          unfolding num [symmetric] by (simp add: algebra_simps)
        then show ?thesis unfolding l using d Qlt q1 by linarith
      qed
    qed
  qed
  then show "Q \<le> d" "d < lbase" "d * (unat v1 * lbase + unat v2) \<le> num * lbase + unat u2"
    unfolding d_def by blast+
qed

section \<open>One digit: multiply, subtract, add back\<close>

text \<open>
  \<open>k\<close> and \<open>t\<close> are \<open>int64_t\<close> in the source: \<open>k\<close> stays within \<open>0 .. 2\<^sup>3\<^sup>2\<close> (lemma
  \<open>mulsub_borrow_bound\<close>), so neither wraps; \<open>t >> 32\<close> is the division by \<open>2\<^sup>3\<^sup>2\<close> rounding down.
\<close>

fun mulsub :: "int \<Rightarrow> u64 \<Rightarrow> limbs \<Rightarrow> limbs \<Rightarrow> limbs \<times> int" where
  "mulsub k qhat (x # w) (y # v) =
     (let p = qhat * w64 y;
          t = uint x - k - uint (lo32 p);
          (ws, k') = mulsub (uint (hi32 p) - t div 4294967296) qhat w v
      in (word_of_int t # ws, k'))"
| "mulsub k qhat w v = ([], k)"

fun add_back :: "u64 \<Rightarrow> limbs \<Rightarrow> limbs \<Rightarrow> limbs \<times> u64" where
  "add_back c (x # w) (y # v) =
     (let s = w64 x + w64 y + c;
          (ws, c') = add_back (hi32 s) w v
      in (lo32 s # ws, c'))"
| "add_back c w v = ([], c)"

lemma length_mulsub [simp]: "length w = length v \<Longrightarrow> length (fst (mulsub k q w v)) = length v"
  by (induction k q w v rule: mulsub.induct) (auto simp: Let_def split: prod.split)

lemma length_add_back [simp]: "length w = length v \<Longrightarrow> length (fst (add_back c w v)) = length v"
  by (induction c w v rule: add_back.induct) (auto simp: Let_def split: prod.split)

lemma unat_digit_mult: "unat q < lbase \<Longrightarrow> unat (q * w64 y) = unat q * unat y"
  using mult_strict_mono [of "unat q" lbase "unat y" lbase] by (simp add: unat_mult64)

lemma mulsub_val:
  "length w = length v \<Longrightarrow> unat q < lbase \<Longrightarrow>
   int (lval (fst (mulsub k q w v))) =
     int (lval w) - k - int (unat q) * int (lval v)
     + int lbase ^ length v * snd (mulsub k q w v)"
proof (induction k q w v rule: mulsub.induct)
  case (1 k q x w y v)
  define p where "p = q * w64 y"
  define t where "t = uint x - k - uint (lo32 p)"
  define k' where "k' = uint (hi32 p) - t div 4294967296"
  have IH: "int (lval (fst (mulsub k' q w v)))
      = int (lval w) - k' - int (unat q) * int (lval v)
        + int lbase ^ length v * snd (mulsub k' q w v)"
    using 1(2,3) by (intro 1(1) [OF p_def t_def, folded k'_def]) simp_all
  have e: "mulsub k q (x # w) (y # v)
      = (word_of_int t # fst (mulsub k' q w v), snd (mulsub k' q w v))"
    by (simp add: p_def t_def k'_def Let_def split: prod.split)
  have tw: "uint (word_of_int t :: u32) + int lbase * (t div 4294967296) = t"
    by (simp add: uint_word_of_int_eq take_bit_int_def lbase_def)
  have pw: "uint (lo32 p) + int lbase * uint (hi32 p) = int (unat q) * uint y"
    using lo_hi_32 [of p] unat_digit_mult [OF 1(3), of y]
    by (metis of_nat_add of_nat_mult of_nat_unat p_def)
  have tw': "uint (word_of_int t :: u32) = t - int lbase * (t div 4294967296)" using tw by linarith
  have pw': "uint (lo32 p) = int (unat q) * uint y - int lbase * uint (hi32 p)" using pw by linarith
  show ?case
    unfolding e fst_conv snd_conv lval.simps(2) of_nat_add of_nat_mult of_nat_unat IH tw'
    unfolding k'_def t_def pw' by (simp add: algebra_simps)
qed simp_all

lemma mulsub_borrow_bound:
  "0 \<le> k \<Longrightarrow> k \<le> int lbase \<Longrightarrow> unat q < lbase \<Longrightarrow>
   0 \<le> snd (mulsub k q w v) \<and> snd (mulsub k q w v) \<le> int lbase"
proof (induction k q w v rule: mulsub.induct)
  case (1 k q x w y v)
  define p where "p = q * w64 y"
  define t where "t = uint x - k - uint (lo32 p)"
  define k' where "k' = uint (hi32 p) - t div 4294967296"
  have lb: "int lbase = 4294967296" by (simp add: lbase_def)
  have b: "0 \<le> uint x" "uint x < 4294967296" "0 \<le> uint (lo32 p)" "uint (lo32 p) < 4294967296"
    using uint_u32_less [of x] uint_u32_less [of "lo32 p"] unfolding lb by simp_all
  have t: "- (2 * 4294967296) < t" "t < 4294967296"
    using 1(2,3) b unfolding t_def lb by linarith+
  then have td: "- 2 \<le> t div 4294967296" "t div 4294967296 \<le> 0" by linarith+
  have "unat q * unat y \<le> (lbase - 1) * (lbase - 1)"
    using 1(4) unat_u32_le [of y] by (intro mult_le_mono) linarith+
  also have "\<dots> < (lbase - 1) * lbase" by (simp add: lbase_def)
  finally have "unat p < (lbase - 1) * lbase" using 1(4) by (simp add: p_def unat_digit_mult)
  then have "unat (hi32 p) < lbase - 1" by (simp add: word_split less_mult_imp_div_less)
  then have "int (unat (hi32 p)) < int (lbase - 1)" by (simp only: of_nat_less_iff)
  then have "uint (hi32 p) \<le> int lbase - 2" by (simp add: lbase_def)
  moreover have "0 \<le> uint (hi32 p)" by simp
  ultimately have "0 \<le> k'" "k' \<le> int lbase" unfolding k'_def using td by linarith+
  then have "0 \<le> snd (mulsub k' q w v) \<and> snd (mulsub k' q w v) \<le> int lbase"
    using 1(4) by (intro 1(1) [OF p_def t_def, folded k'_def])
  moreover have "snd (mulsub k q (x # w) (y # v)) = snd (mulsub k' q w v)"
    by (simp add: p_def t_def k'_def Let_def split: prod.split)
  ultimately show ?case by simp
qed simp_all

lemma add_back_val:
  "length w = length v \<Longrightarrow> unat c \<le> 1 \<Longrightarrow>
   lval (fst (add_back c w v)) + lbase ^ length v * unat (snd (add_back c w v))
     = lval w + lval v + unat c \<and> unat (snd (add_back c w v)) \<le> 1"
proof (induction c w v rule: add_back.induct)
  case (1 c x w y v)
  define s where "s = w64 x + w64 y + c"
  have bound: "unat x + unat y + unat c < 2 * lbase"
    using 1(3) unat_u32_less [of x] unat_u32_less [of y] by linarith
  moreover have "2 * lbase < lbase * lbase" by (simp add: lbase_def)
  ultimately have bound2: "unat x + unat y + unat c < lbase * lbase" by linarith
  then have "unat (w64 x + w64 y) = unat x + unat y" by (subst unat_add64) simp_all
  with bound2 have s: "unat s = unat x + unat y + unat c" by (simp add: s_def unat_add64)
  with bound have "unat (hi32 s) < 2" by (simp add: word_split less_mult_imp_div_less)
  then have IH: "lval (fst (add_back (hi32 s) w v))
        + lbase ^ length v * unat (snd (add_back (hi32 s) w v))
      = lval w + lval v + unat (hi32 s)" "unat (snd (add_back (hi32 s) w v)) \<le> 1"
    using 1(1) [OF s_def] 1(2) by simp_all
  have e: "add_back c (x # w) (y # v)
      = (lo32 s # fst (add_back (hi32 s) w v), snd (add_back (hi32 s) w v))"
    by (simp add: s_def Let_def split: prod.split)
  have "lval (fst (add_back c (x # w) (y # v)))
        + lbase ^ length (y # v) * unat (snd (add_back c (x # w) (y # v)))
      = unat (lo32 s) + lbase * (lval (fst (add_back (hi32 s) w v))
        + lbase ^ length v * unat (snd (add_back (hi32 s) w v)))"
    unfolding e by (simp add: algebra_simps)
  also have "\<dots> = (unat (lo32 s) + lbase * unat (hi32 s)) + lbase * (lval w + lval v)"
    unfolding IH(1) by (simp add: algebra_simps)
  also have "\<dots> = lval (x # w) + lval (y # v) + unat c"
    unfolding lo_hi_32 s by (simp add: algebra_simps)
  finally show ?case using IH(2) e by simp
qed simp_all

text \<open>
  The body of the digit loop, on the whole dividend \<open>un\<close>: the window \<open>un[j .. j + n - 1]\<close>, the cell
  \<open>un[j + n]\<close> above it and the quotient digit.
\<close>

definition div_step :: "limbs \<Rightarrow> nat \<Rightarrow> limbs \<Rightarrow> limbs \<times> u32" where
  "div_step vn j un =
     (let n = length vn;
          qhat = trial_digit (un ! (j + n)) (un ! (j + n - 1)) (un ! (j + n - 2))
                   (vn ! (n - 1)) (vn ! (n - 2));
          (w, k) = mulsub 0 qhat (take n (drop j un)) vn;
          t = uint (un ! (j + n)) - k;
          top = word_of_int t
      in if t < 0
         then let (w', c) = add_back 0 w vn
           in (take j un @ w' @ [top + lo32 c] @ drop (j + n + 1) un, lo32 qhat - 1)
         else (take j un @ w @ [top] @ drop (j + n + 1) un, lo32 qhat))"

fun div_loop :: "limbs \<Rightarrow> nat \<Rightarrow> limbs \<Rightarrow> limbs \<Rightarrow> limbs \<times> limbs" where
  "div_loop vn 0 un q = (un, q)"
| "div_loop vn (Suc j) un q = (let (un', d) = div_step vn j un in div_loop vn j un' (d # q))"

definition big_divmnu :: "limbs \<Rightarrow> limbs \<Rightarrow> limbs \<times> limbs" where
  "big_divmnu u v =
     (let s = clz32 (last v);
          n = length v;
          vn = norm_limbs s v;
          (un, q) = div_loop vn (length u - n + 1) (norm_dividend s u) []
      in (q, denorm s (take n un)))"

text \<open>
  The bound that makes one add-back enough: a digit that passes the two-digit test is at most one
  above the true digit.
\<close>

lemma digit_estimate:
  fixes W V P U3 V2 q low vlow :: nat
  assumes "W = low + P * U3" "V = vlow + P * V2" "vlow < P"
    and "q * V2 \<le> U3" "q < B" "B \<le> V2"
  shows "q \<le> W div V + 1"
proof (rule ccontr)
  assume c: "\<not> q \<le> W div V + 1"
  have "0 < V" using assms by (cases "P = 0") simp_all
  have "q * V = q * vlow + P * (q * V2)" unfolding assms(2) by (simp add: algebra_simps)
  also have "\<dots> \<le> q * P + P * U3"
    using assms(3,4) by (intro add_le_mono mult_le_mono2) simp_all
  also have "q * P \<le> V2 * P" using assms(5,6) by (intro mult_le_mono1) simp
  finally have "q * V \<le> W + V" unfolding assms(1,2) by (simp add: algebra_simps)
  moreover have "(W div V + 2) * V \<le> q * V" using c by (intro mult_le_mono1) simp
  moreover have "W < (W div V + 1) * V"
    using \<open>0 < V\<close> by (metis Suc_eq_plus1 dividend_less_div_times mult.commute mult_Suc_right add.commute)
  ultimately show False by (simp add: algebra_simps)
qed

lemma lval_top2:
  assumes "2 \<le> length w"
  shows "lval w = lval (take (length w - 2) w)
    + lbase ^ (length w - 2) * (unat (w ! (length w - 1)) * lbase + unat (w ! (length w - 2)))"
proof -
  obtain n where n: "length w = Suc (Suc n)" using assms by (metis Suc_eq_plus1 add_2_eq_Suc le_Suc_ex)
  have "lval w = lval (take (Suc (Suc n)) w)" using n by simp
  also have "\<dots> = lval (take n w) + lbase ^ n * unat (w ! n) + lbase ^ Suc n * unat (w ! Suc n)"
    using n by (simp only: lval_take_Suc lessI less_SucI)
  finally show ?thesis using n by (simp add: algebra_simps)
qed

lemma trial_digit_props:
  assumes n: "length w = n" "length vn = n" "2 \<le> n"
    and norm: "lbase \<le> 2 * unat (vn ! (n - 1))"
    and W: "W = lval w + lbase ^ n * unat u0" "W < lbase * lval vn"
  defines "q \<equiv> trial_digit u0 (w ! (n - 1)) (w ! (n - 2)) (vn ! (n - 1)) (vn ! (n - 2))"
  shows "unat q < lbase" "W div lval vn \<le> unat q" "unat q \<le> W div lval vn + 1"
proof -
  define v1 v2 u1 u2 where vu: "v1 = vn ! (n - 1)" "v2 = vn ! (n - 2)" "u1 = w ! (n - 1)" "u2 = w ! (n - 2)"
  define P where "P = lbase ^ (n - 2)"
  define num where "num = unat u0 * lbase + unat u1"
  define U3 where "U3 = num * lbase + unat u2"
  define V2 where "V2 = unat v1 * lbase + unat v2"
  define Q where "Q = W div lval vn"
  have P: "0 < P" "lbase ^ n = P * lbase * lbase"
    using n(3) by (simp_all add: P_def power_add [symmetric] flip: power_Suc2 power_Suc
        add: Suc_diff_le numeral_2_eq_2)
  have Wd: "W = lval (take (n - 2) w) + P * U3"
    using lval_top2 [of w] n W(1) P(2)
    by (simp add: U3_def num_def vu P_def algebra_simps)
  have Vd: "lval vn = lval (take (n - 2) vn) + P * V2"
    using lval_top2 [of vn] n by (simp add: V2_def vu P_def)
  have lows: "lval (take (n - 2) w) < P" "lval (take (n - 2) vn) < P"
    unfolding P_def by (rule lval_take_less)+
  have v1: "0 < unat v1" "lbase \<le> 2 * unat v1" using norm by (simp_all add: vu) (use lbase_pos in linarith)
  have u0: "unat u0 \<le> unat v1"
  proof (rule ccontr)
    assume "\<not> unat u0 \<le> unat v1"
    then have "P * (lbase * lbase) * (unat v1 + 1) \<le> P * (lbase * lbase) * unat u0"
      by (intro mult_le_mono2) simp
    also have "\<dots> \<le> W" unfolding W(1) P(2) by (simp add: algebra_simps)
    also have "W < lbase * (P * (V2 + 1))"
    proof -
      have "lval vn \<le> P * (V2 + 1)" using lows(2) unfolding Vd by simp
      then show ?thesis using W(2) by (meson less_le_trans mult_le_mono2)
    qed
    also have "\<dots> \<le> lbase * (P * (lbase * (unat v1 + 1)))"
      by (intro mult_le_mono2) (simp add: V2_def algebra_simps Suc_le_eq)
    finally show False by (simp add: algebra_simps)
  qed
  have num_less: "num < (unat v1 + 1) * lbase"
  proof -
    have "unat u0 * lbase \<le> unat v1 * lbase" using u0 by (rule mult_le_mono1)
    then show ?thesis using unat_u32_less [of u1] unfolding num_def distrib_right mult_1 by linarith
  qed
  have QV: "Q * lval vn \<le> W" by (simp add: Q_def)
  have Q2: "Q * V2 \<le> U3"
  proof -
    have "P * (Q * V2) \<le> Q * lval vn" unfolding Vd by (simp add: algebra_simps)
    also have "\<dots> < P * (U3 + 1)" using QV lows(1) unfolding Wd by (simp add: algebra_simps)
    finally have "Q * V2 < U3 + 1" using P(1) by (simp only: mult_less_cancel1)
    then show ?thesis by simp
  qed
  have Q1: "Q * unat v1 \<le> num"
  proof -
    have "lbase * (Q * unat v1) \<le> Q * V2" by (simp add: V2_def algebra_simps)
    also have "\<dots> < lbase * (num + 1)"
    proof -
      have "lbase * (num + 1) = num * lbase + lbase" by (simp add: algebra_simps)
      then show ?thesis using Q2 unat_u32_less [of u2] unfolding U3_def by linarith
    qed
    finally have "Q * unat v1 < num + 1" by (simp only: mult_less_cancel1)
    then show ?thesis by simp
  qed
  have QB: "Q < lbase" unfolding Q_def using W(2) by (intro less_mult_imp_div_less)
  have j: "unat (join64 (w64 u0) u1) = num" by (simp add: unat_join64 num_def)
  have qd: "q = qhat_loop (join64 (w64 u0) u1 div w64 v1) (join64 (w64 u0) u1 mod w64 v1) v1 v2 u2"
    by (simp add: q_def trial_digit_def Let_def vu)
  have "num div unat v1 < lbase + 2"
  proof (rule less_mult_imp_div_less)
    have "num < unat v1 * lbase + lbase" using num_less by (simp add: algebra_simps)
    also have "\<dots> \<le> (lbase + 2) * unat v1" using v1(2) by (simp add: algebra_simps)
    finally show "num < (lbase + 2) * unat v1" .
  qed
  then have q0: "unat (join64 (w64 u0) u1 div w64 v1) \<le> lbase + 1" by (simp add: unat_div_distrib j)
  have "Q \<le> num div unat v1" using Q1 v1(1) by (simp add: less_eq_div_iff_mult_less_eq)
  then have q1: "Q \<le> unat (join64 (w64 u0) u1 div w64 v1)" by (simp add: unat_div_distrib j)
  have r0: "unat (join64 (w64 u0) u1 mod w64 v1) < lbase"
    using v1(1) by (simp add: unat_mod_distrib j) (meson less_trans mod_less_divisor unat_u32_less)
  have e: "unat (join64 (w64 u0) u1 div w64 v1) * unat v1
      + unat (join64 (w64 u0) u1 mod w64 v1) = num"
    by (simp add: unat_div_distrib unat_mod_distrib j)
  note props = qhat_loop_props [OF e r0 q0 q1 QB num_less Q2 [unfolded V2_def U3_def], folded qd]
  show "unat q < lbase" "W div lval vn \<le> unat q" using props by (simp_all add: Q_def)
  have "lbase \<le> V2" using v1(1) unfolding V2_def by (simp add: trans_le_add1)
  with props(2,3) show "unat q \<le> W div lval vn + 1"
    by (intro digit_estimate [OF Wd Vd lows(2)]) (simp_all add: V2_def U3_def)
qed

lemma mod_window:
  fixes W V d r p :: nat
  assumes "W = d * V + r" "r < V"
  shows "d = W div V" "r = W mod V"
  using assms by simp_all

text \<open>A window of \<open>n\<close> limbs and the digit above it: the step leaves the remainder and a zero.\<close>

lemma div_step_window:
  fixes un vn :: limbs and j n :: nat
  defines "n \<equiv> length vn"
  defines "W \<equiv> lval (take n (drop j un)) + lbase ^ n * unat (un ! (j + n))"
  assumes size: "2 \<le> n" "j + n < length un"
    and norm: "lbase \<le> 2 * unat (vn ! (n - 1))" and bound: "W < lbase * lval vn"
  obtains w where "length w = n" "lval w = W mod lval vn"
    "div_step vn j un
      = (take j un @ w @ [0] @ drop (j + n + 1) un, word_of_nat (W div lval vn))"
proof -
  let ?w = "take n (drop j un)"
  define q where "q = trial_digit (un ! (j + n)) (un ! (j + n - 1)) (un ! (j + n - 2))
    (vn ! (n - 1)) (vn ! (n - 2))"
  have lw: "length ?w = n" using size by simp
  have ln: "length vn = n" by (simp add: n_def)
  have W: "W = lval ?w + lbase ^ n * unat (un ! (j + n))" by (simp only: W_def)
  have nths: "un ! (j + n - 1) = ?w ! (n - 1)" "un ! (j + n - 2) = ?w ! (n - 2)"
    using size by simp_all
  note q = trial_digit_props [OF lw ln size(1) norm W bound, folded nths, folded q_def]
  define w k where "w = fst (mulsub 0 q ?w vn)" "k = snd (mulsub 0 q ?w vn)"
  define t where "t = uint (un ! (j + n)) - k"
  have lenw: "length w = length vn" using lw ln by (simp add: w_k_def)
  have mv: "int (lval w) = int (lval ?w) - int (unat q) * int (lval vn) + int lbase ^ n * k"
    using mulsub_val [of ?w vn q 0] lw ln q(1) by (simp add: w_k_def)
  have tot: "int (lval w) + int lbase ^ n * t = int W - int (unat q) * int (lval vn)"
    unfolding mv t_def W_def by (simp add: algebra_simps)
  have Vpos: "0 < lval vn" using bound by (cases "lval vn") simp_all
  have Vless: "lval vn < lbase ^ n" using lval_less [of vn] by (simp add: n_def)
  have wless: "lval w < lbase ^ n" using lval_less [of w] lenw by (simp add: n_def)
  have st: "div_step vn j un = (if t < 0
      then (take j un @ fst (add_back 0 w vn) @ [word_of_int t + lo32 (snd (add_back 0 w vn))]
        @ drop (j + n + 1) un, lo32 q - 1)
      else (take j un @ w @ [word_of_int t] @ drop (j + n + 1) un, lo32 q))"
    unfolding div_step_def Let_def case_prod_beta t_def w_k_def q_def n_def by (rule refl)
  have Wd: "W = (W div lval vn) * lval vn + W mod lval vn" by simp
  have Wm: "W mod lval vn < lval vn" using Vpos by simp
  have P: "0 < int lbase ^ n" by simp
  have bounds: "int (W mod lval vn) < int lbase ^ n" "int (lval vn) < int lbase ^ n"
    "int (lval w) < int lbase ^ n" "0 \<le> int (W mod lval vn)" "0 \<le> int (lval w)"
    using Wm Vless wless by (simp_all flip: of_nat_power)
  show ?thesis
  proof (cases "unat q = W div lval vn")
    case True
    then have R: "int (lval w) + int lbase ^ n * t = int (W mod lval vn)"
      using tot by (metis add_diff_cancel_left' Wd of_nat_add of_nat_mult)
    then have "int lbase ^ n * t < int lbase ^ n * 1" "int lbase ^ n * (- 1) < int lbase ^ n * t"
      using bounds by linarith+
    then have "t < 1" "- 1 < t" using P by (simp_all only: mult_less_cancel_left_pos)
    then have t0: "t = 0" by simp
    have "lo32 q = word_of_nat (W div lval vn)"
      unfolding True [symmetric] lo32_def by simp
    then show ?thesis
      using R t0 st lenw by (intro that [of w]) (simp_all add: ln)
  next
    case False
    then have qd: "unat q = W div lval vn + 1" using q by simp
    have R: "int (lval w) + int lbase ^ n * t = int (W mod lval vn) - int (lval vn)"
      using tot Wd unfolding qd
      by (metis (no_types, lifting) add_diff_cancel_left' diff_diff_eq distrib_right mult_1
          of_nat_1 of_nat_add of_nat_mult)
    have "int lbase ^ n * t < int lbase ^ n * 0" "int lbase ^ n * (- 2) < int lbase ^ n * t"
      using R bounds Wm by linarith+
    then have "t < 0" "- 2 < t" using P by (simp_all only: mult_less_cancel_left_pos)
    then have t1: "t = - 1" by simp
    define ws c where "ws = fst (add_back 0 w vn)" "c = snd (add_back 0 w vn)"
    have ab: "lval ws + lbase ^ n * unat c = lval w + lval vn" "unat c \<le> 1" "length ws = n"
      using add_back_val [of w vn 0] lenw ln by (simp_all add: ws_c_def)
    then have "int (lval ws) + int lbase ^ n * int (unat c) = int (lval w) + int (lval vn)"
      by (metis of_nat_add of_nat_mult of_nat_power)
    with R t1 have abR: "int (lval ws) + int lbase ^ n * (int (unat c) - 1) = int (W mod lval vn)"
      by (simp add: algebra_simps)
    have "unat c \<noteq> 0"
    proof
      assume "unat c = 0"
      then have "int (lval ws) = int (W mod lval vn) + int lbase ^ n" using abR by simp
      moreover have "int (lval ws) < int lbase ^ n"
        using lval_less [of ws] ab(3) by (metis of_nat_less_iff of_nat_power)
      ultimately show False by linarith
    qed
    with ab(2) have "unat c = 1" by simp
    then have c1: "c = 1" by (metis unsigned_1 word_unat_eq_iff)
    have "lo32 q - 1 = word_of_nat (unat q) - 1" by (simp add: lo32_def)
    then have "lo32 q - 1 = word_of_nat (W div lval vn)" unfolding qd by simp
    moreover have "lval ws = W mod lval vn" using abR c1 by simp
    moreover have "word_of_int (- 1) + lo32 1 = 0" by (simp add: lo32_def)
    ultimately show ?thesis
      using t1 st ab(3) c1 by (intro that [of ws]) (simp_all add: ws_c_def)
  qed
qed

text \<open>The same step on the value of the whole dividend.\<close>

lemma lval_zero_replicate: "lval xs = 0 \<Longrightarrow> xs = replicate (length xs) 0"
  by (simp add: lval_zero_iff replicate_length_same)

lemma drop_value_zero:
  assumes "lval xs < lbase ^ n" shows "lval (drop n xs) = 0"
proof (cases "n \<le> length xs")
  case True
  have "lbase ^ n * lval (drop n xs) \<le> lval xs" using lval_take_drop_le [OF True] by linarith
  then have "lbase ^ n * lval (drop n xs) < lbase ^ n * 1" using assms by linarith
  then show ?thesis by (simp only: mult_less_cancel1 less_one)
qed simp

lemma div_step_value:
  assumes size: "2 \<le> length vn" "j + length vn < length un"
    and norm: "lbase \<le> 2 * unat (vn ! (length vn - 1))"
    and high: "lval (drop (Suc j) un) < lval vn"
  obtains un' d where "div_step vn j un = (un', d)" "length un' = length un"
    "lval (drop j un') < lval vn" "lval un = lval un' + lbase ^ j * (unat d * lval vn)"
proof -
  define n where "n = length vn"
  define W where "W = lval (take n (drop j un)) + lbase ^ n * unat (un ! (j + n))"
  have j: "j < length un" using size by simp
  have "lval (drop (Suc j) un) < lbase ^ n"
    using less_trans [OF high lval_less [of vn]] by (simp add: n_def)
  then have "lval (drop n (drop (Suc j) un)) = 0" by (rule drop_value_zero)
  then have z: "lval (drop (j + n + 1) un) = 0" by (simp add: add.commute)
  have "drop (j + n) un = un ! (j + n) # drop (j + n + 1) un"
    using size by (simp add: Cons_nth_drop_Suc n_def)
  then have "lval (drop (j + n) un) = unat (un ! (j + n))" using z by simp
  moreover have "lval (drop j un) = lval (take n (drop j un)) + lbase ^ n * lval (drop n (drop j un))"
    using size by (intro lval_cut) (simp add: n_def)
  ultimately have Wd: "lval (drop j un) = W" by (simp add: W_def add.commute)
  have "drop j un = un ! j # drop (Suc j) un" using j by (simp add: Cons_nth_drop_Suc)
  then have "W = unat (un ! j) + lbase * lval (drop (Suc j) un)" using Wd by simp
  also have "\<dots> < lbase * (lval (drop (Suc j) un) + 1)" by simp
  also have "\<dots> \<le> lbase * lval vn" using high by (intro mult_le_mono2) simp
  finally have bound: "W < lbase * lval vn" .
  obtain w where w: "length w = n" "lval w = W mod lval vn" "div_step vn j un
      = (take j un @ w @ [0] @ drop (j + n + 1) un, word_of_nat (W div lval vn))"
    using div_step_window [of vn j un] size norm bound unfolding n_def W_def by blast
  let ?un' = "take j un @ w @ [0] @ drop (j + n + 1) un"
  have Q: "unat (word_of_nat (W div lval vn) :: u32) = W div lval vn"
  proof -
    have "W div lval vn < 2 ^ 32"
      using bound by (simp add: less_mult_imp_div_less lbase_def)
    then show ?thesis by (simp add: unsigned_of_nat take_bit_nat_eq_self)
  qed
  have V: "0 < lval vn" using high by simp
  show ?thesis
  proof (rule that [OF w(3)])
    show "length ?un' = length un" using size w(1) by (simp add: n_def)
    have d: "lval (drop j ?un') = W mod lval vn"
      using j z w by (simp add: lval_append)
    then show "lval (drop j ?un') < lval vn" using V by simp
    have "lval un = lval (take j un) + lbase ^ j * W"
      using lval_cut [of j un] j Wd by simp
    also have "lbase ^ j * W = lbase ^ j * (W mod lval vn + W div lval vn * lval vn)" by simp
    also have "lval (take j un) + \<dots> = lval ?un' + lbase ^ j * (W div lval vn * lval vn)"
    proof -
      have "lval ?un' = lval (take j un) + lbase ^ j * (W mod lval vn)"
        using j z w by (simp add: lval_append)
      then show ?thesis by (simp only: distrib_left add.assoc)
    qed
    finally show "lval un = lval ?un' + lbase ^ j * (unat (word_of_nat (W div lval vn) :: u32) * lval vn)"
      using Q by simp
  qed
qed

lemma div_loop_value:
  assumes "2 \<le> length vn" "lbase \<le> 2 * unat (vn ! (length vn - 1))"
  shows "j + length vn \<le> length un \<Longrightarrow> lval (drop j un) < lval vn \<Longrightarrow>
    \<exists>un' ds. div_loop vn j un q = (un', ds @ q) \<and> length ds = j \<and> length un' = length un
      \<and> lval un = lval ds * lval vn + lval un' \<and> lval un' < lval vn"
proof (induction j arbitrary: un q)
  case (Suc j)
  obtain un1 d where s: "div_step vn j un = (un1, d)" "length un1 = length un"
    "lval (drop j un1) < lval vn" "lval un = lval un1 + lbase ^ j * (unat d * lval vn)"
    using div_step_value [of vn j un] assms Suc.prems by auto
  obtain un' ds where IH: "div_loop vn j un1 (d # q) = (un', ds @ d # q)" "length ds = j"
    "length un' = length un1" "lval un1 = lval ds * lval vn + lval un'" "lval un' < lval vn"
    using Suc.IH [of un1 "d # q"] s Suc.prems(1) by auto
  have "lval un = lval (ds @ [d]) * lval vn + lval un'"
    using s(4) IH(2,4) by (simp add: lval_append algebra_simps)
  moreover have "div_loop vn (Suc j) un q = (un', (ds @ [d]) @ q)" using s(1) IH(1) by simp
  ultimately show ?case using IH s(2) by (intro exI [of _ un'] exI [of _ "ds @ [d]"]) simp
qed simp

lemma big_divmnu_correct:
  assumes "2 \<le> length v" "length v \<le> length u" "last v \<noteq> 0"
  obtains q r where "big_divmnu u v = (q, r)" "lval q = lval u div lval v" "lval r = lval u mod lval v"
    "length q = length u - length v + 1" "length r = length v"
proof -
  define s n where "s = clz32 (last v)" "n = length v"
  define vn un where "vn = norm_limbs s v" "un = norm_dividend s u"
  have ne: "v \<noteq> []" "u \<noteq> []" using assms by auto
  have s: "s \<le> 31" unfolding s_n_def by (rule clz32_bounds [OF assms(3)])
  have vv: "lval vn = 2 ^ s * lval v" "length vn = n"
    using lval_norm_divisor [OF ne(1) assms(3)] by (simp_all add: vn_un_def s_n_def)
  have uv: "lval un = 2 ^ s * lval u" "length un = length u + 1"
    using lval_norm_dividend [OF s ne(2)] by (simp_all add: vn_un_def)
  have vpos: "lbase ^ (n - 1) \<le> lval v" using lval_last_bound [OF ne(1) assms(3)] by (simp add: s_n_def)
  have top: "lbase \<le> 2 * unat (vn ! (length vn - 1))"
  proof -
    have "lval vn = lval (take (n - 1) vn) + lbase ^ (n - 1) * unat (vn ! (n - 1))"
      using lval_take_Suc [of "n - 1" vn] vv(2) assms(1) by (simp add: s_n_def)
    moreover have "lval (take (n - 1) vn) < lbase ^ (n - 1)" by (rule lval_take_less)
    ultimately have "lval vn < lbase ^ (n - 1) * (unat (vn ! (n - 1)) + 1)" by simp
    moreover have "lbase ^ (n - 1) * 2147483648 \<le> lval vn"
    proof -
      have "lval v = lval (take (n - 1) v) + lbase ^ (n - 1) * unat (last v)"
        using lval_take_Suc [of "n - 1" v] assms(1) ne(1) by (simp add: s_n_def last_conv_nth)
      then have "lbase ^ (n - 1) * (unat (last v) * 2 ^ s) \<le> lval vn"
        unfolding vv(1) by (simp add: algebra_simps)
      moreover have "lbase ^ (n - 1) * 2147483648 \<le> lbase ^ (n - 1) * (unat (last v) * 2 ^ s)"
        using clz32_bounds(2) [OF assms(3)] unfolding s_n_def by (rule mult_le_mono2)
      ultimately show ?thesis by (rule order_trans [rotated])
    qed
    ultimately have "lbase ^ (n - 1) * 2147483648 < lbase ^ (n - 1) * (unat (vn ! (n - 1)) + 1)"
      by linarith
    then have "2147483648 < unat (vn ! (n - 1)) + 1" by (simp only: mult_less_cancel1)
    then show ?thesis using vv(2) by (simp add: lbase_def)
  qed
  have m: "length u - n + 1 + length vn \<le> length un" "length u - n + 1 \<le> length un"
    using assms(1,2) uv(2) vv(2) by (simp_all add: s_n_def)
  have "lval (drop (length u - n + 1) un) < lval vn"
  proof -
    have "lbase ^ (length u - n + 1) * lval (drop (length u - n + 1) un) \<le> lval un"
      using lval_take_drop_le [OF m(2)] by linarith
    also have "\<dots> < 2 ^ s * lbase ^ length u" unfolding uv(1) by simp
    also have "lbase ^ length u = lbase ^ (length u - n + 1) * lbase ^ (n - 1)"
    proof -
      have "length u = (length u - n + 1) + (n - 1)" using assms(1,2) by (simp add: s_n_def)
      then show ?thesis by (metis power_add)
    qed
    finally have "lval (drop (length u - n + 1) un) < 2 ^ s * lbase ^ (n - 1)"
      by (simp add: mult.left_commute del: power_Suc)
    also have "\<dots> \<le> lval vn" unfolding vv(1) using vpos by simp
    finally show ?thesis .
  qed
  then obtain un' ds where d: "div_loop vn (length u - n + 1) un [] = (un', ds @ [])"
    "length ds = length u - n + 1" "length un' = length un"
    "lval un = lval ds * lval vn + lval un'" "lval un' < lval vn"
    using div_loop_value [OF _ top m(1), of "[]"] assms(1) vv(2) by (auto simp: s_n_def)
  show ?thesis
  proof (rule that)
    show "big_divmnu u v = (ds, denorm s (take n un'))"
      using d(1) by (simp add: big_divmnu_def Let_def s_n_def vn_un_def)
    have e: "2 ^ s * lval u = 2 ^ s * (lval ds * lval v) + lval un'"
      using d(4) unfolding uv(1) vv(1) by (simp add: algebra_simps)
    have "2 ^ s dvd lval un'" using e by (metis dvd_add_right_iff dvd_triv_left)
    then obtain R where R: "lval un' = 2 ^ s * R" by blast
    have "2 ^ s * lval u = 2 ^ s * (lval ds * lval v + R)" using e R by (simp add: algebra_simps)
    then have u: "lval u = lval ds * lval v + R" by simp
    have "R < lval v" using d(5) unfolding R vv(1) by simp
    note dm = mod_window [OF u this]
    then show "lval ds = lval u div lval v" by simp
    have "lval un' < lbase ^ n" using d(5) lval_less [of vn] vv(2) by simp
    then have "lval (drop n un') = 0" by (rule drop_value_zero)
    then have "lval (take n un') = lval un'"
      using lval_cut [of n un'] d(3) uv(2) assms(2) by (simp add: s_n_def)
    then have "lval (denorm s (take n un')) = R" using lval_denorm [OF s] R by simp
    then show "lval (denorm s (take n un')) = lval u mod lval v" using dm by simp
    show "length ds = length u - length v + 1" using d(2) by (simp add: s_n_def)
    show "length (denorm s (take n un')) = length v"
      using d(3) uv(2) assms(2) by (simp add: s_n_def)
  qed
qed

text \<open>
  C7. \<open>big_divmnu\<close> computes quotient and remainder: for a divisor of two limbs or more with a
  nonzero top limb the digits it leaves are those of \<open>u div v\<close> and \<open>u mod v\<close>, in the cells the
  caller allocated.
\<close>

theorem big_divmnu_divides:
  assumes "2 \<le> length v" "length v \<le> length u" "last v \<noteq> 0"
  shows "lval (fst (big_divmnu u v)) = lval u div lval v
    \<and> lval (snd (big_divmnu u v)) = lval u mod lval v
    \<and> length (fst (big_divmnu u v)) = length u - length v + 1
    \<and> length (snd (big_divmnu u v)) = length v"
proof -
  obtain q r where "big_divmnu u v = (q, r)" "lval q = lval u div lval v"
    "lval r = lval u mod lval v" "length q = length u - length v + 1" "length r = length v"
    by (rule big_divmnu_correct [OF assms])
  then show ?thesis by simp
qed

theorem big_divmnu_divides_witness:
  "lval (fst (big_divmnu [1, 2, 3, 4] [5, 7])) = lval [1, 2, 3, 4] div lval [5, 7]"
  using big_divmnu_divides [of "[5, 7]" "[1, 2, 3, 4]"] by simp

section \<open>Division by one limb, and \<open>big_udivmod\<close>\<close>

text \<open>
  The loop runs from the top limb down and carries the partial remainder. It serves \<open>big_udivmod\<close>
  and, with the divisor 1000000000, the printer \<open>rt_big_str\<close>.
\<close>

fun sdiv_limbs :: "u32 \<Rightarrow> limbs \<Rightarrow> limbs \<times> u64" where
  "sdiv_limbs v [] = ([], 0)"
| "sdiv_limbs v (x # xs) =
     (let (q, k) = sdiv_limbs v xs; w = join64 k x
      in (lo32 (w div w64 v) # q, w mod w64 v))"

definition big_udivmod :: "limbs \<Rightarrow> limbs \<Rightarrow> int \<Rightarrow> (limbs \<times> limbs) option" where
  "big_udivmod u v v_sign =
     (let us = strip_zeros u; vs = strip_zeros v; m = length us; n = length vs
      in if v_sign = 0 \<or> n = 0 then None
         else let (q, r) =
             (if m < n then ([0], us @ replicate (n - m) 0)
              else if n = 1 then (let (q, k) = sdiv_limbs (hd vs) us in (q, [lo32 k]))
              else big_divmnu us vs)
           in Some (trim_limbs q, trim_limbs r))"

lemma sdiv_limbs_val:
  assumes "v \<noteq> 0"
  shows "lval xs = lval (fst (sdiv_limbs v xs)) * unat v + unat (snd (sdiv_limbs v xs))
    \<and> unat (snd (sdiv_limbs v xs)) < unat v \<and> length (fst (sdiv_limbs v xs)) = length xs"
proof (induction xs)
  case Nil
  then show ?case using assms by (simp add: unat_gt_0)
next
  case (Cons x xs)
  define q k where "q = fst (sdiv_limbs v xs)" "k = snd (sdiv_limbs v xs)"
  define w where "w = join64 k x"
  have IH: "lval xs = lval q * unat v + unat k" "unat k < unat v" "length q = length xs"
    using Cons.IH by (simp_all add: q_k_def)
  have e: "sdiv_limbs v (x # xs) = (lo32 (w div w64 v) # q, w mod w64 v)"
    by (simp add: q_k_def w_def Let_def case_prod_beta)
  have w: "unat w = unat k * lbase + unat x"
    unfolding w_def using IH(2) unat_u32_less [of v] by (intro unat_join64) linarith
  have "unat w < unat v * lbase"
  proof -
    have "(unat k + 1) * lbase \<le> unat v * lbase" using IH(2) by (intro mult_le_mono1) simp
    then show ?thesis unfolding w distrib_right mult_1 using unat_u32_less [of x] by linarith
  qed
  then have "unat w div unat v < lbase" by (intro less_mult_imp_div_less) (simp add: mult.commute)
  then have d: "unat (lo32 (w div w64 v)) = unat w div unat v"
    by (simp add: word_split unat_div_distrib)
  have "lval (x # xs) = unat w + lbase * (lval q * unat v)"
    using IH(1) w by (simp add: algebra_simps)
  also have "unat w = (unat w div unat v) * unat v + unat w mod unat v" by simp
  finally have "lval (x # xs) = lval (lo32 (w div w64 v) # q) * unat v + unat w mod unat v"
    using d by (simp add: algebra_simps)
  then show ?case unfolding e using IH(3) assms by (simp add: unat_mod_distrib unat_gt_0)
qed

lemma sdiv_limbs_divmod:
  assumes "v \<noteq> 0" "sdiv_limbs v xs = (q, k)"
  shows "lval q = lval xs div unat v" "unat k = lval xs mod unat v" "length q = length xs"
proof -
  have v: "lval xs = lval q * unat v + unat k" "unat k < unat v" "length q = length xs"
    using sdiv_limbs_val [OF assms(1), of xs] assms(2) by simp_all
  show "lval q = lval xs div unat v" "unat k = lval xs mod unat v"
    by (rule mod_window [OF v(1,2)])+
  show "length q = length xs" by (rule v(3))
qed

lemma strip_last: "strip_zeros z \<noteq> [] \<Longrightarrow> last (strip_zeros z) \<noteq> 0"
  using strip_zeros_props by blast

lemma strip_empty_iff: "strip_zeros z = [] \<longleftrightarrow> lval z = 0"
proof
  assume "strip_zeros z = []"
  then show "lval z = 0" using lval_strip [of z] by simp
next
  assume z: "lval z = 0"
  show "strip_zeros z = []"
  proof (rule ccontr)
    assume ne: "strip_zeros z \<noteq> []"
    then have "lbase ^ (length (strip_zeros z) - 1) \<le> lval (strip_zeros z)"
      by (intro lval_last_bound strip_last)
    then show False using z by simp
  qed
qed

lemma big_udivmod_correct:
  assumes "v_sign \<noteq> 0" "lval v \<noteq> 0"
  obtains q r where "big_udivmod u v v_sign = Some (q, r)" "lval q = lval u div lval v"
    "lval r = lval u mod lval v" "trimmed q" "trimmed r"
proof -
  define us vs where "us = strip_zeros u" "vs = strip_zeros v"
  have vals: "lval us = lval u" "lval vs = lval v" by (simp_all add: us_vs_def)
  have vne: "vs \<noteq> []" using assms(2) by (simp add: us_vs_def strip_empty_iff)
  then have vlast: "last vs \<noteq> 0" by (simp add: us_vs_def strip_last)
  consider "length us < length vs" | "length vs \<le> length us" "length vs = 1"
    | "length vs \<le> length us" "2 \<le> length vs" using vne by (cases "length vs") force+
  then show ?thesis
  proof cases
    case 1
    have "lval us < lbase ^ length us" by simp
    also have "\<dots> \<le> lbase ^ (length vs - 1)" using 1 by (intro power_increasing) simp_all
    also have "\<dots> \<le> lval vs" by (rule lval_last_bound [OF vne vlast])
    finally have "lval u < lval v" by (simp add: vals)
    then show ?thesis
      using 1 assms vne
      by (intro that [of "trim_limbs [0]" "trim_limbs (us @ replicate (length vs - length us) 0)"])
        (auto simp: big_udivmod_def Let_def us_vs_def [symmetric] lval_append vals)
  next
    case 2
    then obtain y where y: "vs = [y]" by (cases vs) auto
    then have "y \<noteq> 0" using vlast by simp
    obtain q k where qk: "sdiv_limbs y us = (q, k)" by (cases "sdiv_limbs y us")
    note d = sdiv_limbs_divmod [OF \<open>y \<noteq> 0\<close> qk]
    have "unat k < lbase" using d(2) \<open>y \<noteq> 0\<close> unat_u32_less [of y]
      by (metis less_trans mod_less_divisor unat_gt_0)
    moreover have "q \<noteq> []" using d(3) 2 by auto
    ultimately show ?thesis
      using 2 y assms d qk vals
      by (intro that [of "trim_limbs q" "trim_limbs [lo32 k]"])
        (auto simp: big_udivmod_def Let_def us_vs_def [symmetric] word_split)
  next
    case 3
    obtain q r where qr: "big_divmnu us vs = (q, r)" "lval q = lval us div lval vs"
      "lval r = lval us mod lval vs" "length q = length us - length vs + 1" "length r = length vs"
      using big_divmnu_correct [OF 3(2,1) vlast] by blast
    then have "q \<noteq> []" "r \<noteq> []" using 3 by auto
    then show ?thesis
      using 3 assms qr vals
      by (intro that [of "trim_limbs q" "trim_limbs r"])
        (auto simp: big_udivmod_def Let_def us_vs_def [symmetric])
  qed
qed

section \<open>The interface of the signed layer\<close>

text \<open>Comparison of two signed magnitudes by their signs first.\<close>

lemma sgn_lex:
  assumes "s \<in> {- 1, 0, 1}" "s = 0 \<longleftrightarrow> m = 0" "t \<in> {- 1, 0, 1 :: int}" "t = 0 \<longleftrightarrow> n = 0"
  shows "(if s \<noteq> t then if s < t then - 1 else 1
      else if s < 0 then - sgn (int m - int n) else sgn (int m - int n)) = sgn (s * int m - t * int n)"
proof -
  have "s = - 1 \<and> 0 < m \<or> s = 0 \<and> m = 0 \<or> s = 1 \<and> 0 < m"
    "t = - 1 \<and> 0 < n \<or> t = 0 \<and> n = 0 \<or> t = 1 \<and> 0 < n" using assms by auto
  then show ?thesis by (elim disjE conjE) (simp_all add: sgn_if)
qed

text \<open>
  What the signed operations rely on: values under addition, subtraction of the smaller from the
  larger, comparison, multiplication and, in the extension, division with remainder.
\<close>

locale magnitude =
  fixes val :: "'m \<Rightarrow> nat" and ok :: "'m \<Rightarrow> bool"
    and add sub mul :: "'m \<Rightarrow> 'm \<Rightarrow> 'm" and cmp :: "'m \<Rightarrow> 'm \<Rightarrow> int"
  assumes ok_add: "ok a \<Longrightarrow> ok b \<Longrightarrow> ok (add a b)"
    and val_add: "ok a \<Longrightarrow> ok b \<Longrightarrow> val (add a b) = val a + val b"
    and ok_sub: "ok a \<Longrightarrow> ok b \<Longrightarrow> ok (sub a b)"
    and val_sub: "ok a \<Longrightarrow> ok b \<Longrightarrow> val b \<le> val a \<Longrightarrow> val (sub a b) = val a - val b"
    and ok_mul: "ok a \<Longrightarrow> ok b \<Longrightarrow> ok (mul a b)"
    and val_mul: "ok a \<Longrightarrow> ok b \<Longrightarrow> val (mul a b) = val a * val b"
    and cmp_val: "ok a \<Longrightarrow> ok b \<Longrightarrow> cmp a b = sgn (int (val a) - int (val b))"

locale magnitude_div = magnitude +
  fixes divmod :: "'a \<Rightarrow> 'a \<Rightarrow> int \<Rightarrow> ('a \<times> 'a) option"
  assumes divmod_val: "ok a \<Longrightarrow> ok b \<Longrightarrow> val b \<noteq> 0 \<Longrightarrow> s \<noteq> 0 \<Longrightarrow>
    \<exists>q r. divmod a b s = Some (q, r) \<and> ok q \<and> ok r \<and> val q = val a div val b \<and> val r = val a mod val b"

context magnitude begin

text \<open>Sums of two signed magnitudes of one sign, and of opposite signs.\<close>

lemma same_sign_sum:
  "ok a \<Longrightarrow> ok b \<Longrightarrow> s * int (val (add a b)) = s * int (val a) + s * int (val b)"
  by (simp add: val_add algebra_simps)

lemma opposite_sign_sum:
  assumes "ok a" "ok b" "cmp a b \<noteq> 0"
  shows "(if 0 < cmp a b then s else - s)
      * int (val (if 0 < cmp a b then sub a b else sub b a)) = s * int (val a) - s * int (val b)"
    "val (if 0 < cmp a b then sub a b else sub b a) \<noteq> 0"
proof -
  have c: "cmp a b = sgn (int (val a) - int (val b))" by (rule cmp_val [OF assms(1,2)])
  consider "val b < val a" "0 < cmp a b" | "val a < val b" "cmp a b < 0"
    using assms(3) unfolding c by (cases "val a" "val b" rule: linorder_cases) simp_all
  then show "(if 0 < cmp a b then s else - s)
      * int (val (if 0 < cmp a b then sub a b else sub b a)) = s * int (val a) - s * int (val b)"
    "val (if 0 < cmp a b then sub a b else sub b a) \<noteq> 0"
    using assms by (cases; simp add: val_sub of_nat_diff algebra_simps)+
qed

lemma equal_magnitudes: "ok a \<Longrightarrow> ok b \<Longrightarrow> cmp a b = 0 \<longleftrightarrow> val a = val b"
  by (simp add: cmp_val sgn_0_0)

lemma signed_product:
  assumes "ok a" "ok b" "s \<in> {- 1, 1}" "t \<in> {- 1, 1 :: int}"
  shows "(if s = t then 1 else - 1) * int (val (mul a b)) = (s * int (val a)) * (t * int (val b))"
  using assms by (auto simp: val_mul)

lemma signed_compare:
  assumes "ok a" "ok b" "s \<in> {- 1, 0, 1}" "s = 0 \<longleftrightarrow> val a = 0" "t \<in> {- 1, 0, 1 :: int}"
    "t = 0 \<longleftrightarrow> val b = 0"
  shows "(if s \<noteq> t then if s < t then - 1 else 1 else if s < 0 then - cmp a b else cmp a b)
    = sgn (s * int (val a) - t * int (val b))"
  unfolding cmp_val [OF assms(1,2)] by (rule sgn_lex [OF assms(3-6)])

end

context magnitude_div begin

text \<open>Quotient and remainder truncate towards zero; the remainder has the dividend's sign.\<close>

lemma signed_quotient:
  assumes "s \<in> {- 1, 1}" "t \<in> {- 1, 1 :: int}"
  shows "(if s = t then 1 else - 1) * int (m div n) = (s * int m) sdiv (t * int n)"
proof -
  have "sgn s = s" "sgn t = t" "\<bar>s\<bar> = 1" "\<bar>t\<bar> = 1" "s * t = (if s = t then 1 else - 1)"
    using assms by auto
  then show ?thesis
    by (cases "m = 0"; cases "n = 0") (auto simp add: signed_divide_int_def sgn_mult abs_mult zdiv_int)
qed
lemma signed_remainder:
  assumes "s \<in> {- 1, 0, 1}" "t \<in> {- 1, 1 :: int}" "s = 0 \<longleftrightarrow> m = 0"
  shows "s * int (m mod n) = (s * int m) smod (t * int n)"
proof -
  have "sgn s = s" "\<bar>t\<bar> = 1" "s \<noteq> 0 \<Longrightarrow> \<bar>s\<bar> = 1" using assms by auto
  then show ?thesis using assms(3)
    by (cases "m = 0") (auto simp add: signed_modulo_int_def sgn_mult abs_mult zmod_int)
qed
end

lemma trimmed_length_mono: "trimmed a \<Longrightarrow> trimmed b \<Longrightarrow> lval b \<le> lval a \<Longrightarrow> length b \<le> length a"
  using longer_greater [of a b] by (meson linorder_not_less)

interpretation limbs: magnitude lval trimmed big_uadd big_usub big_umul big_ucmp
proof
  fix a b :: limbs
  assume ok: "trimmed a" "trimmed b"
  then have ne: "a \<noteq> []" "b \<noteq> []" by (auto simp: trimmed_def)
  show "trimmed (big_uadd a b)" "lval (big_uadd a b) = lval a + lval b"
    by (simp_all add: lval_big_uadd)
  show "trimmed (big_usub a b)" using ne by simp
  show "lval b \<le> lval a \<Longrightarrow> lval (big_usub a b) = lval a - lval b"
    using ok by (simp add: lval_big_usub trimmed_length_mono)
  show "trimmed (big_umul a b)" "lval (big_umul a b) = lval a * lval b"
    using ne by (simp_all add: lval_big_umul)
  show "big_ucmp a b = sgn (int (lval a) - int (lval b))" by (rule big_ucmp_sgn [OF ok])
qed

interpretation limbs: magnitude_div lval trimmed big_uadd big_usub big_umul big_ucmp big_udivmod
proof
  fix a b :: limbs and s :: int
  assume "trimmed a" "trimmed b" "lval b \<noteq> 0" "s \<noteq> 0"
  then show "\<exists>q r. big_udivmod a b s = Some (q, r) \<and> trimmed q \<and> trimmed r
      \<and> lval q = lval a div lval b \<and> lval r = lval a mod lval b"
    by (metis big_udivmod_correct)
qed

end
