(* ===== verification/Bignum.thy ===== *)
theory Bignum
  imports Bignum_Div
begin

text \<open>
  Signed big integers and the integer descriptors of \<open>src/runtime/bignum.c\<close>: \<open>BIG_t\<close>,
  \<open>big_trim\<close>, \<open>big_from_i64\<close>, \<open>big_fits_i64\<close>, \<open>rt_big_norm\<close> and the \<open>rt_big_*\<close> operations on
  descriptors. The unsigned routines are reached through the interface \<open>magnitude\<close>, whose laws
  the limb vectors discharge. Every operation is shown to return the canonical descriptor of the
  mathematical result: a machine integer when it fits, a big integer otherwise.
\<close>

section \<open>\<open>BIG_t\<close> and integer descriptors\<close>

record big =
  b_sign :: int
  b_limb :: limbs

text \<open>
  A \<open>DESCR_t\<close> as this file reads it: \<open>DT_FAIL\<close>, \<open>DT_I\<close> with its 64-bit payload, \<open>DT_BIG\<close> with
  its pointer, or another tag with the payload bits that \<open>d.i\<close> would read.
\<close>

datatype descr = D_fail | D_int u64 | D_big "big option" | D_other u8 u64

fun descr_i :: "descr \<Rightarrow> u64" where
  "descr_i D_fail = 0"
| "descr_i (D_int i) = i"
| "descr_i (D_big b) = 0"
| "descr_i (D_other t i) = i"

definition bval :: "big \<Rightarrow> int" where
  "bval b = b_sign b * int (lval (b_limb b))"

definition big_wf :: "big \<Rightarrow> bool" where
  "big_wf b \<longleftrightarrow> trimmed (b_limb b) \<and> b_sign b \<in> {- 1, 0, 1} \<and> (b_sign b = 0 \<longleftrightarrow> lval (b_limb b) = 0)"

definition big_trim :: "big \<Rightarrow> big" where
  "big_trim b =
     (let l = trim_limbs (b_limb b)
      in \<lparr>b_sign = (if length l = 1 \<and> hd l = 0 then 0 else b_sign b), b_limb = l\<rparr>)"

text \<open>\<open>(v < 0) ? (uint64_t)(-(v + 1)) + 1u : (uint64_t)v\<close>, and the sign beside it.\<close>

definition i64_mag :: "u64 \<Rightarrow> u64" where
  "i64_mag v = (if sint v < 0 then - (v + 1) + 1 else v)"

definition i64_sgn :: "u64 \<Rightarrow> int" where
  "i64_sgn v = (if v = 0 then 0 else if sint v < 0 then - 1 else 1)"

definition big_from_i64 :: "u64 \<Rightarrow> big" where
  "big_from_i64 v =
     (let u = i64_mag v
      in big_trim \<lparr>b_sign = i64_sgn v, b_limb = [lo32 u, lo32 (hi32 u)]\<rparr>)"

definition big_fits_i64 :: "big \<Rightarrow> u64 option" where
  "big_fits_i64 b =
     (if length (b_limb b) > 2 then None
      else let u0 = w64 (limb0 (b_limb b));
               u = (if length (b_limb b) = 2 then u0 OR push_bit 32 (w64 (b_limb b ! 1)) else u0)
        in if 0 \<le> b_sign b then (if u > 9223372036854775807 then None else Some u)
           else if u > 9223372036854775807 + 1 then None
           else Some (if u = 9223372036854775807 + 1 then 9223372036854775808 else - u))"

definition rt_big_norm :: "big option \<Rightarrow> descr" where
  "rt_big_norm bo =
     (case bo of None \<Rightarrow> D_fail
      | Some b0 \<Rightarrow> (let b = big_trim b0
          in case big_fits_i64 b of Some f \<Rightarrow> D_int f | None \<Rightarrow> D_big (Some b)))"

definition big_of :: "descr \<Rightarrow> big option" where
  "big_of d =
     (case d of D_big bo \<Rightarrow> bo
      | _ \<Rightarrow> (let u = i64_mag (descr_i d); hi = lo32 (hi32 u)
          in Some \<lparr>b_sign = i64_sgn (descr_i d),
                   b_limb = (if hi \<noteq> 0 then [lo32 u, hi] else [lo32 u])\<rparr>))"

text \<open>The number an integer descriptor denotes, and which descriptors are in normal form.\<close>

fun ival :: "descr \<Rightarrow> int" where
  "ival (D_int i) = sint i"
| "ival (D_big (Some b)) = bval b"
| "ival d = 0"

fun int_descr :: "descr \<Rightarrow> bool" where
  "int_descr (D_int i) = True"
| "int_descr (D_big (Some b)) = big_wf b"
| "int_descr d = False"

definition in_i64 :: "int \<Rightarrow> bool" where
  "in_i64 z \<longleftrightarrow> - (2 ^ 63) \<le> z \<and> z < 2 ^ 63"

definition canonical :: "descr \<Rightarrow> bool" where
  "canonical d \<longleftrightarrow> int_descr d \<and> (case d of D_big (Some b) \<Rightarrow> \<not> in_i64 (bval b) | _ \<Rightarrow> True)"

lemma in_i64_sint [simp]: "in_i64 (sint (i :: u64))"
  using sint_greater_eq [of i] sint_lt [of i] by (simp add: in_i64_def)

lemma trimmed_zero: "trimmed l \<Longrightarrow> lval l = 0 \<longleftrightarrow> length l = 1 \<and> hd l = 0"
  by (cases l) (auto simp: trimmed_def lval_zero_iff unat_0_iff split: if_splits)

lemma big_trim_wf:
  assumes "b_limb b \<noteq> []" "b_sign b \<in> {- 1, 1} \<or> b_sign b = 0 \<and> lval (b_limb b) = 0"
  shows "big_wf (big_trim b)"
  using assms trimmed_zero [OF trimmed_trim [OF assms(1)]]
  by (auto simp: big_wf_def big_trim_def Let_def)

lemma bval_big_trim [simp]: "b_limb b \<noteq> [] \<Longrightarrow> bval (big_trim b) = bval b"
  using trimmed_zero [OF trimmed_trim [of "b_limb b"]]
  by (auto simp: bval_def big_trim_def Let_def)

lemma big_trim_id: "big_wf b \<Longrightarrow> big_trim b = b"
  using trimmed_zero [of "b_limb b"]
  by (auto simp: big_wf_def big_trim_def Let_def)

lemma big_wf_sgn: "big_wf b \<Longrightarrow> b_sign b = sgn (bval b)"
  by (auto simp: big_wf_def bval_def sgn_mult)

lemma big_wf_abs: "big_wf b \<Longrightarrow> int (lval (b_limb b)) = \<bar>bval b\<bar>"
  by (auto simp: big_wf_def bval_def abs_mult)

lemma big_wf_nonempty [simp]: "big_wf b \<Longrightarrow> b_limb b \<noteq> []"
  by (simp add: big_wf_def trimmed_def)

text \<open>A well-formed big integer is determined by the number it denotes.\<close>

lemma big_wf_inject:
  assumes "big_wf a" "big_wf b" "bval a = bval b" shows "a = b"
proof -
  have "lval (b_limb a) = lval (b_limb b)"
    using big_wf_abs [OF assms(1)] big_wf_abs [OF assms(2)] assms(3) by simp
  then have "b_limb a = b_limb b" using assms by (intro trimmed_inject) (simp_all add: big_wf_def)
  moreover have "b_sign a = b_sign b" using assms by (simp add: big_wf_sgn)
  ultimately show ?thesis by simp
qed

section \<open>Machine integers\<close>

lemma uint_word_of_int64: "0 \<le> z \<Longrightarrow> z < 2 ^ 64 \<Longrightarrow> uint (word_of_int z :: u64) = z"
  by (simp add: uint_word_of_int_eq take_bit_int_eq_self)

lemma sint_word_of_int64 [simp]: "in_i64 z \<Longrightarrow> sint (word_of_int z :: u64) = z"
  by (simp add: in_i64_def sint_sbintrunc' signed_take_bit_int_eq_self)

lemma sint_eq_uint64: "0 \<le> sint (v :: u64) \<Longrightarrow> sint v = uint v"
  using in_i64_sint [of v] uint_word_of_int64 [of "sint v"] by (simp add: in_i64_def)

lemma sint_of_uint64: "uint (v :: u64) < 2 ^ 63 \<Longrightarrow> sint v = uint v"
proof -
  assume "uint v < 2 ^ 63"
  moreover have "0 \<le> uint v" by simp
  ultimately have "in_i64 (uint v)" unfolding in_i64_def by linarith
  then show ?thesis using sint_word_of_int64 [of "uint v"] by simp
qed

lemma uint_minus64: "sint (v :: u64) < 0 \<Longrightarrow> uint (- v) = - sint v"
proof -
  assume "sint v < 0"
  then have "uint (word_of_int (- sint v) :: u64) = - sint v"
    using in_i64_sint [of v] by (intro uint_word_of_int64) (simp_all add: in_i64_def)
  moreover have "word_of_int (- sint v) = - v"
    unfolding wi_hom_neg [symmetric] by simp
  ultimately show ?thesis by simp
qed

lemma i64_mag_val: "uint (i64_mag v) = \<bar>sint v\<bar>"
  using uint_minus64 [of v] sint_eq_uint64 [of v] by (cases "sint v < 0") (simp_all add: i64_mag_def)

lemma sint_zero_iff: "sint (v :: u64) = 0 \<longleftrightarrow> v = 0"
  by (rule signed_eq_0_iff)

lemma i64_sgn_val: "i64_sgn v = sgn (sint v)"
  using sint_zero_iff [of v] by (auto simp: i64_sgn_def)

lemma lval_lo_hi: "lval [lo32 u, lo32 (hi32 u)] = unat u"
proof -
  have "unat (lo32 (hi32 u)) = unat (hi32 u) mod lbase" by (rule unat_lo32)
  also have "\<dots> = unat (hi32 u)" by (rule mod_less) (rule unat_hi32_less)
  finally have "unat (lo32 (hi32 u)) = unat (hi32 u)" .
  then show ?thesis using lo_hi_32 [of u] by simp
qed

lemma i64_big:
  assumes "b_sign b = i64_sgn v" "lval (b_limb b) = unat (i64_mag v)"
  shows "bval b = sint v"
  using assms i64_mag_val [of v] by (simp add: bval_def i64_sgn_val mult_sgn_abs)

lemma big_from_i64_props: "big_wf (big_from_i64 v)" "bval (big_from_i64 v) = sint v"
proof -
  define u where "u = i64_mag v"
  define b where "b = \<lparr>b_sign = i64_sgn v, b_limb = [lo32 u, lo32 (hi32 u)]\<rparr>"
  have b: "big_from_i64 v = big_trim b" "b_limb b \<noteq> []" "b_sign b = i64_sgn v"
    "lval (b_limb b) = unat u"
    using lval_lo_hi [of u] by (simp_all add: big_from_i64_def Let_def b_def u_def)
  have "v = 0 \<Longrightarrow> unat u = 0" by (simp add: u_def i64_mag_def)
  then show "big_wf (big_from_i64 v)"
    unfolding b(1) using b by (intro big_trim_wf) (auto simp: i64_sgn_def)
  show "bval (big_from_i64 v) = sint v"
    unfolding b(1) using b by (simp add: i64_big u_def)
qed

lemma big_of_props:
  assumes "int_descr d"
  obtains b where "big_of d = Some b" "big_wf b" "bval b = ival d"
proof (cases d)
  case (D_int i)
  define u where "u = i64_mag i"
  define l where "l = (if lo32 (hi32 u) \<noteq> 0 then [lo32 u, lo32 (hi32 u)] else [lo32 u])"
  have l: "lval l = unat u" "trimmed l"
    using lval_lo_hi [of u] by (auto simp: l_def trimmed_def)
  have z: "i = 0 \<longleftrightarrow> unat u = 0"
    using i64_mag_val [of i] sint_zero_iff [of i] uint_0_iff [of u]
    by (auto simp: u_def unat_0_iff)
  have "bval \<lparr>b_sign = i64_sgn i, b_limb = l\<rparr> = sint i"
    using l by (intro i64_big) (simp_all add: u_def)
  then show ?thesis
    using l z D_int
    by (intro that [of "\<lparr>b_sign = i64_sgn i, b_limb = l\<rparr>"])
      (auto simp: big_of_def Let_def u_def l_def big_wf_def i64_sgn_def)
next
  case (D_big bo)
  then show ?thesis using assms that by (cases bo) (auto simp: big_of_def)
qed (use assms in simp_all)

text \<open>\<open>big_fits_i64\<close> answers exactly on the values of a signed 64-bit word.\<close>

lemma two_limbs_val:
  assumes "length l = 1 \<or> length l = 2"
  shows "unat (if length l = 2 then w64 (limb0 l) OR push_bit 32 (w64 (l ! 1)) else w64 (limb0 l)) = lval l"
proof (cases "length l = 2")
  case True
  then obtain x y where l: "l = [x, y]" by (auto simp: numeral_2_eq_2 length_Suc_conv)
  have "w64 x OR push_bit 32 (w64 y) = join64 (w64 y) x" by (simp add: join64_def or.commute)
  then show ?thesis using l by (simp add: unat_join64)
next
  case False
  then obtain x where "l = [x]" using assms by (auto simp: length_Suc_conv)
  then show ?thesis by simp
qed

lemma u64_gt_iff: "a > (b :: u64) \<longleftrightarrow> unat b < unat a"
  by (simp add: word_less_nat_alt)

lemma big_fits_i64_props:
  assumes "big_wf b"
  shows "(\<exists>f. big_fits_i64 b = Some f) \<longleftrightarrow> in_i64 (bval b)"
    "big_fits_i64 b = Some f \<Longrightarrow> sint f = bval b"
proof -
  define l where "l = b_limb b"
  define u where "u = (if length l = 2 then w64 (limb0 l) OR push_bit 32 (w64 (l ! 1)) else w64 (limb0 l))"
  define m where "m = (9223372036854775807 :: u64)"
  have um: "unat m = 9223372036854775807" "unat (m + 1) = 9223372036854775808"
    by (simp_all add: m_def)
  have l: "trimmed l" "l \<noteq> []" using assms by (simp_all add: big_wf_def l_def trimmed_def)
  have sg: "b_sign b \<in> {- 1, 0, 1}" "b_sign b = 0 \<longleftrightarrow> lval l = 0"
    using assms by (simp_all only: big_wf_def l_def)
  have v: "bval b = b_sign b * int (lval l)" by (simp add: bval_def l_def)
  have e: "big_fits_i64 b =
      (if length l > 2 then None
       else if 0 \<le> b_sign b then (if u > m then None else Some u)
       else if u > m + 1 then None
       else Some (if u = m + 1 then 9223372036854775808 else - u))"
    by (simp add: big_fits_i64_def Let_def u_def l_def m_def)
  have "((\<exists>f. big_fits_i64 b = Some f) \<longleftrightarrow> in_i64 (bval b)) \<and>
    (\<forall>f. big_fits_i64 b = Some f \<longrightarrow> sint f = bval b)"
  proof (cases "length l > 2")
    case True
    then have "last l \<noteq> 0" using l(1) by (auto simp: trimmed_def)
    with l(2) have "lbase ^ (length l - 1) \<le> lval l" by (rule lval_last_bound)
    moreover have "lbase ^ 2 \<le> lbase ^ (length l - 1)" using True by (intro power_increasing) simp_all
    ultimately have "lbase ^ 2 \<le> lval l" by linarith
    then have "2 ^ 64 \<le> int (lval l)" by (simp add: lbase_def)
    then have "\<not> in_i64 (bval b)" using sg v by (auto simp: in_i64_def)
    then show ?thesis using e True by simp
  next
    case False
    moreover have "0 < length l" using l(2) by simp
    ultimately have "length l = 1 \<or> length l = 2" by linarith
    then have uv: "unat u = lval l" unfolding u_def by (rule two_limbs_val)
    then have uv': "uint u = int (lval l)" by (metis of_nat_unat)
    show ?thesis
    proof (cases "0 \<le> b_sign b")
      case True
      then have bv: "bval b = int (lval l)" using sg v by auto
      have "u > m \<longleftrightarrow> \<not> in_i64 (bval b)"
        unfolding u64_gt_iff um uv bv in_i64_def by auto
      moreover have "\<not> u > m \<Longrightarrow> sint u = bval b"
        unfolding u64_gt_iff um uv bv uv' [symmetric] using uv uv'
        by (intro sint_of_uint64) simp
      ultimately show ?thesis using e True False by auto
    next
      case neg: False
      then have bv: "bval b = - int (lval l)" using sg v by auto
      have gt: "u > m + 1 \<longleftrightarrow> \<not> in_i64 (bval b)"
        unfolding u64_gt_iff um uv bv in_i64_def by auto
      have eq: "u = m + 1 \<longleftrightarrow> lval l = 9223372036854775808"
        using um uv by (metis word_unat_eq_iff)
      have min: "sint (9223372036854775808 :: u64) = - 9223372036854775808"
        using sint_word_of_int64 [of "- 9223372036854775808"] by (simp add: in_i64_def)
      have "sint (- u) = bval b" if "\<not> u > m + 1"
      proof -
        have "- u = word_of_int (bval b)"
          unfolding bv uv' [symmetric] wi_hom_neg [symmetric] by simp
        then show ?thesis using that gt by simp
      qed
      then show ?thesis using e neg False gt eq min bv by auto
    qed
  qed
  then show "(\<exists>f. big_fits_i64 b = Some f) \<longleftrightarrow> in_i64 (bval b)"
    "big_fits_i64 b = Some f \<Longrightarrow> sint f = bval b" by blast+
qed

text \<open>\<open>rt_big_norm\<close>: the canonical descriptor of the value, whatever the sign field of a zero.\<close>

lemma rt_big_norm_props:
  assumes "b_limb b \<noteq> []" "b_sign b \<in> {- 1, 1} \<or> b_sign b = 0 \<and> lval (b_limb b) = 0"
  shows "canonical (rt_big_norm (Some b))" "ival (rt_big_norm (Some b)) = bval b"
proof -
  have wf: "big_wf (big_trim b)" by (rule big_trim_wf [OF assms])
  have v: "bval (big_trim b) = bval b" using assms(1) by simp
  show "canonical (rt_big_norm (Some b))" "ival (rt_big_norm (Some b)) = bval b"
    using big_fits_i64_props [OF wf] wf v
    by (cases "big_fits_i64 (big_trim b)"; force simp: rt_big_norm_def Let_def canonical_def)+
qed

lemma rt_big_norm_wf:
  assumes "big_wf b"
  shows "canonical (rt_big_norm (Some b)) \<and> ival (rt_big_norm (Some b)) = bval b"
  using assms by (intro conjI rt_big_norm_props) (auto simp: big_wf_def trimmed_def)

text \<open>Canonical descriptors are unique for their value.\<close>

lemma canonical_inject:
  assumes "canonical d" "canonical e" "ival d = ival e" shows "d = e"
proof -
  have "d = e" if "canonical d" "canonical e" "ival d = ival e" "d = D_int i" for d e i
    using that in_i64_sint [of i]
    by (cases e rule: int_descr.cases) (auto simp: canonical_def intro: signed_word_eqI simp del: in_i64_sint)
  note int = this
  show ?thesis
  proof (cases d rule: int_descr.cases)
    case (1 i)
    then show ?thesis using int assms by blast
  next
    case (2 b)
    show ?thesis
    proof (cases e rule: int_descr.cases)
      case (1 i)
      then show ?thesis using int [of e d] assms by simp
    next
      case (2 c)
      then show ?thesis using \<open>d = D_big (Some b)\<close> assms
        by (auto simp: canonical_def intro: big_wf_inject)
    qed (use assms in \<open>simp_all add: canonical_def\<close>)
  qed (use assms in \<open>simp_all add: canonical_def\<close>)
qed

section \<open>Arithmetic\<close>

text \<open>
  Every two-operand routine begins \<open>BIG_t *a = big_of(x), *b = big_of(y); if (!a || !b) return
  FAILDESCR;\<close>.
\<close>

definition with_bigs :: "descr \<Rightarrow> descr \<Rightarrow> (big \<Rightarrow> big \<Rightarrow> descr) \<Rightarrow> descr" where
  "with_bigs x y f =
     (case big_of x of None \<Rightarrow> D_fail
      | Some a \<Rightarrow> (case big_of y of None \<Rightarrow> D_fail | Some b \<Rightarrow> f a b))"

definition big_zero :: "big" where
  "big_zero = \<lparr>b_sign = 0, b_limb = [0]\<rparr>"

definition big_addsub :: "big \<Rightarrow> big \<Rightarrow> bool \<Rightarrow> big" where
  "big_addsub a b negate_b =
     (let bs = (if negate_b then - b_sign b else b_sign b)
      in if b_sign a = 0 then big_trim \<lparr>b_sign = bs, b_limb = b_limb b\<rparr>
         else if bs = 0 then big_trim \<lparr>b_sign = b_sign a, b_limb = b_limb a\<rparr>
         else if b_sign a = bs
           then big_trim \<lparr>b_sign = b_sign a, b_limb = big_uadd (b_limb a) (b_limb b)\<rparr>
         else let c = big_ucmp (b_limb a) (b_limb b)
           in if c = 0 then big_zero
              else big_trim
                \<lparr>b_sign = (if c > 0 then b_sign a else bs),
                 b_limb = (if c > 0 then big_usub (b_limb a) (b_limb b)
                           else big_usub (b_limb b) (b_limb a))\<rparr>)"

definition rt_big_add :: "descr \<Rightarrow> descr \<Rightarrow> descr" where
  "rt_big_add x y = with_bigs x y (\<lambda>a b. rt_big_norm (Some (big_addsub a b False)))"

definition rt_big_sub :: "descr \<Rightarrow> descr \<Rightarrow> descr" where
  "rt_big_sub x y = with_bigs x y (\<lambda>a b. rt_big_norm (Some (big_addsub a b True)))"

definition rt_big_mul :: "descr \<Rightarrow> descr \<Rightarrow> descr" where
  "rt_big_mul x y = with_bigs x y (\<lambda>a b.
     if b_sign a = 0 \<or> b_sign b = 0 then rt_big_norm (Some big_zero)
     else rt_big_norm (Some (big_trim
       \<lparr>b_sign = (if b_sign a = b_sign b then 1 else - 1), b_limb = big_umul (b_limb a) (b_limb b)\<rparr>)))"

definition udivmod_sign :: "limbs \<Rightarrow> int" where
  "udivmod_sign l = (if length l = 1 \<and> hd l = 0 then 0 else 1)"

definition rt_big_div :: "descr \<Rightarrow> descr \<Rightarrow> descr" where
  "rt_big_div x y = with_bigs x y (\<lambda>a b.
     if b_sign b = 0 then D_fail
     else case big_udivmod (b_limb a) (b_limb b) (b_sign b) of
         None \<Rightarrow> D_fail
       | Some (q, r) \<Rightarrow> rt_big_norm (Some
           \<lparr>b_sign = (if udivmod_sign q \<noteq> 0 then (if b_sign a = b_sign b then 1 else - 1) else 0),
            b_limb = q\<rparr>))"

definition rt_big_mod :: "descr \<Rightarrow> descr \<Rightarrow> descr" where
  "rt_big_mod x y = with_bigs x y (\<lambda>a b.
     if b_sign b = 0 then D_fail
     else case big_udivmod (b_limb a) (b_limb b) (b_sign b) of
         None \<Rightarrow> D_fail
       | Some (q, r) \<Rightarrow> rt_big_norm (Some
           \<lparr>b_sign = (if udivmod_sign r \<noteq> 0 then b_sign a else 0), b_limb = r\<rparr>))"

definition rt_big_neg :: "descr \<Rightarrow> descr" where
  "rt_big_neg d =
     (case big_of d of None \<Rightarrow> D_fail
      | Some b \<Rightarrow> rt_big_norm (Some (big_trim \<lparr>b_sign = - b_sign b, b_limb = b_limb b\<rparr>)))"

definition rt_big_cmp :: "descr \<Rightarrow> descr \<Rightarrow> int" where
  "rt_big_cmp x y =
     (case big_of x of None \<Rightarrow> 0
      | Some a \<Rightarrow> (case big_of y of None \<Rightarrow> 0
        | Some b \<Rightarrow>
            if b_sign a \<noteq> b_sign b then (if b_sign a < b_sign b then - 1 else 1)
            else let c = big_ucmp (b_limb a) (b_limb b) in if b_sign a < 0 then - c else c))"

definition rt_big_eq :: "descr \<Rightarrow> descr \<Rightarrow> bool" where
  "rt_big_eq x y =
     (case x of D_big (Some a) \<Rightarrow>
        (case y of D_big (Some b) \<Rightarrow>
           b_sign a = b_sign b \<and> big_ucmp (b_limb a) (b_limb b) = 0 | _ \<Rightarrow> False)
      | _ \<Rightarrow> False)"

definition rt_big_sign :: "descr \<Rightarrow> int" where
  "rt_big_sign d =
     (case d of D_big (Some b) \<Rightarrow> b_sign b
      | _ \<Rightarrow> if sint (descr_i d) < 0 then - 1 else if sint (descr_i d) > 0 then 1 else 0)"

definition rt_big_is :: "descr \<Rightarrow> bool" where
  "rt_big_is d = (case d of D_big (Some b) \<Rightarrow> True | _ \<Rightarrow> False)"

definition rt_big_is_odd :: "descr \<Rightarrow> bool" where
  "rt_big_is_odd d =
     (case d of D_big (Some b) \<Rightarrow> limb0 (b_limb b) AND 1 = 1 | _ \<Rightarrow> descr_i d AND 1 = 1)"

definition rt_big_limbs :: "descr \<Rightarrow> nat" where
  "rt_big_limbs x = (case x of D_big (Some b) \<Rightarrow> length (b_limb b) | _ \<Rightarrow> 0)"

lemma with_bigs_int:
  assumes "int_descr x" "int_descr y"
  obtains a b where "big_of x = Some a" "big_of y = Some b" "big_wf a" "big_wf b"
    "bval a = ival x" "bval b = ival y" "\<And>f. with_bigs x y f = f a b"
proof -
  obtain a where a: "big_of x = Some a" "big_wf a" "bval a = ival x" by (rule big_of_props [OF assms(1)])
  obtain b where b: "big_of y = Some b" "big_wf b" "bval b = ival y" by (rule big_of_props [OF assms(2)])
  show ?thesis using a b by (intro that [of a b]) (simp_all add: with_bigs_def)
qed

lemma big_wf_trimmed: "big_wf b \<Longrightarrow> trimmed (b_limb b)"
  by (simp add: big_wf_def)

lemma big_wf_signs: "big_wf b \<Longrightarrow> b_sign b \<in> {- 1, 0, 1}" "big_wf b \<Longrightarrow> b_sign b = 0 \<longleftrightarrow> lval (b_limb b) = 0"
  unfolding big_wf_def by blast+

lemma big_wf_pm: "big_wf b \<Longrightarrow> b_sign b \<noteq> 0 \<Longrightarrow> b_sign b \<in> {- 1, 1}"
  using big_wf_signs(1) by blast

lemma trim_result:
  assumes "trimmed l" "s \<in> {- 1, 0, 1}" "s = 0 \<Longrightarrow> lval l = 0"
  shows "big_wf (big_trim \<lparr>b_sign = s, b_limb = l\<rparr>)"
    "bval (big_trim \<lparr>b_sign = s, b_limb = l\<rparr>) = s * int (lval l)"
  using assms by (auto intro!: big_trim_wf simp: trimmed_def bval_def [of "\<lparr>b_sign = s, b_limb = l\<rparr>"])

lemma big_zero_props [simp]: "big_wf big_zero" "bval big_zero = 0"
  by (simp_all add: big_zero_def big_wf_def bval_def trimmed_def)

lemma big_addsub_props:
  assumes "big_wf a" "big_wf b"
  shows "big_wf (big_addsub a b neg) \<and> bval (big_addsub a b neg) = bval a + (if neg then - bval b else bval b)"
proof -
  define bs where "bs = (if neg then - b_sign b else b_sign b)"
  let ?a = "b_limb a" and ?b = "b_limb b"
  note t = big_wf_trimmed [OF assms(1)] big_wf_trimmed [OF assms(2)]
  note sa = big_wf_signs [OF assms(1)] and sb = big_wf_signs [OF assms(2)]
  have bs: "bs \<in> {- 1, 0, 1}" "bs = 0 \<longleftrightarrow> lval ?b = 0" using sb by (auto simp: bs_def)
  have goal: "bval a + (if neg then - bval b else bval b) = b_sign a * int (lval ?a) + bs * int (lval ?b)"
    by (simp add: bval_def bs_def)
  consider (a0) "b_sign a = 0" | (b0) "b_sign a \<noteq> 0" "bs = 0"
    | (same) "b_sign a \<noteq> 0" "bs \<noteq> 0" "b_sign a = bs"
    | (opp) "b_sign a \<noteq> 0" "bs \<noteq> 0" "b_sign a \<noteq> bs" by blast
  then show ?thesis
  proof cases
    case a0
    then have "big_addsub a b neg = big_trim \<lparr>b_sign = bs, b_limb = ?b\<rparr>"
      by (simp add: big_addsub_def Let_def bs_def)
    then show ?thesis using trim_result [OF t(2) bs(1)] bs(2) a0 unfolding goal by simp
  next
    case b0
    then have "big_addsub a b neg = big_trim \<lparr>b_sign = b_sign a, b_limb = ?a\<rparr>"
      by (simp add: big_addsub_def Let_def bs_def)
    then show ?thesis using trim_result [OF t(1) sa(1)] sa(2) b0 unfolding goal by simp
  next
    case same
    then have "big_addsub a b neg = big_trim \<lparr>b_sign = b_sign a, b_limb = big_uadd ?a ?b\<rparr>"
      by (simp add: big_addsub_def Let_def bs_def)
    then show ?thesis
      using trim_result [OF limbs.ok_add [OF t] sa(1)] same limbs.same_sign_sum [OF t, of bs]
      unfolding goal by simp
  next
    case opp
    then have o: "bs = - b_sign a" using bs(1) sa(1) by auto
    show ?thesis
    proof (cases "big_ucmp ?a ?b = 0")
      case True
      then have "big_addsub a b neg = big_zero"
        using opp by (simp add: big_addsub_def Let_def bs_def)
      then show ?thesis
        using True limbs.equal_magnitudes [OF t] o unfolding goal by simp
    next
      case False
      define d where "d = (if 0 < big_ucmp ?a ?b then big_usub ?a ?b else big_usub ?b ?a)"
      define s where "s = (if 0 < big_ucmp ?a ?b then b_sign a else - b_sign a)"
      have "big_addsub a b neg = big_trim \<lparr>b_sign = s, b_limb = d\<rparr>"
        using opp False o by (simp add: big_addsub_def Let_def bs_def [symmetric] s_def d_def)
      moreover have "trimmed d" using t by (simp add: d_def limbs.ok_sub)
      moreover have "s \<in> {- 1, 0, 1}" "s \<noteq> 0" using sa(1) opp(1) by (auto simp: s_def)
      ultimately show ?thesis
        using trim_result [of d s] limbs.opposite_sign_sum(1) [OF t False, of "b_sign a"] o
        unfolding goal by (simp add: s_def [symmetric] d_def [symmetric])
    qed
  qed
qed

lemma rt_big_add_props:
  assumes "int_descr x" "int_descr y"
  shows "canonical (rt_big_add x y) \<and> ival (rt_big_add x y) = ival x + ival y"
proof -
  obtain a b where ab: "big_wf a" "big_wf b" "bval a = ival x" "bval b = ival y"
    "\<And>f. with_bigs x y f = f a b" by (rule with_bigs_int [OF assms]) blast
  then show ?thesis
    using big_addsub_props [OF ab(1,2), of False] rt_big_norm_wf [of "big_addsub a b False"]
    by (simp add: rt_big_add_def)
qed

lemma rt_big_sub_props:
  assumes "int_descr x" "int_descr y"
  shows "canonical (rt_big_sub x y) \<and> ival (rt_big_sub x y) = ival x - ival y"
proof -
  obtain a b where ab: "big_wf a" "big_wf b" "bval a = ival x" "bval b = ival y"
    "\<And>f. with_bigs x y f = f a b" by (rule with_bigs_int [OF assms]) blast
  then show ?thesis
    using big_addsub_props [OF ab(1,2), of True] rt_big_norm_wf [of "big_addsub a b True"]
    by (simp add: rt_big_sub_def)
qed

lemma rt_big_neg_props:
  assumes "int_descr x"
  shows "canonical (rt_big_neg x) \<and> ival (rt_big_neg x) = - ival x"
proof -
  obtain a where a: "big_of x = Some a" "big_wf a" "bval a = ival x" by (rule big_of_props [OF assms])
  have "- b_sign a \<in> {- 1, 0, 1}" using big_wf_signs(1) [OF a(2)] by auto
  then have "big_wf (big_trim \<lparr>b_sign = - b_sign a, b_limb = b_limb a\<rparr>)"
    "bval (big_trim \<lparr>b_sign = - b_sign a, b_limb = b_limb a\<rparr>) = - bval a"
    using trim_result [OF big_wf_trimmed [OF a(2)], of "- b_sign a"] big_wf_signs(2) [OF a(2)]
    by (simp_all add: bval_def)
  then show ?thesis using a rt_big_norm_wf by (simp add: rt_big_neg_def)
qed

lemma rt_big_mul_props:
  assumes "int_descr x" "int_descr y"
  shows "canonical (rt_big_mul x y) \<and> ival (rt_big_mul x y) = ival x * ival y"
proof -
  obtain a b where ab: "big_wf a" "big_wf b" "bval a = ival x" "bval b = ival y"
    "\<And>f. with_bigs x y f = f a b" by (rule with_bigs_int [OF assms]) blast
  note t = big_wf_trimmed [OF ab(1)] big_wf_trimmed [OF ab(2)]
  show ?thesis
  proof (cases "b_sign a = 0 \<or> b_sign b = 0")
    case True
    then have "ival x * ival y = 0" using ab by (auto simp: bval_def)
    then show ?thesis using ab True rt_big_norm_wf [of big_zero] by (simp add: rt_big_mul_def)
  next
    case False
    define s :: int where "s = (if b_sign a = b_sign b then 1 else - 1)"
    let ?r = "big_trim \<lparr>b_sign = s, b_limb = big_umul (b_limb a) (b_limb b)\<rparr>"
    have "big_wf ?r" "bval ?r = bval a * bval b"
      using trim_result [OF limbs.ok_mul [OF t], of s] False
        limbs.signed_product [OF t big_wf_pm [OF ab(1)] big_wf_pm [OF ab(2)]]
      by (auto simp: s_def bval_def)
    then show ?thesis using ab False rt_big_norm_wf [of ?r] by (simp add: rt_big_mul_def s_def)
  qed
qed

lemma udivmod_sign_lval: "trimmed l \<Longrightarrow> udivmod_sign l = 0 \<longleftrightarrow> lval l = 0"
  by (simp add: udivmod_sign_def trimmed_zero)

lemma norm_signed:
  assumes "trimmed l" "s \<in> {- 1, 0, 1}" "s = 0 \<Longrightarrow> lval l = 0"
  shows "canonical (rt_big_norm (Some \<lparr>b_sign = s, b_limb = l\<rparr>))
    \<and> ival (rt_big_norm (Some \<lparr>b_sign = s, b_limb = l\<rparr>)) = s * int (lval l)"
  using assms rt_big_norm_props [of "\<lparr>b_sign = s, b_limb = l\<rparr>"]
  by (auto simp: trimmed_def bval_def)

lemma rt_big_divmod_props:
  assumes "int_descr x" "int_descr y" "ival y \<noteq> 0"
  shows "canonical (rt_big_div x y) \<and> ival (rt_big_div x y) = ival x sdiv ival y"
    "canonical (rt_big_mod x y) \<and> ival (rt_big_mod x y) = ival x smod ival y"
proof -
  obtain a b where ab: "big_wf a" "big_wf b" "bval a = ival x" "bval b = ival y"
    "\<And>f. with_bigs x y f = f a b" by (rule with_bigs_int [OF assms(1,2)]) blast
  have "b_sign b \<noteq> 0" using assms(3) ab(4) bval_def [of b] by auto
  then have b0: "b_sign b \<noteq> 0" "lval (b_limb b) \<noteq> 0" using big_wf_signs(2) [OF ab(2)] by blast+
  obtain q r where qr: "big_udivmod (b_limb a) (b_limb b) (b_sign b) = Some (q, r)"
    "trimmed q" "trimmed r" "lval q = lval (b_limb a) div lval (b_limb b)"
    "lval r = lval (b_limb a) mod lval (b_limb b)"
    using limbs.divmod_val [OF big_wf_trimmed [OF ab(1)] big_wf_trimmed [OF ab(2)] b0(2,1)] by blast
  note sb = big_wf_pm [OF ab(2) b0(1)]
  define s where "s = (if udivmod_sign q \<noteq> 0 then (if b_sign a = b_sign b then 1 else - 1) else (0 :: int))"
  have s: "s \<in> {- 1, 0, 1}" "s = 0 \<Longrightarrow> lval q = 0"
    using udivmod_sign_lval [OF qr(2)] by (simp_all add: s_def split: if_splits)
  have bv: "bval a = b_sign a * int (lval (b_limb a))" "bval b = b_sign b * int (lval (b_limb b))"
    by (simp_all only: bval_def)
  have quot: "s * int (lval q) = bval a sdiv bval b"
  proof (cases "udivmod_sign q = 0 \<or> b_sign a = 0")
    case True
    then have q0: "lval q = 0"
      using udivmod_sign_lval [OF qr(2)] big_wf_signs(2) [OF ab(1)] qr(4) by auto
    show ?thesis
    proof (cases "b_sign a = 0")
      case True
      then show ?thesis unfolding bv q0 by simp
    next
      case False
      show ?thesis
        unfolding bv limbs.signed_quotient [OF big_wf_pm [OF ab(1) False] sb, symmetric]
          qr(4) [symmetric] q0 by simp
    qed
  next
    case False
    then show ?thesis
      unfolding bv using limbs.signed_quotient [OF big_wf_pm [OF ab(1)] sb, symmetric]
      by (simp add: s_def qr(4))
  qed
  have "rt_big_div x y = rt_big_norm (Some \<lparr>b_sign = s, b_limb = q\<rparr>)"
    unfolding rt_big_div_def ab(5) qr(1) s_def using b0 by simp
  then show "canonical (rt_big_div x y) \<and> ival (rt_big_div x y) = ival x sdiv ival y"
    using norm_signed [OF qr(2) s] quot ab(3,4) by simp
  define t where "t = (if udivmod_sign r \<noteq> 0 then b_sign a else 0)"
  have "t * int (lval r) = b_sign a * int (lval r)"
    using udivmod_sign_lval [OF qr(3)] by (simp add: t_def)
  also have "\<dots> = bval a smod bval b"
    unfolding bv qr(5)
    by (rule limbs.signed_remainder [OF big_wf_signs(1) [OF ab(1)] sb big_wf_signs(2) [OF ab(1)]])
  finally have "t * int (lval r) = bval a smod bval b" .
  moreover have "t \<in> {- 1, 0, 1}"
    using big_wf_signs(1) [OF ab(1)] by (simp add: t_def)
  moreover have "t = 0 \<Longrightarrow> lval r = 0"
    using big_wf_signs(2) [OF ab(1)] udivmod_sign_lval [OF qr(3)] qr(5) by (simp add: t_def split: if_splits)
  moreover have "rt_big_mod x y = rt_big_norm (Some \<lparr>b_sign = t, b_limb = r\<rparr>)"
    unfolding rt_big_mod_def ab(5) qr(1) t_def using b0 by simp
  ultimately show "canonical (rt_big_mod x y) \<and> ival (rt_big_mod x y) = ival x smod ival y"
    using ab norm_signed [OF qr(3), of t] by simp
qed

lemma rt_big_div_zero: "int_descr x \<Longrightarrow> int_descr y \<Longrightarrow> ival y = 0 \<Longrightarrow> rt_big_div x y = D_fail"
  and rt_big_mod_zero: "int_descr x \<Longrightarrow> int_descr y \<Longrightarrow> ival y = 0 \<Longrightarrow> rt_big_mod x y = D_fail"
proof -
  assume a: "int_descr x" "int_descr y" "ival y = 0"
  obtain a b where "big_wf b" "bval b = ival y" "\<And>f. with_bigs x y f = f a b"
    by (rule with_bigs_int [OF a(1,2)]) blast
  then show "rt_big_div x y = D_fail" "rt_big_mod x y = D_fail"
    using a(3) by (simp_all add: rt_big_div_def rt_big_mod_def big_wf_sgn)
qed

lemma rt_big_cmp_props:
  assumes "int_descr x" "int_descr y"
  shows "rt_big_cmp x y = sgn (ival x - ival y)"
proof -
  obtain a b where ab: "big_of x = Some a" "big_of y = Some b" "big_wf a" "big_wf b"
    "bval a = ival x" "bval b = ival y" by (rule with_bigs_int [OF assms]) blast
  show ?thesis
    unfolding rt_big_cmp_def ab(1,2) option.case Let_def ab(5,6) [symmetric] bval_def
    by (rule limbs.signed_compare [OF big_wf_trimmed [OF ab(3)] big_wf_trimmed [OF ab(4)]
        big_wf_signs [OF ab(3)] big_wf_signs [OF ab(4)]])
qed

lemma rt_big_sign_props: "int_descr x \<Longrightarrow> rt_big_sign x = sgn (ival x)"
  by (cases x rule: int_descr.cases) (auto simp: rt_big_sign_def big_wf_sgn)

lemma rt_big_eq_limbs:
  assumes "int_descr x" "int_descr y"
  shows "rt_big_eq x y \<longleftrightarrow> rt_big_is x \<and> rt_big_is y \<and> ival x = ival y"
proof (cases "\<exists>a b. x = D_big (Some a) \<and> y = D_big (Some b)")
  case True
  then obtain a b where ab: "x = D_big (Some a)" "y = D_big (Some b)" "big_wf a" "big_wf b" using assms by auto
  have "bval a = bval b \<longleftrightarrow> b_sign a = b_sign b \<and> lval (b_limb a) = lval (b_limb b)"
    using big_wf_inject [OF ab(3,4)] by (auto simp: bval_def)
  then show ?thesis
    using ab limbs.equal_magnitudes [OF big_wf_trimmed [OF ab(3)] big_wf_trimmed [OF ab(4)]]
    by (simp add: rt_big_eq_def rt_big_is_def)
next
  case False
  then show ?thesis by (auto simp: rt_big_eq_def rt_big_is_def split: descr.splits option.splits)
qed

lemma rt_big_eq_props:
  assumes "canonical x" "canonical y" "\<not> in_i64 (ival x)" "\<not> in_i64 (ival y)"
  shows "rt_big_eq x y \<longleftrightarrow> ival x = ival y"
  using assms rt_big_eq_limbs [of x y]
  by (cases x rule: int_descr.cases; cases y rule: int_descr.cases) (auto simp: canonical_def rt_big_is_def)

section \<open>Powers, hashing and the arithmetic theorems\<close>

text \<open>
  \<open>rt_big_pow\<close> squares and multiplies; \<open>e\<close> is an \<open>int64_t\<close> that is only tested and halved.
\<close>

definition big_smul :: "big \<Rightarrow> big \<Rightarrow> big" where
  "big_smul a b = big_trim
     \<lparr>b_sign = (if b_sign a = 0 \<or> b_sign b = 0 then 0 else if b_sign a = b_sign b then 1 else - 1),
      b_limb = big_umul (b_limb a) (b_limb b)\<rparr>"

definition big_square :: "big \<Rightarrow> big" where
  "big_square b = big_trim
     \<lparr>b_sign = (if b_sign b = 0 then 0 else 1), b_limb = big_umul (b_limb b) (b_limb b)\<rparr>"

function pow_loop :: "big \<Rightarrow> big \<Rightarrow> int \<Rightarrow> big" where
  "pow_loop acc base e =
     (if e > 0
      then let acc = (if e mod 2 = 1 then big_smul acc base else acc);
               e = e div 2;
               base = (if e \<noteq> 0 then big_square base else base)
           in pow_loop acc base e
      else acc)"
  by pat_completeness auto

termination by (relation "measure (\<lambda>(acc, base, e). nat e)") auto

declare pow_loop.simps [simp del]

definition rt_big_pow :: "descr \<Rightarrow> int \<Rightarrow> descr" where
  "rt_big_pow x e =
     (if e < 0 then D_fail
      else case big_of x of None \<Rightarrow> D_fail
        | Some base \<Rightarrow> rt_big_norm (Some (pow_loop (big_from_i64 1) base e)))"

definition hash_mix :: "u64 \<Rightarrow> u32 \<Rightarrow> u64" where
  "hash_mix h l =
     (let h = h XOR w64 l * 0xFF51AFD7ED558CCD in push_bit 13 h OR drop_bit 51 h)"

definition rt_big_hash :: "descr \<Rightarrow> u64" where
  "rt_big_hash x =
     (case big_of x of None \<Rightarrow> 0
      | Some b \<Rightarrow>
          (let h = 0x9E3779B97F4A7C15 XOR w64 (word_of_int (b_sign b)) * 0xC2B2AE3D27D4EB4F;
               h = foldl hash_mix h (b_limb b)
           in (h XOR drop_bit 31 h) * 0xC4CEB9FE1A85EC53))"

lemma big_smul_props:
  assumes "big_wf a" "big_wf b"
  shows "big_wf (big_smul a b) \<and> bval (big_smul a b) = bval a * bval b"
proof -
  note t = big_wf_trimmed [OF assms(1)] big_wf_trimmed [OF assms(2)]
  define s :: int where
    "s = (if b_sign a = 0 \<or> b_sign b = 0 then 0 else if b_sign a = b_sign b then 1 else - 1)"
  have v: "lval (big_umul (b_limb a) (b_limb b)) = lval (b_limb a) * lval (b_limb b)"
    by (rule limbs.val_mul [OF t])
  have sp: "s = b_sign a * b_sign b"
    using big_wf_signs(1) [OF assms(1)] big_wf_signs(1) [OF assms(2)] by (auto simp: s_def)
  have "s \<in> {- 1, 0, 1}" by (simp add: s_def)
  moreover have "s = 0 \<Longrightarrow> lval (big_umul (b_limb a) (b_limb b)) = 0"
    using big_wf_signs(2) [OF assms(1)] big_wf_signs(2) [OF assms(2)] v sp by auto
  ultimately show ?thesis
    using trim_result [OF limbs.ok_mul [OF t], of s] v sp
    by (simp add: big_smul_def s_def [symmetric] bval_def)
qed

lemma big_square_smul: "big_square b = big_smul b b"
  by (simp add: big_square_def big_smul_def)

lemma pow_loop_step:
  "0 < e \<Longrightarrow> pow_loop acc base e =
     pow_loop (if e mod 2 = 1 then big_smul acc base else acc)
       (if e div 2 \<noteq> 0 then big_square base else base) (e div 2)"
  by (subst pow_loop.simps) (simp add: Let_def)

lemma pow_halves:
  fixes b :: int
  assumes "0 < e"
  shows "(if e mod 2 = 1 then b else 1) * (b * b) ^ nat (e div 2) = b ^ nat e"
proof -
  have "nat e = nat (2 * (e div 2) + e mod 2)" by simp
  also have "\<dots> = 2 * nat (e div 2) + nat (e mod 2)"
    using assms by (subst nat_add_distrib) (simp_all add: nat_mult_distrib)
  finally have "nat e = 2 * nat (e div 2) + nat (e mod 2)" .
  then have "b ^ nat e = (b * b) ^ nat (e div 2) * b ^ nat (e mod 2)"
    by (simp add: power_add power_mult power2_eq_square)
  then show ?thesis by (cases "e mod 2 = 1") (simp_all add: not_mod_2_eq_1_eq_0)
qed

lemma pow_loop_props:
  "big_wf acc \<Longrightarrow> big_wf base \<Longrightarrow> 0 \<le> e \<Longrightarrow>
   big_wf (pow_loop acc base e) \<and> bval (pow_loop acc base e) = bval acc * bval base ^ nat e"
proof (induction acc base e rule: pow_loop.induct)
  case (1 acc base e)
  show ?case
  proof (cases "0 < e")
    case False
    then have "pow_loop acc base e = acc" by (subst pow_loop.simps) simp
    then show ?thesis using 1 False by simp
  next
    case True
    define acc' where "acc' = (if e mod 2 = 1 then big_smul acc base else acc)"
    define base' where "base' = (if e div 2 \<noteq> 0 then big_square base else base)"
    have a: "big_wf acc'" "bval acc' = (if e mod 2 = 1 then bval base else 1) * bval acc"
      using big_smul_props [OF 1(2,3)] 1(2) by (auto simp: acc'_def)
    have b: "big_wf base'" "bval base' ^ nat (e div 2) = (bval base * bval base) ^ nat (e div 2)"
      using big_smul_props [OF 1(3,3)] 1(3) by (auto simp: base'_def big_square_smul)
    have "big_wf (pow_loop acc' base' (e div 2))
        \<and> bval (pow_loop acc' base' (e div 2)) = bval acc' * bval base' ^ nat (e div 2)"
      using True a(1) b(1) by (intro 1(1) [OF True acc'_def refl base'_def]) simp_all
    moreover have "bval acc' * bval base' ^ nat (e div 2) = bval acc * bval base ^ nat e"
      unfolding a(2) b(2) using pow_halves [OF True, of "bval base"] by (simp add: ac_simps)
    ultimately show ?thesis using pow_loop_step [OF True] by (simp add: acc'_def base'_def)
  qed
qed

lemma rt_big_pow_props:
  assumes "int_descr x" "0 \<le> e"
  shows "canonical (rt_big_pow x e) \<and> ival (rt_big_pow x e) = ival x ^ nat e"
proof -
  obtain a where a: "big_of x = Some a" "big_wf a" "bval a = ival x" by (rule big_of_props [OF assms(1)])
  have one: "big_wf (big_from_i64 1)" "bval (big_from_i64 1) = 1"
    using big_from_i64_props [of 1] by simp_all
  show ?thesis
    using pow_loop_props [OF one(1) a(2) assms(2)] a one(2) assms(2)
      rt_big_norm_wf [of "pow_loop (big_from_i64 1) a e"]
    by (simp add: rt_big_pow_def)
qed

lemma big_of_value: "int_descr x \<Longrightarrow> int_descr y \<Longrightarrow> ival x = ival y \<Longrightarrow> big_of x = big_of y"
  using big_of_props [of x] big_of_props [of y] big_wf_inject by metis

text \<open>
  C1. The ring operations: on integer descriptors \<open>rt_big_add\<close>, \<open>rt_big_sub\<close>, \<open>rt_big_mul\<close> and
  \<open>rt_big_neg\<close> return the canonical descriptor of the exact result, so no operation ever wraps.
\<close>

theorem rt_big_ring_ops:
  assumes "int_descr x" "int_descr y"
  shows "canonical (rt_big_add x y) \<and> ival (rt_big_add x y) = ival x + ival y
    \<and> canonical (rt_big_sub x y) \<and> ival (rt_big_sub x y) = ival x - ival y
    \<and> canonical (rt_big_mul x y) \<and> ival (rt_big_mul x y) = ival x * ival y
    \<and> canonical (rt_big_neg x) \<and> ival (rt_big_neg x) = - ival x"
  using rt_big_add_props [OF assms] rt_big_sub_props [OF assms] rt_big_mul_props [OF assms]
    rt_big_neg_props [OF assms(1)] by blast

theorem rt_big_ring_ops_witness:
  "ival (rt_big_mul (D_int 9223372036854775807) (D_int 9223372036854775807))
    = 9223372036854775807 * 9223372036854775807"
  using rt_big_ring_ops [of "D_int 9223372036854775807" "D_int 9223372036854775807"]
    sint_word_of_int64 [of 9223372036854775807] by (simp add: in_i64_def)

text \<open>
  C8. Division truncates towards zero and the remainder takes the sign of the dividend, for every
  pair of operands; a zero divisor fails.
\<close>

theorem rt_big_divmod:
  assumes "int_descr x" "int_descr y"
  shows "(if ival y = 0 then rt_big_div x y = D_fail \<and> rt_big_mod x y = D_fail
     else canonical (rt_big_div x y) \<and> ival (rt_big_div x y) = ival x sdiv ival y
       \<and> canonical (rt_big_mod x y) \<and> ival (rt_big_mod x y) = ival x smod ival y)"
  using rt_big_divmod_props [OF assms] rt_big_div_zero [OF assms] rt_big_mod_zero [OF assms] by simp

theorem rt_big_divmod_witness:
  "ival (rt_big_div (D_big (Some \<lparr>b_sign = - 1, b_limb = [7, 0, 0, 5]\<rparr>))
      (D_big (Some \<lparr>b_sign = 1, b_limb = [3, 0, 1]\<rparr>)))
    = (- 396140812571321687967719751687) sdiv 18446744073709551619"
  using rt_big_divmod [of "D_big (Some \<lparr>b_sign = - 1, b_limb = [7, 0, 0, 5]\<rparr>)"
      "D_big (Some \<lparr>b_sign = 1, b_limb = [3, 0, 1]\<rparr>)"]
  by (simp add: big_wf_def trimmed_def bval_def lbase_def)

text \<open>
  C28. Comparison, sign and equality are those of the numbers: \<open>rt_big_cmp\<close> is the sign of the difference,
  however the two numbers are held, \<open>rt_big_sign\<close> the sign, and \<open>rt_big_eq\<close>, which answers only for numbers
  held in limbs, is true exactly when both are and the numbers are equal.
\<close>

theorem rt_big_order:
  assumes "int_descr x" "int_descr y"
  shows "rt_big_cmp x y = sgn (ival x - ival y) \<and> rt_big_sign x = sgn (ival x)
    \<and> (rt_big_eq x y \<longleftrightarrow> rt_big_is x \<and> rt_big_is y \<and> ival x = ival y)"
  using rt_big_cmp_props [OF assms] rt_big_sign_props [OF assms(1)] rt_big_eq_limbs [OF assms] by blast

theorem rt_big_order_witness:
  "\<not> rt_big_eq (D_int 5) (D_big (Some \<lparr>b_sign = 1, b_limb = [5]\<rparr>))
   \<and> rt_big_cmp (D_int 5) (D_big (Some \<lparr>b_sign = 1, b_limb = [5]\<rparr>)) = 0"
  using rt_big_order [of "D_int 5" "D_big (Some \<lparr>b_sign = 1, b_limb = [5]\<rparr>)"]
  by (simp add: big_wf_def trimmed_def bval_def rt_big_is_def)

text \<open>\<open>rt_big_pow\<close> returns the exact power for every exponent that is not negative.\<close>

theorem rt_big_pow_correct:
  assumes "int_descr x" "0 \<le> e"
  shows "canonical (rt_big_pow x e) \<and> ival (rt_big_pow x e) = ival x ^ nat e"
  by (rule rt_big_pow_props [OF assms])

theorem rt_big_pow_correct_witness: "ival (rt_big_pow (D_int 10) 30) = 10 ^ 30"
  using rt_big_pow_correct [of "D_int 10" 30] by simp

end
