(* ===== verification/Bignum_Bits.thy ===== *)
theory Bignum_Bits
  imports Bignum
begin

text \<open>
  Shifts and bitwise operations of \<open>src/runtime/bignum.c\<close>: \<open>rt_big_shl\<close>, \<open>rt_big_bits\<close> and
  \<open>big_bitwise\<close> behind \<open>rt_big_and\<close>, \<open>rt_big_or\<close>, \<open>rt_big_xor\<close>. The bitwise routines read their
  operands as two's complement of unbounded width; the theorems state them with the bit
  operations of the integers.
\<close>

section \<open>\<open>rt_big_shl\<close>\<close>

text \<open>\<open>c\<close> holds the bits shed by the limb below; \<open>l >> (32 - s)\<close> is not evaluated for \<open>s = 0\<close>.\<close>

fun shl_loop :: "nat \<Rightarrow> u32 \<Rightarrow> limbs \<Rightarrow> limbs" where
  "shl_loop s c [] = [c]"
| "shl_loop s c (l # ls) =
     (if s \<noteq> 0 then push_bit s l OR c else l)
       # shl_loop s (if s \<noteq> 0 then drop_bit (32 - s) l else 0) ls"

definition rt_big_shl :: "descr \<Rightarrow> int \<Rightarrow> descr" where
  "rt_big_shl x sh =
     (case big_of x of None \<Rightarrow> D_fail
      | Some a \<Rightarrow>
          if sh < 0 \<or> sh > 0x7FFFFFFF * 32 then D_fail
          else if b_sign a = 0 then rt_big_norm (Some big_zero)
          else (let w = nat (sh div 32); s = nat (sh mod 32)
            in rt_big_norm (Some
                 \<lparr>b_sign = b_sign a, b_limb = replicate w 0 @ shl_loop s 0 (b_limb a)\<rparr>)))"

lemma limb_shift_left:
  "push_bit s x OR drop_bit (32 - s) p
    = lo32 (push_bit s (w64 x) OR drop_bit (32 - s) (w64 p))"
  by (rule bit_eqI) (auto simp: lo32_def w64_def bit_simps)

lemma shl_loop_val:
  assumes "s \<le> 31"
  shows "lval (shl_loop s (if s \<noteq> 0 then drop_bit (32 - s) p else 0) ls)
    = 2 ^ s * lval ls + unat p div 2 ^ (32 - s)"
proof (induction ls arbitrary: p)
  case Nil
  then show ?case
    using unat_u32_less [of p] by (simp add: unat_drop_bit_eq drop_bit_nat_def lbase_def)
next
  case (Cons l ls)
  have l: "unat (if s \<noteq> 0 then push_bit s l OR drop_bit (32 - s) p else l)
      = (unat l * 2 ^ s) mod lbase + unat p div 2 ^ (32 - s)"
  proof (cases "s = 0")
    case True
    then show ?thesis using unat_u32_less [of p] unat_u32_less [of l] by (simp add: lbase_def)
  next
    case False
    then show ?thesis using assms lo32_shift_left [of s l p] by (simp add: limb_shift_left)
  qed
  have "lval (shl_loop s (if s \<noteq> 0 then drop_bit (32 - s) p else 0) (l # ls))
      = (unat l * 2 ^ s) mod lbase + unat p div 2 ^ (32 - s)
        + lbase * (2 ^ s * lval ls + unat l div 2 ^ (32 - s))"
    using Cons.IH [of l] l by (auto split: if_splits)
  also have "\<dots> = ((unat l * 2 ^ s) mod lbase + lbase * (unat l div 2 ^ (32 - s)))
        + lbase * (2 ^ s * lval ls) + unat p div 2 ^ (32 - s)"
    by (simp add: algebra_simps)
  also have "\<dots> = 2 ^ s * lval (l # ls) + unat p div 2 ^ (32 - s)"
    using shed_step [of s l] assms by (simp add: algebra_simps)
  finally show ?case .
qed

lemma shl_loop_value: "s \<le> 31 \<Longrightarrow> lval (shl_loop s 0 ls) = 2 ^ s * lval ls"
  using shl_loop_val [of s 0 ls] by (simp split: if_splits)

lemma shl_loop_nonempty [simp]: "shl_loop s c ls \<noteq> []"
  by (cases ls) simp_all

lemma rt_big_shl_props:
  assumes "int_descr x" "0 \<le> sh" "sh \<le> 0x7FFFFFFF * 32"
  shows "canonical (rt_big_shl x sh) \<and> ival (rt_big_shl x sh) = ival x * 2 ^ nat sh"
proof -
  obtain a where a: "big_of x = Some a" "big_wf a" "bval a = ival x" by (rule big_of_props [OF assms(1)])
  show ?thesis
  proof (cases "b_sign a = 0")
    case True
    then have "ival x = 0" using a(3) by (simp add: bval_def)
    then show ?thesis using a True assms rt_big_norm_wf [of big_zero] by (simp add: rt_big_shl_def)
  next
    case False
    define w s where "w = nat (sh div 32)" "s = nat (sh mod 32)"
    let ?l = "replicate w 0 @ shl_loop s 0 (b_limb a)"
    have s: "s \<le> 31" by (simp add: w_s_def)
    have "nat sh = 32 * w + s" using assms(2) by (simp add: w_s_def nat_div_distrib nat_mod_distrib)
    then have p: "(2::nat) ^ nat sh = lbase ^ w * 2 ^ s"
      by (simp add: power_add power_mult lbase_def)
    have v: "lval ?l = lval (b_limb a) * 2 ^ nat sh"
      unfolding p by (simp add: lval_append shl_loop_value [OF s])
    have "rt_big_shl x sh = rt_big_norm (Some \<lparr>b_sign = b_sign a, b_limb = ?l\<rparr>)"
      using a assms False by (simp add: rt_big_shl_def Let_def w_s_def)
    moreover have "bval \<lparr>b_sign = b_sign a, b_limb = ?l\<rparr> = ival x * 2 ^ nat sh"
      unfolding a(3) [symmetric] bval_def by (simp add: v)
    ultimately show ?thesis
      using rt_big_norm_props [of "\<lparr>b_sign = b_sign a, b_limb = ?l\<rparr>"] big_wf_pm [OF a(2) False]
      by auto
  qed
qed

section \<open>\<open>rt_big_bits\<close>\<close>

definition rt_big_bits :: "descr \<Rightarrow> int" where
  "rt_big_bits d =
     (case d of D_big (Some b) \<Rightarrow>
        (let l = b_limb b; top = (if l \<noteq> [] then l ! (length l - 1) else 0)
         in 32 * int (length l) - (if top \<noteq> 0 then int (clz32 top) else 32))
      | _ \<Rightarrow> 64)"

lemma bit_len_unique: "2 ^ k \<le> n \<Longrightarrow> n < 2 ^ Suc k \<Longrightarrow> bit_len n = Suc k"
proof -
  assume n: "2 ^ k \<le> n" "n < 2 ^ Suc k"
  then have "bit_len n \<le> Suc k" by (intro bit_len_le)
  moreover have "(2::nat) ^ k < 2 ^ bit_len n" using n(1) bit_len_upper [of n] by linarith
  then have "k < bit_len n" by (rule power_less_imp_less_exp [rotated]) simp
  ultimately show ?thesis by simp
qed

lemma rt_big_bits_props:
  assumes "big_wf b" "bval b \<noteq> 0"
  shows "rt_big_bits (D_big (Some b)) = int (bit_len (nat \<bar>bval b\<bar>))"
proof -
  define l n where "l = b_limb b" "n = length (b_limb b) - 1"
  have l: "l \<noteq> []" "trimmed l" "lval l \<noteq> 0" "length l = Suc n" "last l = l ! n"
  proof -
    show "l \<noteq> []" "trimmed l" using assms(1) by (simp_all add: l_n_def big_wf_trimmed)
    then show "length l = Suc n" "last l = l ! n" by (simp_all add: l_n_def last_conv_nth)
    show "lval l \<noteq> 0" using assms(2) big_wf_abs [OF assms(1)] by (simp add: l_n_def)
  qed
  have top: "l ! n \<noteq> 0"
  proof (cases "length l = 1")
    case True
    then show ?thesis using l by (cases l) (auto simp: unat_0_iff)
  next
    case False
    then show ?thesis using l by (simp add: trimmed_def)
  qed
  define t k where "t = unat (l ! n)" "k = bit_len t - 1"
  have t0: "0 < t" using top by (simp add: t_k_def unat_gt_0)
  then have k: "bit_len t = Suc k" by (simp add: t_k_def bit_len_step)
  have t: "2 ^ k \<le> t" "t < 2 ^ Suc k" using bit_len_lower [OF t0] bit_len_upper [of t] k by simp_all
  have "bit_len t \<le> 32" using unat_u32_less [of "l ! n"] by (intro bit_len_le) (simp add: t_k_def lbase_def)
  have v: "lval l = lval (take n l) + lbase ^ n * t"
    using lval_take_Suc [of n l] l(4) by (simp add: t_k_def)
  have B: "lbase ^ n = 2 ^ (32 * n)" by (simp add: power_mult lbase_def)
  have "lval l < lbase ^ n * (t + 1)" using lval_take_less [of n l] v by simp
  also have "\<dots> \<le> lbase ^ n * 2 ^ Suc k" using t(2) by (intro mult_le_mono2) simp
  finally have "lval l < 2 ^ Suc (32 * n + k)" by (simp add: B power_add)
  moreover have "2 ^ (32 * n + k) \<le> lval l"
  proof -
    have "lbase ^ n * 2 ^ k \<le> lbase ^ n * t" using t(1) by (rule mult_le_mono2)
    then show ?thesis unfolding v by (simp only: B power_add trans_le_add2)
  qed
  ultimately have "bit_len (lval l) = Suc (32 * n + k)" by (intro bit_len_unique)
  moreover have "int (clz32 (l ! n)) = 32 - int (Suc k)"
    using \<open>bit_len t \<le> 32\<close> k by (simp add: clz32_def t_k_def)
  moreover have "nat \<bar>bval b\<bar> = lval l" using big_wf_abs [OF assms(1)] by (simp add: l_n_def)
  ultimately show ?thesis
    using top l(1,4) by (simp add: rt_big_bits_def Let_def l_n_def [symmetric])
qed

section \<open>Two's complement: \<open>big_tc_limb\<close> and \<open>big_bitwise\<close>\<close>

text \<open>Limb \<open>i\<close> of the two's complement form, and the borrow for the next limb.\<close>

definition big_tc_limb :: "big \<Rightarrow> nat \<Rightarrow> u32 \<Rightarrow> u32 \<times> u32" where
  "big_tc_limb a i borrow =
     (let m = (if i < length (b_limb a) then b_limb a ! i else 0)
      in if 0 \<le> b_sign a then (m, borrow)
         else let (v, br) =
             (if i = 0 then (w64 m - 1, if m = 0 then 1 else 0)
              else (w64 m - w64 borrow, if m < borrow then 1 else 0))
           in (NOT (lo32 v), br))"

definition bit_op :: "nat \<Rightarrow> u32 \<Rightarrow> u32 \<Rightarrow> u32" where
  "bit_op op la lb = (if op = 0 then la AND lb else if op = 1 then la OR lb else la XOR lb)"

fun tc_loop :: "big \<Rightarrow> big \<Rightarrow> nat \<Rightarrow> nat \<Rightarrow> nat \<Rightarrow> u32 \<Rightarrow> u32 \<Rightarrow> limbs" where
  "tc_loop a b op i 0 ba bb = []"
| "tc_loop a b op i (Suc m) ba bb =
     (let (la, ba) = big_tc_limb a i ba; (lb, bb) = big_tc_limb b i bb
      in bit_op op la lb # tc_loop a b op (Suc i) m ba bb)"

fun neg_loop :: "u32 \<Rightarrow> limbs \<Rightarrow> limbs" where
  "neg_loop carry [] = []"
| "neg_loop carry (x # xs) =
     (let v = w64 (NOT x) + w64 carry in lo32 v # neg_loop (lo32 (hi32 v)) xs)"

definition big_bitwise :: "descr \<Rightarrow> descr \<Rightarrow> nat \<Rightarrow> descr" where
  "big_bitwise x y op = with_bigs x y (\<lambda>a b.
     let n = max (length (b_limb a)) (length (b_limb b)) + 1;
         r = tc_loop a b op 0 n 1 1;
         br = (if r ! (n - 1) AND 0x80000000 \<noteq> 0
               then \<lparr>b_sign = - 1, b_limb = neg_loop 1 r\<rparr> else \<lparr>b_sign = 1, b_limb = r\<rparr>);
         bt = big_trim br
     in rt_big_norm (Some
          (if length (b_limb bt) = 1 \<and> hd (b_limb bt) = 0 then bt\<lparr>b_sign := 0\<rparr> else bt)))"

definition rt_big_and :: "descr \<Rightarrow> descr \<Rightarrow> descr" where "rt_big_and x y = big_bitwise x y 0"
definition rt_big_or :: "descr \<Rightarrow> descr \<Rightarrow> descr" where "rt_big_or x y = big_bitwise x y 1"
definition rt_big_xor :: "descr \<Rightarrow> descr \<Rightarrow> descr" where "rt_big_xor x y = big_bitwise x y 2"

text \<open>The limbs of one operand, taken apart from the loop that combines two.\<close>

fun tc_limbs :: "big \<Rightarrow> nat \<Rightarrow> nat \<Rightarrow> u32 \<Rightarrow> limbs" where
  "tc_limbs a i 0 ba = []"
| "tc_limbs a i (Suc m) ba =
     (let (la, ba) = big_tc_limb a i ba in la # tc_limbs a (Suc i) m ba)"

lemma length_tc_limbs [simp]: "length (tc_limbs a i m ba) = m"
  by (induction m arbitrary: i ba) (simp_all add: case_prod_beta)

lemma tc_loop_map2:
  "tc_loop a b op i m ba bb = map2 (bit_op op) (tc_limbs a i m ba) (tc_limbs b i m bb)"
  by (induction m arbitrary: i ba bb) (simp_all add: case_prod_beta Let_def)

lemma lval_drop_limb0:
  "unat (if i < length l then l ! i else 0) + lbase * lval (drop (Suc i) l) = lval (drop i l)"
  by (simp add: Cons_nth_drop_Suc [symmetric])

lemma tc_limbs_pos:
  "0 \<le> b_sign a \<Longrightarrow> length (b_limb a) \<le> i + m \<Longrightarrow> lval (tc_limbs a i m ba) = lval (drop i (b_limb a))"
proof (induction m arbitrary: i ba)
  case (Suc m)
  then have "lval (tc_limbs a (Suc i) m ba) = lval (drop (Suc i) (b_limb a))" by simp
  then show ?case
    using Suc.prems(1) lval_drop_limb0 [of i "b_limb a"] by (simp add: big_tc_limb_def Let_def)
qed simp

lemma unat_not32: "unat (NOT (x :: u32)) + unat x + 1 = lbase"
proof -
  have "x + NOT x = - 1" by (simp add: not_eq_complement)
  then have "unat (x + NOT x) = lbase - 1"
    by (simp add: unsigned_minus_1_eq_mask mask_eq_exp_minus_1 lbase_def)
  moreover have "unat (x + y) = (unat x + unat y) mod lbase" for y :: u32
    by (simp add: unat_word_ariths lbase_def)
  note this [of "NOT x"]
  moreover have "unat x + unat (NOT x) < 2 * lbase - 1"
    using unat_u32_less [of x] unat_u32_less [of "NOT x"] by linarith
  ultimately show ?thesis
    by (cases "unat x + unat (NOT x) < lbase") (auto simp: le_mod_geq lbase_def)
qed

lemma lval_map_not: "lval (map (\<lambda>x. NOT x) xs) + lval xs + 1 = lbase ^ length xs"
proof (induction xs)
  case (Cons x xs)
  have "lval (map (\<lambda>x. NOT x) (x # xs)) + lval (x # xs) + 1
      = (unat (NOT x) + unat x + 1) + lbase * (lval (map (\<lambda>x. NOT x) xs) + lval xs)"
    by (simp add: algebra_simps)
  also have "\<dots> = lbase * (lval (map (\<lambda>x. NOT x) xs) + lval xs + 1)"
    unfolding unat_not32 by (simp add: algebra_simps)
  also have "\<dots> = lbase ^ length (x # xs)" unfolding Cons.IH by simp
  finally show ?case .
qed simp

text \<open>For a negative operand the limbs are those of the complement of \<open>mag - 1\<close>.\<close>

fun dec_limbs :: "u32 \<Rightarrow> limbs \<Rightarrow> limbs" where
  "dec_limbs br [] = []"
| "dec_limbs br (x # xs) = lo32 (w64 x - w64 br) # dec_limbs (if x < br then 1 else 0) xs"

lemma lo32_sub: "lo32 (w64 x - w64 y) = word_of_int (uint x - uint y)"
  unfolding lo32_def w64_def by transfer (simp add: take_bit_diff)

lemma length_dec_limbs [simp]: "length (dec_limbs br xs) = length xs"
  by (induction br xs rule: dec_limbs.induct) simp_all

lemma dec_limbs_val:
  "br \<in> {0, 1} \<Longrightarrow>
   int (lval (dec_limbs br xs)) = (int (lval xs) - uint br) mod int lbase ^ length xs"
proof (induction br xs rule: dec_limbs.induct)
  case (2 br x xs)
  define t where "t = uint x - uint br - 0"
  have tb: "- int lbase \<le> t" "t < int lbase"
    unfolding t_def by (rule borrow_bounds; simp)+
  have IH: "int (lval (dec_limbs (if x < br then 1 else 0) xs))
      = (int (lval xs) - uint (if x < br then 1 else 0 :: u32)) mod int lbase ^ length xs"
    by (rule 2(1)) simp
  have "(x < br) = (t < 0)" by (simp add: t_def word_less_def)
  then have IH': "int (lval (dec_limbs (if x < br then 1 else 0) xs))
      = (int (lval xs) - (if t < 0 then 1 else 0)) mod int lbase ^ length xs"
    using IH by (simp split: if_splits)
  have "dec_limbs br (x # xs) = word_of_int t # dec_limbs (if x < br then 1 else 0) xs"
    by (simp add: t_def lo32_sub)
  then have "int (lval (dec_limbs br (x # xs)))
      = (t + int lbase * int (lval xs)) mod int lbase ^ Suc (length xs)"
    using IH' borrow_step [OF tb, of "int (lval xs)" "length xs"] by simp
  then show ?case by (simp add: t_def algebra_simps)
qed simp

lemma tc_limbs_neg:
  assumes "b_sign a < 0"
  shows "(i = 0 \<longrightarrow> br = 1) \<Longrightarrow> tc_limbs a i m br = map (\<lambda>x. NOT x)
    (dec_limbs br (map (\<lambda>k. if k < length (b_limb a) then b_limb a ! k else 0) [i ..< i + m]))"
proof (induction m arbitrary: i br)
  case (Suc m)
  have u: "[i ..< i + Suc m] = i # [Suc i ..< Suc i + m]" by (simp add: upt_rec)
  have one: "w64 1 = 1" by (simp add: w64_def)
  have lt: "x < 1 \<longleftrightarrow> x = 0" for x :: u32 by (simp add: word_less_nat_alt unat_eq_0 [symmetric])
  show ?case
    unfolding u using Suc assms one lt
    by (auto simp: big_tc_limb_def Let_def case_prod_beta)
qed simp

lemma lval_map_upt:
  "length l \<le> i + m \<Longrightarrow>
   lval (map (\<lambda>k. if k < length l then l ! k else 0) [i ..< i + m]) = lval (drop i l)"
proof (induction m arbitrary: i)
  case (Suc m)
  have "[i ..< i + Suc m] = i # [Suc i ..< Suc i + m]" by (simp add: upt_rec)
  then show ?case using Suc.IH [of "Suc i"] Suc.prems lval_drop_limb0 [of i l] by simp
qed simp

text \<open>The limbs of an operand are its residue modulo \<open>2 ^ (32 * m)\<close>.\<close>

lemma tc_limbs_val:
  assumes "big_wf a" "length (b_limb a) \<le> m"
  shows "int (lval (tc_limbs a 0 m 1)) = take_bit (32 * m) (bval a)"
proof -
  have B: "int lbase ^ m = 2 ^ (32 * m)" by (simp add: power_mult lbase_def)
  show ?thesis
  proof (cases "0 \<le> b_sign a")
  case True
  have "lbase ^ length (b_limb a) \<le> lbase ^ m" using assms(2) by (intro power_increasing) simp_all
  then have "lval (b_limb a) < lbase ^ m" using lval_less [of "b_limb a"] by (rule less_le_trans [rotated])
  then have "int (lval (b_limb a)) < int (lbase ^ m)" by (simp only: of_nat_less_iff)
  then have "int (lval (b_limb a)) < 2 ^ (32 * m)" unfolding of_nat_power B .
  moreover have "bval a = int (lval (b_limb a))"
    using True big_wf_signs [OF assms(1)] by (auto simp: bval_def)
  ultimately show ?thesis using True assms(2) by (simp add: tc_limbs_pos take_bit_int_eq_self)
next
  case False
  let ?x = "map (\<lambda>k. if k < length (b_limb a) then b_limb a ! k else 0) [0 ..< 0 + m]"
  have x: "lval ?x = lval (b_limb a)" "length ?x = m"
    using lval_map_upt [of "b_limb a" 0 m] assms(2) by simp_all
  have v: "bval a = - int (lval (b_limb a))" "lval (b_limb a) \<noteq> 0"
    using False big_wf_signs [OF assms(1)] by (auto simp: bval_def)
  have "int (lval (dec_limbs 1 ?x)) = (int (lval (b_limb a)) - 1) mod int lbase ^ m"
    using dec_limbs_val [of 1 ?x] x by simp
  moreover have "tc_limbs a 0 m 1 = map (\<lambda>x. NOT x) (dec_limbs 1 ?x)"
    using False by (intro tc_limbs_neg) simp_all
  then have "lval (tc_limbs a 0 m 1) + lval (dec_limbs 1 ?x) + 1 = lbase ^ m"
    using lval_map_not [of "dec_limbs 1 ?x"] x(2) by simp
  then have "int (lval (tc_limbs a 0 m 1) + lval (dec_limbs 1 ?x) + 1) = int (lbase ^ m)"
    by (simp only:)
  then have "int (lval (tc_limbs a 0 m 1)) = int lbase ^ m - 1 - int (lval (dec_limbs 1 ?x))"
    unfolding of_nat_add of_nat_1 of_nat_power by linarith
  ultimately have e: "int (lval (tc_limbs a 0 m 1)) =
      2 ^ (32 * m) - 1 - (int (lval (b_limb a)) - 1) mod 2 ^ (32 * m)"
    unfolding B by simp
  have le: "0 \<le> int (lval (tc_limbs a 0 m 1))" "int (lval (tc_limbs a 0 m 1)) < 2 ^ (32 * m)"
  proof -
    have "int (lval (tc_limbs a 0 m 1)) < int (lbase ^ m)"
      using lval_less [of "tc_limbs a 0 m 1"] by (simp only: of_nat_less_iff length_tc_limbs)
    then show "int (lval (tc_limbs a 0 m 1)) < 2 ^ (32 * m)" unfolding of_nat_power B .
  qed simp
  define M :: int where "M = 2 ^ (32 * m)"
  have "int (lval (tc_limbs a 0 m 1)) = int (lval (tc_limbs a 0 m 1)) mod M"
    using le by (simp add: M_def)
  also have "\<dots> = (M - 1 - (int (lval (b_limb a)) - 1) mod M) mod M" unfolding e M_def ..
  also have "\<dots> = (M - 1 - (int (lval (b_limb a)) - 1)) mod M" by (rule mod_diff_right_eq)
  also have "M - 1 - (int (lval (b_limb a)) - 1) = bval a + M" unfolding v(1) by simp
  also have "(bval a + M) mod M = bval a mod M" by simp
  finally show ?thesis unfolding take_bit_int_def M_def .
  qed
qed

text \<open>The bits of a limb vector, and limb-wise operations on them.\<close>

lemma bit_limb_cons:
  "bit (unat (x :: u32) + lbase * v) k = (if k < 32 then bit x k else bit v (k - 32))"
proof -
  have "push_bit 32 v AND unat x = 0"
    by (rule bit_eqI) (auto simp: bit_simps dest: bit_imp_le_length)
  then have "unat x + lbase * v = push_bit 32 v OR unat x"
    using disjunctive_add_eq_or [of "push_bit 32 v" "unat x"]
    by (simp add: push_bit_nat_def lbase_def add.commute mult.commute)
  then show ?thesis by (auto simp: bit_simps dest: bit_imp_le_length)
qed

lemma lval_map2_bits:
  assumes f: "\<And>x y k. bit (f x y) k = (k < 32 \<and> F (bit x k) (bit y k))" and F: "\<not> F False False"
  shows "length xs = length ys \<Longrightarrow> bit (lval (map2 f xs ys)) k = F (bit (lval xs) k) (bit (lval ys) k)"
proof (induction xs ys arbitrary: k rule: list_induct2)
  case (Cons x xs y ys)
  then show ?case using f by (simp add: bit_limb_cons)
qed (use F in simp)

lemma lval_map2_ops:
  assumes "length xs = length ys"
  shows "lval (map2 (bit_op 0) xs ys) = lval xs AND lval ys"
    "lval (map2 (bit_op 1) xs ys) = lval xs OR lval ys"
    "2 \<le> op \<Longrightarrow> lval (map2 (bit_op op) xs ys) = lval xs XOR lval ys"
proof -
  show "lval (map2 (bit_op 0) xs ys) = lval xs AND lval ys"
    by (rule bit_eqI, subst lval_map2_bits [where F = "(\<and>)"])
      (use assms in \<open>auto simp: bit_op_def bit_simps dest: bit_imp_le_length\<close>)
  show "lval (map2 (bit_op 1) xs ys) = lval xs OR lval ys"
    by (rule bit_eqI, subst lval_map2_bits [where F = "(\<or>)"])
      (use assms in \<open>auto simp: bit_op_def bit_simps dest: bit_imp_le_length\<close>)
  show "2 \<le> op \<Longrightarrow> lval (map2 (bit_op op) xs ys) = lval xs XOR lval ys"
    by (rule bit_eqI, subst lval_map2_bits [where F = "(\<noteq>)"])
      (use assms in \<open>auto simp: bit_op_def bit_simps dest: bit_imp_le_length\<close>)
qed

lemma length_neg_loop [simp]: "length (neg_loop c xs) = length xs"
  by (induction c xs rule: neg_loop.induct) (simp_all add: Let_def)

lemma neg_loop_val:
  "unat c \<le> 1 \<Longrightarrow> lval (neg_loop c xs) = (unat c + lval (map (\<lambda>x. NOT x) xs)) mod lbase ^ length xs"
proof (induction c xs rule: neg_loop.induct)
  case (2 c x xs)
  define v where "v = w64 (NOT x) + w64 c"
  have bound: "unat c + unat (NOT x) < 2 * lbase"
    using 2(2) unat_u32_less [of "NOT x"] lbase_gt1(1) by linarith
  also have "\<dots> < lbase * lbase" by (simp add: lbase_def)
  finally have "unat (NOT x) + unat c < lbase * lbase" by simp
  then have v: "unat v = unat (NOT x) + unat c" by (simp add: v_def unat_add64)
  have h: "unat v div lbase < 2" using bound v by (simp add: less_mult_imp_div_less add.commute)
  then have hl: "unat (lo32 (hi32 v)) = unat v div lbase"
    unfolding unat_lo32 unat_hi32 using lbase_gt1(1) by (intro mod_less) linarith
  have IH: "lval (neg_loop (lo32 (hi32 v)) xs)
      = (unat v div lbase + lval (map (\<lambda>x. NOT x) xs)) mod lbase ^ length xs"
    using 2(1) [OF v_def] h hl by simp
  have "neg_loop c (x # xs) = lo32 v # neg_loop (lo32 (hi32 v)) xs"
    by (simp add: v_def Let_def)
  then have "lval (neg_loop c (x # xs))
      = (unat v + lbase * lval (map (\<lambda>x. NOT x) xs)) mod lbase ^ Suc (length xs)"
    using IH carry_step [of "unat v" "lval (map (\<lambda>x. NOT x) xs)" "length xs"]
    by (simp add: word_split)
  then show ?case using v by (simp add: algebra_simps)
qed simp

lemma neg_loop_complement:
  assumes "lval xs \<noteq> 0"
  shows "lval (neg_loop 1 xs) = lbase ^ length xs - lval xs"
proof -
  have "lval (neg_loop 1 xs) = (1 + lval (map (\<lambda>x. NOT x) xs)) mod lbase ^ length xs"
    using neg_loop_val [of 1 xs] by simp
  moreover have "1 + lval (map (\<lambda>x. NOT x) xs) = lbase ^ length xs - lval xs"
    using lval_map_not [of xs] by linarith
  moreover have "lbase ^ length xs - lval xs < lbase ^ length xs" using assms by simp
  ultimately show ?thesis by simp
qed

definition int_op :: "nat \<Rightarrow> int \<Rightarrow> int \<Rightarrow> int" where
  "int_op op x y = (if op = 0 then x AND y else if op = 1 then x OR y else x XOR y)"

lemma signed_take_bit_ops:
  "signed_take_bit p (x AND y :: int) = signed_take_bit p x AND signed_take_bit p y"
  "signed_take_bit p (x OR y :: int) = signed_take_bit p x OR signed_take_bit p y"
  "signed_take_bit p (x XOR y :: int) = signed_take_bit p x XOR signed_take_bit p y"
  by (rule bit_eqI; auto simp: bit_simps min_def)+

lemma int_op_range:
  assumes "- (2 ^ p) \<le> x" "x < 2 ^ p" "- (2 ^ p) \<le> y" "y < 2 ^ p"
  shows "- (2 ^ p) \<le> int_op op x y \<and> int_op op x y < 2 ^ p"
proof -
  have "signed_take_bit p x = x" "signed_take_bit p y = y"
    using assms by (simp_all add: signed_take_bit_int_eq_self_iff)
  then have "signed_take_bit p (int_op op x y) = int_op op x y"
    by (simp add: int_op_def signed_take_bit_ops)
  then show ?thesis by (simp only: signed_take_bit_int_eq_self_iff)
qed

lemma tc_loop_val:
  assumes "big_wf a" "big_wf b" "length (b_limb a) \<le> n" "length (b_limb b) \<le> n"
  shows "int (lval (tc_loop a b op 0 n 1 1)) = take_bit (32 * n) (int_op op (bval a) (bval b))"
proof -
  let ?x = "tc_limbs a 0 n 1" and ?y = "tc_limbs b 0 n 1"
  have l: "length ?x = length ?y" by simp
  consider "op = 0" | "op = 1" | "2 \<le> op" by linarith
  then have "int (lval (map2 (bit_op op) ?x ?y)) = int_op op (int (lval ?x)) (int (lval ?y))"
    by cases (simp_all add: lval_map2_ops [OF l, unfolded One_nat_def] int_op_def of_nat_and_eq
        of_nat_or_eq of_nat_xor_eq)
  then show ?thesis
    using tc_limbs_val [OF assms(1,3)] tc_limbs_val [OF assms(2,4)]
    by (simp add: tc_loop_map2 int_op_def)
qed

lemma top_limb_extreme:
  assumes "length r = Suc n"
  shows "lval r < lbase ^ n \<Longrightarrow> r ! n = 0"
    "lbase ^ Suc n \<le> lval r + lbase ^ n \<Longrightarrow> r ! n = - 1"
proof -
  have v: "lval r = lval (take n r) + lbase ^ n * unat (r ! n)"
    using lval_take_Suc [of n r] assms by simp
  show "r ! n = 0" if "lval r < lbase ^ n"
  proof -
    have "lbase ^ n * unat (r ! n) < lbase ^ n * 1" using that v by linarith
    then have "unat (r ! n) = 0" by (simp only: mult_less_cancel1 less_one)
    then show ?thesis by (simp add: unat_0_iff)
  qed
  show "r ! n = - 1" if "lbase ^ Suc n \<le> lval r + lbase ^ n"
  proof -
    have "lbase ^ n * lbase < lbase ^ n * (unat (r ! n) + 2)"
      using that v lval_take_less [of n r] by (simp add: algebra_simps)
    then have "lbase < unat (r ! n) + 2" by (simp only: mult_less_cancel1)
    then have "unat (r ! n) = lbase - 1" using unat_u32_less [of "r ! n"] by linarith
    then show ?thesis
      by (simp add: word_unat_eq_iff unsigned_minus_1_eq_mask mask_eq_exp_minus_1 lbase_def)
  qed
qed

lemma big_bitwise_props:
  assumes "int_descr x" "int_descr y"
  shows "canonical (big_bitwise x y op) \<and> ival (big_bitwise x y op) = int_op op (ival x) (ival y)"
proof -
  obtain a b where ab: "big_wf a" "big_wf b" "bval a = ival x" "bval b = ival y"
    "\<And>f. with_bigs x y f = f a b" by (rule with_bigs_int [OF assms]) blast
  define n where "n = max (length (b_limb a)) (length (b_limb b))"
  define r where "r = tc_loop a b op 0 (Suc n) 1 1"
  define z where "z = int_op op (bval a) (bval b)"
  define br where "br = (if r ! n AND 0x80000000 \<noteq> 0
    then \<lparr>b_sign = - 1, b_limb = neg_loop 1 r\<rparr> else \<lparr>b_sign = 1, b_limb = r\<rparr>)"
  have B: "int lbase ^ k = 2 ^ (32 * k)" for k by (simp add: power_mult lbase_def)
  have range: "- (2 ^ (32 * n)) \<le> bval c \<and> bval c < 2 ^ (32 * n)"
    if "big_wf c" "length (b_limb c) \<le> n" for c
  proof -
    have "lbase ^ length (b_limb c) \<le> lbase ^ n" using that by (intro power_increasing) simp_all
    then have "lval (b_limb c) < lbase ^ n" using lval_less [of "b_limb c"] by linarith
    then have "int (lval (b_limb c)) < int (lbase ^ n)" by (simp only: of_nat_less_iff)
    then have "\<bar>bval c\<bar> < 2 ^ (32 * n)" unfolding big_wf_abs [OF that(1)] of_nat_power B .
    then show ?thesis by linarith
  qed
  have lens: "length (b_limb a) \<le> n" "length (b_limb b) \<le> n" by (simp_all add: n_def)
  have zr: "- (2 ^ (32 * n)) \<le> z" "z < 2 ^ (32 * n)"
    using int_op_range [of "32 * n" "bval a" "bval b" op] range ab(1,2) lens by (simp_all add: z_def)
  have lr: "length r = Suc n" by (simp add: r_def tc_loop_map2 del: tc_limbs.simps)
  have rv: "int (lval r) = take_bit (32 * Suc n) z"
    unfolding r_def z_def using ab(1,2) lens by (intro tc_loop_val) simp_all
  have big: "(2::int) ^ (32 * n) < 2 ^ (32 * Suc n)" by (intro power_strict_increasing) simp_all
  have "bval br = z \<and> b_limb br \<noteq> [] \<and> b_sign br \<in> {- 1, 1}"
  proof (cases "0 \<le> z")
    case True
    then have v: "int (lval r) = z" unfolding rv using zr big by (intro take_bit_int_eq_self) linarith+
    then have "int (lval r) < int (lbase ^ n)" using zr by (simp add: B)
    then have "r ! n = 0" by (intro top_limb_extreme(1) [OF lr]) (simp only: of_nat_less_iff)
    then show ?thesis using v lr by (auto simp: br_def bval_def)
  next
    case False
    have m: "z mod 2 ^ (32 * Suc n) = z + 2 ^ (32 * Suc n)"
    proof -
      have "(z + 2 ^ (32 * Suc n)) mod 2 ^ (32 * Suc n) = z + 2 ^ (32 * Suc n)"
        using False zr big by (intro mod_pos_pos_trivial) linarith+
      then show ?thesis by simp
    qed
    then have v: "int (lval r) = z + int lbase ^ Suc n" unfolding rv take_bit_int_def B .
    then have "int (lbase ^ Suc n) \<le> int (lval r + lbase ^ n)"
      using zr unfolding of_nat_power of_nat_add B by linarith
    then have "r ! n = - 1"
      by (intro top_limb_extreme(2) [OF lr]) (simp only: of_nat_le_iff)
    then have br: "br = \<lparr>b_sign = - 1, b_limb = neg_loop 1 r\<rparr>" by (simp add: br_def)
    have "0 < int (lval r)" using v zr big unfolding B by linarith
    then have r0: "lval r \<noteq> 0" by simp
    have "lval (neg_loop 1 r) + lval r = lbase ^ Suc n"
      using neg_loop_complement [OF r0] lval_less [of r] lr by simp
    then have "int (lval (neg_loop 1 r) + lval r) = int (lbase ^ Suc n)" by (simp only:)
    then have "int (lval (neg_loop 1 r)) = - z" using v unfolding of_nat_add of_nat_power by linarith
    moreover have "neg_loop 1 r \<noteq> []" using lr length_neg_loop [of 1 r] by (metis Zero_not_Suc list.size(3))
    ultimately show ?thesis by (simp add: br bval_def)
  qed
  then have br: "bval br = z" "b_limb br \<noteq> []" "b_sign br \<in> {- 1, 1}" by blast+
  define bt where "bt = big_trim br"
  have bt: "big_wf bt" "bval bt = z" using br by (auto simp: bt_def intro: big_trim_wf)
  have "(if length (b_limb bt) = 1 \<and> hd (b_limb bt) = 0 then bt\<lparr>b_sign := 0\<rparr> else bt) = bt"
    by (simp add: bt_def big_trim_def Let_def)
  then have "big_bitwise x y op = rt_big_norm (Some bt)"
    unfolding big_bitwise_def ab(5) Let_def n_def [symmetric] Suc_eq_plus1 [symmetric] diff_Suc_1
      r_def [symmetric] br_def [symmetric] bt_def [symmetric] by (simp only:)
  then show ?thesis using rt_big_norm_wf [OF bt(1)] bt(2) by (simp add: z_def ab)
qed

text \<open>
  C20. \<open>rt_big_and\<close>, \<open>rt_big_or\<close> and \<open>rt_big_xor\<close> are the bit operations of the integers: they read
  and write negative numbers as two's complement of unbounded width.
\<close>

theorem rt_big_bitwise_correct:
  assumes "int_descr x" "int_descr y"
  shows "canonical (rt_big_and x y) \<and> ival (rt_big_and x y) = ival x AND ival y
    \<and> canonical (rt_big_or x y) \<and> ival (rt_big_or x y) = ival x OR ival y
    \<and> canonical (rt_big_xor x y) \<and> ival (rt_big_xor x y) = ival x XOR ival y"
  using big_bitwise_props [OF assms, of 0] big_bitwise_props [OF assms, of 1]
    big_bitwise_props [OF assms, of 2]
  by (simp add: rt_big_and_def rt_big_or_def rt_big_xor_def int_op_def)

theorem rt_big_bitwise_correct_witness:
  "ival (rt_big_and (D_big (Some \<lparr>b_sign = - 1, b_limb = [0, 0, 1]\<rparr>)) (D_int 255))
    = (- 18446744073709551616) AND 255"
  using rt_big_bitwise_correct [of "D_big (Some \<lparr>b_sign = - 1, b_limb = [0, 0, 1]\<rparr>)" "D_int 255"]
    sint_word_of_int64 [of 255]
  by (simp add: big_wf_def trimmed_def bval_def lbase_def in_i64_def)

text \<open>
  \<open>rt_big_shl\<close> multiplies by a power of two for every shift count it accepts and fails outside
  them; \<open>rt_big_bits\<close> is the length of the magnitude in binary.
\<close>

theorem rt_big_shl_correct:
  assumes "int_descr x"
  shows "(if 0 \<le> sh \<and> sh \<le> 0x7FFFFFFF * 32
      then canonical (rt_big_shl x sh) \<and> ival (rt_big_shl x sh) = ival x * 2 ^ nat sh
      else rt_big_shl x sh = D_fail)
    \<and> (\<forall>b. x = D_big (Some b) \<and> ival x \<noteq> 0 \<longrightarrow> rt_big_bits x = int (bit_len (nat \<bar>ival x\<bar>)))"
proof -
  have "rt_big_shl x sh = D_fail" if "\<not> (0 \<le> sh \<and> sh \<le> 0x7FFFFFFF * 32)"
    using that by (auto simp: rt_big_shl_def split: option.split)
  then show ?thesis using rt_big_shl_props [OF assms, of sh] rt_big_bits_props assms by auto
qed

theorem rt_big_shl_correct_witness: "ival (rt_big_shl (D_int 3) 100) = 3 * 2 ^ 100"
  using rt_big_shl_correct [of "D_int 3" 100] sint_word_of_int64 [of 3] by (simp add: in_i64_def)

end
