(* ===== verification/Bignum_Str.thy ===== *)
theory Bignum_Str
  imports Bignum
begin

text \<open>
  Text and block forms of big integers (\<open>src/runtime/bignum.c\<close>): the readers \<open>rt_big_from_str\<close>
  and \<open>rt_big_from_str_base\<close>, the printer \<open>rt_big_str\<close>, and the block layout the Icon external
  interface exchanges (\<open>rt_big_icnx_block\<close>, \<open>rt_big_from_icnx_block\<close>). A C string is the list of
  its characters before the NUL.
\<close>

section \<open>Readers\<close>

definition is_blank :: "char \<Rightarrow> bool" where
  "is_blank c \<longleftrightarrow> c = CHR 0x20 \<or> c = CHR 0x09"

definition skip_blanks :: "string \<Rightarrow> string" where
  "skip_blanks s = dropWhile is_blank s"

text \<open>\<open>int neg = 0; if (*s == '+' || *s == '-') { neg = (*s == '-'); s++; }\<close>\<close>

definition read_sign :: "string \<Rightarrow> bool \<times> string" where
  "read_sign s =
     (case s of [] \<Rightarrow> (False, [])
      | c # s' \<Rightarrow> if c = CHR ''+'' \<or> c = CHR ''-'' then (c = CHR ''-'', s') else (False, s))"

definition dec_digit :: "char \<Rightarrow> nat option" where
  "dec_digit c = (if CHR ''0'' \<le> c \<and> c \<le> CHR ''9'' then Some (of_char c - 48) else None)"

definition base_digit :: "nat \<Rightarrow> char \<Rightarrow> nat option" where
  "base_digit base c =
     (let d = (if CHR ''0'' \<le> c \<and> c \<le> CHR ''9'' then Some (of_char c - 48)
               else if CHR ''a'' \<le> c \<and> c \<le> CHR ''z'' then Some (of_char c - 97 + 10)
               else if CHR ''A'' \<le> c \<and> c \<le> CHR ''Z'' then Some (of_char c - 65 + 10) else None)
      in case d of None \<Rightarrow> None | Some n \<Rightarrow> if n \<ge> base then None else Some n)"

text \<open>The digit loop of both readers: multiply by the base, add the digit, stop at a stranger.\<close>

fun num_loop :: "(char \<Rightarrow> nat option) \<Rightarrow> big \<Rightarrow> big \<Rightarrow> nat \<Rightarrow> string \<Rightarrow> big \<times> nat \<times> string" where
  "num_loop dv bb acc nd [] = (acc, nd, [])"
| "num_loop dv bb acc nd (c # s) =
     (case dv c of None \<Rightarrow> (acc, nd, c # s)
      | Some d \<Rightarrow>
          (let m = big_umul (b_limb acc) (b_limb bb);
               dd = big_from_i64 (word_of_nat d);
               t = big_uadd m (b_limb dd)
           in num_loop dv bb (big_trim \<lparr>b_sign = 1, b_limb = t\<rparr>) (nd + 1) s))"

definition rt_big_from_str :: "string \<Rightarrow> descr" where
  "rt_big_from_str s0 =
     (let s = skip_blanks s0; (neg, s) = read_sign s
      in if s = [] \<or> dec_digit (hd s) = None then D_fail
         else let (acc, nd, s) = num_loop dec_digit (big_from_i64 10) (big_from_i64 0) 0 s;
                  s = skip_blanks s
           in if s \<noteq> [] then D_fail
              else rt_big_norm (Some (if neg \<and> b_sign acc \<noteq> 0 then acc\<lparr>b_sign := - 1\<rparr> else acc)))"

definition rt_big_from_str_base :: "string \<Rightarrow> nat \<Rightarrow> descr" where
  "rt_big_from_str_base s0 base =
     (if base < 2 \<or> base > 36 then D_fail
      else let s = skip_blanks s0; (neg, s) = read_sign s;
               (acc, nd, s) =
                 num_loop (base_digit base) (big_from_i64 (word_of_nat base)) (big_from_i64 0) 0 s;
               s = skip_blanks s
        in if s \<noteq> [] \<or> nd = 0 then D_fail
           else rt_big_norm (Some (if neg \<and> b_sign acc \<noteq> 0 then acc\<lparr>b_sign := - 1\<rparr> else acc)))"

text \<open>The value of a digit string.\<close>

definition digits_val :: "(char \<Rightarrow> nat option) \<Rightarrow> nat \<Rightarrow> nat \<Rightarrow> string \<Rightarrow> nat" where
  "digits_val dv base = foldl (\<lambda>v c. v * base + the (dv c))"

lemma digits_val_simps [simp]:
  "digits_val dv base v [] = v"
  "digits_val dv base v (c # s) = digits_val dv base (v * base + the (dv c)) s"
  "digits_val dv base v (s @ t) = digits_val dv base (digits_val dv base v s) t"
  by (simp_all add: digits_val_def)

lemma small_i64: "n < 2 ^ 63 \<Longrightarrow> sint (word_of_nat n :: u64) = int n"
  using sint_word_of_int64 [of "int n"] by (simp add: in_i64_def)

lemma lval_small_i64: "n < 2 ^ 63 \<Longrightarrow> lval (b_limb (big_from_i64 (word_of_nat n))) = n"
  using big_wf_abs [OF big_from_i64_props(1)] big_from_i64_props(2) small_i64 [of n]
  by (metis abs_of_nat of_nat_eq_iff)

definition nonneg_big :: "big \<Rightarrow> bool" where
  "nonneg_big b \<longleftrightarrow> big_wf b \<and> 0 \<le> b_sign b"

lemma num_loop_props:
  assumes "\<And>c d. dv c = Some d \<Longrightarrow> d < 2 ^ 63" "big_wf bb" "lval (b_limb bb) = base"
  shows "nonneg_big acc \<Longrightarrow> \<exists>acc'. num_loop dv bb acc nd s
      = (acc', nd + length (takeWhile (\<lambda>c. dv c \<noteq> None) s), dropWhile (\<lambda>c. dv c \<noteq> None) s)
    \<and> nonneg_big acc'
    \<and> lval (b_limb acc') = digits_val dv base (lval (b_limb acc)) (takeWhile (\<lambda>c. dv c \<noteq> None) s)"
proof (induction s arbitrary: acc nd)
  case (Cons c s)
  show ?case
  proof (cases "dv c")
    case None
    then show ?thesis using Cons.prems by simp
  next
    case (Some d)
    let ?t = "big_uadd (big_umul (b_limb acc) (b_limb bb)) (b_limb (big_from_i64 (word_of_nat d)))"
    let ?a = "big_trim \<lparr>b_sign = 1, b_limb = ?t\<rparr>"
    have v: "lval ?t = lval (b_limb acc) * base + d"
      using assms(1) [OF Some] assms(3) by (simp add: lval_big_uadd lval_big_umul lval_small_i64)
    have wf: "big_wf ?a" using trim_result(1) [of ?t 1] by simp
    have lv: "lval (b_limb ?a) = lval (b_limb acc) * base + d"
      using v by (simp add: big_trim_def Let_def)
    have nn: "nonneg_big ?a" using wf by (simp add: nonneg_big_def) (simp add: big_trim_def Let_def)
    have e: "num_loop dv bb acc nd (c # s) = num_loop dv bb ?a (nd + 1) s"
      using Some by (simp add: Let_def)
    obtain acc' where "num_loop dv bb ?a (nd + 1) s
        = (acc', nd + 1 + length (takeWhile (\<lambda>c. dv c \<noteq> None) s), dropWhile (\<lambda>c. dv c \<noteq> None) s)"
      "nonneg_big acc'"
      "lval (b_limb acc') = digits_val dv base (lval (b_limb ?a)) (takeWhile (\<lambda>c. dv c \<noteq> None) s)"
      using Cons.IH [OF nn] by blast
    then show ?thesis unfolding e using Some lv by simp
  qed
qed simp

lemma dec_digit_less: "dec_digit c = Some d \<Longrightarrow> d < 10"
  by (auto simp: dec_digit_def less_eq_char_def split: if_splits)

lemma base_digit_less: "base_digit base c = Some d \<Longrightarrow> d < base"
  by (auto simp: base_digit_def Let_def split: if_splits option.splits)

lemma signed_norm:
  assumes "nonneg_big acc"
  shows "canonical (rt_big_norm (Some (if neg \<and> b_sign acc \<noteq> 0 then acc\<lparr>b_sign := - 1\<rparr> else acc)))"
    "ival (rt_big_norm (Some (if neg \<and> b_sign acc \<noteq> 0 then acc\<lparr>b_sign := - 1\<rparr> else acc)))
      = (if neg then - int (lval (b_limb acc)) else int (lval (b_limb acc)))"
proof -
  let ?b = "if neg \<and> b_sign acc \<noteq> 0 then acc\<lparr>b_sign := - 1\<rparr> else acc"
  have a: "big_wf acc" "0 \<le> b_sign acc" using assms by (simp_all add: nonneg_big_def)
  have "big_wf ?b \<and> bval ?b = (if neg then - int (lval (b_limb acc)) else int (lval (b_limb acc)))"
    using a big_wf_signs [OF a(1)] by (auto simp: big_wf_def bval_def)
  then show "canonical (rt_big_norm (Some ?b))"
    "ival (rt_big_norm (Some ?b)) = (if neg then - int (lval (b_limb acc)) else int (lval (b_limb acc)))"
    using rt_big_norm_wf [of ?b] by simp_all
qed

lemma zero_nonneg: "nonneg_big (big_from_i64 0)" "lval (b_limb (big_from_i64 0)) = 0"
proof -
  have z: "big_from_i64 0 = big_zero"
    using big_from_i64_props [of 0] by (intro big_wf_inject) simp_all
  show "nonneg_big (big_from_i64 0)" "lval (b_limb (big_from_i64 0)) = 0"
    unfolding z nonneg_big_def by (simp_all add: big_zero_def)
      (use big_zero_props(1) in \<open>simp add: big_zero_def\<close>)
qed

text \<open>What the two readers compute, in terms of the longest run of digits.\<close>

lemma from_str_run:
  fixes s0 :: string
  assumes "read_sign (skip_blanks s0) = (neg, s)"
  defines "ds \<equiv> takeWhile (\<lambda>c. dec_digit c \<noteq> None) s"
    and "rest \<equiv> dropWhile (\<lambda>c. dec_digit c \<noteq> None) s"
  shows "ds = [] \<or> skip_blanks rest \<noteq> [] \<Longrightarrow> rt_big_from_str s0 = D_fail"
    "ds \<noteq> [] \<Longrightarrow> skip_blanks rest = [] \<Longrightarrow> canonical (rt_big_from_str s0) \<and>
      ival (rt_big_from_str s0)
        = (if neg then - int (digits_val dec_digit 10 0 ds) else int (digits_val dec_digit 10 0 ds))"
proof -
  have "\<And>c d. dec_digit c = Some d \<Longrightarrow> d < 2 ^ 63" using dec_digit_less by fastforce
  moreover have "lval (b_limb (big_from_i64 10)) = 10" using lval_small_i64 [of 10] by simp
  ultimately obtain acc where acc:
    "num_loop dec_digit (big_from_i64 10) (big_from_i64 0) 0 s = (acc, length ds, rest)"
    "nonneg_big acc" "lval (b_limb acc) = digits_val dec_digit 10 0 ds"
    using num_loop_props [of dec_digit "big_from_i64 10" 10 "big_from_i64 0" 0 s]
      zero_nonneg big_from_i64_props(1) by (auto simp: ds_def rest_def)
  have ne: "ds \<noteq> [] \<longleftrightarrow> s \<noteq> [] \<and> dec_digit (hd s) \<noteq> None"
    by (cases s) (simp_all add: ds_def)
  show "ds = [] \<or> skip_blanks rest \<noteq> [] \<Longrightarrow> rt_big_from_str s0 = D_fail"
    using assms(1) acc(1) ne by (auto simp: rt_big_from_str_def Let_def)
  show "ds \<noteq> [] \<Longrightarrow> skip_blanks rest = [] \<Longrightarrow> canonical (rt_big_from_str s0) \<and>
      ival (rt_big_from_str s0)
        = (if neg then - int (digits_val dec_digit 10 0 ds) else int (digits_val dec_digit 10 0 ds))"
    using assms(1) acc(1,3) ne signed_norm [OF acc(2), of neg]
    by (auto simp: rt_big_from_str_def Let_def)
qed

lemma from_str_base_run:
  fixes s0 :: string
  assumes "read_sign (skip_blanks s0) = (neg, s)" "2 \<le> base" "base \<le> 36"
  defines "ds \<equiv> takeWhile (\<lambda>c. base_digit base c \<noteq> None) s"
    and "rest \<equiv> dropWhile (\<lambda>c. base_digit base c \<noteq> None) s"
  shows "ds = [] \<or> skip_blanks rest \<noteq> [] \<Longrightarrow> rt_big_from_str_base s0 base = D_fail"
    "ds \<noteq> [] \<Longrightarrow> skip_blanks rest = [] \<Longrightarrow> canonical (rt_big_from_str_base s0 base) \<and>
      ival (rt_big_from_str_base s0 base)
        = (if neg then - int (digits_val (base_digit base) base 0 ds)
           else int (digits_val (base_digit base) base 0 ds))"
proof -
  have "\<And>c d. base_digit base c = Some d \<Longrightarrow> d < 2 ^ 63" using base_digit_less assms(3) by fastforce
  moreover have "lval (b_limb (big_from_i64 (word_of_nat base))) = base"
    using assms(3) by (intro lval_small_i64) simp
  ultimately obtain acc where acc:
    "num_loop (base_digit base) (big_from_i64 (word_of_nat base)) (big_from_i64 0) 0 s
      = (acc, length ds, rest)"
    "nonneg_big acc" "lval (b_limb acc) = digits_val (base_digit base) base 0 ds"
    using num_loop_props [of "base_digit base" "big_from_i64 (word_of_nat base)" base "big_from_i64 0" 0 s]
      zero_nonneg big_from_i64_props(1) by (auto simp: ds_def rest_def)
  show "ds = [] \<or> skip_blanks rest \<noteq> [] \<Longrightarrow> rt_big_from_str_base s0 base = D_fail"
    using assms(1) acc(1) by (auto simp: rt_big_from_str_base_def Let_def)
  show "ds \<noteq> [] \<Longrightarrow> skip_blanks rest = [] \<Longrightarrow> canonical (rt_big_from_str_base s0 base) \<and>
      ival (rt_big_from_str_base s0 base)
        = (if neg then - int (digits_val (base_digit base) base 0 ds)
           else int (digits_val (base_digit base) base 0 ds))"
    using assms acc(1,3) signed_norm [OF acc(2), of neg]
    by (auto simp: rt_big_from_str_base_def Let_def)
qed

section \<open>The printer \<open>rt_big_str\<close>\<close>

text \<open>
  Each round divides the limbs by \<open>10\<^sup>9\<close> in place and writes the nine digits of the remainder
  leftwards into the buffer; the last round stops at the leading digit. The model conses onto the
  text written so far. \<open>emit_chunk nine m first rem buf\<close> is the inner loop with \<open>m\<close> rounds left.
\<close>

fun emit_chunk :: "bool \<Rightarrow> nat \<Rightarrow> bool \<Rightarrow> u64 \<Rightarrow> string \<Rightarrow> string" where
  "emit_chunk nine 0 first rem buf = buf"
| "emit_chunk nine (Suc m) first rem buf =
     (if \<not> nine \<and> rem = 0 \<and> \<not> first then buf
      else emit_chunk nine m False (rem div 10) (digit_char (unat (rem mod 10)) # buf))"

definition limbs_live :: "limbs \<Rightarrow> bool" where
  "limbs_live t \<longleftrightarrow> 1 < length t \<or> limb0 t \<noteq> 0"

lemma sdiv_chunk:
  "lval (fst (sdiv_limbs 1000000000 t)) = lval t div 1000000000"
  "unat (snd (sdiv_limbs 1000000000 t)) = lval t mod 1000000000"
  "length (fst (sdiv_limbs 1000000000 t)) = length t"
  using sdiv_limbs_divmod [of 1000000000 t "fst (sdiv_limbs 1000000000 t)" "snd (sdiv_limbs 1000000000 t)"]
  by simp_all

lemma str_loop_shrinks:
  assumes "limbs_live t"
  shows "lval (trim_limbs (fst (sdiv_limbs 1000000000 t)))
      + length (trim_limbs (fst (sdiv_limbs 1000000000 t))) < lval t + length t"
proof (cases "lval t = 0")
  case True
  then have "length t > 1" using assms by (cases t) (auto simp: limbs_live_def unat_0_iff)
  moreover have "lval (trim_limbs (fst (sdiv_limbs 1000000000 t))) = 0"
    using True by (simp add: sdiv_chunk)
  moreover have "trimmed (trim_limbs (fst (sdiv_limbs 1000000000 t)))"
    using \<open>length t > 1\<close> sdiv_chunk(3) [of t] by (intro trimmed_trim) auto
  ultimately show ?thesis
    using trimmed_zero [of "trim_limbs (fst (sdiv_limbs 1000000000 t))"] by auto
next
  case False
  then have "lval t div 1000000000 < lval t" by simp
  then show ?thesis
    using length_trim [of "fst (sdiv_limbs 1000000000 t)"] sdiv_chunk [of t] by simp
qed

function str_loop :: "limbs \<Rightarrow> string \<Rightarrow> string" where
  "str_loop t buf =
     (if limbs_live t
      then let (q, rem) = sdiv_limbs 1000000000 t;
               t' = trim_limbs q;
               nine = limbs_live t'
           in str_loop t' (emit_chunk nine 9 True rem buf)
      else buf)"
  by pat_completeness auto

termination
  by (relation "measure (\<lambda>(t, buf). lval t + length t)")
    (use str_loop_shrinks in \<open>auto simp: prod_eq_iff\<close>)

declare str_loop.simps [simp del]

definition rt_big_str :: "descr \<Rightarrow> string" where
  "rt_big_str d =
     (case big_of d of None \<Rightarrow> []
      | Some b \<Rightarrow>
          if b_sign b = 0 then ''0''
          else (let s = str_loop (b_limb b) [] in if b_sign b < 0 then CHR ''-'' # s else s))"

text \<open>The reference is \<open>dec_str\<close>; \<open>pad_str\<close> writes \<open>k\<close> digits, leading zeros included.\<close>

fun pad_str :: "nat \<Rightarrow> nat \<Rightarrow> string" where
  "pad_str 0 n = []"
| "pad_str (Suc k) n = pad_str k (n div 10) @ [digit_char (n mod 10)]"

lemma dec_str_split: "0 < q \<Longrightarrow> n < 10 ^ k \<Longrightarrow> dec_str (q * 10 ^ k + n) = dec_str q @ pad_str k n"
proof (induction k arbitrary: n)
  case (Suc k)
  have "n div 10 < 10 ^ k" using Suc.prems(2) by (simp add: less_mult_imp_div_less mult.commute)
  moreover have "(q * 10 ^ Suc k + n) div 10 = q * 10 ^ k + n div 10"
    "(q * 10 ^ Suc k + n) mod 10 = n mod 10"
    by (simp_all add: mult.commute [of q] mult.assoc)
  moreover have "10 \<le> q * 10 ^ Suc k + n"
  proof -
    have "1 * 10 \<le> q * 10 ^ Suc k" using Suc.prems(1) by (intro mult_le_mono) simp_all
    then show ?thesis by (simp only: mult_1 trans_le_add1)
  qed
  ultimately show ?case using Suc by (simp add: dec_str_big)
qed simp

lemma emit_full: "emit_chunk True m f r buf = pad_str m (unat r) @ buf"
  by (induction m arbitrary: f r buf) (simp_all add: unat_div_distrib unat_mod_distrib)

lemma emit_last:
  "unat r < 10 ^ m \<Longrightarrow> emit_chunk False m False r buf = (if r = 0 then buf else dec_str (unat r) @ buf)"
proof (induction m arbitrary: r buf)
  case 0
  then show ?case by (simp add: unat_0_iff)
next
  case (Suc m)
  show ?case
  proof (cases "r = 0")
    case False
    have "unat (r div 10) < 10 ^ m"
      using Suc.prems by (simp add: unat_div_distrib less_mult_imp_div_less mult.commute)
    then have IH: "emit_chunk False m False (r div 10) (digit_char (unat (r mod 10)) # buf)
        = (if r div 10 = 0 then digit_char (unat (r mod 10)) # buf
           else dec_str (unat (r div 10)) @ digit_char (unat (r mod 10)) # buf)"
      by (rule Suc.IH)
    have z: "r div 10 = 0 \<longleftrightarrow> unat r < 10"
      by (simp add: word_unat_eq_iff unat_div_distrib div_eq_0_iff)
    show ?thesis
      using False IH z by (auto simp: unat_div_distrib unat_mod_distrib dec_str_small dec_str_big)
  qed simp
qed

lemma emit_first:
  assumes "unat r < 10 ^ Suc m"
  shows "emit_chunk False (Suc m) True r buf = dec_str (unat r) @ buf"
proof (cases "r = 0")
  case True
  then show ?thesis using emit_last [of 0 m "digit_char 0 # buf"] by (simp add: dec_str_small)
next
  case False
  then have "emit_chunk False (Suc m) True r buf = emit_chunk False (Suc m) False r buf" by simp
  then show ?thesis using emit_last [OF assms, of buf] False by simp
qed

lemma limbs_live_iff: "trimmed t \<Longrightarrow> limbs_live t \<longleftrightarrow> lval t \<noteq> 0"
  using trimmed_zero [of t] by (cases t) (auto simp: limbs_live_def)

lemma str_loop_dec:
  "trimmed t \<Longrightarrow> str_loop t buf = (if lval t = 0 then [] else dec_str (lval t)) @ buf"
proof (induction t buf rule: str_loop.induct)
  case (1 t buf)
  show ?case
  proof (cases "limbs_live t")
    case False
    then show ?thesis using limbs_live_iff [OF 1(2)] by (subst str_loop.simps) simp
  next
    case True
    define q r where "q = fst (sdiv_limbs 1000000000 t)" "r = snd (sdiv_limbs 1000000000 t)"
    have qr: "sdiv_limbs 1000000000 t = (q, r)" by (simp add: q_r_def)
    have v: "lval q = lval t div 1000000000" "unat r = lval t mod 1000000000" "length q = length t"
      using sdiv_chunk [of t] by (simp_all add: q_r_def)
    have "q \<noteq> []" using v(3) 1(2) by (auto simp: trimmed_def)
    then have tq: "trimmed (trim_limbs q)" by simp
    have e: "str_loop t buf
        = str_loop (trim_limbs q) (emit_chunk (limbs_live (trim_limbs q)) 9 True r buf)"
      using True qr by (subst str_loop.simps) (simp add: Let_def)
    have IH: "str_loop (trim_limbs q) b = (if lval q = 0 then [] else dec_str (lval q)) @ b"
      if "b = emit_chunk (limbs_live (trim_limbs q)) 9 True r buf" for b
      using 1(1) [OF True qr [symmetric] refl refl] tq that by simp
    have t0: "lval t \<noteq> 0" using True limbs_live_iff [OF 1(2)] by simp
    have dm: "lval t = lval q * 10 ^ 9 + unat r" using v by simp
    have r9: "unat r < 10 ^ 9" using v by simp
    show ?thesis
    proof (cases "lval q = 0")
      case True
      moreover have "emit_chunk False 9 True r buf = dec_str (unat r) @ buf"
        using emit_first [of r 8 buf] r9 by simp
      ultimately have "emit_chunk (limbs_live (trim_limbs q)) 9 True r buf = dec_str (unat r) @ buf"
        using limbs_live_iff [OF tq] by simp
      then show ?thesis unfolding e IH [OF refl] using True t0 dm by simp
    next
      case False
      then have "emit_chunk (limbs_live (trim_limbs q)) 9 True r buf = pad_str 9 (unat r) @ buf"
        using limbs_live_iff [OF tq] by (simp add: emit_full)
      then show ?thesis unfolding e IH [OF refl] using False t0 dec_str_split [OF _ r9, of "lval q"] dm
        by simp
    qed
  qed
qed

lemma rt_big_str_dec:
  assumes "int_descr d"
  shows "rt_big_str d = (if ival d < 0 then ''-'' else []) @ dec_str (nat \<bar>ival d\<bar>)"
proof -
  obtain b where b: "big_of d = Some b" "big_wf b" "bval b = ival d" by (rule big_of_props [OF assms])
  have m: "nat \<bar>ival d\<bar> = lval (b_limb b)" using big_wf_abs [OF b(2)] b(3) by simp
  have z: "b_sign b = 0 \<longleftrightarrow> lval (b_limb b) = 0" "b_sign b < 0 \<longleftrightarrow> ival d < 0"
    using big_wf_sgn [OF b(2)] big_wf_signs(2) [OF b(2)] b(3) by simp_all
  have "str_loop (b_limb b) [] = dec_str (lval (b_limb b))" if "lval (b_limb b) \<noteq> 0"
    using str_loop_dec [OF big_wf_trimmed [OF b(2)]] that by simp
  then show ?thesis
    using b(1) z m by (auto simp: rt_big_str_def Let_def dec_str_small digit_char_0)
qed

section \<open>Reading back what was printed\<close>

lemma dec_digit_char: "d < 10 \<Longrightarrow> dec_digit (digit_char d) = Some d"
  by (simp add: dec_digit_def less_eq_char_def of_char_digit)

lemma digit_char_plain:
  assumes "d < 10"
  shows "digit_char d \<noteq> CHR ''-''" "digit_char d \<noteq> CHR ''+''" "\<not> is_blank (digit_char d)"
proof -
  have "digit_char d \<noteq> c" if "of_char c < (48 :: nat)" for c
    using of_char_digit [OF assms] that by auto
  then show "digit_char d \<noteq> CHR ''-''" "digit_char d \<noteq> CHR ''+''" "\<not> is_blank (digit_char d)"
    by (simp_all add: is_blank_def)
qed

lemma dec_str_digits:
  "dec_str n \<noteq> [] \<and> (\<forall>c\<in>set (dec_str n). \<exists>d<10. c = digit_char d)
   \<and> digits_val dec_digit 10 0 (dec_str n) = n"
proof (induction n rule: dec_str.induct)
  case (1 n)
  show ?case
  proof (cases "n < 10")
    case True
    then show ?thesis by (auto simp: dec_str_small dec_digit_char)
  next
    case False
    moreover have "\<exists>d<10. digit_char (n mod 10) = digit_char d" by (rule exI [of _ "n mod 10"]) simp
    ultimately show ?thesis using 1 by (auto simp: dec_str_big dec_digit_char)
  qed
qed

lemma from_str_dec:
  "canonical (rt_big_from_str ((if neg then ''-'' else []) @ dec_str n))
   \<and> ival (rt_big_from_str ((if neg then ''-'' else []) @ dec_str n)) = (if neg then - int n else int n)"
proof -
  have d: "dec_str n \<noteq> []" "\<forall>c\<in>set (dec_str n). \<exists>d<10. c = digit_char d"
    "digits_val dec_digit 10 0 (dec_str n) = n" using dec_str_digits [of n] by blast+
  then obtain h t where ht: "dec_str n = h # t" by (cases "dec_str n") auto
  then obtain k where k: "k < 10" "h = digit_char k" using d(2) by auto
  have "\<forall>c\<in>set (dec_str n). dec_digit c \<noteq> None" using d(2) by (auto simp: dec_digit_char)
  then have w: "takeWhile (\<lambda>c. dec_digit c \<noteq> None) (dec_str n) = dec_str n"
    "dropWhile (\<lambda>c. dec_digit c \<noteq> None) (dec_str n) = []" by simp_all
  have "skip_blanks ((if neg then ''-'' else []) @ dec_str n) = (if neg then ''-'' else []) @ dec_str n"
    using ht k digit_char_plain(3) by (simp add: skip_blanks_def is_blank_def)
  then have "read_sign (skip_blanks ((if neg then ''-'' else []) @ dec_str n)) = (neg, dec_str n)"
    using ht k digit_char_plain(1,2) by (auto simp: read_sign_def)
  note run = from_str_run(2) [OF this, unfolded w, OF d(1)]
  have "skip_blanks [] = []" by (simp add: skip_blanks_def)
  from run [OF this] show ?thesis unfolding d(3) .
qed

lemma dec_str_length: "0 < n \<Longrightarrow> 10 ^ (length (dec_str n) - 1) \<le> n"
proof (induction n rule: dec_str.induct)
  case (1 n)
  show ?case
  proof (cases "n < 10")
    case True
    then show ?thesis using 1(2) by (simp add: dec_str_small)
  next
    case False
    define k where "k = length (dec_str (n div 10))"
    have "0 < n div 10" using False by simp
    then have "10 ^ (k - 1) \<le> n div 10" using 1(1) [OF False] by (simp only: k_def)
    then have le: "10 * 10 ^ (k - 1) \<le> n" by linarith
    have "0 < k" using dec_str_digits [of "n div 10"] by (simp add: k_def)
    then have "(10::nat) ^ k = 10 * 10 ^ (k - 1)" by (simp add: power_eq_if)
    moreover have "length (dec_str n) - 1 = k" using False by (simp add: dec_str_big k_def)
    ultimately show ?thesis using le by (simp only:)
  qed
qed

lemma dec_str_limbs:
  assumes "l \<noteq> []" shows "length (dec_str (lval l)) \<le> 10 * length l"
proof (cases "lval l = 0")
  case True
  then show ?thesis using assms by (cases l) (simp_all add: dec_str_small)
next
  case False
  have "10 ^ (length (dec_str (lval l)) - 1) \<le> lval l" using False by (intro dec_str_length) simp
  also have "\<dots> < lbase ^ length l" by simp
  also have "\<dots> \<le> (10 ^ 10) ^ length l" by (intro power_mono) (simp_all add: lbase_def)
  also have "\<dots> = (10 ^ (10 * length l) :: nat)" by (simp only: power_mult)
  finally have "length (dec_str (lval l)) - 1 < 10 * length l"
    by (rule power_less_imp_less_exp [rotated]) simp
  then show ?thesis by simp
qed

text \<open>
  C21. The printer and the reader are inverse: \<open>rt_big_str\<close> writes the decimal notation of the
  number, and \<open>rt_big_from_str\<close> reads it back to the same canonical descriptor.
\<close>

theorem rt_big_str_roundtrip:
  assumes "canonical d"
  shows "rt_big_str d = (if ival d < 0 then ''-'' else []) @ dec_str (nat \<bar>ival d\<bar>)
    \<and> rt_big_from_str (rt_big_str d) = d"
proof -
  have i: "int_descr d" using assms by (simp add: canonical_def)
  have s: "rt_big_str d = (if ival d < 0 then ''-'' else []) @ dec_str (nat \<bar>ival d\<bar>)"
    by (rule rt_big_str_dec [OF i])
  have "canonical (rt_big_from_str (rt_big_str d)) \<and> ival (rt_big_from_str (rt_big_str d)) = ival d"
    unfolding s using from_str_dec [of "ival d < 0" "nat \<bar>ival d\<bar>"] by auto
  then show ?thesis using s canonical_inject assms by blast
qed

theorem rt_big_str_roundtrip_witness: "rt_big_from_str (rt_big_str (D_int 42)) = D_int 42"
proof -
  have "canonical (D_int 42)" by (simp add: canonical_def)
  from rt_big_str_roundtrip [OF this] show ?thesis by blast
qed

text \<open>
  C27. The reader accepts exactly blanks, an optional sign, a digit and more digits, blanks, in every
  base; what it returns is the signed value of the digits.
\<close>

theorem rt_big_from_str_base_correct:
  assumes "2 \<le> base" "base \<le> 36" "read_sign (skip_blanks s0) = (neg, s)"
    "ds = takeWhile (\<lambda>c. base_digit base c \<noteq> None) s"
    "rest = dropWhile (\<lambda>c. base_digit base c \<noteq> None) s"
  shows "(if ds = [] \<or> skip_blanks rest \<noteq> [] then rt_big_from_str_base s0 base = D_fail
     else canonical (rt_big_from_str_base s0 base) \<and>
       ival (rt_big_from_str_base s0 base)
         = (if neg then - 1 else 1) * int (digits_val (base_digit base) base 0 ds))"
  using from_str_base_run [OF assms(3,1,2)] assms(4,5) by auto

theorem rt_big_from_str_base_correct_witness:
  "ival (rt_big_from_str_base '' -fF '' 16) = - 255"
proof -
  have d: "base_digit 16 (CHR ''f'') = Some 15" "base_digit 16 (CHR ''F'') = Some 15"
    "base_digit 16 (CHR '' '') = None" "is_blank (CHR '' '')" "\<not> is_blank (CHR ''-'')" by code_simp+
  then have "read_sign (skip_blanks '' -fF '') = (True, ''fF '')"
    by (simp add: skip_blanks_def read_sign_def)
  from rt_big_from_str_base_correct [OF _ _ this refl refl, of 16] d
  show ?thesis by (simp add: skip_blanks_def)
qed

text \<open>
  C26. The buffer \<open>rt_big_str\<close> allocates, ten characters for each limb and four more, holds every
  number with its sign and the closing NUL.
\<close>

theorem rt_big_str_fits:
  assumes "big_wf b"
  shows "length (rt_big_str (D_big (Some b))) + 1 \<le> length (b_limb b) * 10 + 4"
proof -
  have m: "nat \<bar>bval b\<bar> = lval (b_limb b)" using big_wf_abs [OF assms] by simp
  have "length (rt_big_str (D_big (Some b))) \<le> 1 + length (dec_str (lval (b_limb b)))"
    using rt_big_str_dec [of "D_big (Some b)"] assms m by simp
  also have "\<dots> \<le> 1 + 10 * length (b_limb b)" using dec_str_limbs assms by simp
  finally show ?thesis by simp
qed

theorem rt_big_str_fits_witness:
  "length (rt_big_str (D_big (Some \<lparr>b_sign = - 1, b_limb = [0, 0, 1]\<rparr>))) + 1 \<le> 34"
  using rt_big_str_fits [of "\<lparr>b_sign = - 1, b_limb = [0, 0, 1]\<rparr>"]
  by (simp add: big_wf_def trimmed_def lbase_def)

section \<open>Blocks of the Icon external interface\<close>

text \<open>
  \<open>ICNX_BIG_t\<close>: five header words and the digits, most significant first;
  \<open>offsetof(ICNX_BIG_t, digits)\<close> is 36 on the LP64 targets the repository builds for.
\<close>

record icnx_big =
  x_title :: int
  x_blksize :: int
  x_msd :: int
  x_lsd :: int
  x_sign :: int
  x_digits :: limbs

definition rt_big_icnx_block :: "descr \<Rightarrow> icnx_big option" where
  "rt_big_icnx_block d =
     (case big_of d of None \<Rightarrow> None
      | Some b \<Rightarrow>
          (let n = length (b_limb b)
           in Some \<lparr>x_title = 2, x_blksize = 36 + 4 * int n, x_msd = 0, x_lsd = int n - 1,
                    x_sign = (if b_sign b < 0 then 1 else 0),
                    x_digits = map (\<lambda>i. b_limb b ! (n - 1 - i)) [0 ..< n]\<rparr>))"

definition rt_big_from_icnx_block :: "icnx_big option \<Rightarrow> descr" where
  "rt_big_from_icnx_block p =
     (case p of None \<Rightarrow> D_fail
      | Some x \<Rightarrow>
          if x_lsd x < x_msd x then D_fail
          else (let n = nat (x_lsd x - x_msd x + 1)
            in rt_big_norm (Some
                 \<lparr>b_sign = (if x_sign x \<noteq> 0 then - 1 else 1),
                  b_limb = map (\<lambda>i. x_digits x ! nat (x_lsd x - int i)) [0 ..< n]\<rparr>)))"

text \<open>A number survives the passage through an Icon block.\<close>

theorem icnx_block_roundtrip:
  assumes "canonical d"
  shows "rt_big_from_icnx_block (rt_big_icnx_block d) = d"
proof -
  have i: "int_descr d" using assms by (simp add: canonical_def)
  obtain b where b: "big_of d = Some b" "big_wf b" "bval b = ival d" by (rule big_of_props [OF i])
  define n where "n = length (b_limb b)"
  define s :: int where "s = (if b_sign b < 0 then - 1 else 1)"
  have n: "0 < n" using b(2) by (simp add: n_def)
  have l: "map (\<lambda>i. map (\<lambda>i. b_limb b ! (n - 1 - i)) [0 ..< n] ! nat (int n - 1 - int i)) [0 ..< n] = b_limb b"
  proof (rule nth_equalityI)
    fix i assume "i < length (map (\<lambda>i. map (\<lambda>i. b_limb b ! (n - 1 - i)) [0 ..< n] ! nat (int n - 1 - int i)) [0 ..< n])"
    then have "i < n" by simp
    moreover from this have "nat (int n - 1 - int i) = n - 1 - i" by linarith
    ultimately show "map (\<lambda>i. map (\<lambda>i. b_limb b ! (n - 1 - i)) [0 ..< n] ! nat (int n - 1 - int i)) [0 ..< n] ! i
        = b_limb b ! i" by simp
  qed (simp add: n_def)
  have e: "rt_big_from_icnx_block (rt_big_icnx_block d) = rt_big_norm (Some \<lparr>b_sign = s, b_limb = b_limb b\<rparr>)"
    using b(1) n l by (simp add: rt_big_icnx_block_def rt_big_from_icnx_block_def Let_def s_def n_def [symmetric])
  have "bval \<lparr>b_sign = s, b_limb = b_limb b\<rparr> = bval b"
    using big_wf_signs [OF b(2)] by (auto simp: s_def bval_def)
  then have "canonical (rt_big_norm (Some \<lparr>b_sign = s, b_limb = b_limb b\<rparr>))
      \<and> ival (rt_big_norm (Some \<lparr>b_sign = s, b_limb = b_limb b\<rparr>)) = ival d"
    using rt_big_norm_props [of "\<lparr>b_sign = s, b_limb = b_limb b\<rparr>"] b(2,3) by (simp add: s_def)
  then show ?thesis unfolding e using canonical_inject assms by blast
qed

theorem icnx_block_roundtrip_witness:
  "rt_big_from_icnx_block (rt_big_icnx_block (D_int 7)) = D_int 7"
  using icnx_block_roundtrip [of "D_int 7"] by (simp add: canonical_def)

end
