(* ===== verification/Snocone_Lex.thy ===== *)
theory Snocone_Lex
  imports Scrip_Prelude "HOL-Library.Sublist"
begin

text \<open>
  The Snocone lexer (\<open>src/parsers/snocone/snocone_lex.c\<close>), a machine of labels and gotos over a
  NUL-terminated source. The source pointer \<open>p\<close> is the suffix of the source still to be read;
  \<open>PEEK(n)\<close> past its end reads the NUL. White space and comments are the states of \<open>sc_ws\<close>,
  \<open>sc_dispatch\<close> and \<open>sc_op\<close> are the tables behind \<open>S_DISPATCH\<close> and the \<open>S_OP\<close> labels, and
  \<open>sc_lex\<close> is one call: a token kind, its text, the context it leaves.
\<close>

section \<open>Token kinds\<close>

datatype kind =
    T_EOF | T_IDENT | T_KEYWORD | T_INT | T_REAL | T_STR | T_CALL
  | T_2PLUS | T_2MINUS | T_2STAR | T_2SLASH | T_2CARET | T_1PLUS | T_1MINUS | T_2EQUAL
  | T_PLUS_ASSIGN | T_MINUS_ASSIGN | T_STAR_ASSIGN | T_SLASH_ASSIGN | T_CARET_ASSIGN
  | T_2QUEST | T_2PIPE | T_CONCAT | T_LPAREN | T_RPAREN | T_SEMICOLON | T_COMMA | T_LBRACK
  | T_RBRACK | T_2DOLLAR | T_2DOT | T_2AMP | T_2AT | T_2POUND | T_2PERCENT | T_2TILDE
  | T_1STAR | T_1SLASH | T_1PERCENT | T_1AT | T_1TILDE | T_1DOLLAR | T_1DOT | T_1POUND
  | T_1PIPE | T_1EQUAL | T_1QUEST | T_1AMP | T_1BANG | T_COLON | T_DO | T_FOR | T_SWITCH
  | T_CASE | T_DEFAULT | T_BREAK | T_CONTINUE | T_GOTO | T_DEFINE | T_RETURN | T_FRETURN
  | T_NRETURN | T_STRUCT | T_IMPORT | T_UNKNOWN | T_LBRACE | T_RBRACE | T_IF | T_ELSE | T_WHILE

definition sc_kind_is_value :: "kind \<Rightarrow> bool" where
  "sc_kind_is_value k \<longleftrightarrow> k \<in> {T_IDENT, T_INT, T_REAL, T_STR, T_KEYWORD, T_RPAREN, T_RBRACK}"

definition KW_TABLE :: "(string \<times> kind) list" where
  "KW_TABLE =
     [(''if'', T_IF), (''else'', T_ELSE), (''while'', T_WHILE), (''do'', T_DO), (''for'', T_FOR),
      (''switch'', T_SWITCH), (''case'', T_CASE), (''default'', T_DEFAULT), (''break'', T_BREAK),
      (''continue'', T_CONTINUE), (''goto'', T_GOTO), (''procedure'', T_DEFINE),
      (''function'', T_DEFINE), (''procedure'', T_DEFINE), (''return'', T_RETURN),
      (''freturn'', T_FRETURN), (''nreturn'', T_NRETURN), (''struct'', T_STRUCT),
      (''import'', T_IMPORT)]"

fun kw_lookup_at :: "string \<Rightarrow> (string \<times> kind) list \<Rightarrow> kind" where
  "kw_lookup_at s [] = T_IDENT"
| "kw_lookup_at s ((w, k) # t) = (if s = w then k else kw_lookup_at s t)"

definition classify_keyword_range :: "string \<Rightarrow> kind" where
  "classify_keyword_range w =
     (if length w \<le> 0 \<or> length w > 32 then T_IDENT else kw_lookup_at w KW_TABLE)"

section \<open>Characters\<close>

definition is_alpha :: "char \<Rightarrow> bool" where
  "is_alpha c = (let n = (of_char c :: nat) in 97 \<le> (n OR 32) \<and> (n OR 32) \<le> 122 \<or> c = CHR ''_'')"

definition is_digit :: "char \<Rightarrow> bool" where
  "is_digit c \<longleftrightarrow> CHR ''0'' \<le> c \<and> c \<le> CHR ''9''"

definition is_idstart :: "char \<Rightarrow> bool" where
  "is_idstart c = (let n = (of_char c :: nat) in 97 \<le> (n OR 32) \<and> (n OR 32) \<le> 122 \<or> n \<ge> 0x80)"

definition is_idcont :: "char \<Rightarrow> bool" where
  "is_idcont c \<longleftrightarrow> is_idstart c \<or> is_digit c \<or> c = CHR ''_'' \<or> c = CHR ''.''"

definition is_value_starter :: "char \<Rightarrow> bool" where
  "is_value_starter c \<longleftrightarrow> is_alpha c \<or> (of_char c :: nat) \<ge> 0x80 \<or> is_digit c
     \<or> c = CHR 0x27 \<or> c = CHR 0x22 \<or> c = CHR ''(''"

definition is_rws_char :: "char \<Rightarrow> bool" where
  "is_rws_char c \<longleftrightarrow> c = CHR '' '' \<or> c = CHR 0x09 \<or> c = CHR 0x0D \<or> c = CHR 0x0C
     \<or> c = CHR 0x0A \<or> c = CHR 0x00"

definition is_rws_at :: "string \<Rightarrow> nat \<Rightarrow> bool" where
  "is_rws_at p n \<longleftrightarrow>
     is_rws_char (pk n p)
     \<or> (pk n p = CHR ''/'' \<and> (pk (n + 1) p = CHR ''/'' \<or> pk (n + 1) p = CHR ''*''))"

lemma not_digit_nul [simp]: "\<not> is_digit (CHR 0x00)" by (simp add: is_digit_def)

lemma digit_live: "is_digit (pk n p) \<Longrightarrow> n < length p"
  by (rule pk_live) auto

section \<open>White space and comments\<close>

datatype ws_state = S_WS | S_CONT | S_LCOMMENT | S_BCOMMENT | S_BC_STAR

function sc_ws :: "ws_state \<Rightarrow> string \<Rightarrow> nat \<Rightarrow> bool \<Rightarrow> string \<times> nat \<times> bool" where
  "sc_ws S_WS p line had_ws =
     (if pk 0 p = CHR '' '' then sc_ws S_WS (drop 1 p) line True
      else if pk 0 p = CHR 0x09 then sc_ws S_WS (drop 1 p) line True
      else if pk 0 p = CHR 0x0D then sc_ws S_WS (drop 1 p) line True
      else if pk 0 p = CHR 0x0C then sc_ws S_WS (drop 1 p) line True
      else if pk 0 p = CHR 0x0A then sc_ws S_CONT (drop 1 p) (line + 1) True
      else if pk 0 p = CHR ''/'' \<and> pk 1 p = CHR ''/'' then sc_ws S_LCOMMENT (drop 2 p) line True
      else if pk 0 p = CHR ''/'' \<and> pk 1 p = CHR ''*'' then sc_ws S_BCOMMENT (drop 2 p) line True
      else (p, line, had_ws))"
| "sc_ws S_CONT p line had_ws =
     (if pk 0 p = CHR ''+'' then sc_ws S_WS (drop 1 p) line had_ws
      else if pk 0 p = CHR ''.'' then sc_ws S_WS (drop 1 p) line had_ws
      else sc_ws S_WS p line had_ws)"
| "sc_ws S_LCOMMENT p line had_ws =
     (if pk 0 p = CHR 0x00 then (p, line, had_ws)
      else if pk 0 p = CHR 0x0A then sc_ws S_WS p line had_ws
      else sc_ws S_LCOMMENT (drop 1 p) line had_ws)"
| "sc_ws S_BCOMMENT p line had_ws =
     (if pk 0 p = CHR 0x00 then (p, line, had_ws)
      else if pk 0 p = CHR ''*'' then sc_ws S_BC_STAR (drop 1 p) line had_ws
      else if pk 0 p = CHR 0x0A then sc_ws S_BCOMMENT (drop 1 p) (line + 1) had_ws
      else sc_ws S_BCOMMENT (drop 1 p) line had_ws)"
| "sc_ws S_BC_STAR p line had_ws =
     (if pk 0 p = CHR ''/'' then sc_ws S_WS (drop 1 p) line had_ws
      else if pk 0 p = CHR ''*'' then sc_ws S_BC_STAR (drop 1 p) line had_ws
      else if pk 0 p = CHR 0x00 then (p, line, had_ws)
      else sc_ws S_BCOMMENT (drop 1 p) line had_ws)"
  by pat_completeness auto

termination
  by (relation "measures [\<lambda>(st, p, line, had_ws). length p,
      \<lambda>(st, p, line, had_ws). if st = S_CONT \<or> st = S_LCOMMENT then 1 else 0]")
    (auto dest: pk_live pk_is)

declare sc_ws.simps [simp del]

section \<open>Scanners of one token\<close>

text \<open>\<open>S_INT\<close>, \<open>S_FRAC\<close>, \<open>S_EXP_SIGN\<close>, \<open>S_EXP_DIG\<close>: the kind of the number and where it ends.\<close>

datatype num_state = S_INT | S_FRAC | S_EXP_SIGN | S_EXP_DIG

function sc_num :: "num_state \<Rightarrow> string \<Rightarrow> kind \<times> string" where
  "sc_num S_INT p =
     (if is_digit (pk 0 p) then sc_num S_INT (drop 1 p)
      else if pk 0 p = CHR ''.'' \<and> is_digit (pk 1 p) then sc_num S_FRAC (drop 1 p)
      else if pk 0 p = CHR ''.'' then (T_REAL, drop 1 p)
      else if pk 0 p = CHR ''e'' \<or> pk 0 p = CHR ''E'' then sc_num S_EXP_SIGN (drop 1 p)
      else if pk 0 p = CHR ''d'' \<or> pk 0 p = CHR ''D'' then sc_num S_EXP_SIGN (drop 1 p)
      else (T_INT, p))"
| "sc_num S_FRAC p =
     (if is_digit (pk 0 p) then sc_num S_FRAC (drop 1 p)
      else if pk 0 p = CHR ''e'' \<or> pk 0 p = CHR ''E'' then sc_num S_EXP_SIGN (drop 1 p)
      else if pk 0 p = CHR ''d'' \<or> pk 0 p = CHR ''D'' then sc_num S_EXP_SIGN (drop 1 p)
      else (T_REAL, p))"
| "sc_num S_EXP_SIGN p =
     (if pk 0 p = CHR ''+'' \<or> pk 0 p = CHR ''-'' then sc_num S_EXP_DIG (drop 1 p)
      else sc_num S_EXP_DIG p)"
| "sc_num S_EXP_DIG p =
     (if is_digit (pk 0 p) then sc_num S_EXP_DIG (drop 1 p) else (T_REAL, p))"
  by pat_completeness auto

termination
  by (relation "measures [\<lambda>(st, p). length p, \<lambda>(st, p). if st = S_EXP_SIGN then 1 else 0]")
    (auto dest: pk_live pk_is digit_live)

declare sc_num.simps [simp del]

text \<open>
  \<open>S_STR1\<close> and \<open>S_STR2\<close> differ in the quote \<open>q\<close>: a doubled quote stands for one, a NUL ends the
  token like a closing quote. \<open>buf\<close> is \<open>strbuf\<close> up to \<open>strpos\<close>.
\<close>

function sc_str :: "char \<Rightarrow> string \<Rightarrow> nat \<Rightarrow> string \<Rightarrow> string \<times> nat \<times> string" where
  "sc_str q p line buf =
     (if pk 0 p = CHR 0x00 then (p, line, buf)
      else if pk 0 p = q \<and> pk 1 p = q then sc_str q (drop 2 p) line (buf @ [q])
      else if pk 0 p = q then (drop 1 p, line, buf)
      else if pk 0 p = CHR 0x0A then sc_str q (drop 1 p) (line + 1) (buf @ [CHR 0x0A])
      else sc_str q (drop 1 p) line (buf @ [pk 0 p]))"
  by pat_completeness auto

termination
  by (relation "measure (\<lambda>(q, p, line, buf). length p)") (auto dest: pk_live pk_is)

declare sc_str.simps [simp del]

text \<open>The loops \<open>S_IDENT\<close> and \<open>S_KEYWORD\<close>.\<close>

definition sc_ident :: "string \<Rightarrow> string" where
  "sc_ident p = dropWhile is_idcont p"

section \<open>Dispatch\<close>

text \<open>
  Where \<open>S_DISPATCH\<close> and the operator states send control, with the pointer there: a label whose
  body is \<open>EMIT\<close> of a kind, one of the unary labels (which check what follows first), the
  scanners with their \<open>tok_start\<close>, or the end.
\<close>

datatype target =
    To_EOF
  | Emit kind string
  | Unary kind string string
  | Unknown string string
  | To_STR char string
  | To_IDENT string string
  | To_INT string string
  | To_KEYWORD string string

text \<open>
  The operator states. \<open>lv\<close> is \<open>had_ws && last_value\<close>; the common shape is: compound assignment,
  the binary operator when white space follows, \<open>T_CONCAT\<close>, the unary operator.
\<close>

definition op_state :: "bool \<Rightarrow> string \<Rightarrow> kind option \<Rightarrow> kind \<Rightarrow> target \<Rightarrow> target" where
  "op_state lv p assign binary unary =
     (if assign \<noteq> None \<and> pk 1 p = CHR ''='' then Emit (the assign) (drop 2 p)
      else if lv \<and> is_rws_at p 1 then Emit binary (drop 1 p)
      else if lv then Emit T_CONCAT p
      else unary)"

definition sc_op :: "bool \<Rightarrow> string \<Rightarrow> target" where
  "sc_op lv p =
     (let c = pk 0 p; un = (\<lambda>k. Unary k p (drop 1 p))
      in if c = CHR ''.'' then op_state lv p None T_2DOT (un T_1DOT)
         else if c = CHR '':'' then Emit T_COLON (drop 1 p)
         else if c = CHR ''='' then
           (if lv \<and> (is_rws_at p 1 \<or> pk 1 p = CHR '';'' \<or> pk 1 p = CHR '')'' \<or> pk 1 p = CHR '']'')
            then Emit T_2EQUAL (drop 1 p)
            else if lv then Emit T_CONCAT p
            else un T_1EQUAL)
         else if c = CHR ''!'' then op_state lv p None T_2CARET (un T_1BANG)
         else if c = CHR ''<'' then Unknown p (drop 1 p)
         else if c = CHR ''>'' then Unknown p (drop 1 p)
         else if c = CHR ''+'' then op_state lv p (Some T_PLUS_ASSIGN) T_2PLUS (un T_1PLUS)
         else if c = CHR ''-'' then op_state lv p (Some T_MINUS_ASSIGN) T_2MINUS (un T_1MINUS)
         else if c = CHR ''*'' then
           (if lv \<and> pk 1 p = CHR ''*'' \<and> is_rws_at p 2 then Emit T_2CARET (drop 2 p)
            else op_state lv p (Some T_STAR_ASSIGN) T_2STAR (un T_1STAR))
         else if c = CHR ''/'' then op_state lv p (Some T_SLASH_ASSIGN) T_2SLASH (un T_1SLASH)
         else if c = CHR ''^'' then op_state lv p (Some T_CARET_ASSIGN) T_2CARET (Unknown p (drop 1 p))
         else if c = CHR ''|'' then op_state lv p None T_2PIPE (un T_1PIPE)
         else if c = CHR ''?'' then op_state lv p None T_2QUEST (un T_1QUEST)
         else if c = CHR ''$'' then op_state lv p None T_2DOLLAR (un T_1DOLLAR)
         else if c = CHR ''&'' then op_state lv p None T_2AMP (un T_1AMP)
         else if c = CHR ''@'' then op_state lv p None T_2AT (un T_1AT)
         else if c = CHR ''#'' then op_state lv p None T_2POUND (un T_1POUND)
         else if c = CHR ''%'' then op_state lv p None T_2PERCENT (un T_1PERCENT)
         else if c = CHR ''~'' then op_state lv p None T_2TILDE (un T_1TILDE)
         else Unknown p (drop 1 p))"

definition sc_dispatch :: "bool \<Rightarrow> string \<Rightarrow> target" where
  "sc_dispatch lv p =
     (let c = pk 0 p
      in if lv \<and> is_value_starter c then Emit T_CONCAT p
         else if lv \<and> c = CHR ''&'' \<and> is_alpha (pk 1 p) then Emit T_CONCAT p
         else if c = CHR 0x00 then To_EOF
         else if c = CHR 0x27 then To_STR (CHR 0x27) (drop 1 p)
         else if c = CHR 0x22 then To_STR (CHR 0x22) (drop 1 p)
         else if is_idstart c then To_IDENT p (drop 1 p)
         else if is_digit c then To_INT p (drop 1 p)
         else if c = CHR ''.'' then sc_op lv p
         else if c = CHR ''&'' \<and> is_alpha (pk 1 p) then To_KEYWORD (drop 1 p) (drop 1 p)
         else if c = CHR ''('' then Emit T_LPAREN (drop 1 p)
         else if c = CHR '')'' then Emit T_RPAREN (drop 1 p)
         else if c = CHR ''['' then Emit T_LBRACK (drop 1 p)
         else if c = CHR '']'' then Emit T_RBRACK (drop 1 p)
         else if c = CHR ''{'' then Emit T_LBRACE (drop 1 p)
         else if c = CHR ''}'' then Emit T_RBRACE (drop 1 p)
         else if c = CHR '','' then Emit T_COMMA (drop 1 p)
         else if c = CHR '';'' then Emit T_SEMICOLON (drop 1 p)
         else sc_op lv p)"

section \<open>One call of the lexer\<close>

record lexctx =
  lx_p :: string
  lx_line :: nat
  lx_last :: kind

definition tok_text :: "string \<Rightarrow> string \<Rightarrow> string" where
  "tok_text tok_start p = take (length tok_start - length p) tok_start"

definition lex_leave :: "lexctx \<Rightarrow> nat \<Rightarrow> string \<Rightarrow> kind \<Rightarrow> string option \<Rightarrow> kind \<times> string option \<times> lexctx" where
  "lex_leave ctx line p k str = (k, str, ctx\<lparr>lx_p := p, lx_line := line, lx_last := k\<rparr>)"

definition sc_lex :: "lexctx \<Rightarrow> kind \<times> string option \<times> lexctx" where
  "sc_lex ctx =
     (let last_value = sc_kind_is_value (lx_last ctx);
          (p, line, had_ws) = sc_ws S_WS (lx_p ctx) (lx_line ctx) False
      in case sc_dispatch (had_ws \<and> last_value) p of
           To_EOF \<Rightarrow> (T_EOF, None, ctx\<lparr>lx_line := line\<rparr>)
         | Emit k p \<Rightarrow> lex_leave ctx line p k None
         | Unary k tok_start p \<Rightarrow>
             if is_rws_at p 0 then lex_leave ctx line p T_UNKNOWN (Some (tok_text tok_start p))
             else lex_leave ctx line p k None
         | Unknown tok_start p \<Rightarrow> lex_leave ctx line p T_UNKNOWN (Some (tok_text tok_start p))
         | To_STR q p \<Rightarrow>
             (let (p, line, buf) = sc_str q p line []
              in lex_leave ctx line p T_STR (Some buf))
         | To_INT tok_start p \<Rightarrow>
             (let (k, p) = sc_num S_INT p in lex_leave ctx line p k (Some (tok_text tok_start p)))
         | To_KEYWORD tok_start p \<Rightarrow>
             (let p = sc_ident p in lex_leave ctx line p T_KEYWORD (Some (tok_text tok_start p)))
         | To_IDENT tok_start p \<Rightarrow>
             (let p = sc_ident p; w = tok_text tok_start p; k = classify_keyword_range w
              in if pk 0 p = CHR ''('' \<and> \<not> k \<noteq> T_IDENT \<and> lx_last ctx \<noteq> T_DEFINE
                 then lex_leave ctx line (drop 1 p) T_CALL (Some w)
                 else lex_leave ctx line p k (Some w)))"

section \<open>Progress\<close>

lemma suffix_drop_trans: "suffix q (drop n p) \<Longrightarrow> suffix q p"
  by (rule suffix_order.trans [OF _ suffix_drop])

lemma sc_ws_suffix: "suffix (fst (sc_ws st p line hw)) p"
proof (induction st p line hw rule: sc_ws.induct)
  case (1 p line hw)
  then show ?case by (subst sc_ws.simps) (auto intro: suffix_drop_trans)
next
  case (2 p line hw)
  then show ?case by (subst sc_ws.simps) (auto intro: suffix_drop_trans)
next
  case (3 p line hw)
  then show ?case by (subst sc_ws.simps) (auto intro: suffix_drop_trans)
next
  case (4 p line hw)
  then show ?case by (subst sc_ws.simps) (auto intro: suffix_drop_trans)
next
  case (5 p line hw)
  then show ?case by (subst sc_ws.simps) (auto intro: suffix_drop_trans)
qed

text \<open>White space that was seen was consumed.\<close>

lemma sc_ws_had_ws:
  assumes "snd (snd (sc_ws S_WS p line False))"
  shows "length (fst (sc_ws S_WS p line False)) < length p"
proof -
  have "length (fst (sc_ws st (drop n p) l h)) < length p" if "0 < n" "pk 0 p \<noteq> CHR 0x00" for st n l h
  proof -
    have "length (drop n p) < length p" using pk_live [OF that(2)] that(1) by simp
    then show ?thesis
      using suffix_length_le [OF sc_ws_suffix, of st "drop n p" l h] by linarith
  qed
  then show ?thesis using assms sc_ws.simps(1) [of p line False] by (auto split: if_splits)
qed

lemma sc_num_suffix [scan_progress]: "suffix (snd (sc_num st p)) p"
proof (induction st p rule: sc_num.induct)
  case (1 p)
  then show ?case by (subst sc_num.simps) (auto intro: suffix_drop_trans suffix_drop)
next
  case (2 p)
  then show ?case by (subst sc_num.simps) (auto intro: suffix_drop_trans)
next
  case (3 p)
  then show ?case by (subst sc_num.simps) (auto intro: suffix_drop_trans)
next
  case (4 p)
  then show ?case by (subst sc_num.simps) (auto intro: suffix_drop_trans)
qed

lemma sc_str_suffix [scan_progress]: "suffix (fst (sc_str q p line buf)) p"
proof (induction q p line buf rule: sc_str.induct)
  case (1 q p line buf)
  then show ?case by (subst sc_str.simps) (auto intro: suffix_drop_trans suffix_drop)
qed

lemma sc_ident_suffix [scan_progress]: "suffix (sc_ident p) p"
  by (simp add: sc_ident_def suffix_dropWhile)

text \<open>
  A target reached from \<open>p\<close>: its pointer is a suffix of \<open>p\<close>, shorter but for \<open>T_CONCAT\<close>, which
  consumes nothing and is sent only where a value and white space precede.
\<close>

fun tgt_rest :: "target \<Rightarrow> string" where
  "tgt_rest To_EOF = []"
| "tgt_rest (Emit k p) = p"
| "tgt_rest (Unary k t p) = p"
| "tgt_rest (Unknown t p) = p"
| "tgt_rest (To_STR q p) = p"
| "tgt_rest (To_IDENT t p) = p"
| "tgt_rest (To_INT t p) = p"
| "tgt_rest (To_KEYWORD t p) = p"

definition tgt_ok :: "bool \<Rightarrow> string \<Rightarrow> target \<Rightarrow> bool" where
  "tgt_ok lv p t \<longleftrightarrow> suffix (tgt_rest t) p \<and> t \<noteq> To_EOF \<and> (\<forall>q. t \<noteq> Emit T_EOF q) \<and> (\<forall>a b. t \<noteq> Unary T_EOF a b) \<and> (\<forall>a b. t \<noteq> Unary T_CONCAT a b)
     \<and> (if (\<exists>q. t = Emit T_CONCAT q) then lv \<and> tgt_rest t = p else length (tgt_rest t) < length p)"

lemma op_state_ok:
  assumes "p \<noteq> []" "tgt_ok lv p unary" "binary \<noteq> T_CONCAT" "binary \<noteq> T_EOF"
    "assign \<noteq> Some T_CONCAT" "assign \<noteq> Some T_EOF"
  shows "tgt_ok lv p (op_state lv p assign binary unary)"
  using assms by (auto simp: op_state_def tgt_ok_def suffix_drop)

lemma simple_target_ok:
  assumes "p \<noteq> []"
  shows "k \<noteq> T_CONCAT \<Longrightarrow> k \<noteq> T_EOF \<Longrightarrow> 0 < n \<Longrightarrow> tgt_ok lv p (Emit k (drop n p))"
    "k \<noteq> T_EOF \<Longrightarrow> k \<noteq> T_CONCAT \<Longrightarrow> 0 < n \<Longrightarrow> tgt_ok lv p (Unary k t (drop n p))"
    "0 < n \<Longrightarrow> tgt_ok lv p (Unknown t (drop n p))" "0 < n \<Longrightarrow> tgt_ok lv p (To_STR q (drop n p))"
    "0 < n \<Longrightarrow> tgt_ok lv p (To_IDENT t (drop n p))" "0 < n \<Longrightarrow> tgt_ok lv p (To_INT t (drop n p))"
    "0 < n \<Longrightarrow> tgt_ok lv p (To_KEYWORD t (drop n p))" "lv \<Longrightarrow> tgt_ok lv p (Emit T_CONCAT p)"
  using assms by (auto simp: tgt_ok_def suffix_drop)

lemma sc_op_ok: "p \<noteq> [] \<Longrightarrow> tgt_ok lv p (sc_op lv p)"
  unfolding sc_op_def Let_def
  by (simp add: op_state_ok simple_target_ok)

lemma sc_dispatch_nul: "pk 0 p = CHR 0x00 \<Longrightarrow> sc_dispatch lv p = To_EOF"
  by (simp add: sc_dispatch_def is_value_starter_def is_alpha_def less_eq_char_def)

lemma sc_dispatch_live: "pk 0 p \<noteq> CHR 0x00 \<Longrightarrow> tgt_ok lv p (sc_dispatch lv p)"
proof -
  assume nn: "pk 0 p \<noteq> CHR 0x00"
  then have "p \<noteq> []" by auto
  then show ?thesis
    using nn unfolding sc_dispatch_def Let_def by (simp add: sc_op_ok simple_target_ok)
qed

lemma sc_dispatch_eof: "sc_dispatch lv p = To_EOF \<longleftrightarrow> pk 0 p = CHR 0x00"
  using sc_dispatch_nul sc_dispatch_live [of p lv] by (auto simp: tgt_ok_def)

lemma sc_dispatch_ok: "sc_dispatch lv p \<noteq> To_EOF \<Longrightarrow> tgt_ok lv p (sc_dispatch lv p)"
  using sc_dispatch_eof sc_dispatch_live by blast

definition kind_of_lex :: "lexctx \<Rightarrow> kind" where "kind_of_lex ctx = fst (sc_lex ctx)"
definition ctx_of_lex :: "lexctx \<Rightarrow> lexctx" where "ctx_of_lex ctx = snd (snd (sc_lex ctx))"

lemma kw_not_special: "classify_keyword_range w \<noteq> T_EOF \<and> classify_keyword_range w \<noteq> T_CONCAT"
  by (auto simp: classify_keyword_range_def KW_TABLE_def)

lemma sc_num_kind: "fst (sc_num st p) \<in> {T_INT, T_REAL}"
proof (induction st p rule: sc_num.induct)
  case (1 p) then show ?case by (subst sc_num.simps) auto
next
  case (2 p) then show ?case by (subst sc_num.simps) auto
next
  case (3 p) then show ?case by (subst sc_num.simps) auto
next
  case (4 p) then show ?case by (subst sc_num.simps) auto
qed

text \<open>The result of a call, from the target of the dispatch.\<close>

lemma sc_lex_target:
  assumes "sc_ws S_WS (lx_p ctx) (lx_line ctx) False = (p, line, hw)"
  defines "t \<equiv> sc_dispatch (hw \<and> sc_kind_is_value (lx_last ctx)) p"
  shows "t = To_EOF \<Longrightarrow> sc_lex ctx = (T_EOF, None, ctx\<lparr>lx_line := line\<rparr>)"
    "t \<noteq> To_EOF \<Longrightarrow> suffix (lx_p (ctx_of_lex ctx)) (tgt_rest t) \<and> lx_last (ctx_of_lex ctx) = kind_of_lex ctx
      \<and> kind_of_lex ctx \<noteq> T_EOF \<and> (kind_of_lex ctx = T_CONCAT \<longleftrightarrow> (\<exists>q. t = Emit T_CONCAT q))"
proof -
  show "t = To_EOF \<Longrightarrow> sc_lex ctx = (T_EOF, None, ctx\<lparr>lx_line := line\<rparr>)"
    using assms by (simp add: sc_lex_def)
  assume t: "t \<noteq> To_EOF"
  then have ok: "tgt_ok (hw \<and> sc_kind_is_value (lx_last ctx)) p t"
    unfolding t_def by (rule sc_dispatch_ok)
  show "suffix (lx_p (ctx_of_lex ctx)) (tgt_rest t) \<and> lx_last (ctx_of_lex ctx) = kind_of_lex ctx
      \<and> kind_of_lex ctx \<noteq> T_EOF \<and> (kind_of_lex ctx = T_CONCAT \<longleftrightarrow> (\<exists>q. t = Emit T_CONCAT q))"
  proof (cases t)
    case (To_INT a b)
    then show ?thesis
      using assms(1) t_def sc_num_suffix [of S_INT b] sc_num_kind [of S_INT b]
      by (auto simp: sc_lex_def kind_of_lex_def ctx_of_lex_def lex_leave_def split: prod.split)
  next
    case (To_STR a b)
    then show ?thesis
      using assms(1) t_def sc_str_suffix [of a b line "[]"]
      by (auto simp: sc_lex_def kind_of_lex_def ctx_of_lex_def lex_leave_def split: prod.split)
  next
    case (To_IDENT a b)
    then show ?thesis
      using assms(1) t_def sc_ident_suffix [of b] suffix_order.trans [OF suffix_drop sc_ident_suffix, of 1 b]
        kw_not_special
      by (auto simp: sc_lex_def kind_of_lex_def ctx_of_lex_def lex_leave_def Let_def)
  next
    case (To_KEYWORD a b)
    then show ?thesis
      using assms(1) t_def sc_ident_suffix [of b]
      by (auto simp: sc_lex_def kind_of_lex_def ctx_of_lex_def lex_leave_def Let_def)
  next
    case (Unary k a b)
    then show ?thesis
      using assms(1) t_def ok
      by (auto simp: sc_lex_def kind_of_lex_def ctx_of_lex_def lex_leave_def tgt_ok_def)
  qed (use assms(1) t_def t ok in
      \<open>auto simp: sc_lex_def kind_of_lex_def ctx_of_lex_def lex_leave_def tgt_ok_def\<close>)
qed

lemma lex_step:
  assumes "kind_of_lex ctx \<noteq> T_EOF"
  shows "suffix (lx_p (ctx_of_lex ctx)) (lx_p ctx) \<and> length (lx_p (ctx_of_lex ctx)) < length (lx_p ctx)
    \<and> lx_last (ctx_of_lex ctx) = kind_of_lex ctx"
proof -
  obtain p line hw where w: "sc_ws S_WS (lx_p ctx) (lx_line ctx) False = (p, line, hw)"
    by (cases "sc_ws S_WS (lx_p ctx) (lx_line ctx) False")
  define lv where "lv = (hw \<and> sc_kind_is_value (lx_last ctx))"
  define t where "t = sc_dispatch lv p"
  have "t \<noteq> To_EOF" using assms sc_lex_target(1) [OF w] by (auto simp: t_def lv_def kind_of_lex_def)
  then have t: "suffix (lx_p (ctx_of_lex ctx)) (tgt_rest t)" "lx_last (ctx_of_lex ctx) = kind_of_lex ctx"
    "tgt_ok lv p t"
    using sc_lex_target(2) [OF w] sc_dispatch_ok by (auto simp: t_def lv_def)
  have p: "suffix p (lx_p ctx)" using sc_ws_suffix [of S_WS "lx_p ctx" "lx_line ctx" False] w by simp
  have "suffix (tgt_rest t) p" using t(3) by (simp add: tgt_ok_def)
  then have "suffix (lx_p (ctx_of_lex ctx)) (lx_p ctx)"
    using t(1) p by (meson suffix_order.trans)
  moreover have "length (tgt_rest t) < length (lx_p ctx)"
  proof (cases "\<exists>q. t = Emit T_CONCAT q")
    case True
    then have "hw" "tgt_rest t = p" using t(3) by (auto simp: tgt_ok_def lv_def)
    then show ?thesis using sc_ws_had_ws [of "lx_p ctx" "lx_line ctx"] w by simp
  next
    case False
    then show ?thesis using t(3) suffix_length_le [OF p] by (simp add: tgt_ok_def)
  qed
  ultimately show ?thesis using t(2) suffix_length_le [OF t(1)] by simp
qed

text \<open>The token stream of a source: the calls the parser makes until the end.\<close>

function sc_tokens :: "lexctx \<Rightarrow> (kind \<times> string option) list" where
  "sc_tokens ctx =
     (let (k, str, ctx') = sc_lex ctx in if k = T_EOF then [] else (k, str) # sc_tokens ctx')"
  by pat_completeness auto

termination
proof (relation "measure (\<lambda>ctx. length (lx_p ctx))", goal_cases)
  case 1
  show ?case by simp
next
  case (2 ctx x k y str ctx')
  then have "sc_lex ctx = (k, str, ctx')" by simp
  then show ?case using lex_step [of ctx] 2(4) by (simp add: kind_of_lex_def ctx_of_lex_def)
qed

declare sc_tokens.simps [simp del]

text \<open>
  C24. Every call that returns a token consumes at least one character and leaves a suffix of the
  source, so reading tokens until the end terminates; at the end the context keeps its position.
\<close>

theorem sc_lex_progress:
  "(if fst (sc_lex ctx) = T_EOF then lx_p (snd (snd (sc_lex ctx))) = lx_p ctx
    else suffix (lx_p (snd (snd (sc_lex ctx)))) (lx_p ctx)
      \<and> length (lx_p (snd (snd (sc_lex ctx)))) < length (lx_p ctx)
      \<and> lx_last (snd (snd (sc_lex ctx))) = fst (sc_lex ctx))
   \<and> length (sc_tokens ctx) \<le> length (lx_p ctx)"
proof -
  have "length (sc_tokens ctx) \<le> length (lx_p ctx)" for ctx
  proof (induction ctx rule: sc_tokens.induct)
    case (1 ctx)
    obtain k str ctx' where l: "sc_lex ctx = (k, str, ctx')" by (cases "sc_lex ctx")
    show ?case
    proof (cases "k = T_EOF")
      case True
      then show ?thesis using l by (subst sc_tokens.simps) simp
    next
      case False
      then have "length (sc_tokens ctx') \<le> length (lx_p ctx')" using 1 l by simp
      moreover have "length (lx_p ctx') < length (lx_p ctx)"
        using lex_step [of ctx] False l by (simp add: kind_of_lex_def ctx_of_lex_def)
      ultimately show ?thesis using l False by (subst sc_tokens.simps) simp
    qed
  qed
  moreover have "lx_p (snd (snd (sc_lex ctx))) = lx_p ctx" if "fst (sc_lex ctx) = T_EOF"
  proof -
    obtain p line hw where w: "sc_ws S_WS (lx_p ctx) (lx_line ctx) False = (p, line, hw)"
      by (cases "sc_ws S_WS (lx_p ctx) (lx_line ctx) False")
    have "sc_dispatch (hw \<and> sc_kind_is_value (lx_last ctx)) p = To_EOF"
      using sc_lex_target(2) [OF w] that by (auto simp: kind_of_lex_def)
    then show ?thesis using sc_lex_target(1) [OF w] by simp
  qed
  ultimately show ?thesis
    using lex_step [of ctx] by (auto simp: kind_of_lex_def ctx_of_lex_def)
qed

theorem sc_lex_progress_witness:
  "length (sc_tokens \<lparr>lx_p = ''a = b + 1;'', lx_line = 1, lx_last = T_EOF\<rparr>) \<le> 10"
  using sc_lex_progress [of "\<lparr>lx_p = ''a = b + 1;'', lx_line = 1, lx_last = T_EOF\<rparr>"] by simp

lemma sc_ws_stable: "sc_ws S_WS p line hw = (q, line', hw') \<Longrightarrow> pk 0 q \<noteq> CHR 0x00 \<Longrightarrow>
   sc_ws S_WS q l h = (q, l, h)"
proof -
  have stop: "pk 0 (fst (sc_ws st p line hw)) \<noteq> CHR 0x00 \<Longrightarrow>
    sc_ws S_WS (fst (sc_ws st p line hw)) l h = (fst (sc_ws st p line hw), l, h)" for st
  proof (induction st p line hw rule: sc_ws.induct)
    case (1 p line hw)
    define stop where "stop \<longleftrightarrow> pk 0 p \<notin> {CHR '' '', CHR 0x09, CHR 0x0D, CHR 0x0C, CHR 0x0A}
      \<and> \<not> (pk 0 p = CHR ''/'' \<and> (pk 1 p = CHR ''/'' \<or> pk 1 p = CHR ''*''))"
    show ?case
    proof (cases stop)
      case True
      then have "sc_ws S_WS p i b = (p, i, b)" for i b
        by (subst sc_ws.simps(1)) (auto simp: stop_def)
      then show ?thesis by simp
    next
      case False
      then show ?thesis using 1 sc_ws.simps(1) [of p line hw] unfolding stop_def
        by (auto split: if_splits)
    qed
  next
    case (2 p line hw)
    then show ?case using sc_ws.simps(2) [of p line hw] by (auto split: if_splits)
  next
    case (3 p line hw)
    then show ?case using sc_ws.simps(3) [of p line hw] by (auto split: if_splits)
  next
    case (4 p line hw)
    then show ?case using sc_ws.simps(4) [of p line hw] by (auto split: if_splits)
  next
    case (5 p line hw)
    then show ?case using sc_ws.simps(5) [of p line hw] by (auto split: if_splits)
  qed
  assume "sc_ws S_WS p line hw = (q, line', hw')" "pk 0 q \<noteq> CHR 0x00"
  then show ?thesis using stop [of S_WS] by simp
qed

text \<open>
  C13. Juxtaposition: the lexer answers \<open>T_CONCAT\<close> only after a token that ends a value, and the
  next call answers a token that is neither the end nor a second \<open>T_CONCAT\<close>, so in the stream
  each concatenation stands between two tokens.
\<close>

theorem sc_concat_between:
  assumes "fst (sc_lex ctx) = T_CONCAT"
  shows "sc_kind_is_value (lx_last ctx)
    \<and> fst (sc_lex (snd (snd (sc_lex ctx)))) \<notin> {T_EOF, T_CONCAT}"
proof -
  obtain p line hw where w: "sc_ws S_WS (lx_p ctx) (lx_line ctx) False = (p, line, hw)"
    by (cases "sc_ws S_WS (lx_p ctx) (lx_line ctx) False")
  define lv where "lv = (hw \<and> sc_kind_is_value (lx_last ctx))"
  define t where "t = sc_dispatch lv p"
  have nt: "t \<noteq> To_EOF" using assms sc_lex_target(1) [OF w] by (auto simp: t_def lv_def)
  then obtain q where q: "t = Emit T_CONCAT q"
    using assms sc_lex_target(2) [OF w] by (auto simp: t_def lv_def kind_of_lex_def)
  then have lv: "lv" "q = p" using sc_dispatch_ok [of lv p] by (auto simp: t_def tgt_ok_def)
  have live: "pk 0 p \<noteq> CHR 0x00" using nt sc_dispatch_eof by (auto simp: t_def)
  define ctx' where "ctx' = snd (snd (sc_lex ctx))"
  have em: "sc_dispatch lv p = Emit T_CONCAT p" using q lv by (simp add: t_def)
  have c: "lx_p ctx' = p" "lx_last ctx' = T_CONCAT" "lx_line ctx' = line"
    using w em by (simp_all add: ctx'_def sc_lex_def lex_leave_def lv_def [symmetric])
  have w': "sc_ws S_WS (lx_p ctx') (lx_line ctx') False = (p, line, False)"
    using sc_ws_stable [OF w live] c by simp
  define t' where "t' = sc_dispatch (False \<and> sc_kind_is_value (lx_last ctx')) p"
  have "t' \<noteq> To_EOF" using live sc_dispatch_eof by (simp add: t'_def)
  then have "kind_of_lex ctx' \<noteq> T_EOF" "kind_of_lex ctx' = T_CONCAT \<longleftrightarrow> (\<exists>q. t' = Emit T_CONCAT q)"
    using sc_lex_target(2) [OF w'] unfolding t'_def by blast+
  moreover have "\<not> (\<exists>q. t' = Emit T_CONCAT q)"
    using sc_dispatch_live [OF live, of False] by (auto simp: t'_def tgt_ok_def)
  ultimately show ?thesis using lv by (simp add: lv_def ctx'_def kind_of_lex_def)
qed

section \<open>Strings and lines\<close>

text \<open>A star before a new line, which is what \<open>S_BC_STAR\<close> does not count.\<close>

fun star_nl :: "string \<Rightarrow> bool" where
  "star_nl (a # b # p) \<longleftrightarrow> a = CHR ''*'' \<and> b = CHR 0x0A \<or> star_nl (b # p)"
| "star_nl p \<longleftrightarrow> False"

fun sc_quote :: "char \<Rightarrow> string \<Rightarrow> string" where
  "sc_quote q [] = []"
| "sc_quote q (c # s) = (if c = q then [q, q] else [c]) @ sc_quote q s"

lemma pk_cases: "pk 0 p \<noteq> CHR 0x00 \<Longrightarrow> (\<And>r. p = pk 0 p # r \<Longrightarrow> R) \<Longrightarrow> R"
  by (cases p) auto

lemma star_nl_drop: "\<not> star_nl p \<Longrightarrow> \<not> star_nl (drop n p)"
proof (induction p arbitrary: n)
  case (Cons a p)
  have "\<not> star_nl p" using Cons.prems by (cases p) auto
  then show ?case using Cons by (cases n) auto
qed simp

lemma nl_step: "pk 0 p \<noteq> CHR 0x00 \<Longrightarrow> nl p = (if pk 0 p = CHR 0x0A then 1 else 0) + nl (drop 1 p)"
  by (cases p) auto

lemma nl_step2: "pk 0 p \<noteq> CHR 0x00 \<Longrightarrow> pk 1 p \<noteq> CHR 0x00 \<Longrightarrow> pk 0 p \<noteq> CHR 0x0A \<Longrightarrow> pk 1 p \<noteq> CHR 0x0A \<Longrightarrow>
    nl (drop 2 p) = nl p"
  by (cases p; cases "tl p") auto

lemma star_step: "pk 0 p = CHR ''*'' \<Longrightarrow> \<not> star_nl p \<Longrightarrow> pk 0 (drop (Suc 0) p) \<noteq> CHR 0x0A"
  by (cases p; cases "tl p") auto

lemma sc_ws_lines:
  "(case sc_ws st p line hw of (q, line', hw') \<Rightarrow>
     line' + nl q \<le> line + nl p
     \<and> (\<not> star_nl p \<and> (st = S_BC_STAR \<longrightarrow> pk 0 p \<noteq> CHR 0x0A) \<longrightarrow> line' + nl q = line + nl p))"
proof (induction st p line hw rule: sc_ws.induct)
  case (1 p line hw)
  then show ?case
    by (subst sc_ws.simps) (auto simp: nl_step nl_step2 star_nl_drop split: prod.splits)
next
  case (2 p line hw)
  then show ?case
    by (subst sc_ws.simps) (auto simp: nl_step star_nl_drop split: prod.splits)
next
  case (3 p line hw)
  then show ?case
    by (subst sc_ws.simps) (auto simp: nl_step star_nl_drop split: prod.splits)
next
  case (4 p line hw)
  then show ?case
    by (subst sc_ws.simps) (auto simp: nl_step star_nl_drop star_step split: prod.splits)
next
  case (5 p line hw)
  then show ?case
    by (subst sc_ws.simps) (auto simp: nl_step star_nl_drop star_step split: prod.splits)
qed

lemma digit_line: "is_digit c \<Longrightarrow> c \<noteq> CHR 0x00 \<and> c \<noteq> CHR 0x0A"
  by (auto simp: is_digit_def)

lemma sc_num_lines: "nl (snd (sc_num st p)) = nl p"
proof (induction st p rule: sc_num.induct)
  case (1 p)
  then show ?case by (subst sc_num.simps) (auto simp: nl_step [of p] dest: digit_line)
next
  case (2 p)
  then show ?case by (subst sc_num.simps) (auto simp: nl_step [of p] dest: digit_line)
next
  case (3 p)
  then show ?case by (subst sc_num.simps) (auto simp: nl_step [of p])
next
  case (4 p)
  then show ?case by (subst sc_num.simps) (auto simp: nl_step [of p] dest: digit_line)
qed

lemma sc_str_lines:
  assumes "q \<noteq> CHR 0x0A"
  shows "fst (snd (sc_str q p line buf)) + nl (fst (sc_str q p line buf)) = line + nl p"
  using assms
proof (induction q p line buf rule: sc_str.induct)
  case (1 q p line buf)
  then show ?case
    by (subst (1 2) sc_str.simps) (auto simp: nl_step nl_step2)
qed

lemma sc_ident_lines: "nl (sc_ident p) = nl p"
  by (induction p)
    (auto simp: sc_ident_def is_idcont_def is_idstart_def is_digit_def Let_def)

lemma nl_drop:
  assumes "pk 0 p \<noteq> CHR 0x00" "pk 0 p \<noteq> CHR 0x0A"
  shows "nl (drop (Suc 0) p) = nl p"
    and "pk (Suc 0) p \<noteq> CHR 0x00 \<Longrightarrow> pk (Suc 0) p \<noteq> CHR 0x0A \<Longrightarrow> nl (drop 2 p) = nl p"
  using assms nl_step [of p] nl_step2 [of p] by simp_all

lemma op_state_lines:
  assumes "pk 0 p \<noteq> CHR 0x00" "pk 0 p \<noteq> CHR 0x0A" "nl (tgt_rest unary) = nl p"
  shows "nl (tgt_rest (op_state lv p assign binary unary)) = nl p"
  using assms by (simp add: op_state_def nl_drop)

lemma sc_op_lines:
  assumes "pk 0 p \<noteq> CHR 0x00" "pk 0 p \<noteq> CHR 0x0A"
  shows "nl (tgt_rest (sc_op lv p)) = nl p"
  using op_state_lines [OF assms] nl_drop [OF assms] unfolding sc_op_def Let_def
  by simp

lemma sc_dispatch_lines:
  assumes "pk 0 p \<noteq> CHR 0x00" "pk 0 p \<noteq> CHR 0x0A"
  shows "nl (tgt_rest (sc_dispatch lv p)) = nl p"
  using sc_op_lines [OF assms] nl_drop [OF assms] assms(1) unfolding sc_dispatch_def Let_def
  by simp

lemma sc_ws_stop: "pk 0 (fst (sc_ws st p line hw)) \<noteq> CHR 0x0A"
proof (induction st p line hw rule: sc_ws.induct)
  case (1 p line hw)
  then show ?case by (subst sc_ws.simps) auto
next
  case (2 p line hw)
  then show ?case by (subst sc_ws.simps) auto
next
  case (3 p line hw)
  then show ?case by (subst sc_ws.simps) auto
next
  case (4 p line hw)
  then show ?case by (subst sc_ws.simps) auto
next
  case (5 p line hw)
  then show ?case by (subst sc_ws.simps) auto
qed

text \<open>After the dispatch a call counts every line it passes.\<close>

lemma sc_lex_lines:
  assumes "sc_ws S_WS (lx_p ctx) (lx_line ctx) False = (p, line, hw)" "fst (sc_lex ctx) \<noteq> T_EOF"
  shows "lx_line (ctx_of_lex ctx) + nl (lx_p (ctx_of_lex ctx)) = line + nl p"
proof -
  define t where "t = sc_dispatch (hw \<and> sc_kind_is_value (lx_last ctx)) p"
  have t: "t \<noteq> To_EOF" using assms sc_lex_target(1) [OF assms(1)] by (auto simp: t_def)
  then have live: "pk 0 p \<noteq> CHR 0x00" using sc_dispatch_eof by (auto simp: t_def)
  moreover have "pk 0 p \<noteq> CHR 0x0A" using sc_ws_stop [of S_WS "lx_p ctx" "lx_line ctx" False] assms(1) by simp
  ultimately have r: "nl (tgt_rest t) = nl p" unfolding t_def by (rule sc_dispatch_lines)
  have l: "ctx_of_lex ctx = snd (snd (case t of
           To_EOF \<Rightarrow> (T_EOF, None, ctx\<lparr>lx_line := line\<rparr>)
         | Emit k p \<Rightarrow> lex_leave ctx line p k None
         | Unary k tok_start p \<Rightarrow>
             if is_rws_at p 0 then lex_leave ctx line p T_UNKNOWN (Some (tok_text tok_start p))
             else lex_leave ctx line p k None
         | Unknown tok_start p \<Rightarrow> lex_leave ctx line p T_UNKNOWN (Some (tok_text tok_start p))
         | To_STR q p \<Rightarrow>
             (let (p, line, buf) = sc_str q p line []
              in lex_leave ctx line p T_STR (Some buf))
         | To_INT tok_start p \<Rightarrow>
             (let (k, p) = sc_num S_INT p in lex_leave ctx line p k (Some (tok_text tok_start p)))
         | To_KEYWORD tok_start p \<Rightarrow>
             (let p = sc_ident p in lex_leave ctx line p T_KEYWORD (Some (tok_text tok_start p)))
         | To_IDENT tok_start p \<Rightarrow>
             (let p = sc_ident p; w = tok_text tok_start p; k = classify_keyword_range w
              in if pk 0 p = CHR ''('' \<and> \<not> k \<noteq> T_IDENT \<and> lx_last ctx \<noteq> T_DEFINE
                 then lex_leave ctx line (drop 1 p) T_CALL (Some w)
                 else lex_leave ctx line p k (Some w))))"
    using assms(1) by (simp add: ctx_of_lex_def sc_lex_def t_def)
  show ?thesis
  proof (cases t)
    case (To_STR a b)
    then have "a = CHR 0x27 \<or> a = CHR 0x22"
      unfolding t_def sc_dispatch_def sc_op_def op_state_def Let_def by (auto split: if_splits)
    then have "a \<noteq> CHR 0x0A" by auto
    then show ?thesis using To_STR l r sc_str_lines [of a b line "[]"]
      by (cases "sc_str a b line []") (simp add: lex_leave_def)
  next
    case (To_INT a b)
    then show ?thesis using l r sc_num_lines [of S_INT b]
      by (cases "sc_num S_INT b") (simp add: lex_leave_def)
  next
    case (To_IDENT a b)
    then show ?thesis using l r sc_ident_lines [of b] nl_step [of "sc_ident b"]
      by (auto simp: lex_leave_def Let_def)
  qed (use t l r sc_ident_lines in \<open>auto simp: lex_leave_def Let_def\<close>)
qed

text \<open>
  Line numbers: a call that answers a token advances the line number by at most the number
  of new lines it passes, and by exactly that number unless the source has a new line right
  after a star. The exception is real: \<open>S_BC_STAR\<close> passes a new line after a star inside a block
  comment without counting it.
\<close>

theorem sc_lex_line_count:
  assumes "fst (sc_lex ctx) \<noteq> T_EOF"
  shows "lx_line (snd (snd (sc_lex ctx))) + nl (lx_p (snd (snd (sc_lex ctx)))) \<le> lx_line ctx + nl (lx_p ctx)
    \<and> (\<not> star_nl (lx_p ctx) \<longrightarrow>
      lx_line (snd (snd (sc_lex ctx))) + nl (lx_p (snd (snd (sc_lex ctx)))) = lx_line ctx + nl (lx_p ctx))"
  using sc_lex_lines [OF _ assms]
    sc_ws_lines [where st = S_WS and p = "lx_p ctx" and line = "lx_line ctx" and hw = False]
  by (auto simp: ctx_of_lex_def split: prod.splits)

lemmas sc_eval = sc_lex_def sc_ws.simps sc_dispatch_def sc_op_def op_state_def is_value_starter_def
  is_alpha_def is_digit_def is_idstart_def is_idcont_def is_rws_at_def is_rws_char_def Let_def
  sc_kind_is_value_def lex_leave_def tok_text_def classify_keyword_range_def KW_TABLE_def
  sc_ident_def sc_str.simps pk_def

lemma lex_after_comment:
  "sc_lex \<lparr>lx_p = ''/* a'' @ [CHR 0x0A] @ '' b */ x'', lx_line = 1, lx_last = T_EOF\<rparr>
    = (T_IDENT, Some ''x'', \<lparr>lx_p = [], lx_line = 2, lx_last = T_IDENT\<rparr>)"
  by (simp add: sc_eval)

theorem sc_lex_line_count_witness:
  "lx_line (snd (snd (sc_lex \<lparr>lx_p = ''/* a'' @ [CHR 0x0A] @ '' b */ x'', lx_line = 1, lx_last = T_EOF\<rparr>))) = 2"
  using sc_lex_line_count [of "\<lparr>lx_p = ''/* a'' @ [CHR 0x0A] @ '' b */ x'', lx_line = 1, lx_last = T_EOF\<rparr>"]
  unfolding lex_after_comment by simp

text \<open>
  A new line right after a star inside a block comment is lost: the token after such a
  comment is reported one line too early.
\<close>

theorem sc_lex_star_newline_lost:
  "sc_lex \<lparr>lx_p = ''/* a *'' @ [CHR 0x0A] @ '' b */ x'', lx_line = 1, lx_last = T_EOF\<rparr>
    = (T_IDENT, Some ''x'', \<lparr>lx_p = [], lx_line = 1, lx_last = T_IDENT\<rparr>)"
  by (simp add: sc_eval)

lemma sc_str_quote:
  assumes "CHR 0x00 \<notin> set s" "q \<noteq> CHR 0x00" "q \<noteq> CHR 0x0A" "pk 0 r \<noteq> q"
  shows "sc_str q (sc_quote q s @ q # r) line buf = (r, line + nl s, buf @ s)"
  using assms
proof (induction s arbitrary: line buf)
  case Nil
  then show ?case by (simp add: sc_str.simps [of q "q # r"] pk_def split: if_splits)
next
  case (Cons c s)
  have st: "sc_str q (c # p) line buf = sc_str q p (line + (if c = CHR 0x0A then 1 else 0)) (buf @ [c])"
    if "c \<noteq> q" "c \<noteq> CHR 0x00" for p line buf
    using that by (subst sc_str.simps) simp
  have dq: "sc_str q (q # q # p) line buf = sc_str q p line (buf @ [q])" for p line buf
    using assms(2) by (subst sc_str.simps) simp
  show ?case
  proof (cases "c = q")
    case True
    then show ?thesis using Cons dq by simp
  next
    case False
    then show ?thesis using Cons st by auto
  qed
qed

text \<open>
  C30. Quoting round trip: a text without NUL, written between quotes of either kind with each
  such quote doubled, is read back by one call as that text, with the source left just behind
  the closing quote and the lines inside counted.
\<close>

theorem sc_lex_string_roundtrip:
  assumes "q = CHR 0x27 \<or> q = CHR 0x22" "CHR 0x00 \<notin> set s" "pk 0 r \<noteq> q"
    "lx_p ctx = q # sc_quote q s @ q # r"
  shows "sc_lex ctx = (T_STR, Some s, ctx\<lparr>lx_p := r, lx_line := lx_line ctx + nl s, lx_last := T_STR\<rparr>)"
proof -
  have w: "sc_ws S_WS (lx_p ctx) (lx_line ctx) False = (lx_p ctx, lx_line ctx, False)"
    unfolding assms(4) using assms(1) by (subst sc_ws.simps) auto
  have d: "sc_dispatch False (lx_p ctx) = To_STR q (sc_quote q s @ q # r)"
    unfolding assms(4) using assms(1) by (elim disjE) (simp_all add: sc_dispatch_def Let_def)
  have "q \<noteq> CHR 0x00" "q \<noteq> CHR 0x0A" using assms(1) by auto
  then have "sc_str q (sc_quote q s @ q # r) (lx_line ctx) [] = (r, lx_line ctx + nl s, s)"
    using sc_str_quote [of s q r "lx_line ctx" "[]"] assms by simp
  then show ?thesis using w d by (simp add: sc_lex_def lex_leave_def)
qed

theorem sc_lex_string_roundtrip_witness:
  "sc_lex \<lparr>lx_p = CHR 0x27 # sc_quote (CHR 0x27) [CHR ''i'', CHR 0x27, CHR ''m''] @ CHR 0x27 # '';'',
      lx_line = 1, lx_last = T_EOF\<rparr>
    = (T_STR, Some [CHR ''i'', CHR 0x27, CHR ''m''], \<lparr>lx_p = '';'', lx_line = 1, lx_last = T_STR\<rparr>)"
  using sc_lex_string_roundtrip [of "CHR 0x27" "[CHR ''i'', CHR 0x27, CHR ''m'']" "'';''"
      "\<lparr>lx_p = CHR 0x27 # sc_quote (CHR 0x27) [CHR ''i'', CHR 0x27, CHR ''m''] @ CHR 0x27 # '';'',
        lx_line = 1, lx_last = T_EOF\<rparr>"]
  by simp

lemma lex_blank_b:
  "sc_lex \<lparr>lx_p = '' b'', lx_line = 1, lx_last = T_IDENT\<rparr>
    = (T_CONCAT, None, \<lparr>lx_p = ''b'', lx_line = 1, lx_last = T_CONCAT\<rparr>)"
proof -
  have "sc_ws S_WS '' b'' 1 False = (''b'', 1, True)"
    by (simp add: sc_ws.simps(1) [of "'' b''"] sc_ws.simps(1) [of "''b''"])
  moreover have "sc_dispatch True ''b'' = Emit T_CONCAT ''b''"
    by (simp add: sc_dispatch_def is_value_starter_def is_alpha_def)
  ultimately show ?thesis by (simp add: sc_lex_def sc_kind_is_value_def lex_leave_def)
qed

theorem sc_concat_between_witness:
  "sc_kind_is_value T_IDENT
    \<and> fst (sc_lex (snd (snd (sc_lex \<lparr>lx_p = '' b'', lx_line = 1, lx_last = T_IDENT\<rparr>)))) \<notin> {T_EOF, T_CONCAT}"
  using sc_concat_between [of "\<lparr>lx_p = '' b'', lx_line = 1, lx_last = T_IDENT\<rparr>"]
  unfolding lex_blank_b by simp

end
