(* ===== verification/Icon_Tok.thy ===== *)
theory Icon_Tok
  imports Scrip_Prelude
begin

text \<open>
  The tokens of the Icon and Unicon lexer (\<open>src/parsers/icon/icon_lex.h\<close>): the enumeration
  \<open>IcnTkKind\<close> with its numbering, the spelling \<open>icn_tk_name\<close> gives each kind, the two keyword tables
  and the token structure.
\<close>

section \<open>Token kinds\<close>

datatype (plugins del: code quickcheck_random quickcheck_exhaustive quickcheck_bounded_forall
    quickcheck_full_exhaustive quickcheck_narrowing transfer lifting size) tk =
    TK_EOF | TK_ERROR | TK_INT | TK_BIGINT | TK_REAL | TK_STRING | TK_CSET | TK_IDENT | TK_PLUS |
    TK_MINUS | TK_STAR | TK_SLASH | TK_MOD | TK_CARET | TK_LT | TK_LE | TK_GT | TK_GE | TK_EQ |
    TK_NEQ | TK_SLT | TK_SLE | TK_SGT | TK_SGE | TK_SEQ | TK_SNE | TK_CONCAT | TK_LCONCAT |
    TK_ASSIGN | TK_SWAP | TK_REVASSIGN | TK_AUGPLUS | TK_AUGMINUS | TK_AUGSTAR | TK_AUGSLASH |
    TK_AUGMOD | TK_AUGPOW | TK_AUGCONCAT | TK_AUGLCONCAT | TK_AUGAT | TK_AUGIDENTICAL |
    TK_AUGNOTIDENT | TK_AUGAND | TK_AUGCSET_UNION | TK_AUGCSET_DIFF | TK_AUGCSET_INTER |
    TK_AUGSCAN | TK_AUGEQ | TK_AUGSEQ | TK_EQSWAP | TK_AUGLT | TK_AUGLE | TK_AUGGT | TK_AUGGE |
    TK_AUGNE | TK_AUGSLT | TK_AUGSLE | TK_AUGSGT | TK_AUGSGE | TK_AUGSNE | TK_VALSWAP |
    TK_IDENTICAL | TK_NOTIDENT | TK_PLUSCOLON | TK_MINUSCOLON | TK_PLUSPLUS | TK_MINUSMINUS |
    TK_STARSTAR | TK_AND | TK_BAR | TK_BACKSLASH | TK_BANG | TK_QMARK | TK_AT | TK_TILDE |
    TK_DOT | TK_TO | TK_BY | TK_EVERY | TK_DO | TK_IF | TK_THEN | TK_ELSE | TK_WHILE | TK_UNTIL |
    TK_REPEAT | TK_RETURN | TK_SUSPEND | TK_FAIL | TK_BREAK | TK_NEXT | TK_NOT | TK_PROCEDURE |
    TK_END | TK_GLOBAL | TK_LOCAL | TK_STATIC | TK_RECORD | TK_LINK | TK_INVOCABLE | TK_CASE |
    TK_OF | TK_DEFAULT | TK_CREATE | TK_INITIAL | TK_LPAREN | TK_RPAREN | TK_LBRACE | TK_RBRACE |
    TK_LBRACK | TK_RBRACK | TK_COMMA | TK_SEMICOL | TK_COLON | TK_COLONCOLON | TK_CLASS |
    TK_METHOD | TK_PACKAGE | TK_IMPORT | TK_INITIALLY | TK_ABSTRACT | TK_THREAD | TK_CRITICAL |
    TK_PMATCH | TK_POR | TK_PAND | TK_PASSNM | TK_PIMD | TK_PSETCUR | TK_PUNEVAL | TK_PUNEVAL2 |
    TK_COUNT

text \<open>The number the enumeration gives a kind, and the enumeration itself.\<close>

primrec tk_num :: "tk \<Rightarrow> nat" where
  "tk_num TK_EOF = 0"
| "tk_num TK_ERROR = 1"
| "tk_num TK_INT = 2"
| "tk_num TK_BIGINT = 3"
| "tk_num TK_REAL = 4"
| "tk_num TK_STRING = 5"
| "tk_num TK_CSET = 6"
| "tk_num TK_IDENT = 7"
| "tk_num TK_PLUS = 8"
| "tk_num TK_MINUS = 9"
| "tk_num TK_STAR = 10"
| "tk_num TK_SLASH = 11"
| "tk_num TK_MOD = 12"
| "tk_num TK_CARET = 13"
| "tk_num TK_LT = 14"
| "tk_num TK_LE = 15"
| "tk_num TK_GT = 16"
| "tk_num TK_GE = 17"
| "tk_num TK_EQ = 18"
| "tk_num TK_NEQ = 19"
| "tk_num TK_SLT = 20"
| "tk_num TK_SLE = 21"
| "tk_num TK_SGT = 22"
| "tk_num TK_SGE = 23"
| "tk_num TK_SEQ = 24"
| "tk_num TK_SNE = 25"
| "tk_num TK_CONCAT = 26"
| "tk_num TK_LCONCAT = 27"
| "tk_num TK_ASSIGN = 28"
| "tk_num TK_SWAP = 29"
| "tk_num TK_REVASSIGN = 30"
| "tk_num TK_AUGPLUS = 31"
| "tk_num TK_AUGMINUS = 32"
| "tk_num TK_AUGSTAR = 33"
| "tk_num TK_AUGSLASH = 34"
| "tk_num TK_AUGMOD = 35"
| "tk_num TK_AUGPOW = 36"
| "tk_num TK_AUGCONCAT = 37"
| "tk_num TK_AUGLCONCAT = 38"
| "tk_num TK_AUGAT = 39"
| "tk_num TK_AUGIDENTICAL = 40"
| "tk_num TK_AUGNOTIDENT = 41"
| "tk_num TK_AUGAND = 42"
| "tk_num TK_AUGCSET_UNION = 43"
| "tk_num TK_AUGCSET_DIFF = 44"
| "tk_num TK_AUGCSET_INTER = 45"
| "tk_num TK_AUGSCAN = 46"
| "tk_num TK_AUGEQ = 47"
| "tk_num TK_AUGSEQ = 48"
| "tk_num TK_EQSWAP = 49"
| "tk_num TK_AUGLT = 50"
| "tk_num TK_AUGLE = 51"
| "tk_num TK_AUGGT = 52"
| "tk_num TK_AUGGE = 53"
| "tk_num TK_AUGNE = 54"
| "tk_num TK_AUGSLT = 55"
| "tk_num TK_AUGSLE = 56"
| "tk_num TK_AUGSGT = 57"
| "tk_num TK_AUGSGE = 58"
| "tk_num TK_AUGSNE = 59"
| "tk_num TK_VALSWAP = 60"
| "tk_num TK_IDENTICAL = 61"
| "tk_num TK_NOTIDENT = 62"
| "tk_num TK_PLUSCOLON = 63"
| "tk_num TK_MINUSCOLON = 64"
| "tk_num TK_PLUSPLUS = 65"
| "tk_num TK_MINUSMINUS = 66"
| "tk_num TK_STARSTAR = 67"
| "tk_num TK_AND = 68"
| "tk_num TK_BAR = 69"
| "tk_num TK_BACKSLASH = 70"
| "tk_num TK_BANG = 71"
| "tk_num TK_QMARK = 72"
| "tk_num TK_AT = 73"
| "tk_num TK_TILDE = 74"
| "tk_num TK_DOT = 75"
| "tk_num TK_TO = 76"
| "tk_num TK_BY = 77"
| "tk_num TK_EVERY = 78"
| "tk_num TK_DO = 79"
| "tk_num TK_IF = 80"
| "tk_num TK_THEN = 81"
| "tk_num TK_ELSE = 82"
| "tk_num TK_WHILE = 83"
| "tk_num TK_UNTIL = 84"
| "tk_num TK_REPEAT = 85"
| "tk_num TK_RETURN = 86"
| "tk_num TK_SUSPEND = 87"
| "tk_num TK_FAIL = 88"
| "tk_num TK_BREAK = 89"
| "tk_num TK_NEXT = 90"
| "tk_num TK_NOT = 91"
| "tk_num TK_PROCEDURE = 92"
| "tk_num TK_END = 93"
| "tk_num TK_GLOBAL = 94"
| "tk_num TK_LOCAL = 95"
| "tk_num TK_STATIC = 96"
| "tk_num TK_RECORD = 97"
| "tk_num TK_LINK = 98"
| "tk_num TK_INVOCABLE = 99"
| "tk_num TK_CASE = 100"
| "tk_num TK_OF = 101"
| "tk_num TK_DEFAULT = 102"
| "tk_num TK_CREATE = 103"
| "tk_num TK_INITIAL = 104"
| "tk_num TK_LPAREN = 105"
| "tk_num TK_RPAREN = 106"
| "tk_num TK_LBRACE = 107"
| "tk_num TK_RBRACE = 108"
| "tk_num TK_LBRACK = 109"
| "tk_num TK_RBRACK = 110"
| "tk_num TK_COMMA = 111"
| "tk_num TK_SEMICOL = 112"
| "tk_num TK_COLON = 113"
| "tk_num TK_COLONCOLON = 114"
| "tk_num TK_CLASS = 115"
| "tk_num TK_METHOD = 116"
| "tk_num TK_PACKAGE = 117"
| "tk_num TK_IMPORT = 118"
| "tk_num TK_INITIALLY = 119"
| "tk_num TK_ABSTRACT = 120"
| "tk_num TK_THREAD = 121"
| "tk_num TK_CRITICAL = 122"
| "tk_num TK_PMATCH = 123"
| "tk_num TK_POR = 124"
| "tk_num TK_PAND = 125"
| "tk_num TK_PASSNM = 126"
| "tk_num TK_PIMD = 127"
| "tk_num TK_PSETCUR = 128"
| "tk_num TK_PUNEVAL = 129"
| "tk_num TK_PUNEVAL2 = 130"
| "tk_num TK_COUNT = 131"

definition TK_ALL :: "tk list" where
  "TK_ALL =
    [TK_EOF, TK_ERROR, TK_INT, TK_BIGINT, TK_REAL, TK_STRING, TK_CSET, TK_IDENT, TK_PLUS,
     TK_MINUS, TK_STAR, TK_SLASH, TK_MOD, TK_CARET, TK_LT, TK_LE, TK_GT, TK_GE, TK_EQ, TK_NEQ,
     TK_SLT, TK_SLE, TK_SGT, TK_SGE, TK_SEQ, TK_SNE, TK_CONCAT, TK_LCONCAT, TK_ASSIGN, TK_SWAP,
     TK_REVASSIGN, TK_AUGPLUS, TK_AUGMINUS, TK_AUGSTAR, TK_AUGSLASH, TK_AUGMOD, TK_AUGPOW,
     TK_AUGCONCAT, TK_AUGLCONCAT, TK_AUGAT, TK_AUGIDENTICAL, TK_AUGNOTIDENT, TK_AUGAND,
     TK_AUGCSET_UNION, TK_AUGCSET_DIFF, TK_AUGCSET_INTER, TK_AUGSCAN, TK_AUGEQ, TK_AUGSEQ,
     TK_EQSWAP, TK_AUGLT, TK_AUGLE, TK_AUGGT, TK_AUGGE, TK_AUGNE, TK_AUGSLT, TK_AUGSLE,
     TK_AUGSGT, TK_AUGSGE, TK_AUGSNE, TK_VALSWAP, TK_IDENTICAL, TK_NOTIDENT, TK_PLUSCOLON,
     TK_MINUSCOLON, TK_PLUSPLUS, TK_MINUSMINUS, TK_STARSTAR, TK_AND, TK_BAR, TK_BACKSLASH,
     TK_BANG, TK_QMARK, TK_AT, TK_TILDE, TK_DOT, TK_TO, TK_BY, TK_EVERY, TK_DO, TK_IF, TK_THEN,
     TK_ELSE, TK_WHILE, TK_UNTIL, TK_REPEAT, TK_RETURN, TK_SUSPEND, TK_FAIL, TK_BREAK, TK_NEXT,
     TK_NOT, TK_PROCEDURE, TK_END, TK_GLOBAL, TK_LOCAL, TK_STATIC, TK_RECORD, TK_LINK,
     TK_INVOCABLE, TK_CASE, TK_OF, TK_DEFAULT, TK_CREATE, TK_INITIAL, TK_LPAREN, TK_RPAREN,
     TK_LBRACE, TK_RBRACE, TK_LBRACK, TK_RBRACK, TK_COMMA, TK_SEMICOL, TK_COLON, TK_COLONCOLON,
     TK_CLASS, TK_METHOD, TK_PACKAGE, TK_IMPORT, TK_INITIALLY, TK_ABSTRACT, TK_THREAD,
     TK_CRITICAL, TK_PMATCH, TK_POR, TK_PAND, TK_PASSNM, TK_PIMD, TK_PSETCUR, TK_PUNEVAL,
     TK_PUNEVAL2, TK_COUNT]"

lemma TK_ALL_num: "TK_ALL ! tk_num k = k"
  by (cases k) (simp_all add: TK_ALL_def)

lemma tk_num_inject: "tk_num a = tk_num b \<longleftrightarrow> a = b"
  by (metis TK_ALL_num)

text \<open>Kinds are compared by their numbers, as the code does.\<close>

instantiation tk :: equal
begin

definition equal_tk :: "tk \<Rightarrow> tk \<Rightarrow> bool" where
  "equal_tk a b \<longleftrightarrow> tk_num a = tk_num b"

instance
  by standard (simp add: equal_tk_def tk_num_inject)

end

instantiation tk :: linorder
begin

definition less_eq_tk :: "tk \<Rightarrow> tk \<Rightarrow> bool" where
  "less_eq_tk a b \<longleftrightarrow> tk_num a \<le> tk_num b"

definition less_tk :: "tk \<Rightarrow> tk \<Rightarrow> bool" where
  "less_tk a b \<longleftrightarrow> tk_num a < tk_num b"

instance
  by standard (auto simp: less_eq_tk_def less_tk_def tk_num_inject)

end

text \<open>\<open>p->cur.kind >= TK_CLASS && p->cur.kind <= TK_CRITICAL\<close>: the words Unicon adds.\<close>

definition unicon_word :: "tk \<Rightarrow> bool" where
  "unicon_word k \<longleftrightarrow> TK_CLASS \<le> k \<and> k \<le> TK_CRITICAL"

section \<open>Spellings\<close>

primrec icn_tk_name :: "tk \<Rightarrow> string" where
  "icn_tk_name TK_EOF = ''EOF''"
| "icn_tk_name TK_ERROR = ''ERROR''"
| "icn_tk_name TK_INT = ''INT''"
| "icn_tk_name TK_BIGINT = ''BIGINT''"
| "icn_tk_name TK_REAL = ''REAL''"
| "icn_tk_name TK_STRING = ''STRING''"
| "icn_tk_name TK_CSET = ''CSET''"
| "icn_tk_name TK_IDENT = ''IDENT''"
| "icn_tk_name TK_PLUS = ''+''"
| "icn_tk_name TK_MINUS = ''-''"
| "icn_tk_name TK_STAR = ''*''"
| "icn_tk_name TK_SLASH = ''/''"
| "icn_tk_name TK_MOD = ''%''"
| "icn_tk_name TK_CARET = ''^''"
| "icn_tk_name TK_LT = ''<''"
| "icn_tk_name TK_LE = ''<=''"
| "icn_tk_name TK_GT = ''>''"
| "icn_tk_name TK_GE = ''>=''"
| "icn_tk_name TK_EQ = ''=''"
| "icn_tk_name TK_NEQ = ''~=''"
| "icn_tk_name TK_SLT = ''<<''"
| "icn_tk_name TK_SLE = ''<<=''"
| "icn_tk_name TK_SGT = ''>>''"
| "icn_tk_name TK_SGE = ''>>=''"
| "icn_tk_name TK_SEQ = ''==''"
| "icn_tk_name TK_SNE = ''~==''"
| "icn_tk_name TK_CONCAT = ''||''"
| "icn_tk_name TK_LCONCAT = ''|||''"
| "icn_tk_name TK_ASSIGN = '':=''"
| "icn_tk_name TK_SWAP = '':=:''"
| "icn_tk_name TK_REVASSIGN = ''<-''"
| "icn_tk_name TK_AUGPLUS = ''+:=''"
| "icn_tk_name TK_AUGMINUS = ''-:=''"
| "icn_tk_name TK_AUGSTAR = ''*:=''"
| "icn_tk_name TK_AUGSLASH = ''/:=''"
| "icn_tk_name TK_AUGMOD = ''%:=''"
| "icn_tk_name TK_AUGPOW = ''^:=''"
| "icn_tk_name TK_AUGCONCAT = ''||:=''"
| "icn_tk_name TK_AUGLCONCAT = ''|||:=''"
| "icn_tk_name TK_AUGAT = ''@:=''"
| "icn_tk_name TK_AUGIDENTICAL = ''===:=''"
| "icn_tk_name TK_AUGNOTIDENT = ''~===:=''"
| "icn_tk_name TK_AUGAND = ''&:=''"
| "icn_tk_name TK_AUGCSET_UNION = ''++:=''"
| "icn_tk_name TK_AUGCSET_DIFF = ''--:=''"
| "icn_tk_name TK_AUGCSET_INTER = ''**:=''"
| "icn_tk_name TK_AUGSCAN = ''?:=''"
| "icn_tk_name TK_AUGEQ = ''=:=''"
| "icn_tk_name TK_AUGSEQ = ''==:=''"
| "icn_tk_name TK_EQSWAP = ''???''"
| "icn_tk_name TK_AUGLT = ''<:=''"
| "icn_tk_name TK_AUGLE = ''<=:=''"
| "icn_tk_name TK_AUGGT = ''>:=''"
| "icn_tk_name TK_AUGGE = ''>=:=''"
| "icn_tk_name TK_AUGNE = ''~=:=''"
| "icn_tk_name TK_AUGSLT = ''<<:=''"
| "icn_tk_name TK_AUGSLE = ''<<=:=''"
| "icn_tk_name TK_AUGSGT = ''>>:=''"
| "icn_tk_name TK_AUGSGE = ''>>=:=''"
| "icn_tk_name TK_AUGSNE = ''~==:=''"
| "icn_tk_name TK_VALSWAP = ''<->''"
| "icn_tk_name TK_IDENTICAL = ''===''"
| "icn_tk_name TK_NOTIDENT = ''~===''"
| "icn_tk_name TK_PLUSCOLON = ''+:''"
| "icn_tk_name TK_MINUSCOLON = ''-:''"
| "icn_tk_name TK_PLUSPLUS = ''++''"
| "icn_tk_name TK_MINUSMINUS = ''--''"
| "icn_tk_name TK_STARSTAR = ''**''"
| "icn_tk_name TK_AND = ''&''"
| "icn_tk_name TK_BAR = ''|''"
| "icn_tk_name TK_BACKSLASH = [CHR 0x5C]"
| "icn_tk_name TK_BANG = ''!''"
| "icn_tk_name TK_QMARK = ''?''"
| "icn_tk_name TK_AT = ''@''"
| "icn_tk_name TK_TILDE = ''~''"
| "icn_tk_name TK_DOT = ''.''"
| "icn_tk_name TK_TO = ''to''"
| "icn_tk_name TK_BY = ''by''"
| "icn_tk_name TK_EVERY = ''every''"
| "icn_tk_name TK_DO = ''do''"
| "icn_tk_name TK_IF = ''if''"
| "icn_tk_name TK_THEN = ''then''"
| "icn_tk_name TK_ELSE = ''else''"
| "icn_tk_name TK_WHILE = ''while''"
| "icn_tk_name TK_UNTIL = ''until''"
| "icn_tk_name TK_REPEAT = ''repeat''"
| "icn_tk_name TK_RETURN = ''return''"
| "icn_tk_name TK_SUSPEND = ''suspend''"
| "icn_tk_name TK_FAIL = ''fail''"
| "icn_tk_name TK_BREAK = ''break''"
| "icn_tk_name TK_NEXT = ''next''"
| "icn_tk_name TK_NOT = ''not''"
| "icn_tk_name TK_PROCEDURE = ''procedure''"
| "icn_tk_name TK_END = ''end''"
| "icn_tk_name TK_GLOBAL = ''global''"
| "icn_tk_name TK_LOCAL = ''local''"
| "icn_tk_name TK_STATIC = ''static''"
| "icn_tk_name TK_RECORD = ''record''"
| "icn_tk_name TK_LINK = ''link''"
| "icn_tk_name TK_INVOCABLE = ''invocable''"
| "icn_tk_name TK_CASE = ''case''"
| "icn_tk_name TK_OF = ''of''"
| "icn_tk_name TK_DEFAULT = ''default''"
| "icn_tk_name TK_CREATE = ''create''"
| "icn_tk_name TK_INITIAL = ''initial''"
| "icn_tk_name TK_LPAREN = ''(''"
| "icn_tk_name TK_RPAREN = '')''"
| "icn_tk_name TK_LBRACE = ''{''"
| "icn_tk_name TK_RBRACE = ''}''"
| "icn_tk_name TK_LBRACK = ''[''"
| "icn_tk_name TK_RBRACK = '']''"
| "icn_tk_name TK_COMMA = '',''"
| "icn_tk_name TK_SEMICOL = '';''"
| "icn_tk_name TK_COLON = '':''"
| "icn_tk_name TK_COLONCOLON = ''::''"
| "icn_tk_name TK_CLASS = ''class''"
| "icn_tk_name TK_METHOD = ''method''"
| "icn_tk_name TK_PACKAGE = ''package''"
| "icn_tk_name TK_IMPORT = ''import''"
| "icn_tk_name TK_INITIALLY = ''initially''"
| "icn_tk_name TK_ABSTRACT = ''abstract''"
| "icn_tk_name TK_THREAD = ''thread''"
| "icn_tk_name TK_CRITICAL = ''critical''"
| "icn_tk_name TK_PMATCH = ''??''"
| "icn_tk_name TK_POR = ''.|''"
| "icn_tk_name TK_PAND = ''&&''"
| "icn_tk_name TK_PASSNM = ''->''"
| "icn_tk_name TK_PIMD = ''=>''"
| "icn_tk_name TK_PSETCUR = ''.>''"
| "icn_tk_name TK_PUNEVAL = [CHR 0x60]"
| "icn_tk_name TK_PUNEVAL2 = [CHR 0x60, CHR 0x60]"
| "icn_tk_name TK_COUNT = ''???''"

definition kw_table :: "(string \<times> tk) list" where
  "kw_table =
    [(''to'', TK_TO), (''by'', TK_BY), (''every'', TK_EVERY),
     (''do'', TK_DO), (''if'', TK_IF), (''then'', TK_THEN),
     (''else'', TK_ELSE), (''while'', TK_WHILE), (''until'', TK_UNTIL),
     (''repeat'', TK_REPEAT), (''return'', TK_RETURN), (''suspend'', TK_SUSPEND),
     (''fail'', TK_FAIL), (''break'', TK_BREAK), (''next'', TK_NEXT),
     (''not'', TK_NOT), (''procedure'', TK_PROCEDURE), (''end'', TK_END),
     (''global'', TK_GLOBAL), (''local'', TK_LOCAL), (''static'', TK_STATIC),
     (''record'', TK_RECORD), (''link'', TK_LINK), (''invocable'', TK_INVOCABLE),
     (''case'', TK_CASE), (''of'', TK_OF), (''default'', TK_DEFAULT),
     (''create'', TK_CREATE), (''initial'', TK_INITIAL)]"

definition unicon_kw_table :: "(string \<times> tk) list" where
  "unicon_kw_table =
    [(''class'', TK_CLASS), (''method'', TK_METHOD), (''package'', TK_PACKAGE),
     (''import'', TK_IMPORT), (''initially'', TK_INITIALLY), (''abstract'', TK_ABSTRACT),
     (''thread'', TK_THREAD), (''critical'', TK_CRITICAL)]"

definition lookup_keyword :: "string \<Rightarrow> bool \<Rightarrow> tk" where
  "lookup_keyword word unicon =
     (case map_of kw_table word of
        Some k \<Rightarrow> k
      | None \<Rightarrow>
          if unicon then (case map_of unicon_kw_table word of Some k \<Rightarrow> k | None \<Rightarrow> TK_IDENT)
          else TK_IDENT)"

section \<open>Tokens\<close>

text \<open>
  The union \<open>IcnTkVal\<close>. A real literal keeps the text the code hands to \<open>strtod\<close>; a text keeps its
  characters, its length being theirs.
\<close>

datatype icn_val = V_none | V_ival int | V_fval string | V_sval string

record icn_token =
  t_kind :: tk
  t_val :: icn_val
  t_line :: int
  t_col :: int

fun sval_of :: "icn_val \<Rightarrow> string" where
  "sval_of (V_sval s) = s"
| "sval_of v = []"

definition make_tok :: "tk \<Rightarrow> int \<Rightarrow> int \<Rightarrow> icn_token" where
  "make_tok k line col = \<lparr>t_kind = k, t_val = V_none, t_line = line, t_col = col\<rparr>"

definition val_tok :: "tk \<Rightarrow> icn_val \<Rightarrow> int \<Rightarrow> int \<Rightarrow> icn_token" where
  "val_tok k v line col = (make_tok k line col)\<lparr>t_val := v\<rparr>"

lemma tok_simps [simp]:
  "t_kind (make_tok k line col) = k" "t_line (make_tok k line col) = line"
  "t_col (make_tok k line col) = col" "t_val (make_tok k line col) = V_none"
  "t_kind (val_tok k v line col) = k" "t_val (val_tok k v line col) = v"
  "t_line (val_tok k v line col) = line" "t_col (val_tok k v line col) = col"
  by (simp_all add: make_tok_def val_tok_def)

end
