(* ===== verification/Icon_Lex.thy ===== *)
theory Icon_Lex
  imports Icon_Tok "HOL-Library.Sublist"
begin

text \<open>
  The Icon lexer (\<open>src/parsers/icon/icon_lex.c\<close> without its preprocessor). The lexer pulls lines
  from the preprocessor as it needs them; the model has the whole preprocessed text: \<open>il_src\<close> is
  the text from \<open>pos\<close> on, and every look-ahead of the code first pulls as much as it looks at.
\<close>

section \<open>State\<close>

text \<open>
  \<open>il_trap\<close> is set where the code divides by zero: the process is killed there, and nothing the
  model does afterwards speaks about the code.
\<close>

record icn_lexer =
  il_src :: string
  il_line :: int
  il_col :: int
  il_error :: bool
  il_msg :: string
  il_unicon :: bool
  il_trap :: bool

definition lex_cur :: "icn_lexer \<Rightarrow> char" where
  "lex_cur lx = pk 0 (il_src lx)"

definition lex_peek1 :: "icn_lexer \<Rightarrow> char" where
  "lex_peek1 lx = pk 1 (il_src lx)"

definition lex_advance :: "icn_lexer \<Rightarrow> char \<times> icn_lexer" where
  "lex_advance lx =
     (case il_src lx of
        [] \<Rightarrow> (CHR 0x00, lx)
      | c # r \<Rightarrow>
          (c, if c = CHR 0x0A then lx\<lparr>il_src := r, il_line := il_line lx + 1, il_col := 1\<rparr>
              else lx\<lparr>il_src := r, il_col := il_col lx + 1\<rparr>))"

abbreviation lex_adv :: "icn_lexer \<Rightarrow> icn_lexer" where
  "lex_adv lx \<equiv> snd (lex_advance lx)"

text \<open>\<open>while (P(lex_cur(lx))) buf_push(lex_advance(lx))\<close>, for a \<open>P\<close> that does not hold of the NUL.\<close>

function lex_while :: "(char \<Rightarrow> bool) \<Rightarrow> icn_lexer \<Rightarrow> string \<times> icn_lexer" where
  "lex_while P lx =
     (if lex_cur lx \<noteq> CHR 0x00 \<and> P (lex_cur lx)
      then let (c, lx) = lex_advance lx; (s, lx) = lex_while P lx in (c # s, lx)
      else ([], lx))"
  by pat_completeness auto

termination
  by (relation "measure (\<lambda>(P, lx). length (il_src lx))")
    (auto simp: lex_cur_def lex_advance_def split: list.splits if_splits)

declare lex_while.simps [simp del]

abbreviation lex_over :: "(char \<Rightarrow> bool) \<Rightarrow> icn_lexer \<Rightarrow> icn_lexer" where
  "lex_over P lx \<equiv> snd (lex_while P lx)"

definition make_error :: "icn_lexer \<Rightarrow> string \<Rightarrow> icn_token \<times> icn_lexer" where
  "make_error lx msg =
     (make_tok TK_ERROR (il_line lx) (il_col lx),
      lx\<lparr>il_msg := take 255 (''line '' @ fmt_int (il_line lx) @ '' col '' @ fmt_int (il_col lx) @ '': '' @ msg),
         il_error := True\<rparr>)"

section \<open>White space\<close>

definition not_eol :: "char \<Rightarrow> bool" where
  "not_eol c \<longleftrightarrow> c \<noteq> CHR 0x0A"

definition is_blank_tab :: "char \<Rightarrow> bool" where
  "is_blank_tab c \<longleftrightarrow> c = CHR '' '' \<or> c = CHR 0x09"

fun dec_val :: "nat \<Rightarrow> string \<Rightarrow> nat" where
  "dec_val v [] = v"
| "dec_val v (c # s) = dec_val (10 * v + (of_char c - 48)) s"

text \<open>\<open>#line\<close> directives, which the preprocessor leaves in the text, set the line number.\<close>

definition hash_line :: "icn_lexer \<Rightarrow> icn_lexer" where
  "hash_line lx =
     (if il_col lx = 1 \<and> take 5 (il_src lx) = ''#line''
      then let q = dropWhile is_blank_tab (drop 5 (il_src lx))
           in if c_isdigit (pk 0 q)
              then lx\<lparr>il_line := sint (word_of_nat (dec_val 0 (takeWhile c_isdigit q)) :: 32 word)\<rparr>
              else lx
      else lx)"

lemma lex_advance_simps [simp]:
  "fst (lex_advance lx) = lex_cur lx"
  "il_src (lex_adv lx) = drop 1 (il_src lx)"
  "il_error (lex_adv lx) = il_error lx" "il_msg (lex_adv lx) = il_msg lx"
  "il_unicon (lex_adv lx) = il_unicon lx" "il_trap (lex_adv lx) = il_trap lx"
  by (simp_all add: lex_advance_def lex_cur_def split: list.split)

lemma lex_while_src:
  "il_src (lex_over P lx) = dropWhile (\<lambda>c. c \<noteq> CHR 0x00 \<and> P c) (il_src lx)
   \<and> fst (lex_while P lx) = takeWhile (\<lambda>c. c \<noteq> CHR 0x00 \<and> P c) (il_src lx)
   \<and> il_error (lex_over P lx) = il_error lx \<and> il_msg (lex_over P lx) = il_msg lx
   \<and> il_unicon (lex_over P lx) = il_unicon lx \<and> il_trap (lex_over P lx) = il_trap lx"
proof (induction P lx rule: lex_while.induct)
  case (1 P lx)
  obtain c lx' where a: "lex_advance lx = (c, lx')" by (cases "lex_advance lx")
  have c: "c = lex_cur lx" "il_src lx' = drop 1 (il_src lx)" "il_error lx' = il_error lx"
    "il_msg lx' = il_msg lx" "il_unicon lx' = il_unicon lx" "il_trap lx' = il_trap lx"
    using lex_advance_simps [of lx] a by simp_all
  show ?case
  proof (cases "lex_cur lx \<noteq> CHR 0x00 \<and> P (lex_cur lx)")
    case True
    then show ?thesis
      using 1 [OF True a [symmetric] refl] c a
      by (subst (1 2 3 4 5 6) lex_while.simps)
        (cases "il_src lx", auto simp: lex_cur_def case_prod_beta)
  next
    case False
    then show ?thesis
      by (subst (1 2 3 4 5 6) lex_while.simps)
        (cases "il_src lx", auto simp: lex_cur_def)
  qed
qed

lemma lex_over_simps [simp]:
  "il_src (lex_over P lx) = dropWhile (\<lambda>c. c \<noteq> CHR 0x00 \<and> P c) (il_src lx)"
  "il_error (lex_over P lx) = il_error lx" "il_msg (lex_over P lx) = il_msg lx"
  "il_unicon (lex_over P lx) = il_unicon lx" "il_trap (lex_over P lx) = il_trap lx"
  "fst (lex_while P lx) = takeWhile (\<lambda>c. c \<noteq> CHR 0x00 \<and> P c) (il_src lx)"
  using lex_while_src [of P lx] by simp_all

lemma hash_line_simps [simp]:
  "il_src (hash_line lx) = il_src lx" "il_col (hash_line lx) = il_col lx"
  "il_error (hash_line lx) = il_error lx" "il_msg (hash_line lx) = il_msg lx"
  "il_unicon (hash_line lx) = il_unicon lx" "il_trap (hash_line lx) = il_trap lx"
  by (simp_all add: hash_line_def Let_def)

lemma dropWhile_less: "p \<noteq> [] \<Longrightarrow> Q (hd p) \<Longrightarrow> length (dropWhile Q p) < length p"
  by (cases p) (auto simp: le_imp_less_Suc length_dropWhile_le)

lemma dropWhile_src: "pk 0 p = c \<Longrightarrow> c \<noteq> CHR 0x00 \<Longrightarrow> Q c \<Longrightarrow> length (dropWhile Q p) < length p"
  by (cases p) (auto simp: le_imp_less_Suc length_dropWhile_le)

lemma skip_shrinks:
  assumes "lex_cur lx = c" "c \<noteq> CHR 0x00" "Q c" "length (il_src lx) \<le> n"
  shows "length (dropWhile (\<lambda>c. c \<noteq> CHR 0x00 \<and> Q c) (il_src lx)) < n"
  using dropWhile_src [of "il_src lx" c "\<lambda>c. c \<noteq> CHR 0x00 \<and> Q c"] assms
  by (auto simp: lex_cur_def)

text \<open>
  \<open>skip_ws\<close>: white space, comments, directives the preprocessor has left, and the lines that
  start with \<open>-IMPORT\<close> or \<open>-EXPORT\<close>. Looking past a minus puts back the position and not the
  column, as the code does.
\<close>

function skip_ws :: "icn_lexer \<Rightarrow> icn_lexer" where
  "skip_ws lx0 =
     (let lx = lex_over c_isspace lx0; c = lex_cur lx
      in if c = CHR ''#'' then skip_ws (lex_over not_eol (hash_line lx))
         else if c = CHR ''$'' then
           (let nx = lex_peek1 lx
            in if nx = CHR ''('' \<or> nx = CHR '')'' \<or> nx = CHR ''<'' \<or> nx = CHR ''>'' then lx
               else skip_ws (lex_over not_eol lx))
         else if c = CHR ''-'' then
           (let r = lex_over is_blank_tab (lex_adv lx)
            in if take 6 (il_src r) = ''IMPORT'' \<or> take 6 (il_src r) = ''EXPORT''
               then skip_ws (lex_over not_eol r)
               else r\<lparr>il_src := il_src lx\<rparr>)
         else lx)"
  by pat_completeness auto

termination
proof (relation "measure (\<lambda>lx. length (il_src lx))", goal_cases)
  case (2 lx0 lx c)
  have "length (il_src lx) \<le> length (il_src lx0)" unfolding 2(1) by (simp add: length_dropWhile_le)
  moreover have "lex_cur lx = CHR ''#''" using 2(2,3) by simp
  ultimately show ?case using skip_shrinks [of lx _ not_eol] by (simp add: not_eol_def)
next
  case (3 lx0 lx c nx)
  have "length (il_src lx) \<le> length (il_src lx0)" unfolding 3(1) by (simp add: length_dropWhile_le)
  moreover have "lex_cur lx = CHR ''$''" using 3(2,4) by simp
  ultimately show ?case using skip_shrinks [of lx _ not_eol] by (simp add: not_eol_def)
next
  case (4 lx0 lx c r)
  have "length (il_src lx) \<le> length (il_src lx0)" unfolding 4(1) by (simp add: length_dropWhile_le)
  moreover have "il_src lx \<noteq> []" using 4(2,5) by (auto simp: lex_cur_def)
  moreover have "length (dropWhile P (dropWhile Q (drop 1 (il_src lx)))) \<le> length (il_src lx) - 1" for P Q
    using length_dropWhile_le [of P "dropWhile Q (drop 1 (il_src lx))"] length_dropWhile_le [of Q "drop 1 (il_src lx)"]
    by simp
  then have "length (il_src (lex_over not_eol r)) \<le> length (il_src lx) - 1" unfolding 4(6) by simp
  ultimately show ?case by (cases "il_src lx") simp_all
qed simp

declare skip_ws.simps [simp del]

section \<open>Literals\<close>

definition icn_esc_simple :: "char \<Rightarrow> char" where
  "icn_esc_simple esc =
     (if esc = CHR ''b'' \<or> esc = CHR ''B'' then CHR 0x08
      else if esc = CHR ''d'' \<or> esc = CHR ''D'' then CHR 0x7F
      else if esc = CHR ''e'' \<or> esc = CHR ''E'' then CHR 0x1B
      else if esc = CHR ''f'' \<or> esc = CHR ''F'' then CHR 0x0C
      else if esc = CHR ''l'' \<or> esc = CHR ''L'' then CHR 0x0A
      else if esc = CHR ''n'' \<or> esc = CHR ''N'' then CHR 0x0A
      else if esc = CHR ''r'' \<or> esc = CHR ''R'' then CHR 0x0D
      else if esc = CHR ''t'' \<or> esc = CHR ''T'' then CHR 0x09
      else if esc = CHR ''v'' \<or> esc = CHR ''V'' then CHR 0x0B
      else if esc = CHR ''8'' then CHR 0x08
      else if esc = CHR ''9'' then CHR 0x09
      else esc)"

definition xdigit_val :: "char \<Rightarrow> nat" where
  "xdigit_val h =
     (if c_isdigit h then of_char h - 48
      else if c_isupper h then of_char h - 65 + 10
      else of_char h - 97 + 10)"

definition is_octal :: "char \<Rightarrow> bool" where
  "is_octal c \<longleftrightarrow> CHR ''0'' \<le> c \<and> c \<le> CHR ''7''"

text \<open>At most \<open>n\<close> digits of an escape.\<close>

fun lex_digits :: "nat \<Rightarrow> nat \<Rightarrow> (char \<Rightarrow> bool) \<Rightarrow> nat \<Rightarrow> icn_lexer \<Rightarrow> nat \<times> icn_lexer" where
  "lex_digits 0 base P v lx = (v, lx)"
| "lex_digits (Suc n) base P v lx =
     (if P (lex_cur lx)
      then lex_digits n base P (v * base + xdigit_val (lex_cur lx)) (lex_adv lx)
      else (v, lx))"

text \<open>\<open>switch (esc)\<close> of both literal scanners; the pushed character is a byte.\<close>

definition lex_escape :: "char \<Rightarrow> icn_lexer \<Rightarrow> char \<times> icn_lexer" where
  "lex_escape esc lx =
     (if esc = CHR ''x'' then
        (let (v, lx) = lex_digits 2 16 c_isxdigit 0 lx in (char_of v, lx))
      else if esc = CHR ''^'' then
        (let cc = lex_cur lx in (char_of ((of_char cc :: nat) AND 0x1F), lex_adv lx))
      else if is_octal esc then
        (let (v, lx) = lex_digits 2 8 is_octal (of_char esc - 48) lx in (char_of v, lx))
      else (icn_esc_simple esc, lx))"

lemma lex_digits_src:
  "suffix (il_src (snd (lex_digits n b P v lx))) (il_src lx)
   \<and> il_error (snd (lex_digits n b P v lx)) = il_error lx \<and> il_msg (snd (lex_digits n b P v lx)) = il_msg lx
   \<and> il_unicon (snd (lex_digits n b P v lx)) = il_unicon lx \<and> il_trap (snd (lex_digits n b P v lx)) = il_trap lx"
proof (induction n b P v lx rule: lex_digits.induct)
  case (2 n b P v lx)
  then show ?case using suffix_drop [of 1 "il_src lx"] by (auto intro: suffix_order.trans)
qed simp

lemma lex_escape_src:
  "suffix (il_src (snd (lex_escape e lx))) (il_src lx)
   \<and> il_error (snd (lex_escape e lx)) = il_error lx \<and> il_msg (snd (lex_escape e lx)) = il_msg lx
   \<and> il_unicon (snd (lex_escape e lx)) = il_unicon lx \<and> il_trap (snd (lex_escape e lx)) = il_trap lx"
  using lex_digits_src suffix_drop [of 1 "il_src lx"] by (auto simp: lex_escape_def case_prod_beta Let_def)

lemma adv_less: "lex_cur lx \<noteq> CHR 0x00 \<Longrightarrow> length (il_src (lex_adv lx)) < length (il_src lx)"
  by (cases "il_src lx") (auto simp: lex_cur_def)

lemma dropWhile_drop_le: "length (dropWhile P (drop n p)) \<le> length p"
  using length_dropWhile_le [of P "drop n p"] by simp

lemma suffix_less: "suffix p q \<Longrightarrow> length q < n \<Longrightarrow> length p < n"
  using suffix_length_le by fastforce

text \<open>The body of a string, up to the closing quote or the end; \<open>buf\<close> is what has been pushed.\<close>

function str_body :: "icn_lexer \<Rightarrow> string \<Rightarrow> string \<times> icn_lexer" where
  "str_body lx buf =
     (if lex_cur lx \<noteq> CHR 0x00 \<and> lex_cur lx \<noteq> CHR 0x22
      then let (c, lx1) = lex_advance lx
           in if c = CHR 0x5C
              then let (esc, lx2) = lex_advance lx1; (ch, lx3) = lex_escape esc lx2
                   in str_body lx3 (buf @ [ch])
              else if c = CHR ''_'' \<and> (lex_cur lx1 = CHR 0x0A
                       \<or> (lex_cur lx1 = CHR 0x0D \<and> lex_peek1 lx1 = CHR 0x0A))
              then let lx2 = (if lex_cur lx1 = CHR 0x0D then lex_adv lx1 else lx1)
                   in str_body (lex_over is_blank_tab (lex_adv lx2)) buf
              else str_body lx1 (buf @ [c])
      else (buf, lx))"
  by pat_completeness auto

termination
proof (relation "measure (\<lambda>(lx, buf). length (il_src lx))", goal_cases)
  case (2 lx buf x c lx1 y esc lx2 z ch lx3)
  then have "lx1 = lex_adv lx" "lx2 = lex_adv lx1" "lx3 = snd (lex_escape esc lx2)"
    by (metis snd_conv)+
  then show ?case
    using adv_less [of lx] 2(1) suffix_less [OF conjunct1 [OF lex_escape_src]]
      suffix_less [OF suffix_drop, of "il_src lx1" _ 1] by simp
next
  case (3 lx buf x c lx1 lx2)
  then have "lx1 = lex_adv lx" by (metis snd_conv)
  moreover have "length (il_src (lex_over is_blank_tab (lex_adv lx2))) \<le> length (il_src lx1)"
    using 3 by (auto intro: dropWhile_drop_le split: if_splits)
  ultimately show ?case using adv_less [of lx] 3(1) by simp
next
  case (4 lx buf x c lx1)
  then show ?case using adv_less [of lx] by (metis snd_conv in_measure prod.case)
qed simp

declare str_body.simps [simp del]

definition scan_string :: "icn_lexer \<Rightarrow> icn_token \<times> icn_lexer" where
  "scan_string lx0 =
     (let line = il_line lx0; col = il_col lx0; (buf, lx) = str_body (lex_adv lx0) []
      in if lex_cur lx = CHR 0x00 then make_error lx ''unterminated string literal''
         else (val_tok TK_STRING (V_sval buf) line col, lex_adv lx))"

text \<open>A character set; an escape needs a character after the backslash here.\<close>

function cset_body :: "icn_lexer \<Rightarrow> string \<Rightarrow> string \<times> icn_lexer" where
  "cset_body lx buf =
     (if lex_cur lx \<noteq> CHR 0x00 \<and> lex_cur lx \<noteq> CHR 0x27
      then let (c, lx1) = lex_advance lx
           in if c = CHR 0x5C \<and> lex_cur lx1 \<noteq> CHR 0x00
              then let (esc, lx2) = lex_advance lx1; (ch, lx3) = lex_escape esc lx2
                   in cset_body lx3 (buf @ [ch])
              else cset_body lx1 (buf @ [c])
      else (buf, lx))"
  by pat_completeness auto

termination
proof (relation "measure (\<lambda>(lx, buf). length (il_src lx))", goal_cases)
  case (2 lx buf x c lx1 y esc lx2 z ch lx3)
  then have "lx1 = lex_adv lx" "lx2 = lex_adv lx1" "lx3 = snd (lex_escape esc lx2)"
    by (metis snd_conv)+
  then show ?case
    using adv_less [of lx] 2(1) suffix_less [OF conjunct1 [OF lex_escape_src]]
      suffix_less [OF suffix_drop, of "il_src lx1" _ 1] by simp
next
  case (3 lx buf x c lx1)
  then show ?case using adv_less [of lx] by (metis snd_conv in_measure prod.case)
qed simp

declare cset_body.simps [simp del]

definition scan_cset :: "icn_lexer \<Rightarrow> icn_token \<times> icn_lexer" where
  "scan_cset lx0 =
     (let line = il_line lx0; col = il_col lx0; (buf, lx) = cset_body (lex_adv lx0) []
      in if lex_cur lx = CHR 0x00 then make_error lx ''unterminated cset literal''
         else (val_tok TK_CSET (V_sval buf) line col, lex_adv lx))"

section \<open>Numbers and names\<close>

definition LONG_MAX :: nat where "LONG_MAX = 9223372036854775807"

text \<open>The value of digits in a base, and \<open>strtol\<close> on digits alone: it stops at \<open>LONG_MAX\<close>.\<close>

fun base_val :: "nat \<Rightarrow> nat \<Rightarrow> string \<Rightarrow> nat" where
  "base_val b v [] = v"
| "base_val b v (c # s) = base_val b (v * b + xdigit_val c) s"

definition strtol :: "nat \<Rightarrow> string \<Rightarrow> nat" where
  "strtol b s = min LONG_MAX (base_val b 0 s)"

text \<open>The value of a digit of a radix literal, which is not checked against the radix.\<close>

definition radix_digit :: "char \<Rightarrow> nat" where
  "radix_digit c =
     (if c_isdigit c then of_char c - 48
      else if c_islower c then of_char c - 97 + 10
      else of_char c - 65 + 10)"

text \<open>The loop over the digits: \<open>val\<close> is an \<open>unsigned long long\<close>.\<close>

fun radix_loop :: "nat \<Rightarrow> string \<Rightarrow> nat \<Rightarrow> bool \<Rightarrow> nat \<times> bool" where
  "radix_loop r [] val big = (val, big)"
| "radix_loop r (c # s) val big =
     (let d = radix_digit c;
          big = (big \<or> val > (LONG_MAX - d) div r)
      in radix_loop r s ((val * r + d) mod 2 ^ 64) big)"

definition scan_number :: "icn_lexer \<Rightarrow> icn_token \<times> icn_lexer" where
  "scan_number lx0 =
     (let line = il_line lx0; col = il_col lx0
      in if lex_cur lx0 = CHR ''0'' \<and> (lex_peek1 lx0 = CHR ''x'' \<or> lex_peek1 lx0 = CHR ''X'')
         then let (hs, lx) = lex_while c_isxdigit (lex_adv (lex_adv lx0))
              in (val_tok TK_INT (V_ival (int (strtol 16 hs))) line col, lx)
         else let (ds, lx) = lex_while c_isdigit lx0
              in if lex_cur lx = CHR ''r'' \<or> lex_cur lx = CHR ''R''
                 then let radix = (word_of_nat (strtol 10 ds) :: 32 word);
                          (as, lx) = lex_while c_isalnum (lex_adv lx);
                          (val, big) = radix_loop (unat radix) as 0 False
                      in if unat radix = 0 \<and> as \<noteq> []
                         then (make_tok TK_ERROR line col, lx\<lparr>il_trap := True\<rparr>)
                         else if big
                         then (val_tok TK_BIGINT (V_sval (fmt_int (sint radix) @ ''r'' @ as)) line col, lx)
                         else (val_tok TK_INT (V_ival (sint (word_of_nat val :: 64 word))) line col, lx)
                 else let (fr, lx) =
                            (if lex_cur lx = CHR ''.'' \<and> (c_isdigit (lex_peek1 lx) \<or> ds \<noteq> [])
                             then let (fs, lx) = lex_while c_isdigit (lex_adv lx) in (Some (CHR ''.'' # fs), lx)
                             else (None, lx));
                          (ex, lx) =
                            (if lex_cur lx = CHR ''e'' \<or> lex_cur lx = CHR ''E''
                             then let e = lex_cur lx; lx = lex_adv lx;
                                      (sg, lx) = (if lex_cur lx = CHR ''+'' \<or> lex_cur lx = CHR ''-''
                                                  then ([lex_cur lx], lex_adv lx) else ([], lx));
                                      (es, lx) = lex_while c_isdigit lx
                                  in (Some (e # sg @ es), lx)
                             else (None, lx));
                          buf = ds @ (case fr of None \<Rightarrow> [] | Some s \<Rightarrow> s) @ (case ex of None \<Rightarrow> [] | Some s \<Rightarrow> s)
                      in if fr \<noteq> None \<or> ex \<noteq> None
                         then (val_tok TK_REAL (V_fval buf) line col, lx)
                         else if base_val 10 0 buf > LONG_MAX
                         then (val_tok TK_BIGINT (V_sval buf) line col, lx)
                         else (val_tok TK_INT (V_ival (int (strtol 10 buf))) line col, lx))"

definition is_ident_char :: "char \<Rightarrow> bool" where
  "is_ident_char c \<longleftrightarrow> c_isalnum c \<or> c = CHR ''_''"

definition scan_ident :: "icn_lexer \<Rightarrow> icn_token \<times> icn_lexer" where
  "scan_ident lx0 =
     (let line = il_line lx0; col = il_col lx0; (buf, lx) = lex_while is_ident_char lx0;
          kind = lookup_keyword buf (il_unicon lx)
      in if kind = TK_IDENT then (val_tok kind (V_sval buf) line col, lx)
         else (make_tok kind line col, lx))"

section \<open>Operators\<close>

text \<open>
  \<open>lex_cur(lx) == ':' && lex_peek1(lx) == '='\<close>: an augmented assignment \<open>a\<close> follows, otherwise the
  operator is \<open>k\<close>.
\<close>

definition aug_or :: "tk \<Rightarrow> tk \<Rightarrow> int \<Rightarrow> int \<Rightarrow> icn_lexer \<Rightarrow> icn_token \<times> icn_lexer" where
  "aug_or a k line col lx =
     (if lex_cur lx = CHR '':'' \<and> lex_peek1 lx = CHR ''=''
      then (make_tok a line col, lex_adv (lex_adv lx))
      else (make_tok k line col, lx))"

text \<open>The operators that start with an arithmetic character; the character \<open>c\<close> has been read.\<close>

definition lex_arith :: "char \<Rightarrow> int \<Rightarrow> int \<Rightarrow> icn_lexer \<Rightarrow> icn_token \<times> icn_lexer" where
  "lex_arith c line col lx =
     (if c = CHR ''+'' then
        (if lex_cur lx = CHR ''+'' then aug_or TK_AUGCSET_UNION TK_PLUSPLUS line col (lex_adv lx)
         else if lex_cur lx = CHR '':'' \<and> lex_peek1 lx = CHR ''='' then (make_tok TK_AUGPLUS line col, lex_adv (lex_adv lx))
         else if lex_cur lx = CHR '':'' then (make_tok TK_PLUSCOLON line col, lex_adv lx)
         else (make_tok TK_PLUS line col, lx))
      else if c = CHR ''-'' then
        (if lex_cur lx = CHR ''>'' then (make_tok TK_PASSNM line col, lex_adv lx)
         else if lex_cur lx = CHR ''-'' then aug_or TK_AUGCSET_DIFF TK_MINUSMINUS line col (lex_adv lx)
         else if lex_cur lx = CHR '':'' \<and> lex_peek1 lx = CHR ''='' then (make_tok TK_AUGMINUS line col, lex_adv (lex_adv lx))
         else if lex_cur lx = CHR '':'' then (make_tok TK_MINUSCOLON line col, lex_adv lx)
         else if lex_cur lx = CHR ''>'' then (make_tok TK_MINUS line col, lex_adv lx)
         else (make_tok TK_MINUS line col, lx))
      else if c = CHR ''*'' then
        (if lex_cur lx = CHR ''*'' then aug_or TK_AUGCSET_INTER TK_STARSTAR line col (lex_adv lx)
         else aug_or TK_AUGSTAR TK_STAR line col lx)
      else if c = CHR ''/'' then aug_or TK_AUGSLASH TK_SLASH line col lx
      else if c = CHR ''%'' then aug_or TK_AUGMOD TK_MOD line col lx
      else aug_or TK_AUGPOW TK_CARET line col lx)"

definition lex_compare :: "char \<Rightarrow> int \<Rightarrow> int \<Rightarrow> icn_lexer \<Rightarrow> icn_token \<times> icn_lexer" where
  "lex_compare c line col lx =
     (if c = CHR ''<'' then
        (if lex_cur lx = CHR ''<'' then
           (let lx = lex_adv lx
            in if lex_cur lx = CHR ''='' then aug_or TK_AUGSLE TK_SLE line col (lex_adv lx)
               else aug_or TK_AUGSLT TK_SLT line col lx)
         else if lex_cur lx = CHR ''='' then aug_or TK_AUGLE TK_LE line col (lex_adv lx)
         else if lex_cur lx = CHR ''-'' then
           (let lx = lex_adv lx
            in if lex_cur lx = CHR ''>'' then (make_tok TK_VALSWAP line col, lex_adv lx)
               else (make_tok TK_REVASSIGN line col, lx))
         else aug_or TK_AUGLT TK_LT line col lx)
      else if c = CHR ''>'' then
        (if lex_cur lx = CHR ''>'' then
           (let lx = lex_adv lx
            in if lex_cur lx = CHR ''='' then aug_or TK_AUGSGE TK_SGE line col (lex_adv lx)
               else aug_or TK_AUGSGT TK_SGT line col lx)
         else if lex_cur lx = CHR ''='' then aug_or TK_AUGGE TK_GE line col (lex_adv lx)
         else aug_or TK_AUGGT TK_GT line col lx)
      else if c = CHR ''='' then
        (if lex_cur lx = CHR ''>'' then (make_tok TK_PIMD line col, lex_adv lx)
         else if lex_cur lx = CHR ''='' then
           (let lx = lex_adv lx
            in if lex_cur lx = CHR ''='' then aug_or TK_AUGIDENTICAL TK_IDENTICAL line col (lex_adv lx)
               else aug_or TK_AUGSEQ TK_SEQ line col lx)
         else aug_or TK_AUGEQ TK_EQ line col lx)
      else
        (if lex_cur lx = CHR ''='' then
           (let lx = lex_adv lx
            in if lex_cur lx = CHR ''='' then
                 (let lx = lex_adv lx
                  in if lex_cur lx = CHR ''='' then aug_or TK_AUGNOTIDENT TK_NOTIDENT line col (lex_adv lx)
                     else aug_or TK_AUGSNE TK_SNE line col lx)
               else aug_or TK_AUGNE TK_NEQ line col lx)
         else (make_tok TK_TILDE line col, lx)))"

text \<open>A backquoted expression; Unicon has the doubled form.\<close>

function backquote_body :: "bool \<Rightarrow> icn_lexer \<Rightarrow> string \<Rightarrow> string \<times> icn_lexer" where
  "backquote_body dbl lx bb =
     (if lex_cur lx \<noteq> CHR 0x00 \<and> \<not> (lex_cur lx = CHR 0x60 \<and> (\<not> dbl \<or> lex_peek1 lx = CHR 0x60))
      then backquote_body dbl (lex_adv lx) (bb @ [lex_cur lx])
      else (bb, lx))"
  by pat_completeness auto

termination
  by (relation "measure (\<lambda>(dbl, lx, bb). length (il_src lx))") (use adv_less in simp_all)

declare backquote_body.simps [simp del]

definition lex_backquote :: "int \<Rightarrow> int \<Rightarrow> icn_lexer \<Rightarrow> icn_token \<times> icn_lexer" where
  "lex_backquote line col lx0 =
     (let dbl = (lex_cur lx0 = CHR 0x60 \<and> il_unicon lx0);
          (bb, lx) = backquote_body dbl (if dbl then lex_adv lx0 else lx0) []
      in if lex_cur lx \<noteq> CHR 0x60
         then (make_tok TK_ERROR line col,
               lx\<lparr>il_msg := take 255 (''line '' @ fmt_int line @ '': unterminated '' @ [CHR 0x60] @ '' expression''),
                  il_error := True\<rparr>)
         else let lx = lex_adv lx; lx = (if dbl then lex_adv lx else lx)
              in (val_tok (if dbl then TK_PUNEVAL2 else TK_PUNEVAL) (V_sval bb) line col, lx))"

definition lex_other :: "char \<Rightarrow> int \<Rightarrow> int \<Rightarrow> icn_lexer \<Rightarrow> icn_token \<times> icn_lexer" where
  "lex_other c line col lx =
     (if c = CHR ''|'' then
        (if lex_cur lx = CHR ''|'' then
           (let lx = lex_adv lx
            in if lex_cur lx = CHR ''|'' then aug_or TK_AUGLCONCAT TK_LCONCAT line col (lex_adv lx)
               else aug_or TK_AUGCONCAT TK_CONCAT line col lx)
         else (make_tok TK_BAR line col, lx))
      else if c = CHR '':'' then
        (if lex_cur lx = CHR ''='' then
           (let lx = lex_adv lx
            in if lex_cur lx = CHR '':'' then (make_tok TK_SWAP line col, lex_adv lx)
               else (make_tok TK_ASSIGN line col, lx))
         else if il_unicon lx \<and> lex_cur lx = CHR '':'' then (make_tok TK_COLONCOLON line col, lex_adv lx)
         else (make_tok TK_COLON line col, lx))
      else if c = CHR ''&'' then
        (if lex_cur lx = CHR ''&'' then (make_tok TK_PAND line col, lex_adv lx)
         else aug_or TK_AUGAND TK_AND line col lx)
      else if c = CHR ''?'' then
        (if lex_cur lx = CHR ''?'' then (make_tok TK_PMATCH line col, lex_adv lx)
         else aug_or TK_AUGSCAN TK_QMARK line col lx)
      else aug_or TK_AUGAT TK_AT line col lx)"

text \<open>The kinds of one character.\<close>

definition single_kind :: "char \<Rightarrow> tk option" where
  "single_kind c =
     map_of [(CHR 0x5C, TK_BACKSLASH), (CHR ''!'', TK_BANG), (CHR ''('', TK_LPAREN), (CHR '')'', TK_RPAREN),
             (CHR ''{'', TK_LBRACE), (CHR ''}'', TK_RBRACE), (CHR ''['', TK_LBRACK), (CHR '']'', TK_RBRACK),
             (CHR '','', TK_COMMA), (CHR '';'', TK_SEMICOL)] c"

definition hex2 :: "nat \<Rightarrow> string" where
  "hex2 n = (let d = (\<lambda>k. if k < 10 then char_of (48 + k) else char_of (87 + k))
             in [d (n div 16), d (n mod 16)])"

definition lex_unexpected :: "char \<Rightarrow> icn_lexer \<Rightarrow> icn_token \<times> icn_lexer" where
  "lex_unexpected c lx =
     make_error lx (''unexpected character '' @ [CHR 0x27, c, CHR 0x27] @ '' (0x'' @ hex2 (of_char c) @ '')'')"

text \<open>\<open>lx0\<close> is the state before \<open>c\<close> was read, to which a real that starts with its point returns.\<close>

definition lex_dot :: "int \<Rightarrow> int \<Rightarrow> icn_lexer \<Rightarrow> icn_lexer \<Rightarrow> icn_token \<times> icn_lexer" where
  "lex_dot line col lx0 lx =
     (if lex_cur lx = CHR ''|'' then (make_tok TK_POR line col, lex_adv lx)
      else if lex_cur lx = CHR ''>'' then (make_tok TK_PSETCUR line col, lex_adv lx)
      else if c_isdigit (lex_cur lx) then scan_number (lx\<lparr>il_src := il_src lx0, il_col := il_col lx - 1\<rparr>)
      else (make_tok TK_DOT line col, lx))"

section \<open>How a scanner moves\<close>

text \<open>
  Every scanner changes the state by reading characters, correcting the column, recording an
  error or a trap, and taking a line number from a \<open>#line\<close> directive.
\<close>

inductive lex_moves :: "icn_lexer \<Rightarrow> icn_lexer \<Rightarrow> bool" where
  here: "lex_moves lx lx"
| adv: "lex_moves lx lx' \<Longrightarrow> lex_moves lx (lex_adv lx')"
| column: "lex_moves lx lx' \<Longrightarrow> lex_moves lx (lx'\<lparr>il_col := col\<rparr>)"
| failed: "lex_moves lx lx' \<Longrightarrow> lex_moves lx (lx'\<lparr>il_msg := m, il_error := True\<rparr>)"
| trap: "lex_moves lx lx' \<Longrightarrow> lex_moves lx (lx'\<lparr>il_trap := True\<rparr>)"
| directive: "lex_moves lx lx' \<Longrightarrow> take 5 (il_src lx') = ''#line'' \<Longrightarrow> lex_moves lx (lx'\<lparr>il_line := line\<rparr>)"

lemma lex_moves_trans: "lex_moves b c \<Longrightarrow> lex_moves a b \<Longrightarrow> lex_moves a c"
  by (induction rule: lex_moves.induct) (auto intro: lex_moves.intros)

text \<open>The lines passed and the lines left, which only a directive changes.\<close>

definition lines_of :: "icn_lexer \<Rightarrow> int" where
  "lines_of lx = il_line lx + int (nl (il_src lx))"

lemma lines_of_adv [simp]: "lines_of (lex_adv lx) = lines_of lx"
  by (auto simp: lines_of_def lex_advance_def split: list.split)

lemma lex_moves_keep:
  assumes "lex_moves lx lx'"
  shows "suffix (il_src lx') (il_src lx)" "il_unicon lx' = il_unicon lx"
    "il_error lx \<longrightarrow> il_error lx'" "il_trap lx \<longrightarrow> il_trap lx'"
    "\<not> sublist ''#line'' (il_src lx) \<longrightarrow> lines_of lx' = lines_of lx"
proof -
  have "suffix (il_src lx') (il_src lx) \<and> il_unicon lx' = il_unicon lx \<and> (il_error lx \<longrightarrow> il_error lx')
    \<and> (il_trap lx \<longrightarrow> il_trap lx') \<and> (\<not> sublist ''#line'' (il_src lx) \<longrightarrow> lines_of lx' = lines_of lx)"
    using assms
  proof (induction rule: lex_moves.induct)
    case (adv lx lx')
    then show ?case by (auto intro: suffix_order.trans [OF suffix_drop])
  next
    case (directive lx lx' line)
    then have "sublist ''#line'' (il_src lx')"
      by (metis append_take_drop_id prefixI prefix_imp_sublist)
    then show ?case using directive.IH
      by (auto intro: sublist_order.order_trans suffix_imp_sublist)
  qed (simp_all add: lines_of_def)
  then show "suffix (il_src lx') (il_src lx)" "il_unicon lx' = il_unicon lx"
    "il_error lx \<longrightarrow> il_error lx'" "il_trap lx \<longrightarrow> il_trap lx'"
    "\<not> sublist ''#line'' (il_src lx) \<longrightarrow> lines_of lx' = lines_of lx" by blast+
qed

lemma lex_moves_less:
  assumes "lex_moves (lex_adv lx) lx'" "lex_cur lx \<noteq> CHR 0x00"
  shows "length (il_src lx') < length (il_src lx)"
  using suffix_length_le [OF lex_moves_keep(1) [OF assms(1)]] adv_less [OF assms(2)] by simp

lemma lex_over_step:
  "lex_over P lx = (if lex_cur lx \<noteq> CHR 0x00 \<and> P (lex_cur lx) then lex_over P (lex_adv lx) else lx)"
  by (subst lex_while.simps) (simp add: case_prod_beta Let_def)

lemma lex_over_induct [case_names step]:
  assumes "\<And>lx. (lex_cur lx \<noteq> CHR 0x00 \<and> P (lex_cur lx) \<Longrightarrow> Q (lex_adv lx)) \<Longrightarrow> Q lx"
  shows "Q lx"
proof (induction "length (il_src lx)" arbitrary: lx rule: less_induct)
  case less
  then show ?case using assms adv_less by blast
qed

lemma moves_over: "lex_moves a lx \<Longrightarrow> lex_moves a (lex_over P lx)"
proof (induction lx rule: lex_over_induct [of P])
  case (step lx)
  then show ?case using lex_moves.adv [of a lx] by (subst lex_over_step) simp
qed

lemma over_first:
  assumes "lex_cur lx \<noteq> CHR 0x00" "P (lex_cur lx)"
  shows "lex_over P lx = lex_over P (lex_adv lx)"
  using assms lex_over_step [of P lx] by simp

lemma over_line:
  assumes "\<not> P (CHR 0x0A)"
  shows "il_line (lex_over P lx) = il_line lx"
proof (induction lx rule: lex_over_induct [of P])
  case (step lx)
  have "il_line (lex_adv lx) = il_line lx" if "P (lex_cur lx)"
    using that assms by (auto simp: lex_advance_def lex_cur_def split: list.split)
  then show ?case using step by (subst lex_over_step) auto
qed

lemma moves_hash: "lex_moves a lx \<Longrightarrow> lex_moves a (hash_line lx)"
  by (auto simp: hash_line_def Let_def intro: lex_moves.directive)

lemmas moves = lex_moves.here lex_moves.adv lex_moves.failed lex_moves.trap moves_over moves_hash

lemma skip_ws_eq:
  assumes "lx = lex_over c_isspace lx0" "r = lex_over is_blank_tab (lex_adv lx)"
  shows "skip_ws lx0 =
     (if lex_cur lx = CHR ''#'' then skip_ws (lex_over not_eol (hash_line lx))
      else if lex_cur lx = CHR ''$'' then
        (if lex_peek1 lx = CHR ''('' \<or> lex_peek1 lx = CHR '')'' \<or> lex_peek1 lx = CHR ''<'' \<or> lex_peek1 lx = CHR ''>'' then lx
         else skip_ws (lex_over not_eol lx))
      else if lex_cur lx = CHR ''-'' then
        (if take 6 (il_src r) = ''IMPORT'' \<or> take 6 (il_src r) = ''EXPORT''
         then skip_ws (lex_over not_eol r) else r\<lparr>il_src := il_src lx\<rparr>)
      else lx)"
  by (subst skip_ws.simps) (simp add: Let_def assms)

lemma skip_ws_moves: "lex_moves lx (skip_ws lx)"
proof (induction lx rule: skip_ws.induct)
  case (1 lx0)
  define lx where "lx = lex_over c_isspace lx0"
  define r where "r = lex_over is_blank_tab (lex_adv lx)"
  have put_back: "lex_moves lx0 (r\<lparr>il_src := il_src lx\<rparr>)" if "lex_cur lx = CHR ''-''"
  proof -
    have "il_line r = il_line lx" using that
      by (auto simp: r_def over_line is_blank_tab_def lex_advance_def lex_cur_def split: list.split)
    then have "r\<lparr>il_src := il_src lx\<rparr> = lx\<lparr>il_col := il_col r\<rparr>"
      by (intro icn_lexer.equality) (simp_all add: r_def)
    then show ?thesis unfolding lx_def by (simp add: lex_moves.column moves)
  qed
  note s = skip_ws_eq [OF lx_def r_def]
  have m: "lex_moves lx0 lx" "lex_moves lx0 (lex_over not_eol (hash_line lx))"
    "lex_moves lx0 (lex_over not_eol lx)" "lex_moves lx0 (lex_over not_eol r)"
    unfolding lx_def r_def by (intro moves)+
  consider "lex_cur lx = CHR ''#''" "skip_ws lx0 = skip_ws (lex_over not_eol (hash_line lx))"
    | "lex_cur lx = CHR ''$''" "skip_ws lx0 = skip_ws (lex_over not_eol lx)"
      "\<not> (lex_peek1 lx = CHR ''('' \<or> lex_peek1 lx = CHR '')'' \<or> lex_peek1 lx = CHR ''<'' \<or> lex_peek1 lx = CHR ''>'')"
    | "lex_cur lx = CHR ''-''" "skip_ws lx0 = skip_ws (lex_over not_eol r)"
      "take 6 (il_src r) = ''IMPORT'' \<or> take 6 (il_src r) = ''EXPORT''"
    | "lex_cur lx = CHR ''-''" "skip_ws lx0 = r\<lparr>il_src := il_src lx\<rparr>"
    | "skip_ws lx0 = lx"
    using s by (simp split: if_split_asm)
  then show ?case
  proof cases
    case 1
    then show ?thesis using "1.IH"(1) [OF lx_def refl] lex_moves_trans m by simp
  next
    case 2
    have "lex_moves (lex_over not_eol lx) (skip_ws (lex_over not_eol lx))"
      by (rule "1.IH"(2) [OF lx_def refl]) (use 2 in auto)
    then show ?thesis using lex_moves_trans m 2 by simp
  next
    case 3
    have "lex_moves (lex_over not_eol r) (skip_ws (lex_over not_eol r))"
      by (rule "1.IH"(3) [OF lx_def refl]) (use 3 r_def in auto)
    then show ?thesis using lex_moves_trans m 3 by simp
  qed (use put_back m in simp_all)
qed

section \<open>One token\<close>

function lex_one :: "icn_lexer \<Rightarrow> icn_token \<times> icn_lexer" where
  "lex_one lx0 =
     (let lx = skip_ws lx0; line = il_line lx; col = il_col lx; c = lex_cur lx
      in if c = CHR 0x00 then (make_tok TK_EOF line col, lx)
         else if c = CHR 0x22 then scan_string lx
         else if c = CHR 0x27 then scan_cset lx
         else if c_isdigit c then scan_number lx
         else if c_isalpha c \<or> c = CHR ''_'' then scan_ident lx
         else let lx1 = lex_adv lx
              in if c \<in> {CHR ''+'', CHR ''-'', CHR ''*'', CHR ''/'', CHR ''%'', CHR ''^''} then lex_arith c line col lx1
                 else if c \<in> {CHR ''<'', CHR ''>'', CHR ''='', CHR ''~''} then lex_compare c line col lx1
                 else if c \<in> {CHR ''|'', CHR '':'', CHR ''&'', CHR ''?'', CHR ''@''} then lex_other c line col lx1
                 else if c = CHR 0x60 then lex_backquote line col lx1
                 else if c = CHR ''.'' then lex_dot line col lx lx1
                 else if c = CHR ''$'' then
                   (if lex_cur lx1 = CHR ''('' then (make_tok TK_LBRACE line col, lex_adv lx1)
                    else if lex_cur lx1 = CHR '')'' then (make_tok TK_RBRACE line col, lex_adv lx1)
                    else if lex_cur lx1 = CHR ''<'' then (make_tok TK_LBRACK line col, lex_adv lx1)
                    else if lex_cur lx1 = CHR ''>'' then (make_tok TK_RBRACK line col, lex_adv lx1)
                    else lex_one (lex_over not_eol lx1))
                 else (case single_kind c of
                         Some k \<Rightarrow> (make_tok k line col, lx1)
                       | None \<Rightarrow> lex_unexpected c lx1))"
  by pat_completeness auto

termination
proof (relation "measure (\<lambda>lx. length (il_src lx))", goal_cases)
  case (2 lx0 lx line col c lx1)
  have le: "length (il_src lx) \<le> length (il_src lx0)"
    unfolding 2(1) by (rule suffix_length_le [OF lex_moves_keep(1) [OF skip_ws_moves]])
  have "lex_cur lx \<noteq> CHR 0x00" using 2 by simp
  moreover have "lex_moves (lex_adv lx) (lex_over not_eol lx1)"
    unfolding 2(10) by (intro moves)
  ultimately have "length (il_src (lex_over not_eol lx1)) < length (il_src lx)" by (intro lex_moves_less)
  then show ?case using le by simp
qed simp

declare lex_one.simps [simp del]

definition icn_lex_next :: "icn_lexer \<Rightarrow> icn_token \<times> icn_lexer" where
  "icn_lex_next lx = lex_one lx"

text \<open>The preprocessor \<open>pp\<close> gives the text a source is read as.\<close>

definition icn_lex_init :: "(string \<Rightarrow> string) \<Rightarrow> string \<Rightarrow> icn_lexer" where
  "icn_lex_init pp src =
     \<lparr>il_src = pp src, il_line = 1, il_col = 1, il_error = False, il_msg = [], il_unicon = False,
      il_trap = False\<rparr>"

subsection \<open>Moves of the scanners\<close>

lemma make_error_moves [scan_progress]: "lex_moves a lx \<Longrightarrow> lex_moves a (snd (make_error lx m))"
  by (simp add: make_error_def lex_moves.failed)

lemma lex_digits_moves: "lex_moves a lx \<Longrightarrow> lex_moves a (snd (lex_digits n b P v lx))"
  by (induction n b P v lx rule: lex_digits.induct) (auto intro: moves)

lemma lex_escape_moves: "lex_moves a lx \<Longrightarrow> lex_moves a (snd (lex_escape e lx))"
  by (auto simp: lex_escape_def Let_def case_prod_beta intro: moves lex_digits_moves)

lemma str_body_step:
  "str_body lx buf =
     (if lex_cur lx \<noteq> CHR 0x00 \<and> lex_cur lx \<noteq> CHR 0x22 then
        (if lex_cur lx = CHR 0x5C then
           str_body (snd (lex_escape (lex_cur (lex_adv lx)) (lex_adv (lex_adv lx))))
             (buf @ [fst (lex_escape (lex_cur (lex_adv lx)) (lex_adv (lex_adv lx)))])
         else if lex_cur lx = CHR ''_'' \<and> (lex_cur (lex_adv lx) = CHR 0x0A
             \<or> (lex_cur (lex_adv lx) = CHR 0x0D \<and> lex_peek1 (lex_adv lx) = CHR 0x0A)) then
           str_body (lex_over is_blank_tab (lex_adv
             (if lex_cur (lex_adv lx) = CHR 0x0D then lex_adv (lex_adv lx) else lex_adv lx))) buf
         else str_body (lex_adv lx) (buf @ [lex_cur lx]))
      else (buf, lx))"
  by (subst str_body.simps) (simp add: case_prod_beta Let_def)

lemma cset_body_step:
  "cset_body lx buf =
     (if lex_cur lx \<noteq> CHR 0x00 \<and> lex_cur lx \<noteq> CHR 0x27 then
        (if lex_cur lx = CHR 0x5C \<and> lex_cur (lex_adv lx) \<noteq> CHR 0x00 then
           cset_body (snd (lex_escape (lex_cur (lex_adv lx)) (lex_adv (lex_adv lx))))
             (buf @ [fst (lex_escape (lex_cur (lex_adv lx)) (lex_adv (lex_adv lx)))])
         else cset_body (lex_adv lx) (buf @ [lex_cur lx]))
      else (buf, lx))"
  by (subst cset_body.simps) (simp add: case_prod_beta Let_def)

lemma str_body_moves: "lex_moves a lx \<Longrightarrow> lex_moves a (snd (str_body lx buf))"
proof (induction "length (il_src lx)" arbitrary: lx buf rule: less_induct)
  case less
  show ?case
  proof (cases "lex_cur lx \<noteq> CHR 0x00 \<and> lex_cur lx \<noteq> CHR 0x22")
    case True
    note IH = less.hyps [OF lex_moves_less]
    show ?thesis using True less.prems
      by (subst str_body_step) (auto intro!: IH moves lex_escape_moves)
  next
    case False
    then show ?thesis using less.prems by (subst str_body_step) auto
  qed
qed

lemma cset_body_moves: "lex_moves a lx \<Longrightarrow> lex_moves a (snd (cset_body lx buf))"
proof (induction "length (il_src lx)" arbitrary: lx buf rule: less_induct)
  case less
  show ?case
  proof (cases "lex_cur lx \<noteq> CHR 0x00 \<and> lex_cur lx \<noteq> CHR 0x27")
    case True
    note IH = less.hyps [OF lex_moves_less]
    show ?thesis using True less.prems
      by (subst cset_body_step) (auto intro!: IH moves lex_escape_moves)
  next
    case False
    then show ?thesis using less.prems by (subst cset_body_step) auto
  qed
qed

lemma backquote_body_moves: "lex_moves a lx \<Longrightarrow> lex_moves a (snd (backquote_body dbl lx bb))"
proof (induction dbl lx bb rule: backquote_body.induct)
  case (1 dbl lx bb)
  then show ?case by (subst backquote_body.simps) (simp add: moves)
qed

lemma scan_string_moves [scan_progress]: "lex_moves (lex_adv lx) (snd (scan_string lx))"
  unfolding scan_string_def Let_def case_prod_beta
  by (auto intro!: make_error_moves moves str_body_moves)

lemma scan_cset_moves [scan_progress]: "lex_moves (lex_adv lx) (snd (scan_cset lx))"
  unfolding scan_cset_def Let_def case_prod_beta
  by (auto intro!: make_error_moves moves cset_body_moves)

lemma over_first_moves:
  "lex_cur lx \<noteq> CHR 0x00 \<Longrightarrow> P (lex_cur lx) \<Longrightarrow> lex_moves (lex_adv lx) (lex_over P lx)"
  by (simp add: over_first moves)

lemma scan_ident_moves [scan_progress]:
  "is_ident_char (lex_cur lx) \<Longrightarrow> lex_cur lx \<noteq> CHR 0x00 \<Longrightarrow> lex_moves (lex_adv lx) (snd (scan_ident lx))"
  unfolding scan_ident_def Let_def case_prod_beta by (simp add: over_first_moves)

lemma scan_number_moves [scan_progress]:
  assumes "c_isdigit (lex_cur lx) \<or> lex_cur lx = CHR ''.'' \<and> c_isdigit (lex_peek1 lx)"
  shows "lex_moves (lex_adv lx) (snd (scan_number lx))"
proof (cases "c_isdigit (lex_cur lx)")
  case True
  then have "lex_cur lx \<noteq> CHR 0x00" by auto
  then have "lex_moves (lex_adv lx) (lex_over c_isdigit lx)" using True by (rule over_first_moves)
  then show ?thesis
    unfolding scan_number_def Let_def case_prod_beta by (auto intro!: moves)
next
  case False
  then have dot: "lex_cur lx = CHR ''.''" "c_isdigit (lex_peek1 lx)" using assms by auto
  have "lex_over c_isdigit lx = lx" using False by (subst lex_over_step) simp
  then show ?thesis using dot
    unfolding scan_number_def Let_def case_prod_beta by (auto intro!: moves)
qed

lemma aug_or_moves [scan_progress]: "lex_moves a lx \<Longrightarrow> lex_moves a (snd (aug_or x k l c lx))"
  by (simp add: aug_or_def moves)

lemma lex_arith_moves [scan_progress]: "lex_moves a lx \<Longrightarrow> lex_moves a (snd (lex_arith ch l c lx))"
  by (simp add: lex_arith_def aug_or_moves moves)

lemma lex_compare_moves [scan_progress]: "lex_moves a lx \<Longrightarrow> lex_moves a (snd (lex_compare ch l c lx))"
  by (simp add: lex_compare_def Let_def aug_or_moves moves)

lemma lex_other_moves [scan_progress]: "lex_moves a lx \<Longrightarrow> lex_moves a (snd (lex_other ch l c lx))"
  by (simp add: lex_other_def Let_def aug_or_moves moves)

lemma lex_backquote_moves [scan_progress]: "lex_moves a lx \<Longrightarrow> lex_moves a (snd (lex_backquote l c lx))"
  unfolding lex_backquote_def Let_def case_prod_beta
  using lex_moves.failed [of a] by (auto intro!: moves backquote_body_moves)

lemma dot_put_back:
  assumes "lex_cur lx = CHR ''.''"
  shows "(lex_adv lx)\<lparr>il_src := il_src lx, il_col := il_col (lex_adv lx) - 1\<rparr> = lx"
  using assms by (intro icn_lexer.equality) (auto simp: lex_advance_def lex_cur_def split: list.split)

lemma lex_dot_moves [scan_progress]:
  assumes "lex_cur lx = CHR ''.''"
  shows "lex_moves (lex_adv lx) (snd (lex_dot l c lx (lex_adv lx)))"
proof -
  have "lex_cur (lex_adv lx) = lex_peek1 lx"
    by (cases "il_src lx") (simp_all add: lex_cur_def lex_peek1_def)
  then show ?thesis
    using assms by (simp add: lex_dot_def moves dot_put_back scan_number_moves)
qed

end
