(* ===== verification/Icon_Lex_Props.thy ===== *)
theory Icon_Lex_Props
  imports Icon_Lex
begin

text \<open>
  What the Icon lexer promises: progress and the place of every token, the spelling of the
  operators, the text of string literals and the value of numbers.
\<close>

section \<open>Progress\<close>

definition plain_kind :: "tk \<Rightarrow> bool" where
  "plain_kind k \<longleftrightarrow> k \<noteq> TK_EOF \<and> k \<noteq> TK_PUNEVAL \<and> k \<noteq> TK_PUNEVAL2"

lemma map_of_snd: "map_of t w = Some k \<Longrightarrow> k \<in> set (map snd t)"
  by (force dest: map_of_SomeD)

lemma keyword_kinds: "list_all plain_kind (map snd kw_table @ map snd unicon_kw_table)"
  by (simp add: kw_table_def unicon_kw_table_def plain_kind_def)

lemma lookup_keyword_plain: "plain_kind (lookup_keyword w u)"
proof -
  have "plain_kind k" if "map_of kw_table w = Some k \<or> map_of unicon_kw_table w = Some k" for k
    using keyword_kinds that map_of_snd [of kw_table w k] map_of_snd [of unicon_kw_table w k]
    by (auto simp: list_all_iff simp del: set_map)
  then show ?thesis
    unfolding lookup_keyword_def by (simp add: plain_kind_def split: option.split)
qed

lemma scanner_kinds:
  "plain_kind (t_kind (fst (scan_string lx)))" "plain_kind (t_kind (fst (scan_cset lx)))"
  "plain_kind (t_kind (fst (scan_number lx)))"
  unfolding scan_string_def scan_cset_def scan_number_def Let_def case_prod_beta plain_kind_def
  by (simp_all add: make_error_def)

lemma scan_ident_kind: "plain_kind (t_kind (fst (scan_ident lx)))"
  unfolding scan_ident_def Let_def case_prod_beta
  using lookup_keyword_plain [of "fst (lex_while is_ident_char lx)" "il_unicon lx"] by (simp add: plain_kind_def)

lemma aug_or_kind:
  "t_kind (fst (aug_or a k l c lx)) = (if lex_cur lx = CHR '':'' \<and> lex_peek1 lx = CHR ''='' then a else k)"
  by (simp add: aug_or_def)

lemma operator_kinds:
  "plain_kind (t_kind (fst (lex_arith ch l c lx)))" "plain_kind (t_kind (fst (lex_compare ch l c lx)))"
  "plain_kind (t_kind (fst (lex_other ch l c lx)))" "plain_kind (t_kind (fst (lex_unexpected ch lx)))"
  unfolding lex_arith_def lex_compare_def lex_other_def lex_unexpected_def make_error_def Let_def plain_kind_def
  by (simp_all add: aug_or_kind)

lemma lex_dot_kind: "plain_kind (t_kind (fst (lex_dot l c lx0 lx)))"
  using scanner_kinds(3) by (simp add: lex_dot_def plain_kind_def)

lemma single_kind_plain: "single_kind ch = Some k \<Longrightarrow> plain_kind k"
  by (auto simp: single_kind_def plain_kind_def split: if_splits)

text \<open>The branches of \<open>lex_one\<close> once the white space is behind.\<close>

definition lex_token :: "icn_lexer \<Rightarrow> icn_token \<times> icn_lexer" where
  "lex_token lx =
     (let line = il_line lx; col = il_col lx; c = lex_cur lx; lx1 = lex_adv lx
      in if c = CHR 0x22 then scan_string lx
         else if c = CHR 0x27 then scan_cset lx
         else if c_isdigit c then scan_number lx
         else if c_isalpha c \<or> c = CHR ''_'' then scan_ident lx
         else if c \<in> {CHR ''+'', CHR ''-'', CHR ''*'', CHR ''/'', CHR ''%'', CHR ''^''} then lex_arith c line col lx1
         else if c \<in> {CHR ''<'', CHR ''>'', CHR ''='', CHR ''~''} then lex_compare c line col lx1
         else if c \<in> {CHR ''|'', CHR '':'', CHR ''&'', CHR ''?'', CHR ''@''} then lex_other c line col lx1
         else if c = CHR 0x60 then lex_backquote line col lx1
         else if c = CHR ''.'' then lex_dot line col lx lx1
         else if c = CHR ''$'' then
           (if lex_cur lx1 = CHR ''('' then (make_tok TK_LBRACE line col, lex_adv lx1)
            else if lex_cur lx1 = CHR '')'' then (make_tok TK_RBRACE line col, lex_adv lx1)
            else if lex_cur lx1 = CHR ''<'' then (make_tok TK_LBRACK line col, lex_adv lx1)
            else (make_tok TK_RBRACK line col, lex_adv lx1))
         else (case single_kind c of
                 Some k \<Rightarrow> (make_tok k line col, lx1)
               | None \<Rightarrow> lex_unexpected c lx1))"

text \<open>White space stops at a dollar only before one of the four brackets it stands for.\<close>

lemma peek1_adv: "lex_cur (lex_adv lx) = lex_peek1 lx"
  by (cases "il_src lx") (simp_all add: lex_cur_def lex_peek1_def)

lemma skip_ws_dollar:
  "lex_cur (skip_ws lx) = CHR ''$'' \<Longrightarrow>
     lex_peek1 (skip_ws lx) \<in> {CHR ''('', CHR '')'', CHR ''<'', CHR ''>''}"
proof (induction lx rule: skip_ws.induct)
  case (1 lx0)
  define lx where "lx = lex_over c_isspace lx0"
  define r where "r = lex_over is_blank_tab (lex_adv lx)"
  note s = skip_ws_eq [OF lx_def r_def]
  consider "lex_cur lx = CHR ''#''" "skip_ws lx0 = skip_ws (lex_over not_eol (hash_line lx))"
    | "lex_cur lx = CHR ''$''" "skip_ws lx0 = skip_ws (lex_over not_eol lx)"
      "\<not> (lex_peek1 lx = CHR ''('' \<or> lex_peek1 lx = CHR '')'' \<or> lex_peek1 lx = CHR ''<'' \<or> lex_peek1 lx = CHR ''>'')"
    | "lex_cur lx = CHR ''-''" "skip_ws lx0 = skip_ws (lex_over not_eol r)"
      "take 6 (il_src r) = ''IMPORT'' \<or> take 6 (il_src r) = ''EXPORT''"
    | "lex_cur lx = CHR ''-''" "skip_ws lx0 = r\<lparr>il_src := il_src lx\<rparr>"
    | "lex_cur lx = CHR ''$''" "skip_ws lx0 = lx" "lex_peek1 lx \<in> {CHR ''('', CHR '')'', CHR ''<'', CHR ''>''}"
    | "lex_cur lx \<noteq> CHR ''$''" "skip_ws lx0 = lx"
    using s by (simp split: if_split_asm)
  then show ?case
  proof cases
    case 1
    then show ?thesis using "1.IH"(1) [OF lx_def refl] "1.prems" by simp
  next
    case 2
    have "lex_cur (skip_ws (lex_over not_eol lx)) = CHR ''$'' \<Longrightarrow>
      lex_peek1 (skip_ws (lex_over not_eol lx)) \<in> {CHR ''('', CHR '')'', CHR ''<'', CHR ''>''}"
      by (rule "1.IH"(2) [OF lx_def refl]) (use 2 in auto)
    then show ?thesis using 2 "1.prems" by simp
  next
    case 3
    have "lex_cur (skip_ws (lex_over not_eol r)) = CHR ''$'' \<Longrightarrow>
      lex_peek1 (skip_ws (lex_over not_eol r)) \<in> {CHR ''('', CHR '')'', CHR ''<'', CHR ''>''}"
      by (rule "1.IH"(3) [OF lx_def refl]) (use 3 r_def in auto)
    then show ?thesis using 3 "1.prems" by simp
  next
    case 4
    then show ?thesis using "1.prems" by (simp add: lex_cur_def)
  qed (use "1.prems" in simp_all)
qed

lemma lex_one_token:
  "lex_one lx = (if lex_cur (skip_ws lx) = CHR 0x00
     then (make_tok TK_EOF (il_line (skip_ws lx)) (il_col (skip_ws lx)), skip_ws lx)
     else lex_token (skip_ws lx))"
proof -
  have "lex_cur (lex_adv (skip_ws lx)) \<in> {CHR ''('', CHR '')'', CHR ''<'', CHR ''>''}"
    if "lex_cur (skip_ws lx) = CHR ''$''"
    using skip_ws_dollar [OF that] by (simp add: peek1_adv)
  then show ?thesis
    by (subst lex_one.simps) (auto simp: lex_token_def Let_def c_class_defs)
qed

lemma lex_token_moves:
  assumes "lex_cur lx \<noteq> CHR 0x00"
  shows "lex_moves (lex_adv lx) (snd (lex_token lx))"
proof -
  have i: "c_isalpha c \<or> c = CHR ''_'' \<Longrightarrow> is_ident_char c" for c
    by (auto simp: is_ident_char_def c_isalnum_def)
  have u: "lex_moves (lex_adv lx) (snd (lex_unexpected c (lex_adv lx)))" for c
    unfolding lex_unexpected_def by (intro make_error_moves moves)
  show ?thesis
    unfolding lex_token_def Let_def
    by (auto simp: assms moves scan_progress u i split: option.split)
qed

definition bq_count :: "string \<Rightarrow> nat" where
  "bq_count s = count_list s (CHR 0x60)"

lemma bq_simps [simp]:
  "bq_count [] = 0" "bq_count (c # s) = (if c = CHR 0x60 then 1 else 0) + bq_count s"
  "bq_count (s @ t) = bq_count s + bq_count t"
  by (auto simp: bq_count_def)

lemma bq_suffix: "suffix p q \<Longrightarrow> bq_count p \<le> bq_count q"
  by (auto simp: suffix_def)

text \<open>The backquotes a token takes with it: those of an expression between backquotes and one more.\<close>

definition tok_bq :: "icn_token \<Rightarrow> nat" where
  "tok_bq t = (if t_kind t = TK_PUNEVAL \<or> t_kind t = TK_PUNEVAL2 then Suc (bq_count (sval_of (t_val t))) else 0)"

lemma tok_bq_plain: "plain_kind (t_kind t) \<Longrightarrow> tok_bq t = 0"
  by (simp add: tok_bq_def plain_kind_def)

lemma backquote_body_text:
  "\<exists>s. fst (backquote_body dbl lx bb) = bb @ s \<and> il_src lx = s @ il_src (snd (backquote_body dbl lx bb))"
proof (induction dbl lx bb rule: backquote_body.induct)
  case (1 dbl lx bb)
  then show ?case
    by (subst (1 2) backquote_body.simps) (cases "il_src lx", auto simp: lex_cur_def)
qed

lemma lex_backquote_bq:
  "t_kind (fst (lex_backquote l c lx)) \<noteq> TK_EOF
   \<and> tok_bq (fst (lex_backquote l c lx)) + bq_count (il_src (snd (lex_backquote l c lx))) \<le> bq_count (il_src lx)"
proof -
  define dbl where "dbl = (lex_cur lx = CHR 0x60 \<and> il_unicon lx)"
  define lx1 where "lx1 = (if dbl then lex_adv lx else lx)"
  obtain bb lx2 where b: "backquote_body dbl lx1 [] = (bb, lx2)" by (cases "backquote_body dbl lx1 []")
  then have t: "il_src lx1 = bb @ il_src lx2" using backquote_body_text [of dbl lx1 "[]"] by simp
  have d: "bq_count (drop 1 s) \<le> bq_count s" for s by (rule bq_suffix [OF suffix_drop])
  have le: "bq_count (il_src lx1) \<le> bq_count (il_src lx)" using d by (simp add: lx1_def)
  have q: "lex_backquote l c lx =
      (if lex_cur lx2 \<noteq> CHR 0x60
       then (make_tok TK_ERROR l c,
               lx2\<lparr>il_msg := take 255 (''line '' @ fmt_int l @ '': unterminated '' @ [CHR 0x60] @ '' expression''),
                  il_error := True\<rparr>)
       else (val_tok (if dbl then TK_PUNEVAL2 else TK_PUNEVAL) (V_sval bb) l c,
             if dbl then lex_adv (lex_adv lx2) else lex_adv lx2))"
    by (simp add: lex_backquote_def Let_def dbl_def [symmetric] lx1_def [symmetric] b)
  show ?thesis
  proof (cases "lex_cur lx2 = CHR 0x60")
    case True
    then obtain r where r: "il_src lx2 = CHR 0x60 # r" by (cases "il_src lx2") (auto simp: lex_cur_def)
    have "bq_count (il_src (if dbl then lex_adv (lex_adv lx2) else lex_adv lx2)) \<le> bq_count r"
      using d [of r] r by simp
    then show ?thesis using True q t r le by (simp add: tok_bq_def)
  next
    case False
    then show ?thesis using q t le by (simp add: tok_bq_def)
  qed
qed

lemma lex_token_kind:
  assumes "lex_cur lx \<noteq> CHR 0x00"
  shows "t_kind (fst (lex_token lx)) \<noteq> TK_EOF
    \<and> tok_bq (fst (lex_token lx)) + bq_count (il_src (snd (lex_token lx))) \<le> bq_count (il_src lx)"
proof -
  have s: "bq_count (il_src (snd (lex_token lx))) \<le> bq_count (il_src lx)"
    using bq_suffix [OF lex_moves_keep(1) [OF lex_token_moves [OF assms]]] bq_suffix [OF suffix_drop, of 1 "il_src lx"]
    by simp
  show ?thesis
  proof (cases "lex_cur lx = CHR 0x60")
    case True
    then have "lex_token lx = lex_backquote (il_line lx) (il_col lx) (lex_adv lx)"
      by (simp add: lex_token_def Let_def c_class_defs)
    then show ?thesis
      using lex_backquote_bq [of "il_line lx" "il_col lx" "lex_adv lx"] bq_suffix [OF suffix_drop, of 1 "il_src lx"]
      by simp
  next
    case False
    have "plain_kind (t_kind (fst (lex_token lx)))"
      using False single_kind_plain [of "lex_cur lx"]
      unfolding lex_token_def Let_def
      by (auto simp: scanner_kinds scan_ident_kind operator_kinds lex_dot_kind split: option.split)
         (simp_all add: plain_kind_def)
    then show ?thesis using s tok_bq_plain by (simp add: plain_kind_def)
  qed
qed

text \<open>What one call does to the state.\<close>

lemma lex_one_props:
  fixes lx
  defines "t \<equiv> fst (icn_lex_next lx)" and "lx' \<equiv> snd (icn_lex_next lx)"
  shows "lex_moves lx lx'" "t_kind t = TK_EOF \<longleftrightarrow> lex_cur (skip_ws lx) = CHR 0x00"
    "t_kind t = TK_EOF \<Longrightarrow> lex_cur lx' = CHR 0x00"
    "t_kind t \<noteq> TK_EOF \<Longrightarrow> length (il_src lx') < length (il_src lx)"
    "tok_bq t + bq_count (il_src lx') \<le> bq_count (il_src lx)"
proof -
  define w where "w = skip_ws lx"
  have w: "lex_moves lx w" "suffix (il_src w) (il_src lx)"
    unfolding w_def by (rule skip_ws_moves, rule lex_moves_keep(1) [OF skip_ws_moves])
  show "t_kind t = TK_EOF \<longleftrightarrow> lex_cur (skip_ws lx) = CHR 0x00"
    using lex_token_kind [of w] by (simp add: t_def icn_lex_next_def lex_one_token w_def)
  show "t_kind t = TK_EOF \<Longrightarrow> lex_cur lx' = CHR 0x00"
    using lex_token_kind [of w] by (simp add: t_def lx'_def icn_lex_next_def lex_one_token w_def split: if_splits)
  show "lex_moves lx lx'"
  proof (cases "lex_cur w = CHR 0x00")
    case True
    then show ?thesis using w by (simp add: lx'_def icn_lex_next_def lex_one_token w_def)
  next
    case False
    then have "lex_moves (lex_adv w) lx'" using lex_token_moves [of w]
      by (simp add: lx'_def icn_lex_next_def lex_one_token w_def)
    then show ?thesis using lex_moves_trans lex_moves.adv [OF w(1)] by blast
  qed
  show "length (il_src lx') < length (il_src lx)" if "t_kind t \<noteq> TK_EOF"
  proof -
    have n: "lex_cur w \<noteq> CHR 0x00" using that by (auto simp: t_def icn_lex_next_def lex_one_token w_def)
    then have "lex_moves (lex_adv w) lx'" using lex_token_moves [of w]
      by (simp add: lx'_def icn_lex_next_def lex_one_token w_def)
    then show ?thesis using lex_moves_less n suffix_length_le [OF w(2)] by (meson less_le_trans)
  qed
  show "tok_bq t + bq_count (il_src lx') \<le> bq_count (il_src lx)"
  proof (cases "lex_cur w = CHR 0x00")
    case True
    then show ?thesis using bq_suffix [OF w(2)]
      by (simp add: t_def lx'_def icn_lex_next_def lex_one_token w_def tok_bq_def)
  next
    case False
    then show ?thesis using lex_token_kind [of w] bq_suffix [OF w(2)]
      by (simp add: t_def lx'_def icn_lex_next_def lex_one_token w_def)
  qed
qed

text \<open>
  C23. One call of the Icon lexer leaves a suffix of the text, shorter unless it answers the end,
  and the end is answered only at a NUL; the Unicon switch stays, errors and traps are not
  forgotten; and without \<open>#line\<close> directives the line number moves by the new lines passed.
\<close>

theorem icn_lex_next_progress:
  "suffix (il_src (snd (icn_lex_next lx))) (il_src lx)
   \<and> (if t_kind (fst (icn_lex_next lx)) = TK_EOF then lex_cur (snd (icn_lex_next lx)) = CHR 0x00
      else length (il_src (snd (icn_lex_next lx))) < length (il_src lx))
   \<and> il_unicon (snd (icn_lex_next lx)) = il_unicon lx
   \<and> (il_error lx \<longrightarrow> il_error (snd (icn_lex_next lx))) \<and> (il_trap lx \<longrightarrow> il_trap (snd (icn_lex_next lx)))
   \<and> (\<not> sublist ''#line'' (il_src lx) \<longrightarrow>
        il_line (snd (icn_lex_next lx)) + int (nl (il_src (snd (icn_lex_next lx))))
        = il_line lx + int (nl (il_src lx)))"
  using lex_one_props [of lx] lex_moves_keep [OF lex_one_props(1) [of lx]] by (simp add: lines_of_def)

theorem icn_lex_next_progress_witness:
  "length (il_src (snd (icn_lex_next \<lparr>il_src = ''x := 1;'', il_line = 1, il_col = 1, il_error = False,
      il_msg = [], il_unicon = False, il_trap = False\<rparr>))) \<le> 7"
  using icn_lex_next_progress [of "\<lparr>il_src = ''x := 1;'', il_line = 1, il_col = 1, il_error = False,
      il_msg = [], il_unicon = False, il_trap = False\<rparr>"]
  by (auto dest: suffix_length_le)

section \<open>Spellings\<close>

text \<open>The kinds whose spelling is an operator or a bracket.\<close>

definition op_kinds :: "tk list" where
  "op_kinds =
    [TK_PLUS, TK_MINUS, TK_STAR, TK_SLASH, TK_MOD, TK_CARET, TK_LT, TK_LE, TK_GT, TK_GE, TK_EQ,
     TK_NEQ, TK_SLT, TK_SLE, TK_SGT, TK_SGE, TK_SEQ, TK_SNE, TK_CONCAT, TK_LCONCAT, TK_ASSIGN,
     TK_SWAP, TK_REVASSIGN, TK_AUGPLUS, TK_AUGMINUS, TK_AUGSTAR, TK_AUGSLASH, TK_AUGMOD,
     TK_AUGPOW, TK_AUGCONCAT, TK_AUGLCONCAT, TK_AUGAT, TK_AUGIDENTICAL, TK_AUGNOTIDENT,
     TK_AUGAND, TK_AUGCSET_UNION, TK_AUGCSET_DIFF, TK_AUGCSET_INTER, TK_AUGSCAN, TK_AUGEQ,
     TK_AUGSEQ, TK_AUGLT, TK_AUGLE, TK_AUGGT, TK_AUGGE, TK_AUGNE, TK_AUGSLT, TK_AUGSLE,
     TK_AUGSGT, TK_AUGSGE, TK_AUGSNE, TK_VALSWAP, TK_IDENTICAL, TK_NOTIDENT, TK_PLUSCOLON,
     TK_MINUSCOLON, TK_PLUSPLUS, TK_MINUSMINUS, TK_STARSTAR, TK_AND, TK_BAR, TK_BACKSLASH,
     TK_BANG, TK_QMARK, TK_AT, TK_TILDE, TK_DOT, TK_LPAREN, TK_RPAREN, TK_LBRACE, TK_RBRACE,
     TK_LBRACK, TK_RBRACK, TK_COMMA, TK_SEMICOL, TK_COLON, TK_COLONCOLON, TK_PMATCH, TK_POR,
     TK_PAND, TK_PASSNM, TK_PIMD, TK_PSETCUR]"

definition word_kinds :: "tk list" where
  "word_kinds = map snd kw_table"

definition unicon_word_kinds :: "tk list" where
  "unicon_word_kinds = map snd unicon_kw_table"

lemma skip_ws_still:
  assumes "il_src lx = c # s" "\<not> c_isspace c" "c \<noteq> CHR ''#''" "c \<noteq> CHR ''$''"
    "c = CHR ''-'' \<Longrightarrow> \<not> is_blank_tab (pk 0 s) \<and> pk 0 s \<noteq> CHR ''I'' \<and> pk 0 s \<noteq> CHR ''E''"
  shows "il_src (skip_ws lx) = il_src lx" "c \<noteq> CHR ''-'' \<Longrightarrow> skip_ws lx = lx"
    "il_line (skip_ws lx) = il_line lx"
proof -
  have o: "lex_over c_isspace lx = lx" using assms by (subst lex_over_step) (simp add: lex_cur_def)
  have c: "lex_cur lx = c" using assms(1) by (simp add: lex_cur_def)
  define r where "r = lex_over is_blank_tab (lex_adv lx)"
  have r: "il_src r = s \<and> il_line r = il_line lx" if "c = CHR ''-''"
  proof -
    have "r = lex_adv lx" using assms that by (subst r_def, subst lex_over_step) (simp add: lex_cur_def)
    then show ?thesis using assms(1) that by (simp add: lex_advance_def)
  qed
  have "take 6 s \<noteq> ''IMPORT'' \<and> take 6 s \<noteq> ''EXPORT''" if "c = CHR ''-''"
    using assms(5) [OF that] by (cases s) auto
  then have "skip_ws lx = (if c = CHR ''-'' then r\<lparr>il_src := il_src lx\<rparr> else lx)"
    using skip_ws_eq [OF refl refl, of lx] o c r assms(3,4) by (simp add: r_def [symmetric])
  then show "il_src (skip_ws lx) = il_src lx" "c \<noteq> CHR ''-'' \<Longrightarrow> skip_ws lx = lx"
    "il_line (skip_ws lx) = il_line lx" using r by auto
qed

lemmas lex_eval = lex_token_def lex_arith_def lex_compare_def lex_other_def lex_dot_def aug_or_def
  single_kind_def lex_cur_def lex_peek1_def c_class_defs Let_def

lemma lex_op_spelling:
  assumes "k \<in> set op_kinds" "k = TK_COLONCOLON \<Longrightarrow> il_unicon w" "il_src w = icn_tk_name k @ CHR '';'' # r"
  shows "t_kind (fst (lex_token w)) = k \<and> il_src (snd (lex_token w)) = CHR '';'' # r"
proof -
  have "list_all (\<lambda>k. il_src w = icn_tk_name k @ CHR '';'' # r \<longrightarrow> (k = TK_COLONCOLON \<longrightarrow> il_unicon w) \<longrightarrow>
      t_kind (fst (lex_token w)) = k \<and> il_src (snd (lex_token w)) = CHR '';'' # r) op_kinds"
    unfolding op_kinds_def list.pred_inject by (intro conjI impI TrueI; simp add: lex_eval)
  then show ?thesis using assms by (simp add: list_all_iff)
qed

lemma word_spelling:
  assumes "k \<in> set word_kinds \<or> u \<and> k \<in> set unicon_word_kinds"
  shows "lookup_keyword (icn_tk_name k) u = k \<and> k \<noteq> TK_IDENT \<and> icn_tk_name k \<noteq> []
    \<and> list_all c_isalpha (icn_tk_name k)"
proof -
  have "list_all (\<lambda>k. lookup_keyword (icn_tk_name k) u = k \<and> k \<noteq> TK_IDENT \<and> icn_tk_name k \<noteq> []
      \<and> list_all c_isalpha (icn_tk_name k)) word_kinds" for u
    unfolding word_kinds_def kw_table_def list.map snd_conv list.pred_inject
    by (intro conjI TrueI; simp add: lookup_keyword_def kw_table_def c_class_defs)
  moreover have "list_all (\<lambda>k. lookup_keyword (icn_tk_name k) True = k \<and> k \<noteq> TK_IDENT \<and> icn_tk_name k \<noteq> []
      \<and> list_all c_isalpha (icn_tk_name k)) unicon_word_kinds"
    unfolding unicon_word_kinds_def unicon_kw_table_def list.map snd_conv list.pred_inject
    by (intro conjI TrueI; simp add: lookup_keyword_def kw_table_def unicon_kw_table_def c_class_defs)
  ultimately show ?thesis using assms by (auto simp: list_all_iff)
qed

lemma takeWhile_stop: "list_all P s \<Longrightarrow> \<not> P c \<Longrightarrow> takeWhile P (s @ c # r) = s \<and> dropWhile P (s @ c # r) = c # r"
  by (induction s) auto

lemma alpha_ident: "list_all c_isalpha s \<Longrightarrow> list_all (\<lambda>c. c \<noteq> CHR 0x00 \<and> is_ident_char c) s"
  by (auto simp: list_all_iff is_ident_char_def c_isalnum_def)

lemma lex_token_ident:
  assumes "il_src w = c # s" "c_isalpha c \<or> c = CHR ''_''"
  shows "lex_token w = scan_ident w"
proof -
  have "\<not> c_isdigit c" "c \<noteq> CHR 0x22" "c \<noteq> CHR 0x27" using assms(2) by (auto simp: c_class_defs)
  then show ?thesis using assms by (simp add: lex_token_def Let_def lex_cur_def)
qed

lemma lex_word_spelling:
  assumes "k \<in> set word_kinds \<or> il_unicon w \<and> k \<in> set unicon_word_kinds" "il_src w = icn_tk_name k @ CHR '';'' # r"
  shows "t_kind (fst (lex_token w)) = k \<and> il_src (snd (lex_token w)) = CHR '';'' # r"
proof -
  note s = word_spelling [OF assms(1)]
  obtain c n where n: "icn_tk_name k = c # n" "c_isalpha c" using s by (cases "icn_tk_name k") auto
  have t: "takeWhile (\<lambda>c. c \<noteq> CHR 0x00 \<and> is_ident_char c) (il_src w) = icn_tk_name k
      \<and> dropWhile (\<lambda>c. c \<noteq> CHR 0x00 \<and> is_ident_char c) (il_src w) = CHR '';'' # r"
    unfolding assms(2) using takeWhile_stop [OF alpha_ident] s by (simp add: is_ident_char_def c_class_defs)
  have "lex_token w = scan_ident w" using lex_token_ident [of w c "n @ CHR '';'' # r"] assms(2) n by simp
  then show ?thesis using t s by (simp add: scan_ident_def case_prod_beta Let_def)
qed

lemma op_first_char:
  assumes "k \<in> set op_kinds"
  shows "\<exists>c n. icn_tk_name k = c # n \<and> \<not> c_isspace c \<and> c \<noteq> CHR ''#'' \<and> c \<noteq> CHR ''$'' \<and> c \<noteq> CHR 0x00
    \<and> (\<forall>r. \<not> is_blank_tab (pk 0 (n @ CHR '';'' # r)) \<and> pk 0 (n @ CHR '';'' # r) \<noteq> CHR ''I''
      \<and> pk 0 (n @ CHR '';'' # r) \<noteq> CHR ''E'')"
proof -
  have "list_all (\<lambda>k. \<exists>c n. icn_tk_name k = c # n \<and> \<not> c_isspace c \<and> c \<noteq> CHR ''#'' \<and> c \<noteq> CHR ''$''
      \<and> c \<noteq> CHR 0x00 \<and> (\<forall>r. \<not> is_blank_tab (pk 0 (n @ CHR '';'' # r)) \<and> pk 0 (n @ CHR '';'' # r) \<noteq> CHR ''I''
      \<and> pk 0 (n @ CHR '';'' # r) \<noteq> CHR ''E'')) op_kinds"
    unfolding op_kinds_def list.pred_inject
    by (intro conjI TrueI; simp add: c_class_defs is_blank_tab_def)
  then show ?thesis using assms by (auto simp: list_all_iff)
qed

text \<open>
  C22. Spelling round trip: every operator, bracket and keyword, written the way \<open>icn_tk_name\<close>
  names its kind in messages and followed by a semicolon, is read back as that kind, whatever
  comes after; the words of Unicon and \<open>::\<close> need the Unicon switch.
\<close>

theorem icn_spelling_roundtrip:
  assumes "k \<in> set (op_kinds @ word_kinds) \<or> il_unicon lx \<and> k \<in> set unicon_word_kinds"
    "k = TK_COLONCOLON \<Longrightarrow> il_unicon lx" "il_src lx = icn_tk_name k @ CHR '';'' # r"
  shows "t_kind (fst (icn_lex_next lx)) = k \<and> il_src (snd (icn_lex_next lx)) = CHR '';'' # r"
proof -
  have "\<exists>c n. icn_tk_name k = c # n \<and> \<not> c_isspace c \<and> c \<noteq> CHR ''#'' \<and> c \<noteq> CHR ''$'' \<and> c \<noteq> CHR 0x00
    \<and> (c = CHR ''-'' \<longrightarrow> \<not> is_blank_tab (pk 0 (n @ CHR '';'' # r)) \<and> pk 0 (n @ CHR '';'' # r) \<noteq> CHR ''I''
      \<and> pk 0 (n @ CHR '';'' # r) \<noteq> CHR ''E'')"
  proof (cases "k \<in> set op_kinds")
    case True
    then show ?thesis using op_first_char by blast
  next
    case False
    then obtain c n where "icn_tk_name k = c # n" "c_isalpha c"
      using word_spelling [of k "il_unicon lx"] assms(1) by (cases "icn_tk_name k") auto
    then show ?thesis by (auto simp: c_class_defs)
  qed
  then obtain c n where n: "icn_tk_name k = c # n" "\<not> c_isspace c" "c \<noteq> CHR ''#''" "c \<noteq> CHR ''$''" "c \<noteq> CHR 0x00"
    "c = CHR ''-'' \<Longrightarrow> \<not> is_blank_tab (pk 0 (n @ CHR '';'' # r)) \<and> pk 0 (n @ CHR '';'' # r) \<noteq> CHR ''I''
      \<and> pk 0 (n @ CHR '';'' # r) \<noteq> CHR ''E''" by blast
  define w where "w = skip_ws lx"
  have w: "il_src w = icn_tk_name k @ CHR '';'' # r" "il_unicon w = il_unicon lx"
    using skip_ws_still(1) [of lx c "n @ CHR '';'' # r"] n assms(3) lex_moves_keep(2) [OF skip_ws_moves]
    by (simp_all add: w_def)
  have "lex_cur w \<noteq> CHR 0x00" using w n by (simp add: lex_cur_def)
  then have "icn_lex_next lx = lex_token w" by (simp add: icn_lex_next_def lex_one_token w_def)
  then show ?thesis using lex_op_spelling [of k w r] lex_word_spelling [of k w r] assms w by auto
qed

theorem icn_spelling_roundtrip_witness:
  "t_kind (fst (icn_lex_next \<lparr>il_src = ''|||:=;x'', il_line = 1, il_col = 1, il_error = False, il_msg = [],
      il_unicon = False, il_trap = False\<rparr>)) = TK_AUGLCONCAT"
  using icn_spelling_roundtrip [of TK_AUGLCONCAT "\<lparr>il_src = ''|||:=;x'', il_line = 1, il_col = 1, il_error = False,
    il_msg = [], il_unicon = False, il_trap = False\<rparr>" "''x''"]
  by (simp add: op_kinds_def)

section \<open>Texts\<close>

text \<open>A text between double quotes: the quote, the backslash, the underline and the NUL are escaped.\<close>

fun icn_quote :: "string \<Rightarrow> string" where
  "icn_quote [] = []"
| "icn_quote (c # s) =
     (if c = CHR 0x22 \<or> c = CHR 0x5C \<or> c = CHR ''_'' then [CHR 0x5C, c]
      else if c = CHR 0x00 then [CHR 0x5C, CHR ''x'', CHR ''0'', CHR ''0'']
      else [c]) @ icn_quote s"

lemma str_body_plain:
  assumes "il_src lx = c # p" "c \<noteq> CHR 0x00" "c \<noteq> CHR 0x22" "c \<noteq> CHR 0x5C" "c \<noteq> CHR ''_''"
  shows "str_body lx buf = str_body (lex_adv lx) (buf @ [c])"
  using assms by (subst str_body_step) (simp add: lex_cur_def)

lemma str_body_escaped:
  assumes "il_src lx = CHR 0x5C # c # p" "c = CHR 0x22 \<or> c = CHR 0x5C \<or> c = CHR ''_''"
  shows "str_body lx buf = str_body (lex_adv (lex_adv lx)) (buf @ [c])"
proof -
  have "lex_escape c y = (c, y)" for y
    using assms(2)
    by (elim disjE) (simp_all add: lex_escape_def is_octal_def icn_esc_simple_def less_eq_char_def)
  moreover have "lex_cur lx = CHR 0x5C" "lex_cur (lex_adv lx) = c" using assms(1) by (simp_all add: lex_cur_def)
  ultimately show ?thesis by (subst str_body_step) simp
qed

lemma str_body_nul:
  assumes "il_src lx = CHR 0x5C # CHR ''x'' # CHR ''0'' # CHR ''0'' # p"
  shows "str_body lx buf = str_body (lex_adv (lex_adv (lex_adv (lex_adv lx)))) (buf @ [CHR 0x00])"
proof -
  have "lex_digits 2 16 c_isxdigit 0 (lex_adv (lex_adv lx)) = (0, lex_adv (lex_adv (lex_adv (lex_adv lx))))"
    using assms by (simp add: numeral_2_eq_2 lex_cur_def c_class_defs xdigit_val_def)
  then have "lex_escape (CHR ''x'') (lex_adv (lex_adv lx)) = (CHR 0x00, lex_adv (lex_adv (lex_adv (lex_adv lx))))"
    by (simp add: lex_escape_def char_of_def)
  then show ?thesis using assms by (subst str_body_step) (simp add: lex_cur_def)
qed

lemma str_body_quote:
  "il_src lx = icn_quote s @ CHR 0x22 # r \<Longrightarrow>
     fst (str_body lx buf) = buf @ s \<and> il_src (snd (str_body lx buf)) = CHR 0x22 # r"
proof (induction s arbitrary: lx buf)
  case Nil
  then show ?case by (subst (1 2) str_body_step) (simp add: lex_cur_def)
next
  case (Cons c s)
  have "str_body lx buf = str_body (lex_adv lx) (buf @ [c]) \<and> il_src (lex_adv lx) = icn_quote s @ CHR 0x22 # r
    \<or> str_body lx buf = str_body (lex_adv (lex_adv lx)) (buf @ [c]) \<and> il_src (lex_adv (lex_adv lx)) = icn_quote s @ CHR 0x22 # r
    \<or> str_body lx buf = str_body (lex_adv (lex_adv (lex_adv (lex_adv lx)))) (buf @ [c])
      \<and> il_src (lex_adv (lex_adv (lex_adv (lex_adv lx)))) = icn_quote s @ CHR 0x22 # r"
  proof (cases "c = CHR 0x22 \<or> c = CHR 0x5C \<or> c = CHR ''_''")
    case True
    then have "il_src lx = CHR 0x5C # c # icn_quote s @ CHR 0x22 # r" using Cons.prems by simp
    then show ?thesis using str_body_escaped [OF _ True] by simp
  next
    case False
    show ?thesis
    proof (cases "c = CHR 0x00")
      case True
      then have "il_src lx = CHR 0x5C # CHR ''x'' # CHR ''0'' # CHR ''0'' # icn_quote s @ CHR 0x22 # r"
        using Cons.prems by simp
      then show ?thesis using str_body_nul True by simp
    next
      case n: False
      then have "il_src lx = c # icn_quote s @ CHR 0x22 # r" using Cons.prems False by simp
      then show ?thesis using str_body_plain [of lx c] False n by simp
    qed
  qed
  then show ?case using Cons.IH [of "lex_adv lx" "buf @ [c]"] Cons.IH [of "lex_adv (lex_adv lx)" "buf @ [c]"]
      Cons.IH [of "lex_adv (lex_adv (lex_adv (lex_adv lx)))" "buf @ [c]"] by auto
qed

text \<open>
  C31. String literals: every text, NUL, quotes, backslashes and new lines included, written
  between double quotes with its escapes is read back by one call as exactly that text.
\<close>

theorem icn_string_roundtrip:
  assumes "il_src lx = CHR 0x22 # icn_quote s @ CHR 0x22 # r"
  shows "fst (icn_lex_next lx) = val_tok TK_STRING (V_sval s) (il_line lx) (il_col lx)
    \<and> il_src (snd (icn_lex_next lx)) = r"
proof -
  have w: "skip_ws lx = lx" by (rule skip_ws_still(2)) (use assms in \<open>auto simp: c_class_defs\<close>)
  have "lex_one lx = scan_string lx"
    using assms by (simp add: lex_one_token w lex_token_def lex_cur_def Let_def)
  moreover have "il_src (lex_adv lx) = icn_quote s @ CHR 0x22 # r" using assms by simp
  from str_body_quote [OF this, of "[]"] have "fst (str_body (lex_adv lx) []) = s"
    "il_src (snd (str_body (lex_adv lx) [])) = CHR 0x22 # r" by simp_all
  ultimately show ?thesis by (simp add: icn_lex_next_def scan_string_def case_prod_beta Let_def lex_cur_def)
qed

theorem icn_string_roundtrip_witness:
  "t_val (fst (icn_lex_next \<lparr>il_src = CHR 0x22 # icn_quote [CHR ''a'', CHR 0x22, CHR 0x00] @ CHR 0x22 # '';'',
      il_line = 1, il_col = 1, il_error = False, il_msg = [], il_unicon = False, il_trap = False\<rparr>))
    = V_sval [CHR ''a'', CHR 0x22, CHR 0x00]"
  using icn_string_roundtrip [of "\<lparr>il_src = CHR 0x22 # icn_quote [CHR ''a'', CHR 0x22, CHR 0x00] @ CHR 0x22 # '';'',
      il_line = 1, il_col = 1, il_error = False, il_msg = [], il_unicon = False, il_trap = False\<rparr>"
      "[CHR ''a'', CHR 0x22, CHR 0x00]" "'';''"]
  by simp

section \<open>Numbers\<close>

text \<open>The number a radix literal stands for.\<close>

fun radix_val :: "nat \<Rightarrow> nat \<Rightarrow> string \<Rightarrow> nat" where
  "radix_val r v [] = v"
| "radix_val r v (c # s) = radix_val r (v * r + radix_digit c) s"

lemma radix_val_mono: "0 < r \<Longrightarrow> v \<le> radix_val r v s"
proof (induction r v s rule: radix_val.induct)
  case (2 r v c s)
  have "v * 1 \<le> v * r" using 2(2) by (intro mult_le_mono) simp_all
  then have "v \<le> v * r + radix_digit c" by linarith
  then show ?case using 2 by (simp add: le_trans)
qed simp

lemma radix_digit_le: "c_isalnum c \<Longrightarrow> radix_digit c \<le> 35"
  by (auto simp: radix_digit_def c_class_defs)

lemma radix_loop_big: "snd (radix_loop r s v True)"
  by (induction s arbitrary: v) (simp_all add: Let_def)

lemma radix_step:
  assumes "0 < r" "d \<le> 35"
  shows "v > (LONG_MAX - d) div r \<longleftrightarrow> v * r + d > LONG_MAX"
proof -
  have "v \<le> (LONG_MAX - d) div r \<longleftrightarrow> v * r \<le> LONG_MAX - d"
    using assms(1) by (simp add: less_eq_div_iff_mult_less_eq)
  also have "\<dots> \<longleftrightarrow> v * r + d \<le> LONG_MAX" using assms(2) by (auto simp: LONG_MAX_def)
  finally show ?thesis by auto
qed

lemma radix_loop_exact:
  assumes "0 < r" "list_all c_isalnum s" "v \<le> LONG_MAX"
  shows "snd (radix_loop r s v False) \<longleftrightarrow> radix_val r v s > LONG_MAX"
    "radix_val r v s \<le> LONG_MAX \<Longrightarrow> fst (radix_loop r s v False) = radix_val r v s"
proof -
  have "(snd (radix_loop r s v False) \<longleftrightarrow> radix_val r v s > LONG_MAX)
    \<and> (radix_val r v s \<le> LONG_MAX \<longrightarrow> fst (radix_loop r s v False) = radix_val r v s)"
    using assms
  proof (induction s arbitrary: v)
    case (Cons c s)
    define d where "d = radix_digit c"
    have d: "d \<le> 35" using Cons.prems by (simp add: d_def radix_digit_le)
    note st = radix_step [OF Cons.prems(1) d, of v]
    show ?case
    proof (cases "v * r + d > LONG_MAX")
      case True
      then have "radix_val r v (c # s) > LONG_MAX"
        using radix_val_mono [OF Cons.prems(1), of "v * r + d" s] by (simp add: d_def)
      then show ?thesis using st True radix_loop_big by (simp add: Let_def d_def)
    next
      case False
      then have "(v * r + d) mod 2 ^ 64 = v * r + d" by (simp add: LONG_MAX_def)
      then show ?thesis using Cons.IH [of "v * r + d"] Cons.prems st False by (simp add: Let_def d_def)
    qed
  qed simp
  then show "snd (radix_loop r s v False) \<longleftrightarrow> radix_val r v s > LONG_MAX"
    "radix_val r v s \<le> LONG_MAX \<Longrightarrow> fst (radix_loop r s v False) = radix_val r v s" by blast+
qed

lemma digits_nonul: "list_all c_isdigit s \<Longrightarrow> list_all (\<lambda>c. c \<noteq> CHR 0x00 \<and> c_isdigit c) s"
  by (auto simp: list_all_iff)

lemma alnums_nonul: "list_all c_isalnum s \<Longrightarrow> list_all (\<lambda>c. c \<noteq> CHR 0x00 \<and> c_isalnum c) s"
  by (auto simp: list_all_iff)

lemma takeWhile_pk:
  assumes "list_all P s" "P (pk 0 r) \<Longrightarrow> pk 0 r = CHR 0x00" "\<not> P (CHR 0x00)"
  shows "takeWhile P (s @ r) = s \<and> dropWhile P (s @ r) = r"
  using assms takeWhile_stop [of P s] by (cases r) (auto simp: list_all_iff)

text \<open>A call on a text that starts with a digit.\<close>

lemma lex_one_number:
  assumes "il_src lx = d # p" "c_isdigit d"
  shows "icn_lex_next lx = scan_number lx"
proof -
  have "skip_ws lx = lx"
    by (rule skip_ws_still(2)) (use assms in \<open>auto simp: c_class_defs is_blank_tab_def\<close>)
  moreover have "d \<noteq> CHR 0x00" "d \<noteq> CHR 0x22" "d \<noteq> CHR 0x27" using assms(2) by (auto simp: c_class_defs)
  ultimately show ?thesis
    using assms by (simp add: icn_lex_next_def lex_one_token lex_token_def lex_cur_def Let_def)
qed

lemma number_head:
  assumes "il_src lx = ds @ e" "ds \<noteq> []" "list_all c_isdigit ds" "\<not> c_isdigit (pk 0 e)"
    "pk 0 e \<noteq> CHR ''x''" "pk 0 e \<noteq> CHR ''X''"
  shows "icn_lex_next lx = scan_number lx"
    "\<not> (lex_cur lx = CHR ''0'' \<and> (lex_peek1 lx = CHR ''x'' \<or> lex_peek1 lx = CHR ''X''))"
    "fst (lex_while c_isdigit lx) = ds" "il_src (lex_over c_isdigit lx) = e"
proof -
  obtain d t where d: "ds = d # t" "c_isdigit d" using assms(2,3) by (cases ds) auto
  show "icn_lex_next lx = scan_number lx" using lex_one_number assms(1) d by simp
  have "lex_peek1 lx = (if t = [] then pk 0 e else hd t)"
    using assms(1) d by (cases t) (simp_all add: lex_peek1_def)
  moreover have "t \<noteq> [] \<Longrightarrow> c_isdigit (hd t)" using assms(3) d by (cases t) auto
  ultimately show "\<not> (lex_cur lx = CHR ''0'' \<and> (lex_peek1 lx = CHR ''x'' \<or> lex_peek1 lx = CHR ''X''))"
    using assms(5,6) by (auto simp: c_class_defs split: if_splits)
  show "fst (lex_while c_isdigit lx) = ds" "il_src (lex_over c_isdigit lx) = e"
    using takeWhile_pk [OF digits_nonul [OF assms(3)], of e] assms(1,4) by simp_all
qed

text \<open>
  Decimal literals: digits that no radix mark, point, exponent or hexadecimal mark follows
  are one token; it is an integer with exactly their value when that fits 63 bits, and otherwise
  a large-integer token that keeps the digits.
\<close>

theorem icn_decimal_exact:
  assumes "il_src lx = ds @ e" "ds \<noteq> []" "list_all c_isdigit ds" "\<not> c_isdigit (pk 0 e)"
    "pk 0 e \<notin> {CHR ''x'', CHR ''X'', CHR ''r'', CHR ''R'', CHR ''.'', CHR ''e'', CHR ''E''}"
  shows "fst (icn_lex_next lx) =
      (if base_val 10 0 ds \<le> LONG_MAX
       then val_tok TK_INT (V_ival (int (base_val 10 0 ds))) (il_line lx) (il_col lx)
       else val_tok TK_BIGINT (V_sval ds) (il_line lx) (il_col lx))
    \<and> il_src (snd (icn_lex_next lx)) = e"
proof -
  note h = number_head [OF assms(1-4)]
  have "lex_cur (lex_over c_isdigit lx) = pk 0 e" using h(4) assms(5) by (simp add: lex_cur_def)
  then show ?thesis
    using h assms(5) by (simp add: scan_number_def case_prod_beta Let_def strtol_def)
qed

theorem icn_decimal_exact_witness:
  "t_val (fst (icn_lex_next \<lparr>il_src = ''9223372036854775808 '', il_line = 1, il_col = 1, il_error = False,
      il_msg = [], il_unicon = False, il_trap = False\<rparr>)) = V_sval ''9223372036854775808''"
  using icn_decimal_exact [of "\<lparr>il_src = ''9223372036854775808 '', il_line = 1, il_col = 1, il_error = False,
      il_msg = [], il_unicon = False, il_trap = False\<rparr>" "''9223372036854775808''" "'' ''"]
  by (simp add: c_class_defs xdigit_val_def LONG_MAX_def)

text \<open>
  C32. Radix literals, \<open>16rff\<close>. The radix is the number before the r, cast to a 32-bit \<open>int\<close> and used as an
  unsigned one: below \<open>2 ^ 31\<close> it is the number written, \<open>4294967298r11\<close> has the radix 2. With a radix that
  is not zero the overflow test of the loop is exact: the token is an integer with the value of the
  digits, which are not checked against the radix, when that is at most \<open>LONG_MAX\<close>, and otherwise a
  large-integer token with the radix as an \<open>int\<close> and the digits. With radix zero the process divides by zero
  when there is a digit; without a digit the token is the integer 0 for every radix. The rest of the text
  comes after the letters and digits in every case.
\<close>

theorem icn_radix_exact:
  assumes "il_src lx = ds @ m # as @ e" "ds \<noteq> []" "list_all c_isdigit ds" "m = CHR ''r'' \<or> m = CHR ''R''"
    "list_all c_isalnum as" "\<not> c_isalnum (pk 0 e)"
  shows "let w = word_of_nat (strtol 10 ds) :: 32 word; R = unat w in
    il_src (snd (icn_lex_next lx)) = e
    \<and> (if R = 0 \<and> as \<noteq> [] then il_trap (snd (icn_lex_next lx))
       else fst (icn_lex_next lx) =
         (if radix_val R 0 as \<le> LONG_MAX
          then val_tok TK_INT (V_ival (int (radix_val R 0 as))) (il_line lx) (il_col lx)
          else val_tok TK_BIGINT (V_sval (fmt_int (sint w) @ ''r'' @ as)) (il_line lx) (il_col lx)))
    \<and> (base_val 10 0 ds < 2 ^ 31 \<longrightarrow> R = base_val 10 0 ds \<and> fmt_int (sint w) = dec_str (base_val 10 0 ds))"
proof -
  define w where "w = (word_of_nat (strtol 10 ds) :: 32 word)"
  define R where "R = unat w"
  define lx1 where "lx1 = lex_adv (lex_over c_isdigit lx)"
  have m: "\<not> c_isdigit (pk 0 (m # as @ e))" "pk 0 (m # as @ e) \<noteq> CHR ''x''" "pk 0 (m # as @ e) \<noteq> CHR ''X''"
    using assms(4) by (auto simp: c_class_defs)
  note h = number_head [OF assms(1-3) m]
  have c: "lex_cur (lex_over c_isdigit lx) = CHR ''r'' \<or> lex_cur (lex_over c_isdigit lx) = CHR ''R''"
    using h(4) assms(4) by (simp add: lex_cur_def)
  have a: "fst (lex_while c_isalnum lx1) = as" "il_src (lex_over c_isalnum lx1) = e"
    using takeWhile_pk [OF alnums_nonul [OF assms(5)], of e] h(4) assms(6) by (simp_all add: lx1_def)
  have small: "base_val 10 0 ds < 2 ^ 31 \<longrightarrow> R = base_val 10 0 ds \<and> sint w = int (base_val 10 0 ds)"
    by (simp add: R_def w_def strtol_def LONG_MAX_def unat_of_nat signed_of_nat signed_take_bit_int_eq_self)
  obtain val big where l: "radix_loop R as 0 False = (val, big)" by (cases "radix_loop R as 0 False")
  have s: "scan_number lx =
      (if R = 0 \<and> as \<noteq> [] then (make_tok TK_ERROR (il_line lx) (il_col lx), (lex_over c_isalnum lx1)\<lparr>il_trap := True\<rparr>)
       else if big then (val_tok TK_BIGINT (V_sval (fmt_int (sint w) @ ''r'' @ as)) (il_line lx) (il_col lx), lex_over c_isalnum lx1)
       else (val_tok TK_INT (V_ival (sint (word_of_nat val :: 64 word))) (il_line lx) (il_col lx), lex_over c_isalnum lx1))"
    unfolding scan_number_def Let_def case_prod_beta if_not_P [OF h(2)] if_P [OF c] h(3) lx1_def [symmetric] a(1)
      w_def [symmetric] R_def [symmetric] l
    by simp
  have v: "0 < R \<Longrightarrow> (big \<longleftrightarrow> radix_val R 0 as > LONG_MAX) \<and> (\<not> big \<longrightarrow> val = radix_val R 0 as)"
    using radix_loop_exact [of R as 0] assms(5) l by (auto simp: not_less)
  have "x \<le> LONG_MAX \<Longrightarrow> sint (word_of_nat x :: 64 word) = int x" for x
    by (simp add: LONG_MAX_def signed_of_nat signed_take_bit_int_eq_self)
  moreover have "as = [] \<Longrightarrow> val = 0 \<and> \<not> big" using l by auto
  moreover have "fmt_int (int n) = dec_str n" for n by (simp add: fmt_int_def)
  ultimately show ?thesis
    unfolding Let_def w_def [symmetric] R_def [symmetric] using s v a h(1) small by auto
qed

theorem icn_radix_exact_witness:
  "t_val (fst (icn_lex_next \<lparr>il_src = ''16rfF;'', il_line = 1, il_col = 1, il_error = False,
      il_msg = [], il_unicon = False, il_trap = False\<rparr>)) = V_ival 255
   \<and> t_val (fst (icn_lex_next \<lparr>il_src = ''4294967298r11;'', il_line = 1, il_col = 1, il_error = False,
      il_msg = [], il_unicon = False, il_trap = False\<rparr>)) = V_ival 3
   \<and> il_trap (snd (icn_lex_next \<lparr>il_src = ''0r1;'', il_line = 1, il_col = 1, il_error = False,
      il_msg = [], il_unicon = False, il_trap = False\<rparr>))"
  using icn_radix_exact [of "\<lparr>il_src = ''16rfF;'', il_line = 1, il_col = 1, il_error = False,
      il_msg = [], il_unicon = False, il_trap = False\<rparr>" "''16''" "CHR ''r''" "''fF''" "'';''"]
    icn_radix_exact [of "\<lparr>il_src = ''4294967298r11;'', il_line = 1, il_col = 1, il_error = False,
      il_msg = [], il_unicon = False, il_trap = False\<rparr>" "''4294967298''" "CHR ''r''" "''11''" "'';''"]
    icn_radix_exact [of "\<lparr>il_src = ''0r1;'', il_line = 1, il_col = 1, il_error = False,
      il_msg = [], il_unicon = False, il_trap = False\<rparr>" "''0''" "CHR ''r''" "''1''" "'';''"]
  by (simp add: c_class_defs xdigit_val_def radix_digit_def LONG_MAX_def strtol_def Let_def)

section \<open>What looking past a minus leaves behind\<close>

lemma lex_one_minus:
  assumes "il_src lx = CHR ''-'' # bs @ c # p" "list_all is_blank_tab bs" "\<not> is_blank_tab c"
    "c \<noteq> CHR ''I''" "c \<noteq> CHR ''E''"
  shows "il_src (skip_ws lx) = il_src lx" "il_col (skip_ws lx) = il_col lx + 1 + int (length bs)"
proof -
  have col: "il_col (lex_over is_blank_tab l) = il_col l + int (length bs) \<and> il_src (lex_over is_blank_tab l) = c # p"
    if "il_src l = bs @ c # p" for l
    using that assms(2)
  proof (induction bs arbitrary: l)
    case Nil
    then have "lex_over is_blank_tab l = l" using assms(3) by (subst lex_over_step) (simp add: lex_cur_def)
    then show ?case using Nil by simp
  next
    case (Cons b bs)
    have b: "is_blank_tab b" "b \<noteq> CHR 0x00" "b \<noteq> CHR 0x0A" using Cons.prems by (auto simp: is_blank_tab_def)
    have o: "lex_over is_blank_tab l = lex_over is_blank_tab (lex_adv l)"
      using b Cons.prems by (subst lex_over_step) (simp add: lex_cur_def)
    have n: "il_src (lex_adv l) = bs @ c # p" "il_col (lex_adv l) = il_col l + 1"
      using b Cons.prems by (simp_all add: lex_advance_def)
    then show ?case using Cons.IH [OF n(1)] Cons.prems o by simp
  qed
  have o: "lex_over c_isspace lx = lx" using assms(1) by (subst lex_over_step) (simp add: lex_cur_def c_class_defs)
  have a: "il_src (lex_adv lx) = bs @ c # p" "il_col (lex_adv lx) = il_col lx + 1"
    using assms(1) by (simp_all add: lex_advance_def)
  define r where "r = lex_over is_blank_tab (lex_adv lx)"
  have r: "il_src r = c # p" "il_col r = il_col lx + 1 + int (length bs)" using col [OF a(1)] a(2) by (simp_all add: r_def)
  have "skip_ws lx = r\<lparr>il_src := il_src lx\<rparr>"
    using skip_ws_eq [OF refl refl, of lx] o r assms(1,4,5) by (simp add: r_def [symmetric] lex_cur_def)
  then show "il_src (skip_ws lx) = il_src lx" "il_col (skip_ws lx) = il_col lx + 1 + int (length bs)"
    using r by simp_all
qed

text \<open>
  The column of a minus is wrong: \<open>skip_ws\<close> reads past the minus and the blanks behind it to
  look for \<open>IMPORT\<close> and \<open>EXPORT\<close> and puts back the position but not the column, so the token is
  placed one column and those blanks too far to the right, and so is the rest of the line.
\<close>

theorem icn_minus_column_drifts:
  assumes "il_src lx = CHR ''-'' # bs @ c # p" "list_all is_blank_tab bs" "c_isalnum c"
    "c \<noteq> CHR ''I''" "c \<noteq> CHR ''E''"
  shows "fst (icn_lex_next lx) =
    (make_tok TK_MINUS (il_line (skip_ws lx)) (il_col lx + 1 + int (length bs)))"
proof -
  have nb: "\<not> is_blank_tab c" using assms(3) by (auto simp: is_blank_tab_def c_class_defs)
  note m = lex_one_minus [OF assms(1,2) nb assms(4,5)]
  have x: "pk 0 (bs @ c # p) \<notin> {CHR ''>'', CHR ''-'', CHR '':''}"
    using assms(2,3) by (cases bs) (auto simp: is_blank_tab_def c_class_defs)
  then show ?thesis
    using m assms(1)
    by (simp add: icn_lex_next_def lex_one_token lex_token_def lex_arith_def lex_cur_def c_class_defs Let_def)
qed

theorem icn_minus_column_drifts_witness:
  "t_col (fst (icn_lex_next \<lparr>il_src = ''-  x'', il_line = 1, il_col = 1, il_error = False, il_msg = [],
      il_unicon = False, il_trap = False\<rparr>)) = 4"
  using icn_minus_column_drifts [of "\<lparr>il_src = ''-  x'', il_line = 1, il_col = 1, il_error = False, il_msg = [],
      il_unicon = False, il_trap = False\<rparr>" "''  ''" "CHR ''x''" "[]"]
  by (simp add: is_blank_tab_def c_class_defs)

text \<open>
  C33. A minus before a name that starts with \<open>IMPORT\<close> hides the rest of the line, wherever on the
  line it stands: the call answers the first token of what follows. A subtraction from such a name
  is lost without a message.
\<close>

theorem icn_minus_import_hides_line:
  assumes "il_src lx = CHR ''-'' # ''IMPORT'' @ s @ CHR 0x0A # p" "CHR 0x0A \<notin> set s" "CHR 0x00 \<notin> set s"
  shows "\<exists>lx'. il_src lx' = CHR 0x0A # p \<and> icn_lex_next lx = icn_lex_next lx'"
proof -
  have o: "lex_over c_isspace lx = lx" using assms(1) by (subst lex_over_step) (simp add: lex_cur_def c_class_defs)
  have r: "lex_over is_blank_tab (lex_adv lx) = lex_adv lx"
    using assms(1) by (subst lex_over_step) (simp add: lex_cur_def is_blank_tab_def)
  define lx' where "lx' = lex_over not_eol (lex_adv lx)"
  have "list_all (\<lambda>c. c \<noteq> CHR 0x00 \<and> not_eol c) (''IMPORT'' @ s)"
    using assms(2,3) by (auto simp: list_all_iff not_eol_def)
  then have src: "il_src lx' = CHR 0x0A # p"
    using takeWhile_stop [of _ "''IMPORT'' @ s" "CHR 0x0A" p] assms(1) by (simp add: lx'_def not_eol_def)
  have "skip_ws lx = skip_ws lx'"
    using skip_ws_eq [OF refl refl, of lx] o r assms(1) by (simp add: lx'_def lex_cur_def)
  then have "icn_lex_next lx = icn_lex_next lx'" by (simp add: icn_lex_next_def lex_one_token)
  then show ?thesis using src by blast
qed

theorem icn_minus_import_hides_line_witness:
  "\<exists>lx'. il_src lx' = CHR 0x0A # ''end''
     \<and> icn_lex_next \<lparr>il_src = CHR ''-'' # ''IMPORT'' @ ''ANCE;'' @ CHR 0x0A # ''end'', il_line = 1, il_col = 9,
         il_error = False, il_msg = [], il_unicon = False, il_trap = False\<rparr> = icn_lex_next lx'"
  by (rule icn_minus_import_hides_line [where s = "''ANCE;''"]) simp_all

section \<open>Recognising Unicon\<close>

definition word_tok :: "icn_token \<Rightarrow> bool" where
  "word_tok t \<longleftrightarrow> t_kind t = TK_IDENT"

definition tok_weight :: "icn_token \<Rightarrow> nat" where
  "tok_weight t = (if t_kind t = TK_EOF then 0 else 1)"

lemma next_weight:
  "length (il_src (snd (icn_lex_next lx))) + tok_weight (fst (icn_lex_next lx)) \<le> length (il_src lx)"
  using lex_one_props(4) [of lx] suffix_length_le [OF lex_moves_keep(1) [OF lex_one_props(1) [of lx]]]
  by (auto simp: tok_weight_def)

text \<open>The loop of \<open>icn_source_is_unicon\<close> over a token and the one behind it.\<close>

function unicon_scan :: "icn_token \<Rightarrow> icn_token \<Rightarrow> int \<Rightarrow> icn_lexer \<Rightarrow> bool" where
  "unicon_scan a b last_line lx =
     (if t_kind a = TK_EOF then False
      else let first = (t_line a \<noteq> last_line); w = sval_of (t_val a);
               found = (word_tok a
                 \<and> (w = ''thread'' \<or> w = ''critical'' \<or> w = ''abstract''
                   \<or> first \<and> w = ''class'' \<and> word_tok b \<and> t_line b = t_line a
                   \<or> first \<and> w = ''import'' \<and> word_tok b \<and> t_line b = t_line a
                   \<or> first \<and> w = ''package'' \<and> (word_tok b \<or> t_kind b = TK_STRING) \<and> t_line b = t_line a))
           in if found then True
              else let (t, lx') = icn_lex_next lx in unicon_scan b t (t_line a) lx')"
  by pat_completeness auto

termination
proof (relation "measure (\<lambda>(a, b, n, lx). length (il_src lx) + tok_weight a + tok_weight b)", goal_cases)
  case (2 a b last_line lx first w found x t lx')
  then have "t = fst (icn_lex_next lx)" "lx' = snd (icn_lex_next lx)" by (metis fst_conv, metis snd_conv)
  then show ?case using next_weight [of lx] 2(1) by (simp add: tok_weight_def [of a])
qed simp

definition icn_source_is_unicon :: "(string \<Rightarrow> string) \<Rightarrow> string \<Rightarrow> bool" where
  "icn_source_is_unicon pp src =
     (let (a, lx) = icn_lex_next (icn_lex_init pp src); (b, lx) = icn_lex_next lx
      in unicon_scan a b 0 lx)"

end
