(* ===== verification/Icon_Parse.thy ===== *)
theory Icon_Parse
  imports Icon_Lex_Props "HOL-Library.Monad_Syntax"
begin

text \<open>
  The Icon parser (\<open>src/parsers/icon/icon_parse.c\<close>): recursive descent over the tokens of the lexer,
  two at a time, building the trees of \<open>src/ir/ast.h\<close>. The functions of the code call each other, so
  the model names each of them, and each of its loops, by a constructor of \<open>nt\<close>: the body of a
  function is a definition over \<open>rec\<close>, what the calls it makes return, and \<open>icn_parse\<close> ties the knot.
  Its value is \<open>None\<close> where the code would not return.
\<close>

section \<open>Trees\<close>

text \<open>The kinds of \<open>tree_e\<close> this parser makes, and the node: a child may be the null pointer.\<close>

datatype (plugins del: code quickcheck_random quickcheck_exhaustive quickcheck_bounded_forall
    quickcheck_full_exhaustive quickcheck_narrowing transfer lifting size) tree_e =
    TT_QLIT | TT_ILIT | TT_FLIT | TT_CSET | TT_NUL | TT_VAR | TT_DEFER | TT_MNS | TT_PLS |
    TT_ADD | TT_SUB | TT_MUL | TT_DIV | TT_MOD | TT_POW | TT_CAT | TT_ALT | TT_VLIST |
    TT_CAPT_COND_ASGN | TT_CAPT_IMMED_ASGN | TT_CAPT_CURSOR | TT_FNC | TT_IDX | TT_ASSIGN |
    TT_SCAN | TT_SWAP | TT_SUSPEND | TT_TO | TT_TO_BY | TT_LIMIT | TT_CREATE | TT_ACTIVATE |
    TT_ALTERNATE | TT_REPALT | TT_ITERATE | TT_MAKELIST | TT_LT | TT_LE | TT_GT | TT_GE | TT_EQ |
    TT_NE | TT_LLT | TT_LLE | TT_LGT | TT_LGE | TT_LEQ | TT_LNE | TT_CSET_COMPL | TT_CSET_UNION |
    TT_CSET_DIFF | TT_CSET_INTER | TT_LCONCAT | TT_NONNULL | TT_NULL | TT_NOT | TT_SIZE |
    TT_RANDOM | TT_IDENTICAL | TT_AUGOP | TT_SEQ_EXPR | TT_EVERY | TT_WHILE | TT_UNTIL |
    TT_REPEAT | TT_IF | TT_CASE | TT_RETURN | TT_PROC_FAIL | TT_LOOP_BREAK | TT_LOOP_NEXT |
    TT_BANG_BINARY | TT_SECTION | TT_SECTION_PLUS | TT_SECTION_MINUS | TT_RECORD | TT_FIELD |
    TT_GLOBAL | TT_LOCAL | TT_STATIC_DECL | TT_INITIAL | TT_REVASSIGN | TT_REVSWAP | TT_LINK |
    TT_INVOCABLE | TT_PROGRAM | TT_STMT | TT_ATTR | TT_PROC_DECL | TT_CLASS_DECL |
    TT_MODULE_DECL | TT_USE_DECL | TT_CONJ | TT_DEREF | TT_NIDENTICAL | TT_PMATCH | TT_PAND

datatype tree_v = V_0 | V_i int | V_s string | V_d string

datatype icn_tree =
  Node (n_kind: tree_e) (n_v: tree_v) (n_slen: int) (n_line: int) (n_c: "icn_tree option list")

datatype augop =
    AUGOP_ADD | AUGOP_SUB | AUGOP_MUL | AUGOP_DIV | AUGOP_MOD | AUGOP_POW | AUGOP_CONCAT
  | AUGOP_CSET_UNION | AUGOP_CSET_DIFF | AUGOP_CSET_INTER | AUGOP_SCAN | AUGOP_EQ | AUGOP_SEQ | AUGOP_LT
  | AUGOP_LE | AUGOP_GT | AUGOP_GE | AUGOP_NE | AUGOP_SLT | AUGOP_SLE | AUGOP_SGT | AUGOP_SGE | AUGOP_SNE
  | AUGOP_LCONCAT | AUGOP_ACTIVATE | AUGOP_IDENTICAL | AUGOP_NIDENTICAL | AUGOP_CONJ

primrec augop_num :: "augop \<Rightarrow> int" where
  "augop_num AUGOP_ADD = 1" | "augop_num AUGOP_SUB = 2" | "augop_num AUGOP_MUL = 3"
| "augop_num AUGOP_DIV = 4" | "augop_num AUGOP_MOD = 5" | "augop_num AUGOP_POW = 6"
| "augop_num AUGOP_CONCAT = 7" | "augop_num AUGOP_CSET_UNION = 8" | "augop_num AUGOP_CSET_DIFF = 9"
| "augop_num AUGOP_CSET_INTER = 10" | "augop_num AUGOP_SCAN = 11" | "augop_num AUGOP_EQ = 12"
| "augop_num AUGOP_SEQ = 13" | "augop_num AUGOP_LT = 14" | "augop_num AUGOP_LE = 15"
| "augop_num AUGOP_GT = 16" | "augop_num AUGOP_GE = 17" | "augop_num AUGOP_NE = 18"
| "augop_num AUGOP_SLT = 19" | "augop_num AUGOP_SLE = 20" | "augop_num AUGOP_SGT = 21"
| "augop_num AUGOP_SGE = 22" | "augop_num AUGOP_SNE = 23" | "augop_num AUGOP_LCONCAT = 24"
| "augop_num AUGOP_ACTIVATE = 25" | "augop_num AUGOP_IDENTICAL = 26" | "augop_num AUGOP_NIDENTICAL = 27"
| "augop_num AUGOP_CONJ = 28"

definition ast_node_new :: "tree_e \<Rightarrow> icn_tree" where
  "ast_node_new k = Node k V_0 0 0 []"

definition push_child :: "icn_tree \<Rightarrow> icn_tree option \<Rightarrow> icn_tree" where
  "push_child e c = Node (n_kind e) (n_v e) (n_slen e) (n_line e) (n_c e @ [c])"

definition set_line :: "int \<Rightarrow> icn_tree \<Rightarrow> icn_tree" where
  "set_line l e = Node (n_kind e) (n_v e) (n_slen e) l (n_c e)"

definition set_v :: "tree_v \<Rightarrow> icn_tree \<Rightarrow> icn_tree" where
  "set_v v e = Node (n_kind e) v (n_slen e) (n_line e) (n_c e)"

definition set_slen :: "int \<Rightarrow> icn_tree \<Rightarrow> icn_tree" where
  "set_slen n e = Node (n_kind e) (n_v e) n (n_line e) (n_c e)"

text \<open>\<open>if (body) push_child(e, body)\<close>.\<close>

definition push_opt :: "icn_tree \<Rightarrow> icn_tree option \<Rightarrow> icn_tree" where
  "push_opt e c = (case c of None \<Rightarrow> e | Some t \<Rightarrow> push_child e (Some t))"

definition e_leaf_sval :: "tree_e \<Rightarrow> string \<Rightarrow> icn_tree" where
  "e_leaf_sval k s = Node k (V_s s) (int (length s)) 0 []"

definition e_unary :: "tree_e \<Rightarrow> icn_tree option \<Rightarrow> icn_tree" where
  "e_unary k c = push_child (ast_node_new k) c"

definition e_binary :: "tree_e \<Rightarrow> icn_tree option \<Rightarrow> icn_tree option \<Rightarrow> icn_tree" where
  "e_binary k l r = push_child (push_child (ast_node_new k) l) r"

definition e_binary_at :: "int \<Rightarrow> tree_e \<Rightarrow> icn_tree option \<Rightarrow> icn_tree option \<Rightarrow> icn_tree" where
  "e_binary_at line k l r = (if line > 0 then set_line line (e_binary k l r) else e_binary k l r)"

definition e_unary_at :: "int \<Rightarrow> tree_e \<Rightarrow> icn_tree option \<Rightarrow> icn_tree" where
  "e_unary_at line k c = (if line > 0 then set_line line (e_unary k c) else e_unary k c)"

definition null_leaf :: icn_tree where
  "null_leaf = e_leaf_sval TT_VAR ''&null''"

section \<open>The parser state\<close>

record icn_parser =
  p_lex :: icn_lexer
  p_cur :: icn_token
  p_peek :: icn_token
  p_prev :: tk
  p_tb_line :: int
  p_tb_col :: int
  p_error :: bool
  p_msg :: string

definition parser_error :: "icn_parser \<Rightarrow> string \<Rightarrow> icn_parser" where
  "parser_error p msg =
     (if p_error p then p
      else p\<lparr>p_error := True,
             p_msg := ''line '' @ fmt_int (t_line (p_cur p)) @ '': '' @ msg @ '' (got '' @ icn_tk_name (t_kind (p_cur p)) @ '')''\<rparr>)"

definition advance :: "icn_parser \<Rightarrow> icn_parser" where
  "advance p =
     (let (t, lx) = icn_lex_next (p_lex p)
      in p\<lparr>p_prev := t_kind (p_cur p), p_tb_line := t_line (p_cur p), p_tb_col := t_col (p_cur p),
            p_cur := p_peek p, p_peek := t, p_lex := lx\<rparr>)"

abbreviation kind :: "icn_parser \<Rightarrow> tk" where
  "kind p \<equiv> t_kind (p_cur p)"

abbreviation text_of :: "icn_parser \<Rightarrow> string" where
  "text_of p \<equiv> sval_of (t_val (p_cur p))"

abbreviation line_of :: "icn_parser \<Rightarrow> int" where
  "line_of p \<equiv> t_line (p_cur p)"

text \<open>\<open>match\<close>: whether the token was there, and the state; \<open>expect\<close> answers only the state.\<close>

definition accept :: "icn_parser \<Rightarrow> tk \<Rightarrow> bool \<times> icn_parser" where
  "accept p k = (if kind p = k then (True, advance p) else (False, p))"

definition expect :: "icn_parser \<Rightarrow> tk \<Rightarrow> string \<Rightarrow> icn_parser" where
  "expect p k ctx =
     (if kind p = k then advance p
      else parser_error p (ctx @ '': expected '' @ icn_tk_name k))"

definition icn_parse_init :: "icn_lexer \<Rightarrow> icn_parser" where
  "icn_parse_init lx =
     (let (a, lx) = icn_lex_next lx; (b, lx) = icn_lex_next lx
      in \<lparr>p_lex = lx, p_cur = a, p_peek = b, p_prev = TK_EOF, p_tb_line = 0, p_tb_col = 0,
          p_error = False, p_msg = []\<rparr>)"

text \<open>The functions of the code that call each other, and their loops with what they have built.\<close>

datatype (plugins del: code quickcheck_random quickcheck_exhaustive quickcheck_bounded_forall
    quickcheck_full_exhaustive quickcheck_narrowing transfer lifting size) nt =
    P_expr | P_primary | P_postfix | P_repalt | P_limit | P_unary | P_pow | P_mul | P_add | P_cset
  | P_concat | P_rel | P_and | P_to | P_alt | P_pmatch | P_activate | P_assign | P_scan | P_ctrl
  | P_block | P_stmt
  | L_comma tk icn_tree | L_postfix icn_tree | L_args icn_tree | L_subs icn_tree | L_brace icn_tree
  | L_limit icn_tree | L_mul icn_tree | L_add icn_tree | L_cset icn_tree | L_concat icn_tree
  | L_rel icn_tree | L_and icn_tree | L_to icn_tree | L_alt icn_tree | L_pmatch icn_tree
  | L_activate icn_tree | L_case icn_tree nat | L_block icn_tree nat | L_names tk icn_tree
  | L_params icn_tree | L_stmts icn_tree | L_nlist icn_tree | L_supers icn_tree
  | L_members icn_tree | L_package bool icn_tree | L_link icn_tree | L_file icn_tree

type_synonym icn_result = "(icn_tree option \<times> icn_parser) option"
type_synonym icn_rec = "nt \<times> icn_parser \<Rightarrow> icn_result"

text \<open>\<open>if (!n) return NULL\<close> before a loop that starts from \<open>n\<close>.\<close>

definition then_loop :: "icn_rec \<Rightarrow> nt \<Rightarrow> (icn_tree \<Rightarrow> nt) \<Rightarrow> icn_parser \<Rightarrow> icn_result" where
  "then_loop rec a loop p =
     do { (n, p) \<leftarrow> rec (a, p);
          case n of None \<Rightarrow> Some (None, p) | Some t \<Rightarrow> rec (loop t, p) }"

section \<open>Primaries\<close>

definition icn_begins_nexpr :: "tk \<Rightarrow> bool" where
  "icn_begins_nexpr k \<longleftrightarrow> k \<in>
     {TK_INT, TK_REAL, TK_STRING, TK_CSET, TK_IDENT, TK_COLONCOLON, TK_PUNEVAL, TK_PUNEVAL2, TK_PSETCUR,
      TK_PLUS, TK_MINUS, TK_STAR, TK_SLASH, TK_CARET, TK_BANG, TK_QMARK, TK_AT, TK_TILDE, TK_DOT,
      TK_BACKSLASH, TK_AND, TK_BAR, TK_CONCAT, TK_LCONCAT, TK_PLUSPLUS, TK_MINUSMINUS, TK_STARSTAR,
      TK_EQ, TK_NEQ, TK_SEQ, TK_SNE, TK_IDENTICAL, TK_NOTIDENT, TK_LPAREN, TK_LBRACE, TK_LBRACK,
      TK_IF, TK_CASE, TK_WHILE, TK_UNTIL, TK_REPEAT, TK_EVERY, TK_SUSPEND, TK_RETURN, TK_FAIL, TK_BREAK,
      TK_NEXT, TK_NOT, TK_CREATE, TK_THREAD, TK_CRITICAL}"

text \<open>\<open>if (icn_begins_nexpr(p->cur.kind)) push_child(e, parse_expr(p))\<close>.\<close>

definition opt_expr :: "icn_rec \<Rightarrow> icn_tree \<Rightarrow> icn_parser \<Rightarrow> icn_result" where
  "opt_expr rec e p =
     (if icn_begins_nexpr (kind p)
      then do { (c, p) \<leftarrow> rec (P_expr, p); Some (Some (push_child e c), p) }
      else Some (Some e, p))"

text \<open>An expression between backquotes is read by a lexer and a parser of its own.\<close>

definition parse_backquote :: "(string \<Rightarrow> string) \<Rightarrow> icn_rec \<Rightarrow> icn_parser \<Rightarrow> icn_result" where
  "parse_backquote pp rec p0 =
     (let t = p_cur p0; p = advance p0;
          sub = (icn_lex_init pp (sval_of (t_val t)))\<lparr>il_unicon := il_unicon (p_lex p)\<rparr>
      in do { (inner, sp) \<leftarrow> rec (P_expr, icn_parse_init sub);
              let p = p\<lparr>p_lex := (p_lex p)\<lparr>il_trap := (il_trap (p_lex p) \<or> il_trap (p_lex sp))\<rparr>\<rparr>;
              if p_error sp \<or> inner = None
              then Some (None, parser_error p ''expected an expression between backquotes'')
              else Some (Some (Node TT_DEFER V_0 (if t_kind t = TK_PUNEVAL2 then -2 else 0) (t_line t) [inner]), p) })"

definition leaf_at :: "int \<Rightarrow> string \<Rightarrow> icn_tree" where
  "leaf_at line s = set_line line (e_leaf_sval TT_VAR s)"

definition parse_name :: "icn_parser \<Rightarrow> icn_result" where
  "parse_name p0 =
     (let t = p_cur p0; p = advance p0
      in if kind p = TK_COLONCOLON \<and> t_kind (p_peek p) = TK_IDENT
         then let p = advance p
              in Some (Some (leaf_at (t_line t) (sval_of (t_val t) @ ''::'' @ text_of p)), advance p)
         else Some (Some (leaf_at (t_line t) (sval_of (t_val t))), p))"

definition parse_keyword :: "icn_parser \<Rightarrow> icn_result" where
  "parse_keyword p0 =
     (let t = p_cur p0; p = advance p0;
          kwname = (if kind p = TK_IDENT then Some (text_of p)
                    else let s = icn_tk_name (kind p)
                         in if list_all (\<lambda>c. c_isalpha c \<or> c = CHR ''_'') s then Some s else None)
      in case kwname of
           None \<Rightarrow> Some (None, parser_error p ''expected keyword name after &'')
         | Some s \<Rightarrow> Some (Some (leaf_at (t_line t) (''&'' @ s)), advance p))"

definition parse_paren :: "icn_rec \<Rightarrow> icn_parser \<Rightarrow> icn_result" where
  "parse_paren rec p0 =
     (let p = advance p0
      in if kind p = TK_RPAREN then Some (Some (ast_node_new TT_SEQ_EXPR), advance p)
         else do { (first, p) \<leftarrow> (if kind p = TK_COMMA then Some (Some (ast_node_new TT_NUL), p) else rec (P_expr, p));
                   let p = (if kind p = TK_SEMICOL
                            then parser_error p ''parenthesised expression: a semicolon belongs in a compound expression { }, not in parentheses''
                            else p);
                   if kind p = TK_COMMA
                   then do { (seq, p) \<leftarrow> rec (L_comma TK_RPAREN (push_child (ast_node_new TT_CONJ) first), p);
                             Some (seq, expect p TK_RPAREN ''mutual evaluation'') }
                   else Some (first, expect p TK_RPAREN ''grouped expression'') })"

definition parse_list :: "icn_rec \<Rightarrow> icn_parser \<Rightarrow> icn_result" where
  "parse_list rec p0 =
     (let t = p_cur p0; p = advance p0;
          lst = (if t_line t > 0 then set_line (t_line t) (ast_node_new TT_MAKELIST) else ast_node_new TT_MAKELIST)
      in if kind p = TK_RBRACK then Some (Some lst, expect p TK_RBRACK ''list literal'')
         else do { (c, p) \<leftarrow> (if kind p = TK_COMMA then Some (Some (ast_node_new TT_NUL), p) else rec (P_expr, p));
                   (lst, p) \<leftarrow> rec (L_comma TK_RBRACK (push_child lst c), p);
                   Some (lst, expect p TK_RBRACK ''list literal'') })"

text \<open>The loop both of them share: an omitted element is \<open>TT_NUL\<close>.\<close>

definition comma_loop :: "icn_rec \<Rightarrow> tk \<Rightarrow> icn_tree \<Rightarrow> icn_parser \<Rightarrow> icn_result" where
  "comma_loop rec close seq p =
     (if kind p = TK_COMMA
      then let p = advance p
           in if kind p = close then Some (Some (push_child seq (Some (ast_node_new TT_NUL))), p)
              else if kind p = TK_COMMA then rec (L_comma close (push_child seq (Some (ast_node_new TT_NUL))), p)
              else do { (c, p) \<leftarrow> rec (P_expr, p); rec (L_comma close (push_child seq c), p) }
      else Some (Some seq, p))"

definition ctrl_kind :: "tk \<Rightarrow> bool" where
  "ctrl_kind k \<longleftrightarrow> k \<in> {TK_CASE, TK_RETURN, TK_SUSPEND, TK_IF, TK_EVERY, TK_WHILE, TK_UNTIL, TK_REPEAT,
     TK_CREATE, TK_THREAD, TK_CRITICAL}"

fun ival_of :: "icn_val \<Rightarrow> int" where
  "ival_of (V_ival n) = n"
| "ival_of v = 0"

fun fval_of :: "icn_val \<Rightarrow> string" where
  "fval_of (V_fval s) = s"
| "fval_of v = []"

definition parse_primary :: "(string \<Rightarrow> string) \<Rightarrow> icn_rec \<Rightarrow> icn_parser \<Rightarrow> icn_result" where
  "parse_primary pp rec p =
     (let t = p_cur p; k = kind p
      in if k = TK_INT then Some (Some (set_v (V_i (ival_of (t_val t))) (ast_node_new TT_ILIT)), advance p)
         else if k = TK_BIGINT then
           Some (Some (push_child (push_child (ast_node_new TT_FNC) (Some (e_leaf_sval TT_VAR ''integer'')))
                   (Some (e_leaf_sval TT_QLIT (sval_of (t_val t))))), advance p)
         else if k = TK_REAL then Some (Some (set_v (V_d (fval_of (t_val t))) (ast_node_new TT_FLIT)), advance p)
         else if k = TK_STRING then Some (Some (e_leaf_sval TT_QLIT (sval_of (t_val t))), advance p)
         else if k = TK_CSET then Some (Some (e_leaf_sval TT_CSET (sval_of (t_val t))), advance p)
         else if k = TK_PUNEVAL \<or> k = TK_PUNEVAL2 then parse_backquote pp rec p
         else if k = TK_COLONCOLON then
           (let p = advance p
            in if kind p \<noteq> TK_IDENT then Some (None, parser_error p ''expected a name after ::'')
               else Some (Some (leaf_at (t_line t) (''::'' @ text_of p)), advance p))
         else if k = TK_IDENT then parse_name p
         else if k = TK_AND then parse_keyword p
         else if k = TK_LPAREN then parse_paren rec p
         else if k = TK_LBRACK then parse_list rec p
         else if k = TK_FAIL then Some (Some (ast_node_new TT_PROC_FAIL), advance p)
         else if k = TK_BREAK then opt_expr rec (ast_node_new TT_LOOP_BREAK) (advance p)
         else if k = TK_NEXT then Some (Some (ast_node_new TT_LOOP_NEXT), advance p)
         else if ctrl_kind k then rec (P_ctrl, p)
         else if k = TK_LBRACE then rec (P_block, p)
         else Some (None, advance (parser_error p ''expected expression'')))"

section \<open>Postfix operators\<close>

definition section_with :: "icn_rec \<Rightarrow> tree_e \<Rightarrow> string \<Rightarrow> icn_tree \<Rightarrow> icn_tree option \<Rightarrow> icn_parser \<Rightarrow> icn_result" where
  "section_with rec k ctx n idx p =
     do { (hi, p) \<leftarrow> rec (P_expr, advance p);
          rec (L_postfix (push_child (push_child (push_child (ast_node_new k) (Some n)) idx) hi),
               expect p TK_RBRACK ctx) }"

definition parse_subscript :: "icn_rec \<Rightarrow> icn_tree \<Rightarrow> icn_parser \<Rightarrow> icn_result" where
  "parse_subscript rec n p0 =
     (let p = advance p0
      in if kind p = TK_RBRACK then rec (L_postfix (e_binary TT_IDX (Some n) (Some null_leaf)), advance p)
         else do { (idx, p) \<leftarrow> rec (P_expr, p);
                   if kind p = TK_COLON then section_with rec TT_SECTION ''section'' n idx p
                   else if kind p = TK_PLUSCOLON then section_with rec TT_SECTION_PLUS ''section+:'' n idx p
                   else if kind p = TK_MINUSCOLON then section_with rec TT_SECTION_MINUS ''section-:'' n idx p
                   else do { (n, p) \<leftarrow> rec (L_subs (e_binary TT_IDX (Some n) idx), p);
                             case n of None \<Rightarrow> Some (None, p)
                             | Some t \<Rightarrow> rec (L_postfix t, expect p TK_RBRACK ''subscript'') } })"

definition subs_loop :: "icn_rec \<Rightarrow> icn_tree \<Rightarrow> icn_parser \<Rightarrow> icn_result" where
  "subs_loop rec n p =
     (if kind p = TK_COMMA
      then do { (c, p) \<leftarrow> rec (P_expr, advance p); rec (L_subs (push_child n c), p) }
      else Some (Some n, p))"

text \<open>\<open>do { ... } while (match(p, TK_COMMA))\<close>: an omitted argument is \<open>&null\<close>.\<close>

definition args_loop :: "icn_rec \<Rightarrow> icn_tree \<Rightarrow> icn_parser \<Rightarrow> icn_result" where
  "args_loop rec call p =
     do { (arg, p) \<leftarrow> (if kind p = TK_COMMA \<or> kind p = TK_RPAREN then Some (Some null_leaf, p) else rec (P_expr, p));
          case arg of None \<Rightarrow> Some (Some call, p)
          | Some t \<Rightarrow>
              (let call = push_child call (Some t); (more, p) = accept p TK_COMMA
               in if more then rec (L_args call, p) else Some (Some call, p)) }"

definition brace_loop :: "icn_rec \<Rightarrow> icn_tree \<Rightarrow> icn_parser \<Rightarrow> icn_result" where
  "brace_loop rec lst p =
     do { (arg, p) \<leftarrow> (if kind p = TK_COMMA \<or> kind p = TK_RBRACE then Some (Some null_leaf, p) else rec (P_expr, p));
          case arg of None \<Rightarrow> Some (Some lst, p)
          | Some t \<Rightarrow>
              (let lst = push_child lst (Some (push_child (ast_node_new TT_CREATE) (Some t))); (more, p) = accept p TK_COMMA
               in if more then rec (L_brace lst, p) else Some (Some lst, p)) }"

definition postfix_loop :: "icn_rec \<Rightarrow> icn_tree \<Rightarrow> icn_parser \<Rightarrow> icn_result" where
  "postfix_loop rec n p =
     (if kind p = TK_LPAREN then
        (let p = advance p; call = push_child (ast_node_new TT_FNC) (Some n)
         in do { (c, p) \<leftarrow> (if kind p = TK_RPAREN then Some (Some call, p) else rec (L_args call, p));
                 case c of None \<Rightarrow> Some (None, p)
                 | Some t \<Rightarrow> rec (L_postfix t, expect p TK_RPAREN ''function call'') })
      else if kind p = TK_LBRACK then parse_subscript rec n p
      else if kind p = TK_LBRACE \<and> p_prev p \<in> {TK_IDENT, TK_RPAREN, TK_STRING} then
        (let p = advance p; lst = ast_node_new TT_MAKELIST
         in do { (l, p) \<leftarrow> (if kind p = TK_RBRACE then Some (Some lst, p) else rec (L_brace lst, p));
                 rec (L_postfix (push_child (push_child (ast_node_new TT_FNC) (Some n)) l),
                      expect p TK_RBRACE ''brace call'') })
      else if kind p = TK_DOT then
        (let p = advance p; word = (il_unicon (p_lex p) \<and> unicon_word (kind p))
         in if kind p \<noteq> TK_IDENT \<and> \<not> word then Some (Some n, parser_error p ''expected field name'')
            else let s = (if word then icn_tk_name (kind p) else text_of p)
                 in rec (L_postfix (push_child (push_child (ast_node_new TT_FIELD) (Some n))
                           (Some (e_leaf_sval TT_VAR s))), advance p))
      else Some (Some n, p))"

section \<open>Operators\<close>

definition parse_repalt :: "icn_rec \<Rightarrow> icn_parser \<Rightarrow> icn_result" where
  "parse_repalt rec p =
     (if kind p = TK_BAR
      then do { (c, p) \<leftarrow> rec (P_unary, advance p); Some (Some (e_unary TT_REPALT c), p) }
      else if kind p = TK_CONCAT
      then do { (c, p) \<leftarrow> rec (P_unary, advance p);
                Some (Some (e_unary TT_REPALT (Some (e_unary TT_REPALT c))), p) }
      else if kind p = TK_LCONCAT
      then do { (c, p) \<leftarrow> rec (P_unary, advance p);
                Some (Some (e_unary TT_REPALT (Some (e_unary TT_REPALT (Some (e_unary TT_REPALT c))))), p) }
      else rec (P_postfix, p))"

definition limit_loop :: "icn_rec \<Rightarrow> icn_tree \<Rightarrow> icn_parser \<Rightarrow> icn_result" where
  "limit_loop rec n p =
     (if kind p = TK_BACKSLASH
      then do { (lim, p) \<leftarrow> rec (P_unary, advance p); rec (L_limit (e_binary TT_LIMIT (Some n) lim), p) }
      else Some (Some n, p))"

definition unary_op :: "tk \<Rightarrow> tree_e option" where
  "unary_op = map_of
     [(TK_PSETCUR, TT_CAPT_CURSOR), (TK_MINUS, TT_MNS), (TK_PLUS, TT_PLS), (TK_BANG, TT_ITERATE),
      (TK_STAR, TT_SIZE), (TK_BACKSLASH, TT_NONNULL), (TK_SLASH, TT_NULL), (TK_NOT, TT_NOT),
      (TK_QMARK, TT_RANDOM), (TK_TILDE, TT_CSET_COMPL), (TK_DOT, TT_DEREF)]"

definition unary_twice :: "tk \<Rightarrow> tree_e option" where
  "unary_twice = map_of [(TK_PLUSPLUS, TT_PLS), (TK_MINUSMINUS, TT_MNS), (TK_STARSTAR, TT_SIZE)]"

definition call_of :: "string \<Rightarrow> icn_tree option \<Rightarrow> icn_tree" where
  "call_of f c = push_child (push_child (ast_node_new TT_FNC) (Some (e_leaf_sval TT_VAR f))) c"

definition parse_unary :: "icn_rec \<Rightarrow> icn_parser \<Rightarrow> icn_result" where
  "parse_unary rec p =
     (let ol = line_of p
      in case unary_op (kind p) of
           Some k \<Rightarrow> do { (c, p) \<leftarrow> rec (P_unary, advance p); Some (Some (e_unary_at ol k c), p) }
         | None \<Rightarrow>
        (case unary_twice (kind p) of
           Some k \<Rightarrow> do { (c, p) \<leftarrow> rec (P_unary, advance p);
                          Some (Some (e_unary_at ol k (Some (e_unary_at ol k c))), p) }
         | None \<Rightarrow>
             if kind p = TK_AT
             then do { (c, p) \<leftarrow> rec (P_unary, advance p); Some (Some (set_line ol (e_unary TT_ACTIVATE c)), p) }
             else if kind p = TK_CARET
             then do { (c, p) \<leftarrow> rec (P_unary, advance p); Some (Some (call_of ''ICN$REFRESH'' c), p) }
             else if kind p = TK_EQ
             then do { (c, p) \<leftarrow> rec (P_unary, advance p);
                       Some (Some (call_of ''tab'' (Some (call_of ''match'' c))), p) }
             else rec (P_repalt, p)))"

text \<open>
  Left-associative operators: the loop of \<open>parse_mul\<close>, \<open>parse_add\<close>, \<open>parse_cset\<close>, \<open>parse_concat\<close>,
  \<open>parse_rel\<close> and \<open>parse_pmatch\<close>, with the operators of the level and the level below.
\<close>

definition binary_loop :: "icn_rec \<Rightarrow> (tk \<Rightarrow> tree_e option) \<Rightarrow> nt \<Rightarrow> (icn_tree \<Rightarrow> nt) \<Rightarrow>
    icn_tree \<Rightarrow> icn_parser \<Rightarrow> icn_result" where
  "binary_loop rec ops operand loop n p =
     (case ops (kind p) of
        None \<Rightarrow> Some (Some n, p)
      | Some k \<Rightarrow> do { (r, p') \<leftarrow> rec (operand, advance p);
                       rec (loop (e_binary_at (line_of p) k (Some n) r), p') })"

definition mul_op :: "tk \<Rightarrow> tree_e option" where
  "mul_op = map_of [(TK_STAR, TT_MUL), (TK_SLASH, TT_DIV), (TK_MOD, TT_MOD)]"

definition add_op :: "tk \<Rightarrow> tree_e option" where
  "add_op = map_of [(TK_PLUS, TT_ADD), (TK_MINUS, TT_SUB), (TK_PASSNM, TT_CAPT_COND_ASGN), (TK_PIMD, TT_CAPT_IMMED_ASGN)]"

definition cset_op :: "tk \<Rightarrow> tree_e option" where
  "cset_op = map_of [(TK_PLUSPLUS, TT_CSET_UNION), (TK_MINUSMINUS, TT_CSET_DIFF), (TK_STARSTAR, TT_CSET_INTER)]"

definition concat_op :: "tk \<Rightarrow> tree_e option" where
  "concat_op = map_of [(TK_LCONCAT, TT_LCONCAT), (TK_CONCAT, TT_CAT)]"

definition relops :: "(tk \<times> tree_e) list" where
  "relops =
     [(TK_LT, TT_LT), (TK_LE, TT_LE), (TK_GT, TT_GT), (TK_GE, TT_GE), (TK_EQ, TT_EQ), (TK_NEQ, TT_NE),
      (TK_SLT, TT_LLT), (TK_SLE, TT_LLE), (TK_SGT, TT_LGT), (TK_SGE, TT_LGE), (TK_SEQ, TT_LEQ), (TK_SNE, TT_LNE),
      (TK_IDENTICAL, TT_IDENTICAL), (TK_NOTIDENT, TT_NIDENTICAL)]"

definition is_relop :: "tk \<Rightarrow> bool" where
  "is_relop k \<longleftrightarrow> k \<in> set (map fst relops)"

definition relop_ekind :: "tk \<Rightarrow> tree_e" where
  "relop_ekind k = (case map_of relops k of Some e \<Rightarrow> e | None \<Rightarrow> TT_EQ)"

definition rel_op :: "tk \<Rightarrow> tree_e option" where
  "rel_op k = (if is_relop k then Some (relop_ekind k) else None)"

definition pmatch_op :: "tk \<Rightarrow> tree_e option" where
  "pmatch_op = map_of [(TK_PMATCH, TT_PMATCH)]"

definition parse_pow :: "icn_rec \<Rightarrow> icn_parser \<Rightarrow> icn_result" where
  "parse_pow rec p =
     do { (n, p) \<leftarrow> rec (P_limit, p);
          if n = None then Some (None, p)
          else if kind p = TK_CARET
          then do { (r, p') \<leftarrow> rec (P_pow, advance p); Some (Some (e_binary_at (line_of p) TT_POW n r), p') }
          else Some (n, p) }"

definition cset_loop :: "icn_rec \<Rightarrow> icn_tree \<Rightarrow> icn_parser \<Rightarrow> icn_result" where
  "cset_loop rec n p =
     (if kind p = TK_BANG
      then do { (r, p) \<leftarrow> rec (P_add, advance p); rec (L_cset (e_binary TT_BANG_BINARY (Some n) r), p) }
      else binary_loop rec cset_op P_add L_cset n p)"

definition parse_and :: "icn_rec \<Rightarrow> icn_parser \<Rightarrow> icn_result" where
  "parse_and rec p =
     do { (n, p) \<leftarrow> rec (P_scan, p);
          if n = None \<or> kind p \<noteq> TK_AND then Some (n, p)
          else rec (L_and (push_child (ast_node_new TT_CONJ) n), p) }"

definition and_loop :: "icn_rec \<Rightarrow> icn_tree \<Rightarrow> icn_parser \<Rightarrow> icn_result" where
  "and_loop rec cj p =
     (if kind p = TK_AND
      then do { (c, p) \<leftarrow> rec (P_scan, advance p); rec (L_and (push_child cj c), p) }
      else Some (Some cj, p))"

definition to_loop :: "icn_rec \<Rightarrow> icn_tree \<Rightarrow> icn_parser \<Rightarrow> icn_result" where
  "to_loop rec n p =
     (if kind p = TK_POR
      then do { (r, p') \<leftarrow> rec (P_alt, advance p); rec (L_to (e_binary_at (line_of p) TT_ALT (Some n) r), p') }
      else if kind p = TK_TO
      then do { (lim, p) \<leftarrow> rec (P_alt, advance p);
                if kind p = TK_BY
                then do { (step, p) \<leftarrow> rec (P_alt, advance p);
                          rec (L_to (push_child (push_child (push_child (ast_node_new TT_TO_BY) (Some n)) lim) step), p) }
                else rec (L_to (e_binary TT_TO (Some n) lim), p) }
      else Some (Some n, p))"

definition parse_alt :: "icn_rec \<Rightarrow> icn_parser \<Rightarrow> icn_result" where
  "parse_alt rec p =
     do { (n, p) \<leftarrow> rec (P_rel, p);
          if n = None then Some (None, p)
          else if kind p = TK_PAND
          then do { (r, p') \<leftarrow> rec (P_alt, advance p); Some (Some (e_binary_at (line_of p) TT_PAND n r), p') }
          else if kind p \<noteq> TK_BAR then Some (n, p)
          else rec (L_alt (push_child (ast_node_new TT_ALTERNATE) n), p) }"

definition alt_loop :: "icn_rec \<Rightarrow> icn_tree \<Rightarrow> icn_parser \<Rightarrow> icn_result" where
  "alt_loop rec alt p =
     (if kind p = TK_BAR
      then do { (c, p) \<leftarrow> rec (P_rel, advance p); rec (L_alt (push_child alt c), p) }
      else Some (Some alt, p))"

definition activate_loop :: "icn_rec \<Rightarrow> icn_tree \<Rightarrow> icn_parser \<Rightarrow> icn_result" where
  "activate_loop rec n p =
     (if kind p = TK_AT
      then do { (r, p') \<leftarrow> rec (P_pmatch, advance p);
                rec (L_activate (set_line (line_of p) (e_binary TT_ACTIVATE (Some n) r)), p') }
      else Some (Some n, p))"

definition assign_op :: "tk \<Rightarrow> tree_e option" where
  "assign_op = map_of
     [(TK_ASSIGN, TT_ASSIGN), (TK_REVASSIGN, TT_REVASSIGN), (TK_SWAP, TT_SWAP), (TK_VALSWAP, TT_REVSWAP)]"

definition augops :: "(tk \<times> augop) list" where
  "augops =
     [(TK_AUGPLUS, AUGOP_ADD), (TK_AUGMINUS, AUGOP_SUB), (TK_AUGSTAR, AUGOP_MUL), (TK_AUGSLASH, AUGOP_DIV),
      (TK_AUGMOD, AUGOP_MOD), (TK_AUGPOW, AUGOP_POW), (TK_AUGCONCAT, AUGOP_CONCAT), (TK_AUGLCONCAT, AUGOP_LCONCAT),
      (TK_AUGAT, AUGOP_ACTIVATE), (TK_AUGIDENTICAL, AUGOP_IDENTICAL), (TK_AUGNOTIDENT, AUGOP_NIDENTICAL),
      (TK_AUGAND, AUGOP_CONJ), (TK_AUGCSET_UNION, AUGOP_CSET_UNION), (TK_AUGCSET_DIFF, AUGOP_CSET_DIFF),
      (TK_AUGCSET_INTER, AUGOP_CSET_INTER), (TK_AUGSCAN, AUGOP_SCAN), (TK_AUGEQ, AUGOP_EQ), (TK_AUGSEQ, AUGOP_SEQ),
      (TK_AUGLT, AUGOP_LT), (TK_AUGLE, AUGOP_LE), (TK_AUGGT, AUGOP_GT), (TK_AUGGE, AUGOP_GE), (TK_AUGNE, AUGOP_NE),
      (TK_AUGSLT, AUGOP_SLT), (TK_AUGSLE, AUGOP_SLE), (TK_AUGSGT, AUGOP_SGT), (TK_AUGSGE, AUGOP_SGE),
      (TK_AUGSNE, AUGOP_SNE)]"

definition is_augop :: "tk \<Rightarrow> bool" where
  "is_augop k \<longleftrightarrow> k \<in> set (map fst augops)"

definition augop_of :: "tk \<Rightarrow> augop" where
  "augop_of k = (case map_of augops k of Some a \<Rightarrow> a | None \<Rightarrow> AUGOP_ADD)"

definition parse_assign :: "icn_rec \<Rightarrow> icn_parser \<Rightarrow> icn_result" where
  "parse_assign rec p =
     do { (n, p) \<leftarrow> rec (P_activate, p);
          if n = None then Some (None, p)
          else case assign_op (kind p) of
                 Some k \<Rightarrow> do { (r, p') \<leftarrow> rec (P_assign, advance p);
                                Some (Some (e_binary_at (line_of p) k n r), p') }
               | None \<Rightarrow>
                   if is_augop (kind p)
                   then do { (r, p') \<leftarrow> rec (P_assign, advance p);
                             let opn = set_v (V_i (augop_num (augop_of (kind p)))) (ast_node_new TT_AUGOP);
                             let opn = (if line_of p > 0 then set_line (line_of p) opn else opn);
                             Some (Some (push_child (push_child opn n) r), p') }
                   else Some (n, p) }"

definition parse_scan :: "icn_rec \<Rightarrow> icn_parser \<Rightarrow> icn_result" where
  "parse_scan rec p =
     do { (n, p) \<leftarrow> rec (P_assign, p);
          if n = None then Some (None, p)
          else if kind p = TK_QMARK
          then do { (r, p) \<leftarrow> rec (P_scan, advance p); Some (Some (e_binary TT_SCAN n r), p) }
          else Some (n, p) }"

section \<open>Control structures\<close>

definition parse_do_clause :: "icn_rec \<Rightarrow> icn_parser \<Rightarrow> icn_result" where
  "parse_do_clause rec p = (if kind p = TK_DO then rec (P_expr, advance p) else Some (None, p))"

text \<open>\<open>every\<close>, \<open>while\<close> and \<open>until\<close>: the expression and the \<open>do\<close> clause there may be.\<close>

definition do_loop :: "icn_rec \<Rightarrow> tree_e \<Rightarrow> icn_parser \<Rightarrow> icn_result" where
  "do_loop rec k p =
     do { (c, p) \<leftarrow> rec (P_expr, advance p); (body, p) \<leftarrow> parse_do_clause rec p;
          Some (Some (push_opt (push_child (ast_node_new k) c) body), p) }"

definition parse_if :: "icn_rec \<Rightarrow> icn_parser \<Rightarrow> icn_result" where
  "parse_if rec p =
     do { (c, p) \<leftarrow> rec (P_expr, advance p);
          (t, p) \<leftarrow> rec (P_expr, expect p TK_THEN ''if/then'');
          let e = push_child (push_child (ast_node_new TT_IF) c) t;
          let (more, p) = accept p TK_ELSE;
          if more then do { (f, p) \<leftarrow> rec (P_expr, p); Some (Some (push_child e f), p) }
          else Some (Some e, p) }"

definition one_expr :: "icn_rec \<Rightarrow> tree_e \<Rightarrow> icn_parser \<Rightarrow> icn_result" where
  "one_expr rec k p =
     do { (c, p) \<leftarrow> rec (P_expr, advance p); Some (Some (push_child (ast_node_new k) c), p) }"

definition parse_suspend :: "icn_rec \<Rightarrow> icn_parser \<Rightarrow> icn_result" where
  "parse_suspend rec p0 =
     (let e = set_line (line_of p0) (ast_node_new TT_SUSPEND); p = advance p0
      in do { (c, p) \<leftarrow> (if icn_begins_nexpr (kind p) then rec (P_expr, p) else Some (Some null_leaf, p));
              (body, p) \<leftarrow> parse_do_clause rec p;
              Some (Some (push_opt (push_child e c) body), p) })"

definition case_sep :: "icn_parser \<Rightarrow> icn_parser" where
  "case_sep p =
     (if kind p = TK_RBRACE then p
      else let (semi, p) = accept p TK_SEMICOL
           in if semi
              then if kind p = TK_RBRACE
                   then parser_error p ''case body: a semicolon separates case clauses and may not follow the last one''
                   else p
              else parser_error p (''case body: expected ';' between case clauses after the token at line ''
                     @ fmt_int (p_tb_line p) @ '' col '' @ fmt_int (p_tb_col p)
                     @ '' (SCRIP Icon: a newline is whitespace)''))"

definition case_loop :: "icn_rec \<Rightarrow> icn_tree \<Rightarrow> nat \<Rightarrow> icn_parser \<Rightarrow> icn_result" where
  "case_loop rec e ndflt p =
     (if kind p = TK_RBRACE \<or> kind p = TK_EOF then Some (Some e, p)
      else if kind p = TK_DEFAULT
      then let p = expect (advance p) TK_COLON ''case default'';
               p = (if ndflt \<noteq> 0 then parser_error p ''case default: duplicate default clause'' else p);
               e = push_child e (Some (ast_node_new TT_NUL))
           in do { (c, p) \<leftarrow> rec (P_expr, p); rec (L_case (push_child e c) (Suc ndflt), case_sep p) }
      else do { (sel, p) \<leftarrow> rec (P_expr, p);
                (c, p) \<leftarrow> rec (P_expr, expect p TK_COLON ''case clause'');
                rec (L_case (push_child (push_child e sel) c) ndflt, case_sep p) })"

definition parse_case :: "icn_rec \<Rightarrow> icn_parser \<Rightarrow> icn_result" where
  "parse_case rec p =
     do { (c, p) \<leftarrow> rec (P_expr, advance p);
          let p = expect (expect p TK_OF ''case expression'') TK_LBRACE ''case body'';
          (e, p) \<leftarrow> rec (L_case (push_child (ast_node_new TT_CASE) c) 0, p);
          Some (e, expect p TK_RBRACE ''case body end'') }"

definition ends_return :: "tk \<Rightarrow> bool" where
  "ends_return k \<longleftrightarrow> k \<in> {TK_SEMICOL, TK_RPAREN, TK_EOF, TK_THEN, TK_ELSE, TK_DO, TK_RBRACE, TK_END}"

definition parse_ctrl :: "icn_rec \<Rightarrow> icn_parser \<Rightarrow> icn_result" where
  "parse_ctrl rec p =
     (let line = line_of p; k = kind p
      in if k = TK_RETURN then
           (let e = set_line line (ast_node_new TT_RETURN); p = advance p
            in if ends_return (kind p) then Some (Some e, p)
               else do { (c, p) \<leftarrow> rec (P_expr, p); Some (Some (push_child e c), p) })
         else if k = TK_FAIL then Some (Some (set_line line (ast_node_new TT_PROC_FAIL)), advance p)
         else if k = TK_SUSPEND then parse_suspend rec p
         else if k = TK_BREAK then opt_expr rec (ast_node_new TT_LOOP_BREAK) (advance p)
         else if k = TK_NEXT then Some (Some (ast_node_new TT_LOOP_NEXT), advance p)
         else if k = TK_IF then parse_if rec p
         else if k = TK_EVERY then do_loop rec TT_EVERY p
         else if k = TK_WHILE then do_loop rec TT_WHILE p
         else if k = TK_UNTIL then do_loop rec TT_UNTIL p
         else if k = TK_REPEAT then one_expr rec TT_REPEAT p
         else if k = TK_CREATE then one_expr rec TT_CREATE p
         else if k = TK_THREAD then
           do { (c, p) \<leftarrow> one_expr rec TT_CREATE p; Some (Some (call_of ''spawn'' c), p) }
         else if k = TK_CRITICAL then
           do { (m, p) \<leftarrow> rec (P_unary, advance p);
                (c, p) \<leftarrow> rec (P_expr, expect p TK_COLON ''critical region'');
                Some (Some (push_child (call_of ''ICN$CRIT'' m) c), p) }
         else if k = TK_CASE then parse_case rec p
         else rec (P_and, p))"

section \<open>Blocks and statements\<close>

definition parse_block :: "icn_rec \<Rightarrow> icn_parser \<Rightarrow> icn_result" where
  "parse_block rec p =
     (if kind p \<noteq> TK_LBRACE then rec (P_expr, p)
      else rec (L_block (ast_node_new TT_SEQ_EXPR) 0, advance p))"

text \<open>\<open>if (s->line <= 0) s->line = sline\<close>.\<close>

definition line_default :: "int \<Rightarrow> icn_tree \<Rightarrow> icn_tree" where
  "line_default l s = (if n_line s \<le> 0 then set_line l s else s)"

text \<open>What follows the loop of a block: a block of one expression is that expression.\<close>

definition end_block :: "icn_tree \<Rightarrow> nat \<Rightarrow> icn_parser \<Rightarrow> icn_result" where
  "end_block seq nc p =
     (let void = (nc > 0 \<and> p_prev p = TK_SEMICOL);
          seq = (if void then push_child seq (Some null_leaf) else seq); nc = (if void then Suc nc else nc);
          p = expect p TK_RBRACE ''compound block''
      in if nc = 1 then Some (hd (n_c seq), p) else Some (Some seq, p))"

definition block_loop :: "icn_rec \<Rightarrow> icn_tree \<Rightarrow> nat \<Rightarrow> icn_parser \<Rightarrow> icn_result" where
  "block_loop rec seq nc p =
     (if kind p = TK_RBRACE \<or> kind p = TK_EOF then end_block seq nc p
      else if kind p = TK_SEMICOL then rec (L_block (push_child seq (Some null_leaf)) (Suc nc), advance p)
      else do { (s, p') \<leftarrow> rec (P_stmt, p);
                case s of None \<Rightarrow> end_block seq nc p'
                | Some t \<Rightarrow> rec (L_block (push_child seq (Some (line_default (line_of p) t))) (Suc nc), p') })"

definition stmt_end :: "string \<Rightarrow> icn_parser \<Rightarrow> icn_parser" where
  "stmt_end what p =
     (if kind p = TK_RBRACE then snd (accept p TK_SEMICOL)
      else if kind p = TK_SEMICOL then advance p
      else parser_error p (what @ '': expected ';' after the token at line '' @ fmt_int (p_tb_line p)
             @ '' col '' @ fmt_int (p_tb_col p)
             @ '' (SCRIP Icon: every statement ends in ';', a newline is whitespace, only the last expression of a { } block is bare)''))"

definition ended :: "string \<Rightarrow> icn_result \<Rightarrow> icn_result" where
  "ended what r = do { (e, p) \<leftarrow> r; Some (e, stmt_end what p) }"

text \<open>Names separated by commas, up to \<open>stop\<close>: the loop of declarations, record fields and globals.\<close>

definition names_loop :: "icn_rec \<Rightarrow> tk \<Rightarrow> icn_tree \<Rightarrow> icn_parser \<Rightarrow> icn_result" where
  "names_loop rec stop e p =
     (if kind p = stop \<or> kind p = TK_EOF then Some (Some e, p)
      else let (e, p) = (if kind p = TK_IDENT
                         then (push_child e (Some (e_leaf_sval TT_VAR (text_of p))), advance p) else (e, p));
               (more, p) = accept p TK_COMMA
           in if more then rec (L_names stop e, p) else Some (Some e, p))"

definition parse_stmt :: "icn_rec \<Rightarrow> icn_parser \<Rightarrow> icn_result" where
  "parse_stmt rec p =
     (let k = kind p
      in if k = TK_EVERY then ended ''every statement'' (do_loop rec TT_EVERY p)
         else if k = TK_IF then ended ''if statement'' (parse_if rec p)
         else if k = TK_WHILE then ended ''while statement'' (do_loop rec TT_WHILE p)
         else if k = TK_UNTIL then ended ''until statement'' (do_loop rec TT_UNTIL p)
         else if k = TK_REPEAT then ended ''repeat statement'' (one_expr rec TT_REPEAT p)
         else if k = TK_RETURN then
           (let p = advance p; e = ast_node_new TT_RETURN
            in ended ''return statement''
                 (if kind p \<in> {TK_SEMICOL, TK_RBRACE, TK_END, TK_EOF, TK_ELSE} then Some (Some e, p)
                  else do { (c, p) \<leftarrow> rec (P_expr, p); Some (Some (push_child e c), p) }))
         else if k = TK_SUSPEND then ended ''suspend statement'' (parse_suspend rec p)
         else if k = TK_FAIL then Some (Some (ast_node_new TT_PROC_FAIL), stmt_end ''fail statement'' (advance p))
         else if k = TK_INITIAL then ended ''initial statement'' (one_expr rec TT_INITIAL p)
         else if k = TK_CASE then ended ''case statement'' (rec (P_expr, p))
         else if k = TK_LOCAL \<or> k = TK_STATIC then
           ended ''local or static declaration''
             (rec (L_names TK_SEMICOL (ast_node_new (if k = TK_STATIC then TT_STATIC_DECL else TT_LOCAL)), advance p))
         else do { (e, p) \<leftarrow> rec (P_expr, p);
                   if kind p = TK_ELSE \<or> kind p = TK_THEN then Some (e, snd (accept p TK_SEMICOL))
                   else Some (e, stmt_end ''expression statement'' p) })"

section \<open>Declarations\<close>

definition expect_name :: "icn_parser \<Rightarrow> string \<Rightarrow> icn_parser" where
  "expect_name p msg = (if kind p \<noteq> TK_IDENT then parser_error p msg else p)"

definition parse_record :: "icn_rec \<Rightarrow> icn_parser \<Rightarrow> icn_result" where
  "parse_record rec p0 =
     (let p = expect p0 TK_RECORD ''record''
      in if kind p \<noteq> TK_IDENT then Some (None, parser_error p ''expected record name'')
         else let e = set_v (V_s (text_of p)) (ast_node_new TT_RECORD);
                  p = expect (advance p) TK_LPAREN ''record fields''
              in do { (e, p) \<leftarrow> rec (L_names TK_RPAREN e, p);
                      Some (e, snd (accept (expect p TK_RPAREN ''record fields'') TK_SEMICOL)) })"

text \<open>The parameters, collected in the \<open>TT_VLIST\<close> they end up in; \<open>[]\<close> after a name ends them.\<close>

definition params_loop :: "icn_rec \<Rightarrow> icn_tree \<Rightarrow> icn_parser \<Rightarrow> icn_result" where
  "params_loop rec vl p =
     (if kind p = TK_RPAREN \<or> kind p = TK_EOF then Some (Some vl, p)
      else let ident = (kind p = TK_IDENT);
               (vl, p) = (if ident then (push_child vl (Some (e_leaf_sval TT_VAR (text_of p))), advance p) else (vl, p))
           in if ident \<and> kind p = TK_LBRACK
              then Some (Some (set_v (V_i 1) vl), snd (accept (advance p) TK_RBRACK))
              else let (more, p) = accept p TK_COMMA
                   in if more then rec (L_params vl, p) else Some (Some vl, p))"

definition stmts_loop :: "icn_rec \<Rightarrow> icn_tree \<Rightarrow> icn_parser \<Rightarrow> icn_result" where
  "stmts_loop rec body p =
     (if kind p = TK_END \<or> kind p = TK_EOF \<or> p_error p then Some (Some body, p)
      else do { (s, p') \<leftarrow> rec (P_stmt, p);
                rec (L_stmts (push_opt body (map_option (line_default (line_of p)) s)), p') })"

definition parse_proc_kw :: "icn_rec \<Rightarrow> tk \<Rightarrow> bool \<Rightarrow> icn_parser \<Rightarrow> icn_result" where
  "parse_proc_kw rec kw has_body p0 =
     (let p = expect p0 kw (if kw = TK_METHOD then ''method'' else ''procedure'')
      in if kind p \<noteq> TK_IDENT then Some (None, parser_error p ''expected procedure name'')
         else let name = text_of p; p = expect (advance p) TK_LPAREN ''procedure params''
              in do { (vl, p) \<leftarrow> rec (L_params (set_v (V_i 0) (ast_node_new TT_VLIST)), p);
                      let p = snd (accept (expect p TK_RPAREN ''procedure params'') TK_SEMICOL);
                      (body, p) \<leftarrow> (if has_body then rec (L_stmts (ast_node_new TT_PROGRAM), p) else Some (None, p));
                      let proc = set_slen (line_of p) (set_v (V_s name) (ast_node_new TT_PROC_DECL));
                      let p = (if has_body then expect p TK_END ''end of procedure'' else p);
                      let proc = push_child (push_child proc (Some (e_leaf_sval TT_VAR name))) vl;
                      Some (Some (if has_body then push_child proc body else proc), p) })"

definition parse_proc :: "icn_rec \<Rightarrow> icn_parser \<Rightarrow> icn_result" where
  "parse_proc rec p = parse_proc_kw rec TK_PROCEDURE True p"

definition nlist_loop :: "icn_rec \<Rightarrow> icn_tree \<Rightarrow> icn_parser \<Rightarrow> icn_result" where
  "nlist_loop rec vl p =
     (if kind p = TK_RPAREN \<or> kind p = TK_EOF \<or> p_error p then Some (Some vl, p)
      else if kind p \<noteq> TK_IDENT then Some (Some vl, parser_error p ''expected a name'')
      else let vl = push_child vl (Some (e_leaf_sval TT_VAR (text_of p))); (more, p) = accept (advance p) TK_COMMA
           in if more then rec (L_nlist vl, p) else Some (Some vl, p))"

definition parse_name_list :: "icn_rec \<Rightarrow> string \<Rightarrow> icn_parser \<Rightarrow> icn_result" where
  "parse_name_list rec what p =
     do { (vl, p) \<leftarrow> rec (L_nlist (ast_node_new TT_VLIST), expect p TK_LPAREN what);
          Some (vl, expect p TK_RPAREN what) }"

definition parse_initially :: "icn_rec \<Rightarrow> icn_parser \<Rightarrow> icn_result" where
  "parse_initially rec p0 =
     (let p = expect p0 TK_INITIALLY ''initially''; sline = line_of p
      in do { (params, p) \<leftarrow> (if kind p = TK_LPAREN then parse_name_list rec ''initially params'' p
                             else Some (Some (ast_node_new TT_VLIST), p));
              (body, p) \<leftarrow> rec (L_stmts (ast_node_new TT_PROGRAM), snd (accept p TK_SEMICOL));
              let proc = set_line sline (set_slen (line_of p) (set_v (V_s ''initially'') (ast_node_new TT_PROC_DECL)));
              Some (Some (push_child (push_child (push_child proc
                             (Some (e_leaf_sval TT_VAR ''initially''))) params) body), p) })"

text \<open>\<open>while (match(p, TK_COLON))\<close>: the superclasses; a name that is missing ends the class.\<close>

definition supers_loop :: "icn_rec \<Rightarrow> icn_tree \<Rightarrow> icn_parser \<Rightarrow> icn_result" where
  "supers_loop rec vl p0 =
     (let (more, p) = accept p0 TK_COLON
      in if \<not> more then Some (Some vl, p)
         else if kind p \<noteq> TK_IDENT then Some (None, parser_error p ''expected superclass name'')
         else rec (L_supers (push_child vl (Some (e_leaf_sval TT_VAR (text_of p)))), advance p))"

definition members_loop :: "icn_rec \<Rightarrow> icn_tree \<Rightarrow> icn_parser \<Rightarrow> icn_result" where
  "members_loop rec cls p =
     (if kind p = TK_END \<or> kind p = TK_INITIALLY \<or> kind p = TK_EOF \<or> p_error p then Some (Some cls, p)
      else if kind p = TK_METHOD
      then do { (m, p) \<leftarrow> parse_proc_kw rec TK_METHOD True p;
                rec (L_members (push_opt cls m), snd (accept p TK_SEMICOL)) }
      else if kind p = TK_ABSTRACT
      then do { (m, p) \<leftarrow> parse_proc_kw rec TK_METHOD False (advance p);
                rec (L_members (push_opt cls m), snd (accept p TK_SEMICOL)) }
      else Some (Some cls, parser_error p ''class body: expected method, abstract method, initially or end''))"

definition parse_class :: "icn_rec \<Rightarrow> icn_parser \<Rightarrow> icn_result" where
  "parse_class rec p0 =
     (let cline = line_of p0; p = expect p0 TK_CLASS ''class''
      in if kind p \<noteq> TK_IDENT then Some (None, parser_error p ''expected class name'')
         else let name = text_of p
              in do { (supers, p) \<leftarrow> rec (L_supers (ast_node_new TT_VLIST), advance p);
                      if supers = None then Some (None, p)
                      else do { (fields, p) \<leftarrow> parse_name_list rec ''class fields'' p;
                                let cls = push_child (push_child (set_line cline (set_v (V_s name)
                                            (ast_node_new TT_CLASS_DECL))) supers) fields;
                                (c, p) \<leftarrow> rec (L_members cls, snd (accept p TK_SEMICOL));
                                let cls = (case c of Some c \<Rightarrow> c | None \<Rightarrow> cls);
                                (ini, p) \<leftarrow> (if kind p = TK_INITIALLY then parse_initially rec p else Some (None, p));
                                Some (Some (push_opt cls ini),
                                      snd (accept (expect p TK_END ''end of class'') TK_SEMICOL)) } })"

definition package_loop :: "icn_rec \<Rightarrow> bool \<Rightarrow> icn_tree \<Rightarrow> icn_parser \<Rightarrow> icn_result" where
  "package_loop rec is_pkg tp p =
     (if kind p = TK_SEMICOL \<or> kind p = TK_EOF \<or> p_error p then Some (Some tp, p)
      else if kind p = TK_IDENT \<or> kind p = TK_STRING
      then let tp = push_child tp (Some (e_leaf_sval TT_VAR (text_of p))); p = advance p
           in if is_pkg then Some (Some tp, p)
              else let (more, p) = accept p TK_COMMA
                   in if more then rec (L_package is_pkg tp, p) else Some (Some tp, p)
      else Some (Some tp, parser_error p (if is_pkg then ''expected a package name''
                                           else ''expected a package name to import'')))"

text \<open>\<open>if (tp->n > 0 && tp->c[0]) tp->v.sval = tp->c[0]->v.sval\<close>.\<close>

definition first_name :: "icn_tree \<Rightarrow> icn_tree" where
  "first_name tp = (case n_c tp of Some c # cs \<Rightarrow> set_v (n_v c) tp | _ \<Rightarrow> tp)"

definition link_loop :: "icn_rec \<Rightarrow> icn_tree \<Rightarrow> icn_parser \<Rightarrow> icn_result" where
  "link_loop rec tp p =
     (if kind p = TK_SEMICOL \<or> kind p = TK_EOF then Some (Some tp, p)
      else let tp = (if kind p = TK_IDENT \<or> kind p = TK_STRING
                      then push_child tp (Some (e_leaf_sval TT_VAR (text_of p))) else tp);
               p = advance p;
               p = (if kind p = TK_COLON \<and> t_kind (p_peek p) = TK_INT then advance (advance p) else p);
               (more, p) = accept p TK_COMMA
           in if more then rec (L_link tp, p) else Some (Some tp, p))"

definition semicol_after :: "icn_result \<Rightarrow> icn_result" where
  "semicol_after r = do { (e, p) \<leftarrow> r; Some (e, snd (accept p TK_SEMICOL)) }"

definition parse_top :: "icn_rec \<Rightarrow> icn_parser \<Rightarrow> icn_result" where
  "parse_top rec p =
     (let k = kind p
      in if k = TK_PROCEDURE then parse_proc rec p
         else if k = TK_RECORD then parse_record rec p
         else if k = TK_CLASS then parse_class rec p
         else if k = TK_PACKAGE \<or> k = TK_IMPORT then
           semicol_after
             (do { (tp, p) \<leftarrow> rec (L_package (k = TK_PACKAGE)
                                  (ast_node_new (if k = TK_PACKAGE then TT_MODULE_DECL else TT_USE_DECL)), advance p);
                   Some (map_option first_name tp, p) })
         else if k = TK_GLOBAL then semicol_after (rec (L_names TK_SEMICOL (ast_node_new TT_GLOBAL), advance p))
         else semicol_after (rec (L_link (ast_node_new (if k = TK_LINK then TT_LINK else TT_INVOCABLE)), advance p)))"

text \<open>The statement a declaration is wrapped in, with its attributes (\<open>src/driver/stmt_ast.c\<close>).\<close>

definition ast_attr_leaf :: "string \<Rightarrow> string \<Rightarrow> icn_tree" where
  "ast_attr_leaf tag v =
     (let n = set_v (V_s tag) (ast_node_new TT_ATTR)
      in if v \<noteq> [] then push_child n (Some (set_v (V_s v) (ast_node_new TT_QLIT))) else n)"

definition ast_attr_int :: "string \<Rightarrow> int \<Rightarrow> icn_tree" where
  "ast_attr_int tag n = ast_attr_leaf tag (fmt_int n)"

definition ast_attr_expr :: "string \<Rightarrow> icn_tree \<Rightarrow> icn_tree" where
  "ast_attr_expr tag e = push_child (set_v (V_s tag) (ast_node_new TT_ATTR)) (Some e)"

definition stmt_node :: "icn_tree \<Rightarrow> icn_tree" where
  "stmt_node tp =
     push_child (push_child (push_child (ast_node_new TT_STMT) (Some (ast_attr_int '':line'' 0)))
       (Some (ast_attr_int '':stno'' 0))) (Some (ast_attr_expr '':subj'' tp))"

definition top_kind :: "tk \<Rightarrow> bool" where
  "top_kind k \<longleftrightarrow> k \<in> {TK_PROCEDURE, TK_RECORD, TK_CLASS, TK_PACKAGE, TK_IMPORT, TK_GLOBAL, TK_LINK, TK_INVOCABLE}"

definition file_loop :: "icn_rec \<Rightarrow> icn_tree \<Rightarrow> icn_parser \<Rightarrow> icn_result" where
  "file_loop rec prog p =
     (if kind p = TK_EOF \<or> p_error p then Some (Some prog, p)
      else if top_kind (kind p)
      then do { (tp, p) \<leftarrow> parse_top rec p;
                rec (L_file (push_opt prog (map_option stmt_node tp)), p) }
      else Some (Some prog, parser_error p
             (if il_unicon (p_lex p)
              then ''expected 'procedure', 'record', 'class', 'package', 'import', 'global', 'link', or 'invocable'' @ [CHR 0x27]
              else ''expected 'procedure', 'record', 'global', 'link', or 'invocable'' @ [CHR 0x27])))"

section \<open>Tying the knot\<close>

definition icn_step :: "(string \<Rightarrow> string) \<Rightarrow> icn_rec \<Rightarrow> nt \<times> icn_parser \<Rightarrow> icn_result" where
  "icn_step pp rec x =
     (case x of (a, p) \<Rightarrow>
        (case a of
           P_expr \<Rightarrow> rec (P_and, p)
         | P_primary \<Rightarrow> parse_primary pp rec p
         | P_postfix \<Rightarrow> then_loop rec P_primary L_postfix p
         | P_repalt \<Rightarrow> parse_repalt rec p
         | P_limit \<Rightarrow> then_loop rec P_unary L_limit p
         | P_unary \<Rightarrow> parse_unary rec p
         | P_pow \<Rightarrow> parse_pow rec p
         | P_mul \<Rightarrow> then_loop rec P_pow L_mul p
         | P_add \<Rightarrow> then_loop rec P_mul L_add p
         | P_cset \<Rightarrow> then_loop rec P_add L_cset p
         | P_concat \<Rightarrow> then_loop rec P_cset L_concat p
         | P_rel \<Rightarrow> then_loop rec P_concat L_rel p
         | P_and \<Rightarrow> parse_and rec p
         | P_to \<Rightarrow> then_loop rec P_alt L_to p
         | P_alt \<Rightarrow> parse_alt rec p
         | P_pmatch \<Rightarrow> then_loop rec P_to L_pmatch p
         | P_activate \<Rightarrow> then_loop rec P_pmatch L_activate p
         | P_assign \<Rightarrow> parse_assign rec p
         | P_scan \<Rightarrow> parse_scan rec p
         | P_ctrl \<Rightarrow> parse_ctrl rec p
         | P_block \<Rightarrow> parse_block rec p
         | P_stmt \<Rightarrow> parse_stmt rec p
         | L_comma close t \<Rightarrow> comma_loop rec close t p
         | L_postfix t \<Rightarrow> postfix_loop rec t p
         | L_args t \<Rightarrow> args_loop rec t p
         | L_subs t \<Rightarrow> subs_loop rec t p
         | L_brace t \<Rightarrow> brace_loop rec t p
         | L_limit t \<Rightarrow> limit_loop rec t p
         | L_mul t \<Rightarrow> binary_loop rec mul_op P_pow L_mul t p
         | L_add t \<Rightarrow> binary_loop rec add_op P_mul L_add t p
         | L_cset t \<Rightarrow> cset_loop rec t p
         | L_concat t \<Rightarrow> binary_loop rec concat_op P_cset L_concat t p
         | L_rel t \<Rightarrow> binary_loop rec rel_op P_concat L_rel t p
         | L_and t \<Rightarrow> and_loop rec t p
         | L_to t \<Rightarrow> to_loop rec t p
         | L_alt t \<Rightarrow> alt_loop rec t p
         | L_pmatch t \<Rightarrow> binary_loop rec pmatch_op P_to L_pmatch t p
         | L_activate t \<Rightarrow> activate_loop rec t p
         | L_case t n \<Rightarrow> case_loop rec t n p
         | L_block t n \<Rightarrow> block_loop rec t n p
         | L_names stop t \<Rightarrow> names_loop rec stop t p
         | L_params t \<Rightarrow> params_loop rec t p
         | L_stmts t \<Rightarrow> stmts_loop rec t p
         | L_nlist t \<Rightarrow> nlist_loop rec t p
         | L_supers t \<Rightarrow> supers_loop rec t p
         | L_members t \<Rightarrow> members_loop rec t p
         | L_package b t \<Rightarrow> package_loop rec b t p
         | L_link t \<Rightarrow> link_loop rec t p
         | L_file t \<Rightarrow> file_loop rec t p))"

lemmas icn_bodies =
  then_loop_def opt_expr_def parse_backquote_def parse_name_def parse_keyword_def parse_paren_def
  parse_list_def comma_loop_def parse_primary_def section_with_def parse_subscript_def subs_loop_def
  args_loop_def brace_loop_def postfix_loop_def parse_repalt_def limit_loop_def parse_unary_def
  binary_loop_def parse_pow_def cset_loop_def parse_and_def and_loop_def to_loop_def parse_alt_def
  alt_loop_def activate_loop_def parse_assign_def parse_scan_def parse_do_clause_def do_loop_def
  parse_if_def one_expr_def parse_suspend_def case_loop_def parse_case_def parse_ctrl_def parse_block_def
  end_block_def block_loop_def ended_def names_loop_def parse_stmt_def parse_record_def params_loop_def
  stmts_loop_def parse_proc_kw_def parse_proc_def nlist_loop_def parse_name_list_def parse_initially_def
  supers_loop_def members_loop_def parse_class_def package_loop_def link_loop_def semicol_after_def
  parse_top_def file_loop_def

lemma mono_case_prod: "(\<And>a b. mono_option (\<lambda>f. F f a b)) \<Longrightarrow> mono_option (\<lambda>f. case x of (a, b) \<Rightarrow> F f a b)"
  by (cases x) simp

lemma mono_case_option:
  "mono_option F \<Longrightarrow> (\<And>a. mono_option (\<lambda>f. G f a)) \<Longrightarrow> mono_option (\<lambda>f. case x of None \<Rightarrow> F f | Some a \<Rightarrow> G f a)"
  by (cases x) simp_all

lemma mono_if_option:
  "mono_option F \<Longrightarrow> mono_option G \<Longrightarrow> mono_option (\<lambda>f. if b then F f else G f)"
  by (cases b) simp_all

lemma mono_bind_option:
  "mono_option F \<Longrightarrow> (\<And>a. mono_option (\<lambda>f. G f a)) \<Longrightarrow> mono_option (\<lambda>f. Option.bind (F f) (\<lambda>a. G f a))"
  by (rule bind_mono)

lemma mono_const_option: "mono_option (\<lambda>f. c)"
  by (simp add: monotone_def fun_ord_def flat_ord_def)

lemmas icn_mono = mono_case_prod mono_case_option mono_if_option mono_bind_option mono_const_option

lemma icn_step_mono [partial_function_mono]:
  assumes r: "\<And>y. mono_option (\<lambda>f. rec f y)"
  shows "mono_option (\<lambda>f. icn_step pp (rec f) x)"
proof (cases x)
  case (Pair a p)
  show ?thesis
    unfolding Pair icn_step_def prod.case
    by (cases a; simp only: nt.case; ((unfold icn_bodies Let_def)?); (rule icn_mono r)+)
qed

partial_function (option) icn_parse :: "(string \<Rightarrow> string) \<Rightarrow> nt \<times> icn_parser \<Rightarrow> icn_result" where
  "icn_parse pp x = icn_step pp (icn_parse pp) x"

text \<open>\<open>icn_parse_file\<close>, from the state \<open>icn_parse_init\<close> leaves; and the whole of it, from the text.\<close>

definition icn_parse_file :: "(string \<Rightarrow> string) \<Rightarrow> icn_parser \<Rightarrow> icn_result" where
  "icn_parse_file pp p = icn_parse pp (L_file (ast_node_new TT_PROGRAM), p)"

end
