(* ===== verification/Icon_Parse_Total.thy ===== *)
theory Icon_Parse_Total
  imports Icon_Parse
begin

text \<open>
  The Icon parser returns. Every call it makes is on less, less text and tokens or the same with a
  function further down the grammar, or on a text between backquotes, which a parser of its own reads;
  \<open>nests_end\<close> says that texts between backquotes do not nest without end. \<open>wp T\<close> is what a call must
  return for when it returns, and that it returns when \<open>T\<close>: every lemma on a function of the grammar
  holds for both, \<open>T\<close> being \<open>False\<close> for what is true without any condition. The rules in \<open>going\<close> carry
  where the parser stands, relative to where the function was entered, through the body of each function.
\<close>

section \<open>What is left to read\<close>

definition psize :: "icn_parser \<Rightarrow> nat" where
  "psize p = length (il_src (p_lex p)) + tok_weight (p_cur p) + tok_weight (p_peek p)"

text \<open>
  The texts between backquotes that a text holds, in the order the lexer comes to them; \<open>u\<close> is the switch
  for Unicon. The lexer state is any on the text: neither the line nor the errors noted so far matter.
\<close>

definition nest_kind :: "tk \<Rightarrow> bool" where
  "nest_kind k \<longleftrightarrow> k = TK_PUNEVAL \<or> k = TK_PUNEVAL2"

inductive nested_text :: "bool \<Rightarrow> string \<Rightarrow> string \<Rightarrow> bool" for u :: bool where
  here: "il_unicon lx = u \<Longrightarrow> nest_kind (t_kind (fst (icn_lex_next lx))) \<Longrightarrow>
    nested_text u (il_src lx) (sval_of (t_val (fst (icn_lex_next lx))))"
| later: "il_unicon lx = u \<Longrightarrow> nested_text u (il_src (snd (icn_lex_next lx))) s \<Longrightarrow> nested_text u (il_src lx) s"

text \<open>
  Every chain of texts, each between backquotes in what the preprocessor makes of the one before, ends. It
  is the accessible part of that relation: nothing is assumed of the preprocessor.
\<close>

inductive nests_end :: "(string \<Rightarrow> string) \<Rightarrow> bool \<Rightarrow> string \<Rightarrow> bool" for pp :: "string \<Rightarrow> string" and u :: bool where
  step: "(\<And>s. nested_text u (pp t) s \<Longrightarrow> nests_end pp u s) \<Longrightarrow> nests_end pp u t"

text \<open>The texts between backquotes a parser has still to come to, those of its two tokens included.\<close>

definition tok_nest :: "icn_token \<Rightarrow> string set" where
  "tok_nest t = (if nest_kind (t_kind t) then {sval_of (t_val t)} else {})"

definition pnest :: "icn_parser \<Rightarrow> string set" where
  "pnest p = tok_nest (p_cur p) \<union> tok_nest (p_peek p) \<union> {s. nested_text (il_unicon (p_lex p)) (il_src (p_lex p)) s}"

definition keeps :: "icn_parser \<Rightarrow> icn_parser \<Rightarrow> bool" where
  "keeps p q \<longleftrightarrow> psize q \<le> psize p \<and> pnest q \<subseteq> pnest p \<and> il_unicon (p_lex q) = il_unicon (p_lex p)
     \<and> (p_error p \<longrightarrow> p_error q \<and> p_msg q = p_msg p)"

definition eats :: "icn_parser \<Rightarrow> icn_parser \<Rightarrow> bool" where
  "eats p q \<longleftrightarrow> keeps p q \<and> psize q < psize p"

lemma keeps_refl [simp]: "keeps p p"
  by (simp add: keeps_def)

lemma keeps_trans: "keeps p q \<Longrightarrow> keeps q r \<Longrightarrow> keeps p r"
  by (auto simp: keeps_def)

lemma eats_keeps: "eats p q \<Longrightarrow> keeps p q"
  by (simp add: eats_def)

lemma eats_trans: "eats p q \<Longrightarrow> keeps q r \<Longrightarrow> eats p r" "keeps p q \<Longrightarrow> eats q r \<Longrightarrow> eats p r"
  by (auto simp: eats_def keeps_def)

lemma next_unicon: "il_unicon (snd (icn_lex_next lx)) = il_unicon lx"
  using lex_moves_keep [OF lex_one_props(1) [of lx]] by simp

lemma next_nest:
  assumes "il_unicon lx = u"
  shows "tok_nest (fst (icn_lex_next lx)) \<union> {s. nested_text u (il_src (snd (icn_lex_next lx))) s}
    \<subseteq> {s. nested_text u (il_src lx) s}"
  using assms nested_text.intros [of lx u] by (auto simp: tok_nest_def)

lemma advance_size: "psize (advance p) + tok_weight (p_cur p) \<le> psize p"
  using next_weight [of "p_lex p"] by (simp add: psize_def advance_def case_prod_beta Let_def)

lemma advance_unicon: "il_unicon (p_lex (advance p)) = il_unicon (p_lex p)"
  by (simp add: advance_def case_prod_beta Let_def next_unicon)

lemma advance_nest: "pnest (advance p) \<subseteq> pnest p"
  using next_nest [OF refl, of "p_lex p"]
  by (auto simp: pnest_def advance_def case_prod_beta Let_def next_unicon)

lemma advance_keeps: "keeps p (advance p)"
  using advance_size [of p] advance_unicon [of p] advance_nest [of p]
  by (simp add: keeps_def) (simp add: advance_def case_prod_beta Let_def)

lemma advance_eats: "t_kind (p_cur p) \<noteq> TK_EOF \<Longrightarrow> eats p (advance p)"
  using advance_size [of p] advance_keeps [of p] by (simp add: eats_def tok_weight_def)

lemma error_keeps: "keeps p (parser_error p m)"
  by (auto simp: keeps_def parser_error_def psize_def pnest_def)

lemma error_cur [simp]: "p_cur (parser_error p m) = p_cur p"
  by (simp add: parser_error_def)

lemma expect_keeps: "keeps p (expect p k c)"
  by (simp add: expect_def advance_keeps error_keeps)

lemma accept_keeps: "keeps p (snd (accept p k))"
  by (simp add: accept_def advance_keeps)

text \<open>The trap of a nested lexer is noted in the outer one.\<close>

lemma trap_keeps: "keeps p (p\<lparr>p_lex := (p_lex p)\<lparr>il_trap := b\<rparr>\<rparr>)"
  by (auto simp: keeps_def psize_def pnest_def)

named_theorems going

lemma go [going]:
  "keeps p q \<Longrightarrow> keeps p (advance q)" "keeps p q \<Longrightarrow> keeps p (parser_error q m)"
  "keeps p q \<Longrightarrow> keeps p (expect q k c)" "keeps p q \<Longrightarrow> keeps p (snd (accept q k))"
  "keeps p q \<Longrightarrow> keeps p (q\<lparr>p_lex := (p_lex q)\<lparr>il_trap := b\<rparr>\<rparr>)"
  "keeps p q \<Longrightarrow> keeps p (case_sep q)" "keeps p q \<Longrightarrow> keeps p (stmt_end c q)"
  by (auto elim!: keeps_trans intro: advance_keeps error_keeps expect_keeps accept_keeps trap_keeps
        keeps_trans [OF accept_keeps]
      simp: case_sep_def stmt_end_def case_prod_beta Let_def)

lemma ate [going]:
  "keeps p q \<Longrightarrow> eats p q \<or> t_kind (p_cur q) \<noteq> TK_EOF \<Longrightarrow> eats p (advance q)"
  "eats p q \<Longrightarrow> eats p (parser_error q m)"
  "eats p q \<Longrightarrow> eats p (expect q k c)" "eats p q \<Longrightarrow> eats p (snd (accept q k))"
  "eats p q \<Longrightarrow> eats p (q\<lparr>p_lex := (p_lex q)\<lparr>il_trap := b\<rparr>\<rparr>)"
  "eats p q \<Longrightarrow> eats p (case_sep q)" "eats p q \<Longrightarrow> eats p (stmt_end c q)"
  using go [OF keeps_refl, of q] eats_trans advance_eats by blast+

lemma ate_token [going]:
  "keeps p q \<Longrightarrow> fst (accept q k) \<Longrightarrow> k \<noteq> TK_EOF \<Longrightarrow> eats p (snd (accept q k))"
  "keeps p q \<Longrightarrow> t_kind (p_cur q) = k \<Longrightarrow> k \<noteq> TK_EOF \<Longrightarrow> eats p (expect q k c)"
  by (auto simp: accept_def expect_def going split: if_split_asm)

lemma eats_irrefl [simp]: "\<not> eats p p"
  by (simp add: eats_def)

section \<open>Weakest preconditions\<close>

definition wp :: "bool \<Rightarrow> 'a option \<Rightarrow> ('a \<Rightarrow> bool) \<Rightarrow> bool" where
  "wp T m Q \<longleftrightarrow> (case m of None \<Rightarrow> \<not> T | Some x \<Rightarrow> Q x)"

lemma wp_simps [simp]: "wp T (Some x) Q = Q x" "wp T None Q = (\<not> T)"
  by (simp_all add: wp_def)

lemma wp_bind [simp]: "wp T (Option.bind m f) Q = wp T m (\<lambda>x. wp T (f x) Q)"
  by (cases m) simp_all

lemma wp_mono: "wp T m P \<Longrightarrow> (\<And>x. P x \<Longrightarrow> Q x) \<Longrightarrow> wp T m Q"
  by (cases m) simp_all

lemma wp_exists: "wp True m Q \<longleftrightarrow> (\<exists>x. m = Some x \<and> Q x)"
  by (cases m) simp_all

lemma wp_if: "(b \<Longrightarrow> wp T m Q) \<Longrightarrow> (\<not> b \<Longrightarrow> wp T m' Q) \<Longrightarrow> wp T (if b then m else m') Q"
  by simp

section \<open>The grammar going down\<close>

fun rank :: "nt \<Rightarrow> icn_parser \<Rightarrow> nat" where
  "rank P_block p = (if t_kind (p_cur p) = TK_LBRACE then 0 else 40)"
| "rank P_ctrl p = (if ctrl_kind (t_kind (p_cur p)) then 0 else 40)"
| "rank P_primary p = 1"
| "rank (L_postfix t) p = 1" | "rank P_postfix p = 2"
| "rank P_repalt p = 3" | "rank P_unary p = 4"
| "rank (L_limit t) p = 4" | "rank P_limit p = 5" | "rank P_pow p = 6"
| "rank (L_mul t) p = 6" | "rank P_mul p = 7"
| "rank (L_add t) p = 7" | "rank P_add p = 8"
| "rank (L_cset t) p = 8" | "rank P_cset p = 9"
| "rank (L_concat t) p = 9" | "rank P_concat p = 10"
| "rank (L_rel t) p = 10" | "rank P_rel p = 11"
| "rank (L_alt t) p = 11" | "rank P_alt p = 12"
| "rank (L_to t) p = 12" | "rank P_to p = 13"
| "rank (L_pmatch t) p = 13" | "rank P_pmatch p = 14"
| "rank (L_activate t) p = 14" | "rank P_activate p = 15"
| "rank P_assign p = 16" | "rank P_scan p = 17"
| "rank (L_and t) p = 17" | "rank P_and p = 18" | "rank P_expr p = 19"
| "rank P_stmt p = 20"
| "rank b p = 30"

text \<open>The functions that have read something when they return, unless they were entered at the end.\<close>

fun progresses :: "nt \<Rightarrow> bool" where
  "progresses P_expr = True" | "progresses P_primary = True" | "progresses P_postfix = True"
| "progresses P_repalt = True" | "progresses P_limit = True" | "progresses P_unary = True"
| "progresses P_pow = True" | "progresses P_mul = True" | "progresses P_add = True"
| "progresses P_cset = True" | "progresses P_concat = True" | "progresses P_rel = True"
| "progresses P_and = True" | "progresses P_to = True" | "progresses P_alt = True"
| "progresses P_pmatch = True" | "progresses P_activate = True" | "progresses P_assign = True"
| "progresses P_scan = True" | "progresses P_ctrl = True" | "progresses P_block = True"
| "progresses P_stmt = True"
| "progresses b = False"

definition moved :: "nt \<Rightarrow> icn_parser \<Rightarrow> icn_tree option \<times> icn_parser \<Rightarrow> bool" where
  "moved b q r \<longleftrightarrow> keeps q (snd r) \<and> (progresses b \<and> t_kind (p_cur q) \<noteq> TK_EOF \<longrightarrow> eats q (snd r))"

definition less_call :: "((nt \<times> icn_parser) \<times> (nt \<times> icn_parser)) set" where
  "less_call = inv_image (less_than <*lex*> less_than) (\<lambda>(b, q). (psize q, rank b q))"

lemma wf_less_call: "wf less_call"
  unfolding less_call_def by (intro wf_inv_image wf_lex_prod wf_less_than)

text \<open>The parser of a text between backquotes.\<close>

definition sub_parser :: "(string \<Rightarrow> string) \<Rightarrow> bool \<Rightarrow> string \<Rightarrow> icn_parser" where
  "sub_parser pp u s = icn_parse_init ((icn_lex_init pp s)\<lparr>il_unicon := u\<rparr>)"

text \<open>The calls a function may make, and what they return.\<close>

definition may_call :: "(string \<Rightarrow> string) \<Rightarrow> nt \<times> icn_parser \<Rightarrow> nt \<times> icn_parser \<Rightarrow> bool" where
  "may_call pp y x \<longleftrightarrow> keeps (snd x) (snd y) \<and> (y, x) \<in> less_call
     \<or> (\<exists>s\<in>pnest (snd x). snd y = sub_parser pp (il_unicon (p_lex (snd x))) s)"

definition calls :: "bool \<Rightarrow> (string \<Rightarrow> string) \<Rightarrow> icn_rec \<Rightarrow> nt \<Rightarrow> icn_parser \<Rightarrow> bool" where
  "calls T pp rec a p \<longleftrightarrow> (\<forall>b q. (T \<longrightarrow> may_call pp (b, q) (a, p)) \<longrightarrow> wp T (rec (b, q)) (moved b q))"

lemma wp_call:
  assumes "calls T pp rec a p" "keeps p q" "eats p q \<or> rank b q < rank a p"
    and Q: "\<And>r p'. keeps p p' \<Longrightarrow> eats p q \<or> progresses b \<and> t_kind (p_cur q) \<noteq> TK_EOF \<longrightarrow> eats p p' \<Longrightarrow> Q (r, p')"
  shows "wp T (rec (b, q)) Q"
proof (rule wp_mono)
  have "((b, q), (a, p)) \<in> less_call"
    using assms(2,3) by (auto simp: less_call_def eats_def keeps_def)
  then have "may_call pp (b, q) (a, p)" using assms(2) by (simp add: may_call_def)
  then show "wp T (rec (b, q)) (moved b q)" using assms(1) by (simp add: calls_def)
next
  fix x assume "moved b q x"
  moreover obtain r p' where "x = (r, p')" by fastforce
  ultimately show "Q x"
    using assms(2) by (auto simp: moved_def intro!: Q intro: keeps_trans eats_trans)
qed

lemma ops_eof [simp]:
  "unary_op TK_EOF = None" "unary_twice TK_EOF = None" "mul_op TK_EOF = None" "add_op TK_EOF = None"
  "cset_op TK_EOF = None" "concat_op TK_EOF = None" "rel_op TK_EOF = None" "pmatch_op TK_EOF = None"
  "assign_op TK_EOF = None" "\<not> is_augop TK_EOF" "\<not> ctrl_kind TK_EOF" "\<not> top_kind TK_EOF"
  by (simp_all add: unary_op_def unary_twice_def mul_op_def add_op_def cset_op_def concat_op_def rel_op_def
      pmatch_op_def assign_op_def is_augop_def augops_def ctrl_kind_def top_kind_def is_relop_def relops_def)

lemma ate_op [going]:
  "keeps p q \<Longrightarrow> unary_op (t_kind (p_cur q)) \<noteq> None \<Longrightarrow> eats p (advance q)"
  "keeps p q \<Longrightarrow> unary_twice (t_kind (p_cur q)) \<noteq> None \<Longrightarrow> eats p (advance q)"
  "keeps p q \<Longrightarrow> cset_op (t_kind (p_cur q)) \<noteq> None \<Longrightarrow> eats p (advance q)"
  "keeps p q \<Longrightarrow> assign_op (t_kind (p_cur q)) \<noteq> None \<Longrightarrow> eats p (advance q)"
  "keeps p q \<Longrightarrow> is_augop (t_kind (p_cur q)) \<Longrightarrow> eats p (advance q)"
  by (rule ate(1); auto)+

section \<open>Every function of the grammar\<close>

lemmas go_simps = moved_def case_prod_beta Let_def

lemma then_loop_total:
  assumes "calls T pp rec a p" "rank b p < rank a p" "\<And>t q. rank (loop t) q < rank a p" "progresses b"
  shows "wp T (then_loop rec b loop p) (moved a p)"
  using assms(2-) unfolding then_loop_def
  by (auto simp: going go_simps split: option.split intro!: wp_call [OF assms(1)])

lemma binary_loop_total:
  assumes "calls T pp rec a p" "\<And>k. ops k \<noteq> None \<Longrightarrow> k \<noteq> TK_EOF" "\<not> progresses a"
  shows "wp T (binary_loop rec ops b loop t p) (moved a p)"
  using assms(2-) unfolding binary_loop_def
  by (auto simp: going go_simps split: option.split intro!: wp_call [OF assms(1)])

text \<open>The parts that several functions share.\<close>

lemma wp_do_clause:
  assumes "calls T pp rec a p0" "eats p0 p" "\<And>r p'. eats p0 p' \<Longrightarrow> Q (r, p')"
  shows "wp T (parse_do_clause rec p) Q"
  using assms(2,3) unfolding parse_do_clause_def
  by (auto simp: going eats_keeps intro!: wp_call [OF assms(1)])

lemma wp_do_loop:
  assumes "calls T pp rec a p0" "keeps p0 p" "t_kind (p_cur p) \<noteq> TK_EOF" "\<And>r p'. eats p0 p' \<Longrightarrow> Q (r, p')"
  shows "wp T (do_loop rec k p) Q"
  using assms(2-) unfolding do_loop_def
  by (auto simp: going case_prod_beta intro!: wp_call [OF assms(1)] wp_do_clause [OF assms(1)])

lemma wp_one_expr:
  assumes "calls T pp rec a p0" "keeps p0 p" "t_kind (p_cur p) \<noteq> TK_EOF" "\<And>r p'. eats p0 p' \<Longrightarrow> Q (r, p')"
  shows "wp T (one_expr rec k p) Q"
  using assms(2-) unfolding one_expr_def
  by (auto simp: going case_prod_beta intro!: wp_call [OF assms(1)])

lemma wp_opt_expr:
  assumes "calls T pp rec a p0" "eats p0 p" "\<And>r p'. eats p0 p' \<Longrightarrow> Q (r, p')"
  shows "wp T (opt_expr rec e p) Q"
  using assms(2-) unfolding opt_expr_def
  by (auto simp: going eats_keeps case_prod_beta intro!: wp_call [OF assms(1)])

lemma wp_if_expr:
  assumes "calls T pp rec a p0" "keeps p0 p" "t_kind (p_cur p) \<noteq> TK_EOF" "\<And>r p'. eats p0 p' \<Longrightarrow> Q (r, p')"
  shows "wp T (parse_if rec p) Q"
  using assms(2-) unfolding parse_if_def
  by (auto simp: going case_prod_beta Let_def intro!: wp_call [OF assms(1)])

lemma wp_suspend:
  assumes "calls T pp rec a p0" "keeps p0 p" "t_kind (p_cur p) \<noteq> TK_EOF" "\<And>r p'. eats p0 p' \<Longrightarrow> Q (r, p')"
  shows "wp T (parse_suspend rec p) Q"
  using assms(2-) unfolding parse_suspend_def
  by (auto simp: going case_prod_beta Let_def intro!: wp_call [OF assms(1)] wp_do_clause [OF assms(1)])

lemma wp_case_expr:
  assumes "calls T pp rec a p0" "keeps p0 p" "t_kind (p_cur p) \<noteq> TK_EOF" "\<And>r p'. eats p0 p' \<Longrightarrow> Q (r, p')"
  shows "wp T (parse_case rec p) Q"
  using assms(2-) unfolding parse_case_def
  by (auto simp: going case_prod_beta Let_def intro!: wp_call [OF assms(1)])

lemma wp_section:
  assumes "calls T pp rec a p0" "keeps p0 p" "t_kind (p_cur p) \<noteq> TK_EOF" "\<And>r p'. keeps p0 p' \<Longrightarrow> Q (r, p')"
  shows "wp T (section_with rec k c n i p) Q"
  using assms(2-) unfolding section_with_def
  by (auto simp: going case_prod_beta Let_def intro!: wp_call [OF assms(1)])

lemma wp_subscript:
  assumes "calls T pp rec a p0" "keeps p0 p" "t_kind (p_cur p) \<noteq> TK_EOF" "\<And>r p'. keeps p0 p' \<Longrightarrow> Q (r, p')"
  shows "wp T (parse_subscript rec n p) Q"
  using assms(2-) unfolding parse_subscript_def
  by (auto simp: going eats_keeps case_prod_beta Let_def split: option.split
        intro!: wp_call [OF assms(1)] wp_section [OF assms(1)])

lemma wp_ended:
  assumes "wp T r (\<lambda>x. Q (fst x, stmt_end c (snd x)))"
  shows "wp T (ended c r) Q"
  using assms by (simp add: ended_def case_prod_beta)

lemma parse_repalt_total: "calls T pp rec P_repalt p \<Longrightarrow> wp T (parse_repalt rec p) (moved P_repalt p)"
  unfolding parse_repalt_def 
  by (auto simp: going go_simps split: option.split intro!: wp_call [of _ _ _ "P_repalt" p])

lemma parse_pow_total: "calls T pp rec P_pow p \<Longrightarrow> wp T (parse_pow rec p) (moved P_pow p)"
  unfolding parse_pow_def 
  by (auto simp: going go_simps split: option.split intro!: wp_call [of _ _ _ "P_pow" p])

lemma parse_and_total: "calls T pp rec P_and p \<Longrightarrow> wp T (parse_and rec p) (moved P_and p)"
  unfolding parse_and_def 
  by (auto simp: going go_simps split: option.split intro!: wp_call [of _ _ _ "P_and" p])

lemma parse_alt_total: "calls T pp rec P_alt p \<Longrightarrow> wp T (parse_alt rec p) (moved P_alt p)"
  unfolding parse_alt_def 
  by (auto simp: going go_simps split: option.split intro!: wp_call [of _ _ _ "P_alt" p])

lemma parse_assign_total: "calls T pp rec P_assign p \<Longrightarrow> wp T (parse_assign rec p) (moved P_assign p)"
  unfolding parse_assign_def 
  by (auto simp: going go_simps split: option.split intro!: wp_call [of _ _ _ "P_assign" p])

lemma parse_scan_total: "calls T pp rec P_scan p \<Longrightarrow> wp T (parse_scan rec p) (moved P_scan p)"
  unfolding parse_scan_def 
  by (auto simp: going go_simps split: option.split intro!: wp_call [of _ _ _ "P_scan" p])

lemma parse_block_total: "calls T pp rec P_block p \<Longrightarrow> wp T (parse_block rec p) (moved P_block p)"
  unfolding parse_block_def 
  by (auto simp: going go_simps split: option.split intro!: wp_call [of _ _ _ "P_block" p])

lemma comma_loop_total: "calls T pp rec (L_comma close t) p \<Longrightarrow> wp T (comma_loop rec close t p) (moved (L_comma close t) p)"
  unfolding comma_loop_def 
  by (auto simp: going go_simps split: option.split intro!: wp_call [of _ _ _ "L_comma close t" p])

lemma args_loop_total: "calls T pp rec (L_args t) p \<Longrightarrow> wp T (args_loop rec t p) (moved (L_args t) p)"
  unfolding args_loop_def 
  by (auto simp: going go_simps split: option.split intro!: wp_call [of _ _ _ "L_args t" p])

lemma subs_loop_total: "calls T pp rec (L_subs t) p \<Longrightarrow> wp T (subs_loop rec t p) (moved (L_subs t) p)"
  unfolding subs_loop_def 
  by (auto simp: going go_simps split: option.split intro!: wp_call [of _ _ _ "L_subs t" p])

lemma brace_loop_total: "calls T pp rec (L_brace t) p \<Longrightarrow> wp T (brace_loop rec t p) (moved (L_brace t) p)"
  unfolding brace_loop_def 
  by (auto simp: going go_simps split: option.split intro!: wp_call [of _ _ _ "L_brace t" p])

lemma limit_loop_total: "calls T pp rec (L_limit t) p \<Longrightarrow> wp T (limit_loop rec t p) (moved (L_limit t) p)"
  unfolding limit_loop_def 
  by (auto simp: going go_simps split: option.split intro!: wp_call [of _ _ _ "L_limit t" p])

lemma cset_loop_total: "calls T pp rec (L_cset t) p \<Longrightarrow> wp T (cset_loop rec t p) (moved (L_cset t) p)"
  unfolding cset_loop_def binary_loop_def
  by (auto simp: going go_simps split: option.split intro!: wp_call [of _ _ _ "L_cset t" p])

lemma and_loop_total: "calls T pp rec (L_and t) p \<Longrightarrow> wp T (and_loop rec t p) (moved (L_and t) p)"
  unfolding and_loop_def 
  by (auto simp: going go_simps split: option.split intro!: wp_call [of _ _ _ "L_and t" p])

lemma to_loop_total: "calls T pp rec (L_to t) p \<Longrightarrow> wp T (to_loop rec t p) (moved (L_to t) p)"
  unfolding to_loop_def 
  by (auto simp: going go_simps split: option.split intro!: wp_call [of _ _ _ "L_to t" p])

lemma alt_loop_total: "calls T pp rec (L_alt t) p \<Longrightarrow> wp T (alt_loop rec t p) (moved (L_alt t) p)"
  unfolding alt_loop_def 
  by (auto simp: going go_simps split: option.split intro!: wp_call [of _ _ _ "L_alt t" p])

lemma activate_loop_total: "calls T pp rec (L_activate t) p \<Longrightarrow> wp T (activate_loop rec t p) (moved (L_activate t) p)"
  unfolding activate_loop_def 
  by (auto simp: going go_simps split: option.split intro!: wp_call [of _ _ _ "L_activate t" p])

lemma case_loop_total: "calls T pp rec (L_case t n) p \<Longrightarrow> wp T (case_loop rec t n p) (moved (L_case t n) p)"
  unfolding case_loop_def 
  by (auto simp: going go_simps split: option.split intro!: wp_call [of _ _ _ "L_case t n" p])

lemma block_loop_total: "calls T pp rec (L_block t n) p \<Longrightarrow> wp T (block_loop rec t n p) (moved (L_block t n) p)"
  unfolding block_loop_def end_block_def
  by (auto simp: going go_simps split: option.split intro!: wp_call [of _ _ _ "L_block t n" p])

lemma names_loop_total: "calls T pp rec (L_names stop t) p \<Longrightarrow> wp T (names_loop rec stop t p) (moved (L_names stop t) p)"
  unfolding names_loop_def 
  by (auto simp: going go_simps split: option.split intro!: wp_call [of _ _ _ "L_names stop t" p])

lemma params_loop_total: "calls T pp rec (L_params t) p \<Longrightarrow> wp T (params_loop rec t p) (moved (L_params t) p)"
  unfolding params_loop_def 
  by (auto simp: going go_simps split: option.split intro!: wp_call [of _ _ _ "L_params t" p])

lemma stmts_loop_total: "calls T pp rec (L_stmts t) p \<Longrightarrow> wp T (stmts_loop rec t p) (moved (L_stmts t) p)"
  unfolding stmts_loop_def 
  by (auto simp: going go_simps split: option.split intro!: wp_call [of _ _ _ "L_stmts t" p])

lemma nlist_loop_total: "calls T pp rec (L_nlist t) p \<Longrightarrow> wp T (nlist_loop rec t p) (moved (L_nlist t) p)"
  unfolding nlist_loop_def 
  by (auto simp: going go_simps split: option.split intro!: wp_call [of _ _ _ "L_nlist t" p])

lemma supers_loop_total: "calls T pp rec (L_supers t) p \<Longrightarrow> wp T (supers_loop rec t p) (moved (L_supers t) p)"
  unfolding supers_loop_def 
  by (auto simp: going go_simps split: option.split intro!: wp_call [of _ _ _ "L_supers t" p])

lemma members_loop_total: "calls T pp rec (L_members t) p \<Longrightarrow> wp T (members_loop rec t p) (moved (L_members t) p)"
  unfolding members_loop_def parse_proc_kw_def
  by (auto simp: going go_simps split: option.split intro!: wp_call [of _ _ _ "L_members t" p])

lemma package_loop_total: "calls T pp rec (L_package b t) p \<Longrightarrow> wp T (package_loop rec b t p) (moved (L_package b t) p)"
  unfolding package_loop_def 
  by (auto simp: going go_simps split: option.split intro!: wp_call [of _ _ _ "L_package b t" p])

lemma link_loop_total: "calls T pp rec (L_link t) p \<Longrightarrow> wp T (link_loop rec t p) (moved (L_link t) p)"
  unfolding link_loop_def 
  by (auto simp: going go_simps split: option.split intro!: wp_call [of _ _ _ "L_link t" p])

lemma parse_unary_total:
  assumes "calls T pp rec P_unary p"
  shows "wp T (parse_unary rec p) (moved P_unary p)"
  unfolding parse_unary_def Let_def
  by (cases "unary_op (t_kind (p_cur p))"; cases "unary_twice (t_kind (p_cur p))"; simp only: option.case)
     (auto simp: going go_simps intro!: wp_if wp_call [OF assms])

lemma parse_ctrl_total:
  assumes "calls T pp rec P_ctrl p"
  shows "wp T (parse_ctrl rec p) (moved P_ctrl p)"
  unfolding parse_ctrl_def Let_def
  by (intro wp_if wp_do_loop [OF assms] wp_one_expr [OF assms] wp_opt_expr [OF assms] wp_if_expr [OF assms]
        wp_suspend [OF assms] wp_case_expr [OF assms])
     (auto simp: going go_simps eats_keeps ctrl_kind_def intro!: wp_call [OF assms] wp_one_expr [OF assms])

lemma parse_stmt_total:
  assumes "calls T pp rec P_stmt p"
  shows "wp T (parse_stmt rec p) (moved P_stmt p)"
  unfolding parse_stmt_def Let_def
  by (intro wp_if wp_ended wp_do_loop [OF assms] wp_one_expr [OF assms] wp_opt_expr [OF assms] wp_if_expr [OF assms]
        wp_suspend [OF assms] wp_case_expr [OF assms])
     (auto simp: going go_simps eats_keeps intro!: wp_call [OF assms])

lemma postfix_loop_total:
  assumes "calls T pp rec (L_postfix t) p"
  shows "wp T (postfix_loop rec t p) (moved (L_postfix t) p)"
  unfolding postfix_loop_def Let_def
  by (intro wp_if)
     (auto simp: going go_simps eats_keeps split: option.split intro!: wp_call [OF assms] wp_subscript [OF assms])

lemma wp_backquote:
  assumes c: "calls T pp rec a p" and k: "nest_kind (t_kind (p_cur p))"
    and Q: "\<And>r p'. eats p p' \<Longrightarrow> Q (r, p')"
  shows "wp T (parse_backquote pp rec p) Q"
proof -
  let ?q = "sub_parser pp (il_unicon (p_lex p)) (sval_of (t_val (p_cur p)))"
  have "sval_of (t_val (p_cur p)) \<in> pnest p" using k by (simp add: pnest_def tok_nest_def)
  then have "may_call pp (P_expr, ?q) (a, p)" by (auto simp: may_call_def)
  then have call: "wp T (rec (P_expr, ?q)) (moved P_expr ?q)" using c by (simp add: calls_def)
  have "t_kind (p_cur p) \<noteq> TK_EOF" using k by (auto simp: nest_kind_def)
  then have "eats p (advance p)" by (intro ate(1)) simp_all
  with call show ?thesis
    unfolding parse_backquote_def Let_def advance_unicon wp_bind sub_parser_def [symmetric]
    by (elim wp_mono) (auto simp: going intro!: Q)
qed

lemma parse_primary_total:
  assumes c: "calls T pp rec P_primary p"
  shows "wp T (parse_primary pp rec p) (moved P_primary p)"
proof -
  have b: "wp T (parse_backquote pp rec p) (moved P_primary p)"
    if "t_kind (p_cur p) = TK_PUNEVAL \<or> t_kind (p_cur p) = TK_PUNEVAL2"
    using wp_backquote [OF c, of "moved P_primary p"] that by (simp add: moved_def eats_keeps nest_kind_def)
  show ?thesis
    unfolding parse_primary_def Let_def
    by (intro wp_if b wp_opt_expr [OF c])
       (auto simp: going go_simps eats_keeps parse_name_def parse_keyword_def parse_paren_def parse_list_def
          split: option.split intro!: wp_call [OF c])
qed

text \<open>Declarations, seen from the loop of \<open>icn_parse_file\<close>.\<close>

lemma wp_name_list:
  assumes "calls T pp rec a p0" "eats p0 p" "\<And>r p'. eats p0 p' \<Longrightarrow> Q (r, p')"
  shows "wp T (parse_name_list rec c p) Q"
  using assms(2-) unfolding parse_name_list_def
  by (auto simp: going eats_keeps case_prod_beta Let_def intro!: wp_call [OF assms(1)])

lemma wp_proc_kw:
  assumes "calls T pp rec a p0" "keeps p0 p" "t_kind (p_cur p) = kw" "kw \<noteq> TK_EOF" "\<And>r p'. eats p0 p' \<Longrightarrow> Q (r, p')"
  shows "wp T (parse_proc_kw rec kw body p) Q"
  using assms(2-) unfolding parse_proc_kw_def
  by (auto simp: going eats_keeps case_prod_beta Let_def intro!: wp_call [OF assms(1)])

lemma wp_record:
  assumes "calls T pp rec a p0" "keeps p0 p" "t_kind (p_cur p) = TK_RECORD" "\<And>r p'. eats p0 p' \<Longrightarrow> Q (r, p')"
  shows "wp T (parse_record rec p) Q"
  using assms(2-) unfolding parse_record_def
  by (auto simp: going eats_keeps case_prod_beta Let_def intro!: wp_call [OF assms(1)])

lemma wp_initially:
  assumes "calls T pp rec a p0" "eats p0 p" "\<And>r p'. eats p0 p' \<Longrightarrow> Q (r, p')"
  shows "wp T (parse_initially rec p) Q"
  using assms(2-) unfolding parse_initially_def Let_def
  by (auto simp: going eats_keeps case_prod_beta Let_def intro!: wp_call [OF assms(1)] wp_name_list [OF assms(1)])

lemma wp_class:
  assumes "calls T pp rec a p0" "keeps p0 p" "t_kind (p_cur p) = TK_CLASS" "\<And>r p'. eats p0 p' \<Longrightarrow> Q (r, p')"
  shows "wp T (parse_class rec p) Q"
  using assms(2-) unfolding parse_class_def Let_def
  by (auto simp: going eats_keeps case_prod_beta Let_def
        intro!: wp_call [OF assms(1)] wp_name_list [OF assms(1)] wp_initially [OF assms(1)])

lemma wp_semicol_after:
  assumes "wp T r (\<lambda>x. Q (fst x, snd (accept (snd x) TK_SEMICOL)))"
  shows "wp T (semicol_after r) Q"
  using assms by (simp add: semicol_after_def case_prod_beta)

lemma wp_top:
  assumes "calls T pp rec a p" "top_kind (t_kind (p_cur p))" "\<And>r p'. eats p p' \<Longrightarrow> Q (r, p')"
  shows "wp T (parse_top rec p) Q"
  using assms(2-) unfolding parse_top_def Let_def parse_proc_def
  by (intro wp_if wp_semicol_after wp_proc_kw [OF assms(1)] wp_record [OF assms(1)] wp_class [OF assms(1)])
     (auto simp: going eats_keeps case_prod_beta top_kind_def intro!: wp_call [OF assms(1)])

lemma file_loop_total:
  assumes "calls T pp rec (L_file t) p"
  shows "wp T (file_loop rec t p) (moved (L_file t) p)"
  unfolding file_loop_def
  by (auto simp: going go_simps eats_keeps intro!: wp_if wp_call [OF assms] wp_top [OF assms])

lemma expr_total: "calls T pp rec P_expr p \<Longrightarrow> wp T (rec (P_and, p)) (moved P_expr p)"
  by (auto simp: go_simps intro!: wp_call [of _ _ _ P_expr p])

lemma icn_step_total:
  assumes c: "calls T pp rec a p"
  shows "wp T (icn_step pp rec (a, p)) (moved a p)"
proof -
  show ?thesis
    using c unfolding icn_step_def prod.case
    by (cases a; simp only: nt.case)
       (auto intro!: expr_total then_loop_total binary_loop_total parse_primary_total
          parse_repalt_total parse_unary_total parse_pow_total parse_and_total parse_alt_total parse_assign_total
          parse_scan_total parse_ctrl_total parse_block_total parse_stmt_total postfix_loop_total comma_loop_total
          args_loop_total subs_loop_total brace_loop_total limit_loop_total cset_loop_total and_loop_total
          to_loop_total alt_loop_total activate_loop_total case_loop_total block_loop_total names_loop_total
          params_loop_total stmts_loop_total nlist_loop_total supers_loop_total members_loop_total
          package_loop_total link_loop_total file_loop_total)
qed

section \<open>The whole parser\<close>

text \<open>What a call does when it returns, without any condition.\<close>

lemma icn_parse_moved: "wp False (icn_parse pp (a, p)) (moved a p)"
proof -
  let ?P = "\<lambda>(pp :: string \<Rightarrow> string) x r. moved (fst x) (snd x) r"
  have "?P pp x r" if r: "icn_parse pp x = Some r" for x r
  proof -
    have "(case (pp, x) of (pp, x) \<Rightarrow> ?P pp x) r"
    proof (rule icn_parse.raw_induct [of ?P])
      fix rec :: "(string \<Rightarrow> string) \<Rightarrow> icn_rec" and pp x r
      assume IH: "\<And>pp x r. rec pp x = Some r \<Longrightarrow> ?P pp x r" and step: "icn_step pp (rec pp) x = Some r"
      have "calls False pp (rec pp) (fst x) (snd x)" using IH by (auto simp: calls_def wp_def split: option.split)
      from icn_step_total [OF this] step show "?P pp x r" by simp
    qed (simp add: r)
    then show ?thesis by simp
  qed
  then show ?thesis by (fastforce simp: wp_def split: option.split)
qed

text \<open>A call returns when the calls on the texts between backquotes before it do.\<close>

lemma icn_parse_returns:
  assumes sub: "\<And>s b. s \<in> pnest p0 \<Longrightarrow> wp True (icn_parse pp (b, sub_parser pp (il_unicon (p_lex p0)) s))
      (moved b (sub_parser pp (il_unicon (p_lex p0)) s))"
  shows "keeps p0 p \<Longrightarrow> wp True (icn_parse pp (a, p)) (moved a p)"
proof (induction "(a, p)" arbitrary: a p rule: wf_induct_rule [OF wf_less_call])
  case (1 a p)
  have "calls True pp (icn_parse pp) a p"
    unfolding calls_def
  proof (intro allI impI)
    fix b q assume "True \<longrightarrow> may_call pp (b, q) (a, p)"
    then consider "keeps p q" "((b, q), (a, p)) \<in> less_call"
      | s where "s \<in> pnest p" "q = sub_parser pp (il_unicon (p_lex p)) s" by (auto simp: may_call_def)
    then show "wp True (icn_parse pp (b, q)) (moved b q)"
    proof cases
      case 1
      show ?thesis by (rule "1.hyps" [OF 1(2) keeps_trans [OF "1.prems" 1(1)]])
    next
      case 2
      then show ?thesis using sub [of s b] "1.prems" by (auto simp: keeps_def)
    qed
  qed
  then show ?case by (subst icn_parse.simps) (rule icn_step_total)
qed

lemma sub_parser_nest: "pnest (sub_parser pp u t) \<subseteq> {s. nested_text u (pp t) s}"
proof -
  let ?lx = "(icn_lex_init pp t)\<lparr>il_unicon := u\<rparr>"
  have "il_unicon ?lx = u" "il_src ?lx = pp t" by (simp_all add: icn_lex_init_def)
  then show ?thesis
    using next_nest [of ?lx u] next_nest [of "snd (icn_lex_next ?lx)" u]
    by (auto simp: sub_parser_def icn_parse_init_def pnest_def case_prod_beta Let_def next_unicon)
qed

lemma sub_parser_unicon: "il_unicon (p_lex (sub_parser pp u t)) = u"
  by (simp add: sub_parser_def icn_parse_init_def case_prod_beta Let_def next_unicon)

lemma icn_parse_total:
  assumes "nests_end pp u t"
  shows "wp True (icn_parse pp (a, sub_parser pp u t)) (moved a (sub_parser pp u t))"
  using assms
proof (induction arbitrary: a rule: nests_end.induct)
  case (step t)
  show ?case
  proof (rule icn_parse_returns [OF _ keeps_refl], unfold sub_parser_unicon)
    fix s b assume "s \<in> pnest (sub_parser pp u t)"
    then have "nested_text u (pp t) s" using sub_parser_nest by blast
    then show "wp True (icn_parse pp (b, sub_parser pp u s)) (moved b (sub_parser pp u s))" by (rule step.IH)
  qed
qed

text \<open>A text between backquotes has fewer backquotes than the text around it.\<close>

lemma nested_text_bq: "nested_text u r s \<Longrightarrow> bq_count s < bq_count r"
proof (induction rule: nested_text.induct)
  case (here lx)
  then show ?case using lex_one_props(5) [of lx] by (simp add: tok_bq_def nest_kind_def)
next
  case (later lx s)
  then show ?case using lex_one_props(5) [of lx] by simp
qed

text \<open>
  So texts end to nest when the preprocessor leaves no backquotes in the text, and always when it adds none
  to any text. A text that comes back between backquotes in itself does not end.
\<close>

lemma nests_end_none:
  assumes "CHR 0x60 \<notin> set (pp t)"
  shows "nests_end pp u t"
proof (rule nests_end.step)
  fix s assume "nested_text u (pp t) s"
  then have "bq_count s < bq_count (pp t)" by (rule nested_text_bq)
  moreover have "bq_count (pp t) = 0" using assms by (simp add: bq_count_def count_list_0_iff)
  ultimately show "nests_end pp u s" by simp
qed

lemma nests_end_fewer:
  assumes "\<And>s. bq_count (pp s) \<le> bq_count s"
  shows "nests_end pp u t"
proof (induction t rule: measure_induct_rule [of bq_count])
  case (less t)
  show ?case
  proof (rule nests_end.step)
    fix s assume "nested_text u (pp t) s"
    then have "bq_count s < bq_count (pp t)" by (rule nested_text_bq)
    also have "\<dots> \<le> bq_count t" by (rule assms)
    finally show "nests_end pp u s" by (rule less)
  qed
qed

lemma nests_end_loops: "nests_end pp u t \<Longrightarrow> \<not> nested_text u (pp t) t"
proof (induction rule: nests_end.induct)
  case (step t)
  then show ?case by blast
qed

end
