(* ===== verification/Icon_Parse_Type.thy ===== *)
theory Icon_Parse_Type
  imports Icon_Parse
begin

text \<open>
  The trees the Icon parser builds when it reports no error: no child is missing, every node has the
  number of children and the payload its kind stands for, and the lists of names hold names. What a
  call answers is stated for every function of the grammar by \<open>pre\<close> and \<open>post\<close>; \<open>wlp\<close> carries it
  through the bodies.
\<close>

section \<open>Well-formed trees\<close>

text \<open>The least number of children, and the greatest where there is one.\<close>

primrec arity :: "tree_e \<Rightarrow> nat \<times> nat option" where
  "arity TT_QLIT = (0, Some 0)" | "arity TT_ILIT = (0, Some 0)" | "arity TT_FLIT = (0, Some 0)"
| "arity TT_CSET = (0, Some 0)" | "arity TT_NUL = (0, Some 0)" | "arity TT_VAR = (0, Some 0)"
| "arity TT_DEFER = (1, Some 1)" | "arity TT_MNS = (1, Some 1)" | "arity TT_PLS = (1, Some 1)"
| "arity TT_ADD = (2, Some 2)" | "arity TT_SUB = (2, Some 2)" | "arity TT_MUL = (2, Some 2)"
| "arity TT_DIV = (2, Some 2)" | "arity TT_MOD = (2, Some 2)" | "arity TT_POW = (2, Some 2)"
| "arity TT_CAT = (2, Some 2)" | "arity TT_ALT = (2, Some 2)" | "arity TT_VLIST = (0, None)"
| "arity TT_CAPT_COND_ASGN = (2, Some 2)" | "arity TT_CAPT_IMMED_ASGN = (2, Some 2)"
| "arity TT_CAPT_CURSOR = (1, Some 1)" | "arity TT_FNC = (1, None)" | "arity TT_IDX = (2, None)"
| "arity TT_ASSIGN = (2, Some 2)" | "arity TT_SCAN = (2, Some 2)" | "arity TT_SWAP = (2, Some 2)"
| "arity TT_SUSPEND = (1, Some 2)" | "arity TT_TO = (2, Some 2)" | "arity TT_TO_BY = (3, Some 3)"
| "arity TT_LIMIT = (2, Some 2)" | "arity TT_CREATE = (1, Some 1)" | "arity TT_ACTIVATE = (1, Some 2)"
| "arity TT_ALTERNATE = (2, None)" | "arity TT_REPALT = (1, Some 1)" | "arity TT_ITERATE = (1, Some 1)"
| "arity TT_MAKELIST = (0, None)" | "arity TT_LT = (2, Some 2)" | "arity TT_LE = (2, Some 2)"
| "arity TT_GT = (2, Some 2)" | "arity TT_GE = (2, Some 2)" | "arity TT_EQ = (2, Some 2)"
| "arity TT_NE = (2, Some 2)" | "arity TT_LLT = (2, Some 2)" | "arity TT_LLE = (2, Some 2)"
| "arity TT_LGT = (2, Some 2)" | "arity TT_LGE = (2, Some 2)" | "arity TT_LEQ = (2, Some 2)"
| "arity TT_LNE = (2, Some 2)" | "arity TT_CSET_COMPL = (1, Some 1)" | "arity TT_CSET_UNION = (2, Some 2)"
| "arity TT_CSET_DIFF = (2, Some 2)" | "arity TT_CSET_INTER = (2, Some 2)" | "arity TT_LCONCAT = (2, Some 2)"
| "arity TT_NONNULL = (1, Some 1)" | "arity TT_NULL = (1, Some 1)" | "arity TT_NOT = (1, Some 1)"
| "arity TT_SIZE = (1, Some 1)" | "arity TT_RANDOM = (1, Some 1)" | "arity TT_IDENTICAL = (2, Some 2)"
| "arity TT_AUGOP = (2, Some 2)" | "arity TT_SEQ_EXPR = (0, None)" | "arity TT_EVERY = (1, Some 2)"
| "arity TT_WHILE = (1, Some 2)" | "arity TT_UNTIL = (1, Some 2)" | "arity TT_REPEAT = (1, Some 1)"
| "arity TT_IF = (2, Some 3)" | "arity TT_CASE = (1, None)" | "arity TT_RETURN = (0, Some 1)"
| "arity TT_PROC_FAIL = (0, Some 0)" | "arity TT_LOOP_BREAK = (0, Some 1)" | "arity TT_LOOP_NEXT = (0, Some 0)"
| "arity TT_BANG_BINARY = (2, Some 2)" | "arity TT_SECTION = (3, Some 3)" | "arity TT_SECTION_PLUS = (3, Some 3)"
| "arity TT_SECTION_MINUS = (3, Some 3)" | "arity TT_RECORD = (0, None)" | "arity TT_FIELD = (2, Some 2)"
| "arity TT_GLOBAL = (0, None)" | "arity TT_LOCAL = (0, None)" | "arity TT_STATIC_DECL = (0, None)"
| "arity TT_INITIAL = (1, Some 1)" | "arity TT_REVASSIGN = (2, Some 2)" | "arity TT_REVSWAP = (2, Some 2)"
| "arity TT_LINK = (0, None)" | "arity TT_INVOCABLE = (0, None)" | "arity TT_PROGRAM = (0, None)"
| "arity TT_STMT = (3, Some 3)" | "arity TT_ATTR = (1, Some 1)" | "arity TT_PROC_DECL = (2, Some 3)"
| "arity TT_CLASS_DECL = (2, None)" | "arity TT_MODULE_DECL = (0, Some 1)" | "arity TT_USE_DECL = (0, None)"
| "arity TT_CONJ = (2, None)" | "arity TT_DEREF = (1, Some 1)" | "arity TT_NIDENTICAL = (2, Some 2)"
| "arity TT_PMATCH = (2, Some 2)" | "arity TT_PAND = (2, Some 2)"

text \<open>A block of one expression is that expression, and a \<open>case\<close> has pairs after what it selects on.\<close>

definition fits :: "tree_e \<Rightarrow> nat \<Rightarrow> bool" where
  "fits k n \<longleftrightarrow> fst (arity k) \<le> n \<and> (case snd (arity k) of None \<Rightarrow> True | Some m \<Rightarrow> n \<le> m)
     \<and> (k = TT_SEQ_EXPR \<longrightarrow> n \<noteq> 1) \<and> (k = TT_CASE \<longrightarrow> odd n)"

fun is_V_s :: "tree_v \<Rightarrow> bool" where
  "is_V_s (V_s s) = True"
| "is_V_s v = False"

fun is_V_i :: "tree_v \<Rightarrow> bool" where
  "is_V_i (V_i n) = True"
| "is_V_i v = False"

fun is_V_d :: "tree_v \<Rightarrow> bool" where
  "is_V_d (V_d s) = True"
| "is_V_d v = False"

definition payload :: "tree_e \<Rightarrow> tree_v \<Rightarrow> bool" where
  "payload k v =
     (if k \<in> {TT_QLIT, TT_CSET, TT_VAR, TT_RECORD, TT_PROC_DECL, TT_CLASS_DECL, TT_ATTR} then is_V_s v
      else if k = TT_ILIT then is_V_i v
      else if k = TT_FLIT then is_V_d v
      else if k = TT_AUGOP then v \<in> V_i ` {1..28}
      else if k = TT_VLIST then v \<in> {V_0, V_i 0, V_i 1}
      else if k = TT_MODULE_DECL \<or> k = TT_USE_DECL then v = V_0 \<or> is_V_s v
      else v = V_0)"

definition of_names :: "tree_e \<Rightarrow> bool" where
  "of_names k \<longleftrightarrow> k \<in> {TT_VLIST, TT_RECORD, TT_GLOBAL, TT_LOCAL, TT_STATIC_DECL, TT_LINK, TT_INVOCABLE,
     TT_MODULE_DECL, TT_USE_DECL}"

definition is_name :: "icn_tree option \<Rightarrow> bool" where
  "is_name c \<longleftrightarrow> (\<exists>t. c = Some t \<and> n_kind t = TT_VAR)"

fun icn_wf :: "icn_tree \<Rightarrow> bool" where
  "icn_wf (Node k v s l cs) \<longleftrightarrow>
     fits k (length cs) \<and> payload k v \<and> (of_names k \<longrightarrow> list_all is_name cs)
     \<and> list_all (\<lambda>c. case c of None \<Rightarrow> False | Some t \<Rightarrow> icn_wf t) cs"

definition kids :: "icn_tree option list \<Rightarrow> bool" where
  "kids cs \<longleftrightarrow> list_all (\<lambda>c. case c of None \<Rightarrow> False | Some t \<Rightarrow> icn_wf t) cs"

lemma icn_wf_node:
  "icn_wf e \<longleftrightarrow> fits (n_kind e) (length (n_c e)) \<and> payload (n_kind e) (n_v e)
     \<and> (of_names (n_kind e) \<longrightarrow> list_all is_name (n_c e)) \<and> kids (n_c e)"
  by (cases e) (simp add: kids_def)

lemma kids_simps [simp]: "kids []" "kids (a # cs) \<longleftrightarrow> (\<exists>t. a = Some t \<and> icn_wf t) \<and> kids cs" "kids (xs @ ys) \<longleftrightarrow> kids xs \<and> kids ys"
  by (auto simp: kids_def split: option.split)

lemma is_name_simps [simp]: "is_name (Some t) \<longleftrightarrow> n_kind t = TT_VAR" "\<not> is_name None"
  by (simp_all add: is_name_def)

lemma node_simps [simp]:
  "n_kind (push_child e c) = n_kind e" "n_v (push_child e c) = n_v e" "n_c (push_child e c) = n_c e @ [c]"
  "n_kind (set_line l e) = n_kind e" "n_v (set_line l e) = n_v e" "n_c (set_line l e) = n_c e"
  "n_kind (set_v v e) = n_kind e" "n_v (set_v v e) = v" "n_c (set_v v e) = n_c e"
  "n_kind (set_slen n e) = n_kind e" "n_v (set_slen n e) = n_v e" "n_c (set_slen n e) = n_c e"
  "n_kind (ast_node_new k) = k" "n_v (ast_node_new k) = V_0" "n_c (ast_node_new k) = []"
  "n_kind (e_leaf_sval k s) = k" "n_v (e_leaf_sval k s) = V_s s" "n_c (e_leaf_sval k s) = []"
  "n_kind (e_unary k c) = k" "n_v (e_unary k c) = V_0" "n_c (e_unary k c) = [c]"
  "n_kind (e_binary k c d) = k" "n_v (e_binary k c d) = V_0" "n_c (e_binary k c d) = [c, d]"
  "n_kind (e_unary_at l k c) = k" "n_v (e_unary_at l k c) = V_0" "n_c (e_unary_at l k c) = [c]"
  "n_kind (e_binary_at l k c d) = k" "n_v (e_binary_at l k c d) = V_0" "n_c (e_binary_at l k c d) = [c, d]"
  "n_kind (leaf_at l s) = TT_VAR" "n_v (leaf_at l s) = V_s s" "n_c (leaf_at l s) = []"
  "n_kind null_leaf = TT_VAR" "is_V_s (n_v null_leaf)" "n_c null_leaf = []"
  "n_kind (call_of s c) = TT_FNC" "n_v (call_of s c) = V_0"
  "n_c (call_of s c) = [Some (e_leaf_sval TT_VAR s), c]"
  by (simp_all add: push_child_def set_line_def set_v_def set_slen_def ast_node_new_def e_leaf_sval_def
      e_unary_def e_binary_def e_unary_at_def e_binary_at_def leaf_at_def null_leaf_def call_of_def)

lemma push_opt_simps [simp]:
  "push_opt e None = e" "push_opt e (Some t) = push_child e (Some t)"
  by (simp_all add: push_opt_def)

lemma leaf_wf [simp]:
  "k \<in> {TT_VAR, TT_QLIT, TT_CSET} \<Longrightarrow> icn_wf (e_leaf_sval k s)" "icn_wf null_leaf" "icn_wf (leaf_at l s)"
  by (auto simp: icn_wf_node fits_def payload_def of_names_def)

lemma set_line_wf [simp]: "icn_wf (set_line l e) = icn_wf e"
  by (simp add: icn_wf_node)

lemma line_default_simps [simp]: "icn_wf (line_default l e) = icn_wf e"
  by (simp add: line_default_def)

section \<open>Partial correctness\<close>

definition wlp :: "'a option \<Rightarrow> ('a \<Rightarrow> bool) \<Rightarrow> bool" where
  "wlp m Q \<longleftrightarrow> (case m of None \<Rightarrow> True | Some x \<Rightarrow> Q x)"

lemma wlp_simps [simp]: "wlp (Some x) Q = Q x" "wlp None Q"
  by (simp_all add: wlp_def)

lemma wlp_bind [simp]: "wlp (Option.bind m f) Q = wlp m (\<lambda>x. wlp (f x) Q)"
  by (cases m) simp_all

lemma wlp_mono: "wlp m P \<Longrightarrow> (\<And>x. P x \<Longrightarrow> Q x) \<Longrightarrow> wlp m Q"
  by (cases m) simp_all

lemma wlp_if: "(b \<Longrightarrow> wlp m Q) \<Longrightarrow> (\<not> b \<Longrightarrow> wlp m' Q) \<Longrightarrow> wlp (if b then m else m') Q"
  by simp

lemma err_simps [simp]:
  "p_error (advance p) = p_error p" "p_error (parser_error p m)"
  "p_error (expect p k c) = (p_error p \<or> t_kind (p_cur p) \<noteq> k)" "p_error (snd (accept p k)) = p_error p"
  "p_error (p\<lparr>p_lex := lx\<rparr>) = p_error p"
  by (simp_all add: advance_def parser_error_def expect_def accept_def case_prod_beta Let_def)

lemma stmt_end_error [simp]: "p_error p \<Longrightarrow> p_error (stmt_end c p)" "p_error p \<Longrightarrow> p_error (case_sep p)"
  by (simp_all add: stmt_end_def case_sep_def case_prod_beta Let_def)

section \<open>What every function answers\<close>

definition acc :: "tree_e \<Rightarrow> icn_tree \<Rightarrow> bool" where
  "acc k t \<longleftrightarrow> n_kind t = k \<and> fits k (length (n_c t)) \<and> payload k (n_v t)
     \<and> (of_names k \<longrightarrow> list_all is_name (n_c t)) \<and> kids (n_c t)"

definition acc2 :: "tree_e \<Rightarrow> bool \<Rightarrow> icn_tree \<Rightarrow> bool" where
  "acc2 k nx t \<longleftrightarrow> n_kind t = k \<and> n_v t = V_0 \<and> kids (n_c t)
     \<and> (2 \<le> length (n_c t) \<or> length (n_c t) = 1 \<and> nx)"

definition decl_acc :: "icn_tree \<Rightarrow> bool" where
  "decl_acc t \<longleftrightarrow> acc TT_RECORD t \<or> acc TT_GLOBAL t \<or> acc TT_LOCAL t \<or> acc TT_STATIC_DECL t"

fun pre :: "nt \<Rightarrow> icn_parser \<Rightarrow> bool" where
  "pre (L_comma close t) p = (acc TT_MAKELIST t \<or> acc2 TT_CONJ (t_kind (p_cur p) = TK_COMMA) t)"
| "pre (L_postfix t) p = icn_wf t"
| "pre (L_args t) p = acc TT_FNC t"
| "pre (L_subs t) p = acc TT_IDX t"
| "pre (L_brace t) p = acc TT_MAKELIST t"
| "pre (L_limit t) p = icn_wf t"
| "pre (L_mul t) p = icn_wf t"
| "pre (L_add t) p = icn_wf t"
| "pre (L_cset t) p = icn_wf t"
| "pre (L_concat t) p = icn_wf t"
| "pre (L_rel t) p = icn_wf t"
| "pre (L_and t) p = acc2 TT_CONJ (t_kind (p_cur p) = TK_AND) t"
| "pre (L_to t) p = icn_wf t"
| "pre (L_alt t) p = acc2 TT_ALTERNATE (t_kind (p_cur p) = TK_BAR) t"
| "pre (L_pmatch t) p = icn_wf t"
| "pre (L_activate t) p = icn_wf t"
| "pre (L_case t n) p = acc TT_CASE t"
| "pre (L_block t n) p = (n_kind t = TT_SEQ_EXPR \<and> n_v t = V_0 \<and> kids (n_c t) \<and> length (n_c t) = n)"
| "pre (L_names stop t) p = decl_acc t"
| "pre (L_params t) p = acc TT_VLIST t"
| "pre (L_stmts t) p = acc TT_PROGRAM t"
| "pre (L_nlist t) p = acc TT_VLIST t"
| "pre (L_supers t) p = acc TT_VLIST t"
| "pre (L_members t) p = acc TT_CLASS_DECL t"
| "pre (L_package b t) p = (if b then acc TT_MODULE_DECL t \<and> n_c t = [] else acc TT_USE_DECL t)"
| "pre (L_link t) p = (acc TT_LINK t \<or> acc TT_INVOCABLE t)"
| "pre (L_file t) p = acc TT_PROGRAM t"
| "pre a p = True"

fun post :: "nt \<Rightarrow> icn_tree \<Rightarrow> icn_parser \<Rightarrow> bool" where
  "post (L_members t) u q = acc TT_CLASS_DECL u"
| "post (L_package b t) u q = acc (if b then TT_MODULE_DECL else TT_USE_DECL) u"
| "post (L_file t) u q = (icn_wf u \<and> t_kind (p_cur q) = TK_EOF)"
| "post a u q = icn_wf u"

definition answers :: "nt \<Rightarrow> icn_parser \<Rightarrow> icn_tree option \<times> icn_parser \<Rightarrow> bool" where
  "answers b q x \<longleftrightarrow> (p_error q \<longrightarrow> p_error (snd x))
     \<and> (\<not> p_error (snd x) \<longrightarrow> (\<exists>t. fst x = Some t \<and> post b t (snd x)))"

definition spec :: "icn_rec \<Rightarrow> bool" where
  "spec rec \<longleftrightarrow> (\<forall>b q. p_error q \<or> pre b q \<longrightarrow> wlp (rec (b, q)) (answers b q))"

lemma wlp_call:
  assumes "spec rec" and err: "\<And>r q'. p_error q' \<Longrightarrow> Q (r, q')" and "\<not> p_error q \<Longrightarrow> pre b q"
    and ok: "\<And>t q'. \<not> p_error q \<Longrightarrow> \<not> p_error q' \<Longrightarrow> post b t q' \<Longrightarrow> Q (Some t, q')"
  shows "wlp (rec (b, q)) Q"
proof (rule wlp_mono)
  show "wlp (rec (b, q)) (answers b q)" using assms(1,3) by (auto simp: spec_def)
next
  fix x assume x: "answers b q x"
  show "Q x"
  proof (cases "p_error (snd x)")
    case True
    then show ?thesis using err [of "snd x" "fst x"] by simp
  next
    case False
    then obtain t where "\<not> p_error q" "fst x = Some t" "post b t (snd x)"
      using x by (auto simp: answers_def)
    then show ?thesis using ok [of "snd x" t] False by (metis prod.collapse)
  qed
qed

text \<open>Nodes of one and of two children that need nothing else.\<close>

definition op1 :: "tree_e \<Rightarrow> bool" where
  "op1 k \<longleftrightarrow> fits k 1 \<and> payload k V_0 \<and> \<not> of_names k"

definition op2 :: "tree_e \<Rightarrow> bool" where
  "op2 k \<longleftrightarrow> fits k 2 \<and> payload k V_0 \<and> \<not> of_names k"

lemma op_simps [simp]:
  "op2 TT_POW" "op2 TT_PAND" "op2 TT_ALT" "op2 TT_SCAN" "op2 TT_TO" "op2 TT_LIMIT" "op2 TT_ACTIVATE"
  "op2 TT_BANG_BINARY" "op2 TT_IDX" "op1 TT_REPALT" "op1 TT_ACTIVATE"
  by (simp_all add: op1_def op2_def fits_def payload_def of_names_def)

lemma op_kinds:
  "unary_op k = Some e \<Longrightarrow> op1 e" "unary_twice k = Some e \<Longrightarrow> op1 e"
  "mul_op k = Some e \<Longrightarrow> op2 e" "add_op k = Some e \<Longrightarrow> op2 e"
  "cset_op k = Some e \<Longrightarrow> op2 e" "concat_op k = Some e \<Longrightarrow> op2 e" "rel_op k = Some e \<Longrightarrow> op2 e"
  "pmatch_op k = Some e \<Longrightarrow> op2 e" "assign_op k = Some e \<Longrightarrow> op2 e"
  by (auto simp: unary_op_def unary_twice_def mul_op_def add_op_def cset_op_def concat_op_def rel_op_def
      pmatch_op_def assign_op_def relop_ekind_def is_relop_def relops_def fits_def payload_def of_names_def
      op1_def op2_def split: if_split_asm)

lemma op_wf [simp]:
  "op1 k \<Longrightarrow> icn_wf (e_unary_at l k c) \<longleftrightarrow> kids [c]" "op1 k \<Longrightarrow> icn_wf (e_unary k c) \<longleftrightarrow> kids [c]"
  "op2 k \<Longrightarrow> icn_wf (e_binary_at l k c d) \<longleftrightarrow> kids [c, d]" "op2 k \<Longrightarrow> icn_wf (e_binary k c d) \<longleftrightarrow> kids [c, d]"
  by (simp_all add: icn_wf_node op1_def op2_def numeral_2_eq_2)

lemma acc_iff:
  "acc k t \<longleftrightarrow> n_kind t = k \<and> icn_wf t \<and> fits k (length (n_c t)) \<and> payload k (n_v t)
     \<and> (of_names k \<longrightarrow> list_all is_name (n_c t)) \<and> kids (n_c t)"
  by (auto simp: acc_def icn_wf_node)

lemma decl_wf: "decl_acc t \<Longrightarrow> icn_wf t"
  by (auto simp: decl_acc_def acc_iff)

lemma decl_push [simp]: "decl_acc t \<Longrightarrow> decl_acc (push_child t (Some (e_leaf_sval TT_VAR s)))"
  by (auto simp: decl_acc_def acc_def fits_def payload_def of_names_def)

lemma acc2_iff:
  "acc2 k nx t \<longleftrightarrow> n_kind t = k \<and> n_v t = V_0 \<and> kids (n_c t)
     \<and> (2 \<le> length (n_c t) \<and> (k = TT_CONJ \<or> k = TT_ALTERNATE \<longrightarrow> icn_wf t) \<or> length (n_c t) = 1 \<and> nx)"
  by (auto simp: acc2_def icn_wf_node fits_def payload_def of_names_def)

text \<open>One more child for a tree under construction.\<close>

definition grows :: "tree_e \<Rightarrow> bool" where
  "grows k \<longleftrightarrow> snd (arity k) = None \<and> k \<noteq> TT_SEQ_EXPR \<and> k \<noteq> TT_CASE"

lemma grows_simps [simp]:
  "grows TT_FNC" "grows TT_MAKELIST" "grows TT_IDX" "grows TT_VLIST" "grows TT_PROGRAM" "grows TT_CLASS_DECL"
  "grows TT_LINK" "grows TT_INVOCABLE" "grows TT_USE_DECL" "grows TT_RECORD" "grows TT_GLOBAL" "grows TT_LOCAL"
  "grows TT_STATIC_DECL"
  "\<not> of_names TT_FNC" "\<not> of_names TT_MAKELIST" "\<not> of_names TT_IDX" "\<not> of_names TT_PROGRAM"
  "\<not> of_names TT_CLASS_DECL"
  by (simp_all add: grows_def of_names_def)

lemma acc_push:
  "acc k t \<Longrightarrow> grows k \<Longrightarrow> icn_wf u \<Longrightarrow> of_names k \<longrightarrow> n_kind u = TT_VAR \<Longrightarrow> acc k (push_child t (Some u))"
  by (auto simp: acc_def grows_def fits_def)

lemma acc2_push: "acc2 k b t \<Longrightarrow> icn_wf u \<Longrightarrow> acc2 k c (push_child t (Some u))"
  by (auto simp: acc2_def)

lemma acc2_wf: "acc2 k b t \<Longrightarrow> \<not> b \<Longrightarrow> k = TT_CONJ \<or> k = TT_ALTERNATE \<Longrightarrow> icn_wf t"
  by (auto simp: acc2_iff)

lemma case_push: "acc TT_CASE t \<Longrightarrow> icn_wf u \<Longrightarrow> icn_wf w \<Longrightarrow> acc TT_CASE (push_child (push_child t (Some u)) (Some w))"
  by (auto simp: acc_def fits_def of_names_def)

text \<open>The trees that are put together, unfolded once.\<close>

lemmas built_wf =
  icn_wf_node [of "push_child e c" for e c] icn_wf_node [of "set_v v e" for v e]
  icn_wf_node [of "set_slen n e" for n e]
  icn_wf_node [of "ast_node_new k" for k] icn_wf_node [of "call_of s c" for s c]
  fits_def payload_def of_names_def acc_iff acc2_iff

lemma acc_wf: "acc k t \<Longrightarrow> icn_wf t"
  by (simp add: acc_iff)

lemma small_wf [simp]: "icn_wf (ast_node_new TT_NUL)" "icn_wf (push_child (ast_node_new TT_CREATE) (Some u)) = icn_wf u"
  "icn_wf (push_child (push_child (push_child (ast_node_new TT_TO_BY) (Some t)) (Some u)) (Some w))
     \<longleftrightarrow> icn_wf t \<and> icn_wf u \<and> icn_wf w"
  by (auto simp: built_wf)

lemma module_push:
  "acc TT_MODULE_DECL t \<Longrightarrow> n_c t = [] \<Longrightarrow> acc TT_MODULE_DECL (push_child t (Some (e_leaf_sval TT_VAR s)))"
  by (auto simp: acc_def fits_def)

lemma fmt_0: "fmt_int 0 = ''0''"
  by code_simp

lemma attr_wf: "icn_wf (ast_attr_int s 0)" "icn_wf u \<Longrightarrow> icn_wf (ast_attr_expr s u)"
  by (simp_all add: built_wf ast_attr_int_def ast_attr_leaf_def ast_attr_expr_def fmt_0)

lemma stmt_node_wf [simp]: "icn_wf u \<Longrightarrow> icn_wf (stmt_node u)"
  by (simp add: built_wf attr_wf stmt_node_def)

lemma augop_range: "augop_num a \<in> {1..28}"
  by (cases a) simp_all

lemmas ans_simps = answers_def case_prod_beta Let_def

lemma then_loop_answers:
  assumes "spec rec" "\<And>q. pre b q" "\<And>t q. post b t q \<Longrightarrow> pre (loop t) q"
    "\<And>t u q. post (loop t) u q \<Longrightarrow> post a u q"
  shows "wlp (then_loop rec b loop p) (answers a p)"
  using assms(2-) unfolding then_loop_def
  by (cases "p_error p") (auto simp: ans_simps split: option.split intro!: wlp_call [OF assms(1)])

lemma binary_loop_answers:
  assumes "spec rec" "p_error p \<or> pre (loop t) p" "\<And>k e. ops k = Some e \<Longrightarrow> op2 e"
    "\<And>q. pre b q" "\<And>t q. post b t q \<Longrightarrow> icn_wf t" "\<And>t q. pre (loop t) q \<longleftrightarrow> icn_wf t"
    "\<And>t u q. post (loop t) u q \<longleftrightarrow> icn_wf u"
  shows "wlp (binary_loop rec ops b loop t p) (answers (loop t) p)"
  using assms(2-) unfolding binary_loop_def
  by (cases "p_error p") (auto simp: ans_simps split: option.split intro!: wlp_call [OF assms(1)])

section \<open>Every function of the grammar\<close>

lemma parse_repalt_answers: "spec rec \<Longrightarrow> p_error p \<or> pre P_repalt p \<Longrightarrow> wlp (parse_repalt rec p) (answers P_repalt p)"
  unfolding parse_repalt_def
  by (cases "p_error p") (auto simp: ans_simps built_wf split: option.split intro!: wlp_call imageI [OF augop_range] dest: op_kinds)

lemma parse_pow_answers: "spec rec \<Longrightarrow> p_error p \<or> pre P_pow p \<Longrightarrow> wlp (parse_pow rec p) (answers P_pow p)"
  unfolding parse_pow_def
  by (cases "p_error p") (auto simp: ans_simps built_wf split: option.split intro!: wlp_call imageI [OF augop_range] dest: op_kinds)

lemma parse_and_answers: "spec rec \<Longrightarrow> p_error p \<or> pre P_and p \<Longrightarrow> wlp (parse_and rec p) (answers P_and p)"
  unfolding parse_and_def
  by (cases "p_error p") (auto simp: ans_simps built_wf split: option.split intro!: wlp_call imageI [OF augop_range] dest: op_kinds)

lemma parse_alt_answers: "spec rec \<Longrightarrow> p_error p \<or> pre P_alt p \<Longrightarrow> wlp (parse_alt rec p) (answers P_alt p)"
  unfolding parse_alt_def
  by (cases "p_error p") (auto simp: ans_simps built_wf split: option.split intro!: wlp_call imageI [OF augop_range] dest: op_kinds)

lemma parse_assign_answers: "spec rec \<Longrightarrow> p_error p \<or> pre P_assign p \<Longrightarrow> wlp (parse_assign rec p) (answers P_assign p)"
  unfolding parse_assign_def
  by (cases "p_error p") (auto simp: ans_simps built_wf split: option.split intro!: wlp_call imageI [OF augop_range] dest: op_kinds)

lemma parse_scan_answers: "spec rec \<Longrightarrow> p_error p \<or> pre P_scan p \<Longrightarrow> wlp (parse_scan rec p) (answers P_scan p)"
  unfolding parse_scan_def
  by (cases "p_error p") (auto simp: ans_simps built_wf split: option.split intro!: wlp_call imageI [OF augop_range] dest: op_kinds)

lemma parse_block_answers: "spec rec \<Longrightarrow> p_error p \<or> pre P_block p \<Longrightarrow> wlp (parse_block rec p) (answers P_block p)"
  unfolding parse_block_def
  by (cases "p_error p") (auto simp: ans_simps built_wf split: option.split intro!: wlp_call imageI [OF augop_range] dest: op_kinds)

lemma vlist_set: "acc TT_VLIST t \<Longrightarrow> icn_wf (set_v (V_i 1) t)"
  by (auto simp: acc_def fits_def payload_def of_names_def icn_wf_node)

lemma comma_loop_answers: "spec rec \<Longrightarrow> p_error p \<or> pre (L_comma close t) p \<Longrightarrow> wlp (comma_loop rec close t p) (answers (L_comma close t) p)"
  unfolding comma_loop_def
  by (cases "p_error p") (auto simp: ans_simps split: option.split
        intro!: wlp_call acc_push acc2_push case_push module_push vlist_set intro: acc_wf acc2_wf decl_wf)

lemma args_loop_answers: "spec rec \<Longrightarrow> p_error p \<or> pre (L_args t) p \<Longrightarrow> wlp (args_loop rec t p) (answers (L_args t) p)"
  unfolding args_loop_def
  by (cases "p_error p") (auto simp: ans_simps split: option.split
        intro!: wlp_call acc_push acc2_push case_push module_push vlist_set intro: acc_wf acc2_wf decl_wf)

lemma subs_loop_answers: "spec rec \<Longrightarrow> p_error p \<or> pre (L_subs t) p \<Longrightarrow> wlp (subs_loop rec t p) (answers (L_subs t) p)"
  unfolding subs_loop_def
  by (cases "p_error p") (auto simp: ans_simps split: option.split
        intro!: wlp_call acc_push acc2_push case_push module_push vlist_set intro: acc_wf acc2_wf decl_wf)

lemma brace_loop_answers: "spec rec \<Longrightarrow> p_error p \<or> pre (L_brace t) p \<Longrightarrow> wlp (brace_loop rec t p) (answers (L_brace t) p)"
  unfolding brace_loop_def
  by (cases "p_error p") (auto simp: ans_simps split: option.split
        intro!: wlp_call acc_push acc2_push case_push module_push vlist_set intro: acc_wf acc2_wf decl_wf)

lemma limit_loop_answers: "spec rec \<Longrightarrow> p_error p \<or> pre (L_limit t) p \<Longrightarrow> wlp (limit_loop rec t p) (answers (L_limit t) p)"
  unfolding limit_loop_def
  by (cases "p_error p") (auto simp: ans_simps split: option.split
        intro!: wlp_call acc_push acc2_push case_push module_push vlist_set intro: acc_wf acc2_wf decl_wf)

lemma and_loop_answers: "spec rec \<Longrightarrow> p_error p \<or> pre (L_and t) p \<Longrightarrow> wlp (and_loop rec t p) (answers (L_and t) p)"
  unfolding and_loop_def
  by (cases "p_error p") (auto simp: ans_simps split: option.split
        intro!: wlp_call acc_push acc2_push case_push module_push vlist_set intro: acc_wf acc2_wf decl_wf)

lemma to_loop_answers: "spec rec \<Longrightarrow> p_error p \<or> pre (L_to t) p \<Longrightarrow> wlp (to_loop rec t p) (answers (L_to t) p)"
  unfolding to_loop_def
  by (cases "p_error p") (auto simp: ans_simps split: option.split
        intro!: wlp_call acc_push acc2_push case_push module_push vlist_set intro: acc_wf acc2_wf decl_wf)

lemma alt_loop_answers: "spec rec \<Longrightarrow> p_error p \<or> pre (L_alt t) p \<Longrightarrow> wlp (alt_loop rec t p) (answers (L_alt t) p)"
  unfolding alt_loop_def
  by (cases "p_error p") (auto simp: ans_simps split: option.split
        intro!: wlp_call acc_push acc2_push case_push module_push vlist_set intro: acc_wf acc2_wf decl_wf)

lemma activate_loop_answers: "spec rec \<Longrightarrow> p_error p \<or> pre (L_activate t) p \<Longrightarrow> wlp (activate_loop rec t p) (answers (L_activate t) p)"
  unfolding activate_loop_def
  by (cases "p_error p") (auto simp: ans_simps split: option.split
        intro!: wlp_call acc_push acc2_push case_push module_push vlist_set intro: acc_wf acc2_wf decl_wf)

lemma case_loop_answers: "spec rec \<Longrightarrow> p_error p \<or> pre (L_case t n) p \<Longrightarrow> wlp (case_loop rec t n p) (answers (L_case t n) p)"
  unfolding case_loop_def
  by (cases "p_error p") (auto simp: ans_simps split: option.split
        intro!: wlp_call acc_push acc2_push case_push module_push vlist_set intro: acc_wf acc2_wf decl_wf)

lemma names_loop_answers: "spec rec \<Longrightarrow> p_error p \<or> pre (L_names stop t) p \<Longrightarrow> wlp (names_loop rec stop t p) (answers (L_names stop t) p)"
  unfolding names_loop_def
  by (cases "p_error p"; cases "t_kind (p_cur p) = TK_IDENT")
     (auto simp: ans_simps split: option.split
        intro!: wlp_call acc_push acc2_push case_push module_push vlist_set intro: acc_wf acc2_wf decl_wf)

lemma params_loop_answers: "spec rec \<Longrightarrow> p_error p \<or> pre (L_params t) p \<Longrightarrow> wlp (params_loop rec t p) (answers (L_params t) p)"
  unfolding params_loop_def
  by (cases "p_error p"; cases "t_kind (p_cur p) = TK_IDENT")
     (auto simp: ans_simps split: option.split
        intro!: wlp_call acc_push acc2_push case_push module_push vlist_set intro: acc_wf acc2_wf decl_wf)

lemma stmts_loop_answers: "spec rec \<Longrightarrow> p_error p \<or> pre (L_stmts t) p \<Longrightarrow> wlp (stmts_loop rec t p) (answers (L_stmts t) p)"
  unfolding stmts_loop_def
  by (cases "p_error p") (auto simp: ans_simps split: option.split
        intro!: wlp_call acc_push acc2_push case_push module_push vlist_set intro: acc_wf acc2_wf decl_wf)

lemma nlist_loop_answers: "spec rec \<Longrightarrow> p_error p \<or> pre (L_nlist t) p \<Longrightarrow> wlp (nlist_loop rec t p) (answers (L_nlist t) p)"
  unfolding nlist_loop_def
  by (cases "p_error p") (auto simp: ans_simps split: option.split
        intro!: wlp_call acc_push acc2_push case_push module_push vlist_set intro: acc_wf acc2_wf decl_wf)

lemma supers_loop_answers: "spec rec \<Longrightarrow> p_error p \<or> pre (L_supers t) p \<Longrightarrow> wlp (supers_loop rec t p) (answers (L_supers t) p)"
  unfolding supers_loop_def
  by (cases "p_error p") (auto simp: ans_simps split: option.split
        intro!: wlp_call acc_push acc2_push case_push module_push vlist_set intro: acc_wf acc2_wf decl_wf)

lemma package_loop_answers: "spec rec \<Longrightarrow> p_error p \<or> pre (L_package b t) p \<Longrightarrow> wlp (package_loop rec b t p) (answers (L_package b t) p)"
  unfolding package_loop_def
  by (cases "p_error p") (auto simp: ans_simps split: option.split
        intro!: wlp_call acc_push acc2_push case_push module_push vlist_set intro: acc_wf acc2_wf decl_wf)

lemma link_loop_answers: "spec rec \<Longrightarrow> p_error p \<or> pre (L_link t) p \<Longrightarrow> wlp (link_loop rec t p) (answers (L_link t) p)"
  unfolding link_loop_def
  by (cases "p_error p") (auto simp: ans_simps split: option.split
        intro!: wlp_call acc_push acc2_push case_push module_push vlist_set intro: acc_wf acc2_wf decl_wf)

text \<open>The parts that several functions share, with what they answer as a statement of its own.\<close>

definition gives :: "icn_parser \<Rightarrow> icn_tree option \<times> icn_parser \<Rightarrow> bool" where
  "gives q x \<longleftrightarrow> (p_error q \<longrightarrow> p_error (snd x)) \<and> (\<not> p_error (snd x) \<longrightarrow> (\<exists>t. fst x = Some t \<and> icn_wf t))"

lemma wlp_gives:
  assumes "wlp m (gives p)" and "\<And>r q. p_error q \<Longrightarrow> Q (r, q)"
    "\<And>t q. \<not> p_error p \<Longrightarrow> \<not> p_error q \<Longrightarrow> icn_wf t \<Longrightarrow> Q (Some t, q)"
  shows "wlp m Q"
  using assms by (cases m) (auto simp: gives_def, metis)

lemmas give_simps = gives_def case_prod_beta Let_def

lemma do_clause_ok:
  assumes "spec rec" "\<And>r q. p_error q \<Longrightarrow> Q (r, q)" "\<not> p_error p \<Longrightarrow> Q (None, p)"
    "\<And>t q. \<not> p_error p \<Longrightarrow> \<not> p_error q \<Longrightarrow> icn_wf t \<Longrightarrow> Q (Some t, q)"
  shows "wlp (parse_do_clause rec p) Q"
  using assms(2-) unfolding parse_do_clause_def by (cases "p_error p") (auto intro!: wlp_call [OF assms(1)])

lemma do_loop_gives:
  assumes "spec rec" "k \<in> {TT_EVERY, TT_WHILE, TT_UNTIL}"
  shows "wlp (do_loop rec k p) (gives p)"
  using assms(2) unfolding do_loop_def
  by (auto simp: give_simps built_wf intro!: wlp_call [OF assms(1)] do_clause_ok [OF assms(1)])

lemma one_expr_gives:
  assumes "spec rec" "k \<in> {TT_REPEAT, TT_CREATE, TT_INITIAL}"
  shows "wlp (one_expr rec k p) (gives p)"
  using assms(2) unfolding one_expr_def
  by (auto simp: give_simps built_wf intro!: wlp_call [OF assms(1)])

lemma opt_expr_gives:
  assumes "spec rec"
  shows "wlp (opt_expr rec (ast_node_new TT_LOOP_BREAK) p) (gives p)"
  unfolding opt_expr_def
  by (auto simp: give_simps built_wf intro!: wlp_call [OF assms(1)])

lemma if_expr_gives:
  assumes "spec rec"
  shows "wlp (parse_if rec p) (gives p)"
  unfolding parse_if_def
  by (auto simp: give_simps built_wf intro!: wlp_call [OF assms(1)])

lemma suspend_gives:
  assumes "spec rec"
  shows "wlp (parse_suspend rec p) (gives p)"
  unfolding parse_suspend_def
  by (auto simp: give_simps built_wf intro!: wlp_call [OF assms(1)] do_clause_ok [OF assms(1)])

lemma case_expr_gives:
  assumes "spec rec"
  shows "wlp (parse_case rec p) (gives p)"
  unfolding parse_case_def
  by (auto simp: give_simps built_wf intro!: wlp_call [OF assms(1)])

lemma parse_unary_answers:
  assumes "spec rec"
  shows "wlp (parse_unary rec p) (answers P_unary p)"
  unfolding parse_unary_def Let_def
  by (cases "unary_op (t_kind (p_cur p))"; cases "unary_twice (t_kind (p_cur p))"; simp only: option.case)
     (auto simp: ans_simps built_wf intro!: wlp_if wlp_call [OF assms] dest: op_kinds)

lemma answers_gives:
  "post a = (\<lambda>t q. icn_wf t) \<Longrightarrow> answers a p = gives p"
  by (auto simp: fun_eq_iff answers_def gives_def)

lemma gives_advance [simp]: "gives (advance p) = gives p"
  by (simp add: fun_eq_iff gives_def)

lemma wlp_ended:
  assumes "wlp r (gives p)" shows "wlp (ended c r) (gives p)"
  using assms by (cases r) (auto simp: ended_def gives_def case_prod_beta dest: contrapos_nn [OF _ stmt_end_error(1)])

lemma parse_ctrl_answers:
  assumes s: "spec rec"
  shows "wlp (parse_ctrl rec p) (answers P_ctrl p)"
proof -
  have a: "answers P_ctrl p = gives p" by (rule answers_gives) (simp add: fun_eq_iff)
  have b: "wlp (opt_expr rec (ast_node_new TT_LOOP_BREAK) (advance p)) (gives p)"
    using opt_expr_gives [OF s, of "advance p"] by simp
  show ?thesis
    unfolding parse_ctrl_def Let_def a
    by (intro wlp_if b do_loop_gives [OF s] one_expr_gives [OF s] if_expr_gives [OF s]
          suspend_gives [OF s] case_expr_gives [OF s])
       (auto simp: give_simps built_wf intro!: wlp_call [OF s] wlp_gives [OF one_expr_gives [OF s]])
qed

lemma parse_stmt_answers:
  assumes s: "spec rec"
  shows "wlp (parse_stmt rec p) (answers P_stmt p)"
proof -
  have a: "answers P_stmt p = gives p" by (rule answers_gives) (simp add: fun_eq_iff)
  show ?thesis
    unfolding parse_stmt_def Let_def a
    by (intro wlp_if wlp_ended do_loop_gives [OF s] one_expr_gives [OF s] if_expr_gives [OF s]
          suspend_gives [OF s] case_expr_gives [OF s])
       (auto simp: give_simps built_wf decl_acc_def intro!: wlp_call [OF s])
qed

lemma section_gives:
  assumes s: "spec rec" and k: "k \<in> {TT_SECTION, TT_SECTION_PLUS, TT_SECTION_MINUS}"
    and i: "\<not> p_error p \<Longrightarrow> icn_wf n \<and> (\<exists>t. i = Some t \<and> icn_wf t)"
  shows "wlp (section_with rec k c n i p) (gives p)"
  using k i unfolding section_with_def
  by (cases "p_error p") (auto simp: give_simps built_wf intro!: wlp_call [OF s])

lemma subscript_gives:
  assumes s: "spec rec" and n: "\<not> p_error p \<Longrightarrow> icn_wf n"
  shows "wlp (parse_subscript rec n p) (gives p)"
  using n unfolding parse_subscript_def Let_def
  by (cases "p_error p")
     (auto simp: give_simps acc_iff fits_def payload_def of_names_def split: option.split
        intro!: wlp_call [OF s] wlp_gives [OF section_gives [OF s]])

lemma postfix_loop_answers:
  assumes s: "spec rec" and n: "p_error p \<or> pre (L_postfix n) p"
  shows "wlp (postfix_loop rec n p) (answers (L_postfix n) p)"
proof -
  have a: "answers (L_postfix n) p = gives p" by (rule answers_gives) (simp add: fun_eq_iff)
  show ?thesis
    using n unfolding postfix_loop_def Let_def a
    by (intro wlp_if)
       (auto simp: give_simps built_wf split: option.split intro!: wlp_call [OF s] wlp_gives [OF subscript_gives [OF s]])
qed

lemma end_block_gives:
  assumes "p_error p \<or> pre (L_block t n) p"
  shows "wlp (end_block t n p) (gives p)"
proof (cases "p_error p")
  case True
  then show ?thesis by (auto simp: end_block_def give_simps)
next
  case False
  then have t: "n_kind t = TT_SEQ_EXPR" "n_v t = V_0" "kids (n_c t)" "length (n_c t) = n" using assms by auto
  show ?thesis
  proof (cases "n_c t")
    case Nil
    then show ?thesis using t by (auto simp: end_block_def give_simps icn_wf_node fits_def payload_def of_names_def)
  next
    case (Cons a as)
    then show ?thesis using t
      by (auto simp: end_block_def give_simps built_wf icn_wf_node [of t])
  qed
qed

lemma block_loop_answers:
  assumes s: "spec rec" and n: "p_error p \<or> pre (L_block t n) p"
  shows "wlp (block_loop rec t n p) (answers (L_block t n) p)"
proof -
  have a: "answers (L_block t n) p = gives p" by (rule answers_gives) (simp add: fun_eq_iff)
  show ?thesis
    using n unfolding block_loop_def a
    by (cases "p_error p")
       (auto simp: give_simps split: option.split intro!: wlp_call [OF s] wlp_gives [OF end_block_gives])
qed

lemma defer_wf: "icn_wf (Node TT_DEFER V_0 n l [Some t]) = icn_wf t"
  by (simp add: fits_def payload_def of_names_def)

lemma backquote_gives:
  assumes s: "spec rec"
  shows "wlp (parse_backquote pp rec p) (gives p)"
  unfolding parse_backquote_def Let_def wlp_bind
proof (rule wlp_call [OF s], goal_cases)
  case (3 t q)
  then show ?case by (simp add: gives_def defer_wf del: icn_wf.simps)
qed (simp_all add: gives_def)

lemma name_gives: "wlp (parse_name p) (gives p)" "wlp (parse_keyword p) (gives p)"
  by (auto simp: parse_name_def parse_keyword_def give_simps split: option.split)

lemma paren_gives:
  assumes s: "spec rec"
  shows "wlp (parse_paren rec p) (gives p)"
  unfolding parse_paren_def Let_def
  by (auto simp: give_simps acc2_def built_wf(1-7) intro!: wlp_call [OF s])

lemma list_gives:
  assumes s: "spec rec"
  shows "wlp (parse_list rec p) (gives p)"
  unfolding parse_list_def Let_def
  by (auto simp: give_simps built_wf intro!: wlp_call [OF s])

lemma parse_primary_answers:
  assumes s: "spec rec"
  shows "wlp (parse_primary pp rec p) (answers P_primary p)"
proof -
  have a: "answers P_primary p = gives p" by (rule answers_gives) (simp add: fun_eq_iff)
  have b: "wlp (opt_expr rec (ast_node_new TT_LOOP_BREAK) (advance p)) (gives p)"
    using opt_expr_gives [OF s, of "advance p"] by simp
  have c: "wlp (rec (P_ctrl, p)) (gives p)" "wlp (rec (P_block, p)) (gives p)"
    by (auto simp: gives_def intro!: wlp_call [OF s])
  show ?thesis
    unfolding parse_primary_def Let_def a
    by (intro wlp_if b c backquote_gives [OF s] name_gives paren_gives [OF s] list_gives [OF s])
       (simp_all add: give_simps built_wf)
qed

lemma name_list_ok:
  assumes s: "spec rec" and err: "\<And>r q. p_error q \<Longrightarrow> Q (r, q)"
    and ok: "\<And>t q. \<not> p_error p \<Longrightarrow> \<not> p_error q \<Longrightarrow> icn_wf t \<Longrightarrow> Q (Some t, q)"
  shows "wlp (parse_name_list rec c p) Q"
  unfolding parse_name_list_def
proof (simp add: case_prod_beta, rule wlp_call [OF s], goal_cases)
  case (2)
  then show ?case by (simp add: built_wf)
next
  case (3 t q)
  then have t: "\<not> p_error p" "\<not> p_error q" "icn_wf t" by auto
  show ?case
  proof (cases "t_kind (p_cur q) = TK_RPAREN")
    case True
    then show ?thesis using t by (auto intro: ok)
  qed (auto intro: err)
qed (auto intro: err)

lemma proc_kw_gives:
  assumes s: "spec rec"
  shows "wlp (parse_proc_kw rec kw body p) (gives p)"
  unfolding parse_proc_kw_def Let_def
  by (cases body) (auto simp: give_simps built_wf intro!: wlp_call [OF s])

lemma record_gives:
  assumes s: "spec rec"
  shows "wlp (parse_record rec p) (gives p)"
  unfolding parse_record_def Let_def
  by (auto simp: give_simps decl_acc_def built_wf intro!: wlp_call [OF s])

lemma initially_gives:
  assumes s: "spec rec"
  shows "wlp (parse_initially rec p) (gives p)"
  unfolding parse_initially_def Let_def
  by (auto simp: give_simps built_wf intro!: wlp_call [OF s] name_list_ok [OF s])

lemma members_loop_answers:
  assumes s: "spec rec" and n: "p_error p \<or> pre (L_members t) p"
  shows "wlp (members_loop rec t p) (answers (L_members t) p)"
  using n unfolding members_loop_def
  by (cases "p_error p")
     (auto simp: ans_simps intro!: wlp_call [OF s] wlp_gives [OF proc_kw_gives [OF s]] acc_push)

lemma class_new:
  "icn_wf t \<Longrightarrow> icn_wf u \<Longrightarrow> acc TT_CLASS_DECL (push_child (push_child (set_line l (set_v (V_s n)
     (ast_node_new TT_CLASS_DECL))) (Some t)) (Some u))"
  by (simp add: acc_def fits_def payload_def of_names_def)

lemma class_push: "acc TT_CLASS_DECL t \<Longrightarrow> icn_wf u \<Longrightarrow> icn_wf (push_child t (Some u))"
  by (rule acc_wf [OF acc_push [of TT_CLASS_DECL]]) simp_all

lemma vlist_new [simp]: "acc TT_VLIST (ast_node_new TT_VLIST)" "icn_wf (ast_node_new TT_VLIST)"
  by (simp_all add: acc_def fits_def payload_def icn_wf_node)

lemma class_gives:
  assumes s: "spec rec"
  shows "wlp (parse_class rec p) (gives p)"
  unfolding parse_class_def Let_def
  by (auto simp: give_simps intro!: wlp_call [OF s] name_list_ok [OF s] wlp_gives [OF initially_gives [OF s]] class_new
      intro: acc_wf class_push)

lemma semicol_gives: "wlp r (gives p) \<Longrightarrow> wlp (semicol_after r) (gives p)"
  by (cases r) (auto simp: semicol_after_def gives_def case_prod_beta)

lemma first_name_wf:
  assumes a: "acc k t" and k: "k = TT_MODULE_DECL \<or> k = TT_USE_DECL"
  shows "icn_wf (first_name t)"
proof (cases "n_c t")
  case Nil
  then show ?thesis using a by (simp add: first_name_def acc_wf)
next
  case (Cons c cs)
  have "of_names k" using k by (auto simp: of_names_def)
  then obtain u where u: "c = Some u" "n_kind u = TT_VAR" "icn_wf u"
    using a Cons by (auto simp: acc_def is_name_def)
  then have "is_V_s (n_v u)" by (simp add: icn_wf_node payload_def)
  then have "payload k (n_v u)" using k by (auto simp: payload_def)
  moreover have "first_name t = set_v (n_v u) t" using Cons u by (simp add: first_name_def)
  ultimately show ?thesis using a by (simp add: icn_wf_node [of "set_v v t" for v] acc_def)
qed

lemma new_acc:
  "k \<in> {TT_MODULE_DECL, TT_USE_DECL, TT_LINK, TT_INVOCABLE, TT_GLOBAL} \<Longrightarrow> acc k (ast_node_new k)"
  by (auto simp: acc_def fits_def payload_def)

lemma top_gives:
  assumes s: "spec rec"
  shows "wlp (parse_top rec p) (gives p)"
proof -
  have package: "wlp (do { (tp, p) \<leftarrow> rec (L_package b (ast_node_new (if b then TT_MODULE_DECL else TT_USE_DECL)), p);
      Some (map_option first_name tp, p) }) (gives p)" for b p
    by (cases b) (auto simp: give_simps new_acc first_name_wf intro!: wlp_call [OF s])
  have names: "wlp (rec (L_names c (ast_node_new TT_GLOBAL), p)) (gives p)" for c p
    by (auto simp: give_simps decl_acc_def new_acc intro!: wlp_call [OF s])
  have link: "wlp (rec (L_link (ast_node_new (if b then TT_LINK else TT_INVOCABLE)), p)) (gives p)" for b p
    by (cases b) (auto simp: give_simps new_acc intro!: wlp_call [OF s])
  show ?thesis
    using package [of "t_kind (p_cur p) = TK_PACKAGE" "advance p"] names [of _ "advance p"] link [of _ "advance p"]
    unfolding parse_top_def Let_def parse_proc_def gives_advance
    by (intro wlp_if semicol_gives proc_kw_gives [OF s] record_gives [OF s] class_gives [OF s])
qed

lemma file_loop_answers:
  assumes s: "spec rec" and n: "p_error p \<or> pre (L_file t) p"
  shows "wlp (file_loop rec t p) (answers (L_file t) p)"
  using n unfolding file_loop_def
  by (cases "p_error p")
     (auto simp: ans_simps intro!: wlp_call [OF s] wlp_gives [OF top_gives [OF s]] acc_push intro: acc_wf)

lemma cset_loop_answers:
  assumes s: "spec rec" and n: "p_error p \<or> pre (L_cset t) p"
  shows "wlp (cset_loop rec t p) (answers (L_cset t) p)"
  using n binary_loop_answers [OF s, of p L_cset t cset_op P_add] unfolding cset_loop_def
  by (cases "p_error p") (auto simp: ans_simps op_kinds intro!: wlp_call [OF s])

lemma icn_step_answers:
  assumes s: "spec rec" and n: "p_error p \<or> pre a p"
  shows "wlp (icn_step pp rec (a, p)) (answers a p)"
  using n unfolding icn_step_def prod.case
  by (cases a; simp only: nt.case)
     (auto simp: op_kinds answers_def intro!: wlp_call [OF s] then_loop_answers [OF s] binary_loop_answers [OF s]
        parse_primary_answers [OF s] parse_repalt_answers [OF s] parse_unary_answers [OF s]
        parse_pow_answers [OF s] parse_and_answers [OF s] parse_alt_answers [OF s] parse_assign_answers [OF s]
        parse_scan_answers [OF s] parse_ctrl_answers [OF s] parse_block_answers [OF s] parse_stmt_answers [OF s]
        postfix_loop_answers [OF s] comma_loop_answers [OF s] args_loop_answers [OF s] subs_loop_answers [OF s]
        brace_loop_answers [OF s] limit_loop_answers [OF s] cset_loop_answers [OF s] and_loop_answers [OF s]
        to_loop_answers [OF s] alt_loop_answers [OF s] activate_loop_answers [OF s] case_loop_answers [OF s]
        block_loop_answers [OF s] names_loop_answers [OF s] params_loop_answers [OF s] stmts_loop_answers [OF s]
        nlist_loop_answers [OF s] supers_loop_answers [OF s] members_loop_answers [OF s]
        package_loop_answers [OF s] link_loop_answers [OF s] file_loop_answers [OF s])

lemma icn_parse_answers:
  assumes "p_error p \<or> pre a p"
  shows "wlp (icn_parse pp (a, p)) (answers a p)"
proof -
  let ?P = "\<lambda>(pp :: string \<Rightarrow> string) x r. p_error (snd x) \<or> pre (fst x) (snd x) \<longrightarrow> answers (fst x) (snd x) r"
  have "?P pp x r" if r: "icn_parse pp x = Some r" for x r
  proof -
    have "(case (pp, x) of (pp, x) \<Rightarrow> ?P pp x) r"
    proof (rule icn_parse.raw_induct [of ?P])
      fix rec :: "(string \<Rightarrow> string) \<Rightarrow> icn_rec" and pp x r
      assume IH: "\<And>pp x r. rec pp x = Some r \<Longrightarrow> ?P pp x r" and step: "icn_step pp (rec pp) x = Some r"
      have "spec (rec pp)" using IH by (auto simp: spec_def wlp_def split: option.split)
      then show "?P pp x r"
        using icn_step_answers [of "rec pp" "snd x" "fst x" pp] step by auto
    qed (simp add: r)
    then show ?thesis by simp
  qed
  then show ?thesis using assms by (fastforce simp: wlp_def split: option.split)
qed

end
