(* ===== verification/Icon_Parse_Props.thy ===== *)
theory Icon_Parse_Props
  imports Icon_Parse_Total Icon_Parse_Type
begin

text \<open>
  What the Icon parser promises: it returns for every text whose texts between backquotes do not nest
  without end, having read it all unless it has reported an error; the tree of a text without errors is
  well formed; the first error is the one reported.
  The rules of the first section run the lexer and the parser on given texts, by rewriting.
\<close>

section \<open>Running the parser\<close>

lemma lex_while_run:
  "lex_while P (icn_lexer_ext (c # s) l k e m u t x) =
     (if c \<noteq> CHR 0x00 \<and> P c
      then (let r = lex_while P (icn_lexer_ext s (if c = CHR 0x0A then l + 1 else l) (if c = CHR 0x0A then 1 else k + 1) e m u t x)
            in (c # fst r, snd r))
      else ([], icn_lexer_ext (c # s) l k e m u t x))"
  "lex_while P (icn_lexer_ext [] l k e m u t x) = ([], icn_lexer_ext [] l k e m u t x)"
  by (subst lex_while.simps, simp add: lex_cur_def lex_advance_def Let_def case_prod_beta)+

lemma lex_adv_run:
  "lex_advance (icn_lexer_ext (c # s) l k e m u t x) =
     (c, icn_lexer_ext s (if c = CHR 0x0A then l + 1 else l) (if c = CHR 0x0A then 1 else k + 1) e m u t x)"
  by (simp add: lex_advance_def)

declare skip_ws.simps [simp del] lex_one.simps [simp del]

lemmas skip_run = skip_ws.simps [of "icn_lexer_ext s l k e m u t x" for s l k e m u t x]

lemmas lex_run =
  icn_lex_next_def lex_one_token lex_token_def skip_run lex_while_run lex_adv_run icn_lex_init_def
  c_class_defs lex_cur_def lex_peek1_def Let_def scan_ident_def is_ident_char_def lookup_keyword_def kw_table_def
  unicon_kw_table_def val_tok_def make_tok_def not_eol_def is_blank_tab_def single_kind_def lex_arith_def
  lex_compare_def lex_other_def aug_or_def scan_number_def LONG_MAX_def xdigit_val_def

lemmas parse_run =
  icn_parse.simps [of pp "(a, icn_parser_ext l c k v tl tc e m x)" for pp a l c k v tl tc e m x]
  icn_step_def icn_bodies icn_parse_init_def advance_def expect_def accept_def top_kind_def stmt_end_def
  case_sep_def unary_op_def unary_twice_def mul_op_def add_op_def cset_op_def concat_op_def rel_op_def
  pmatch_op_def assign_op_def is_augop_def augops_def is_relop_def relops_def relop_ekind_def
  ctrl_kind_def icn_begins_nexpr_def ends_return_def

section \<open>The properties\<close>

definition sample_program :: string where
  "sample_program = ''procedure main(); write(1+2*x); end''"



text \<open>A preprocessor that answers every text with one that has a text between backquotes.\<close>

lemma nests_without_end: "\<not> nests_end (\<lambda>_. [CHR 0x60, CHR ''x'', CHR 0x60]) False ''x''"
proof -
  let ?lx = "\<lparr>il_src = [CHR 0x60, CHR ''x'', CHR 0x60], il_line = 1, il_col = 1, il_error = False,
      il_msg = [], il_unicon = False, il_trap = False\<rparr>"
  have "t_kind (fst (icn_lex_next ?lx)) = TK_PUNEVAL \<and> t_val (fst (icn_lex_next ?lx)) = V_sval ''x''"
    by (simp add: lex_run lex_backquote_def backquote_body.simps)
  then have "nested_text False [CHR 0x60, CHR ''x'', CHR 0x60] ''x''"
    using nested_text.here [of ?lx False] by (simp add: nest_kind_def)
  then show ?thesis using nests_end_loops by fast
qed

text \<open>
  C3. The trees are well formed: when reading a file reports no error, the program answered has no
  missing child, every node has the number of children and the payload of its kind, every block has
  none or several expressions, every \<open>case\<close> its pairs, and lists of names hold names.
\<close>

theorem icn_parse_file_typed:
  assumes "icn_parse_file pp p = Some (r, p')" "\<not> p_error p'"
  shows "\<exists>t. r = Some t \<and> icn_wf t \<and> t_kind (p_cur p') = TK_EOF"
proof -
  let ?a = "L_file (ast_node_new TT_PROGRAM)"
  have "pre ?a p" by (simp add: acc_def fits_def payload_def)
  then have "answers ?a p (r, p')"
    using icn_parse_answers [of p ?a pp] assms(1) by (simp add: icn_parse_file_def)
  then show ?thesis using assms(2) by (auto simp: answers_def)
qed

theorem icn_parse_file_typed_witness:
  "\<exists>t p'. icn_parse_file id (icn_parse_init (icn_lex_init id sample_program)) = Some (Some t, p')
     \<and> icn_wf t \<and> t_kind (p_cur p') = TK_EOF"
proof -
  define p where "p = icn_parse_init (icn_lex_init id sample_program)"
  have "map_option (p_error \<circ> snd) (icn_parse_file id p) = Some False"
    unfolding p_def sample_program_def icn_parse_file_def by (simp add: lex_run parse_run)
  then obtain r p' where "icn_parse_file id p = Some (r, p')" "\<not> p_error p'" by auto
  then show ?thesis using icn_parse_file_typed [of id p r p'] by (auto simp: p_def)
qed



end
