(* ===== verification/Int_Ops.thy ===== *)
theory Int_Ops
  imports Bignum_Bits Bignum_Str "HOL-Library.While_Combinator" "HOL-Library.Monad_Syntax"
begin

text \<open>
  The integers the rational numbers are made of: the \<open>pq_*\<close> functions at the head of
  \<open>src/runtime/pl_rat.c\<close> and the \<open>bi_*\<close> functions at the head of \<open>src/runtime/rk_rat.c\<close>, which take
  the machine's arithmetic where it does not overflow and \<open>bignum.c\<close> where it does. The interface
  \<open>integers\<close> is what the rational arithmetic asks of them, with what follows from it.
\<close>

section \<open>The interface\<close>

locale integers =
  fixes ok :: "'a \<Rightarrow> bool" and val :: "'a \<Rightarrow> int"
    and add sub mul divt modt :: "'a \<Rightarrow> 'a \<Rightarrow> 'a" and neg :: "'a \<Rightarrow> 'a" and lit :: "int \<Rightarrow> 'a"
    and zero one :: "'a \<Rightarrow> bool" and sg :: "'a \<Rightarrow> int"
  assumes add: "ok a \<Longrightarrow> ok b \<Longrightarrow> ok (add a b) \<and> val (add a b) = val a + val b"
    and sub: "ok a \<Longrightarrow> ok b \<Longrightarrow> ok (sub a b) \<and> val (sub a b) = val a - val b"
    and mul: "ok a \<Longrightarrow> ok b \<Longrightarrow> ok (mul a b) \<and> val (mul a b) = val a * val b"
    and divt: "ok a \<Longrightarrow> ok b \<Longrightarrow> val b \<noteq> 0 \<Longrightarrow> ok (divt a b) \<and> val (divt a b) = val a sdiv val b"
    and modt: "ok a \<Longrightarrow> ok b \<Longrightarrow> val b \<noteq> 0 \<Longrightarrow> ok (modt a b) \<and> val (modt a b) = val a smod val b"
    and neg: "ok a \<Longrightarrow> ok (neg a) \<and> val (neg a) = - val a"
    and lit: "in_i64 z \<Longrightarrow> ok (lit z) \<and> val (lit z) = z"
    and zero: "ok a \<Longrightarrow> zero a \<longleftrightarrow> val a = 0"
    and one: "ok a \<Longrightarrow> one a \<longleftrightarrow> val a = 1"
    and sg: "ok a \<Longrightarrow> sg a = sgn (val a)"
    and same: "ok a \<Longrightarrow> ok b \<Longrightarrow> val a = val b \<Longrightarrow> a = b"
begin

lemma abs_val:
  "ok a \<Longrightarrow> ok (if sg a < 0 then neg a else a) \<and> val (if sg a < 0 then neg a else a) = \<bar>val a\<bar>"
  using neg [of a] by (auto simp: sg)

text \<open>Floor division from the division that truncates.\<close>

lemma floor_val:
  assumes "ok a" "ok b" "val b \<noteq> 0"
  defines "q \<equiv> divt a b" and "r \<equiv> modt a b"
  defines "f \<equiv> (if \<not> zero r \<and> sg r \<noteq> sg b then sub q (lit 1) else q)"
  shows "ok f \<and> val f = val a div val b"
proof -
  note q = divt [OF assms(1-3), folded q_def] and r = modt [OF assms(1-3), folded r_def]
  have l: "ok (lit 1)" "val (lit 1) = 1" using lit [of 1] by (auto simp: in_i64_def)
  have "val r = 0 \<longleftrightarrow> val b dvd val a" "val r \<noteq> 0 \<Longrightarrow> sgn (val r) = sgn (val a)"
  proof -
    have v: "val r = sgn (val a) * (\<bar>val a\<bar> mod \<bar>val b\<bar>)" using r by (simp add: signed_modulo_int_def)
    show "val r = 0 \<longleftrightarrow> val b dvd val a" using v by (auto simp: mod_eq_0_iff_dvd sgn_0_0)
    have "0 \<le> \<bar>val a\<bar> mod \<bar>val b\<bar>" using assms(3) by simp
    then show "sgn (val r) = sgn (val a)" if "val r \<noteq> 0"
      using v that by (auto simp: sgn_mult intro!: sgn_1_pos [THEN iffD2])
  qed
  then have "val a div val b = val q - of_bool (val r \<noteq> 0 \<and> sgn (val r) \<noteq> sgn (val b))"
    using q assms(3) by (auto simp: divide_int_eq_signed_divide_int of_bool_def)
  then show ?thesis
    using q r sub [OF conjunct1 [OF q] l(1)] l(2) assms(2) by (auto simp: f_def zero sg)
qed

text \<open>Euclid's algorithm on numbers that are not negative.\<close>

lemma gcd_loop:
  assumes "ok a" "ok b" "0 \<le> val a" "0 \<le> val b"
  shows "\<exists>g z. while_option (\<lambda>(a, b). \<not> zero b) (\<lambda>(a, b). (b, modt a b)) (a, b) = Some (g, z)
    \<and> ok g \<and> val g = gcd (val a) (val b)"
  using assms
proof (induction "nat (val b)" arbitrary: a b rule: less_induct)
  case less
  show ?case
  proof (cases "val b = 0")
    case True
    then show ?thesis using less.prems by (subst while_option_unfold) (simp add: zero)
  next
    case False
    note m = modt [OF less.prems(1,2) False]
    have v: "val (modt a b) = val a mod val b"
      using m less.prems by (simp add: smod_mod_positive)
    have "nat (val (modt a b)) < nat (val b)" using v False less.prems by simp
    from less.hyps [OF this less.prems(2) conjunct1 [OF m] less.prems(4)]
    show ?thesis using v False less.prems m by (subst while_option_unfold) (auto simp: zero gcd.commute gcd_red_int [symmetric])
  qed
qed

text \<open>\<open>a / g\<close> for a divisor \<open>g\<close>, which is skipped when it is one.\<close>

lemma exact_val:
  assumes "ok a" "ok g" "val g \<noteq> 0" "val g dvd val a"
  shows "ok (if one g then a else divt a g) \<and> val (if one g then a else divt a g) = val a div val g"
proof -
  obtain k where k: "val a = val g * k" using assms(4) by (elim dvdE)
  have "val a sdiv val g = val a div val g"
    using assms(3) unfolding k by (simp add: signed_divide_int_eq_divide_int)
  then show ?thesis using assms divt [of a g] by (simp add: one)
qed

end

section \<open>The integers of \<open>pl_rat.c\<close>\<close>

definition INT_VAL :: "int \<Rightarrow> descr" where
  "INT_VAL z = D_int (word_of_int z)"

definition pq_int :: "descr \<Rightarrow> bool" where
  "pq_int a = (case a of D_int i \<Rightarrow> True | D_big b \<Rightarrow> True | _ \<Rightarrow> False)"

definition pq_sgn :: "descr \<Rightarrow> int" where
  "pq_sgn a = rt_big_sign a"

definition pq_zero :: "descr \<Rightarrow> bool" where
  "pq_zero a = (case a of D_int i \<Rightarrow> i = 0 | _ \<Rightarrow> False)"

definition pq_one :: "descr \<Rightarrow> bool" where
  "pq_one a = (case a of D_int i \<Rightarrow> i = 1 | _ \<Rightarrow> False)"

text \<open>\<open>__builtin_add_overflow\<close> and its like are the test whether the result is in 64 bits.\<close>

fun pq_add :: "descr \<Rightarrow> descr \<Rightarrow> descr" where
  "pq_add (D_int i) (D_int j) =
     (if in_i64 (sint i + sint j) then D_int (i + j) else rt_big_add (D_int i) (D_int j))"
| "pq_add a b = rt_big_add a b"

fun pq_sub :: "descr \<Rightarrow> descr \<Rightarrow> descr" where
  "pq_sub (D_int i) (D_int j) =
     (if in_i64 (sint i - sint j) then D_int (i - j) else rt_big_sub (D_int i) (D_int j))"
| "pq_sub a b = rt_big_sub a b"

fun pq_mul :: "descr \<Rightarrow> descr \<Rightarrow> descr" where
  "pq_mul (D_int i) (D_int j) =
     (if in_i64 (sint i * sint j) then D_int (i * j) else rt_big_mul (D_int i) (D_int j))"
| "pq_mul a b = rt_big_mul a b"

definition INT64_MIN :: u64 where
  "INT64_MIN = word_of_int (- (2 ^ 63))"

fun pq_neg :: "descr \<Rightarrow> descr" where
  "pq_neg (D_int i) = (if i \<noteq> INT64_MIN then D_int (- i) else rt_big_neg (D_int i))"
| "pq_neg a = rt_big_neg a"

definition pq_abs :: "descr \<Rightarrow> descr" where
  "pq_abs a = (if pq_sgn a < 0 then pq_neg a else a)"

definition pq_same :: "descr \<Rightarrow> descr \<Rightarrow> bool" where
  "pq_same a b =
     (case (a, b) of
        (D_int i, D_int j) \<Rightarrow> i = j
      | (D_int i, _) \<Rightarrow> False
      | (_, D_int j) \<Rightarrow> False
      | _ \<Rightarrow> rt_big_eq a b)"

fun pq_cmp :: "descr \<Rightarrow> descr \<Rightarrow> int" where
  "pq_cmp (D_int i) (D_int j) = of_bool (sint i > sint j) - of_bool (sint i < sint j)"
| "pq_cmp a b = rt_big_cmp a b"

text \<open>The machine's division on \<open>int64_t\<close>; the code divides by zero nowhere.\<close>

fun pq_divt :: "descr \<Rightarrow> descr \<Rightarrow> descr" where
  "pq_divt (D_int i) (D_int j) =
     (if i = INT64_MIN \<and> j = - 1 then rt_big_div (D_int i) (D_int j)
      else INT_VAL (sint i sdiv sint j))"
| "pq_divt a b = rt_big_div a b"

fun pq_modt :: "descr \<Rightarrow> descr \<Rightarrow> descr" where
  "pq_modt (D_int i) (D_int j) = INT_VAL (if j = - 1 then 0 else sint i smod sint j)"
| "pq_modt a b = rt_big_mod a b"

definition pq_floordiv :: "descr \<Rightarrow> descr \<Rightarrow> descr" where
  "pq_floordiv a b =
     (let q = pq_divt a b; r = pq_modt a b
      in if \<not> pq_zero r \<and> pq_sgn r \<noteq> pq_sgn b then pq_sub q (INT_VAL 1) else q)"

lemma sint_min: "sint INT64_MIN = - (2 ^ 63)" "sint (- 1 :: u64) = - 1"
  using sint_word_of_int64 [of "- (2 ^ 63)"] sint_word_of_int64 [of "- 1"] by (simp_all add: INT64_MIN_def in_i64_def)

lemma canonical_D_int [simp]: "canonical (D_int i)"
  by (simp add: canonical_def)

lemma canonical_int [dest]: "canonical d \<Longrightarrow> int_descr d"
  by (simp add: canonical_def)

lemma sint_ring:
  fixes i j :: u64
  shows "in_i64 (sint i + sint j) \<Longrightarrow> sint (i + j) = sint i + sint j"
    "in_i64 (sint i - sint j) \<Longrightarrow> sint (i - j) = sint i - sint j"
    "in_i64 (sint i * sint j) \<Longrightarrow> sint (i * j) = sint i * sint j"
    "in_i64 (- sint i) \<Longrightarrow> sint (- i) = - sint i"
  using sint_word_of_int64 [of "sint i + sint j"] sint_word_of_int64 [of "sint i - sint j"]
    sint_word_of_int64 [of "sint i * sint j"] sint_word_of_int64 [of "- sint i"] by simp_all

lemma sint_inject: "sint (i :: u64) = sint j \<longleftrightarrow> i = j"
  by (auto intro: signed_word_eqI)

lemma sint_small: "sint (i :: u64) = 0 \<longleftrightarrow> i = 0" "sint (i :: u64) = 1 \<longleftrightarrow> i = 1"
  "sint (i :: u64) = - 1 \<longleftrightarrow> i = - 1" "sint i = - (2 ^ 63) \<longleftrightarrow> i = INT64_MIN"
  using sint_min sint_inject [of i 0] sint_inject [of i 1] sint_inject [of i "- 1"] sint_inject [of i INT64_MIN]
    sint_word_of_int64 [of 1] by (simp_all add: in_i64_def)

lemma canonical_small:
  assumes "canonical d" "in_i64 (ival d)"
  obtains i where "d = D_int i"
  using assms by (cases d rule: int_descr.cases) (auto simp: canonical_def)

lemma pq_zero_val: "canonical a \<Longrightarrow> pq_zero a \<longleftrightarrow> ival a = 0"
proof
  assume a: "canonical a" "ival a = 0"
  then obtain i where "a = D_int i" by (elim canonical_small) (simp_all add: in_i64_def)
  then show "pq_zero a" using a by (simp add: pq_zero_def sint_small)
qed (auto simp: pq_zero_def split: descr.split_asm)

lemma pq_one_val: "canonical a \<Longrightarrow> pq_one a \<longleftrightarrow> ival a = 1"
proof
  assume a: "canonical a" "ival a = 1"
  then obtain i where "a = D_int i" by (elim canonical_small) (simp_all add: in_i64_def)
  then show "pq_one a" using a by (simp add: pq_one_def sint_small)
qed (auto simp: pq_one_def sint_small split: descr.split_asm)

lemma pq_ring_vals:
  assumes "canonical a" "canonical b"
  shows "canonical (pq_add a b) \<and> ival (pq_add a b) = ival a + ival b"
    "canonical (pq_sub a b) \<and> ival (pq_sub a b) = ival a - ival b"
    "canonical (pq_mul a b) \<and> ival (pq_mul a b) = ival a * ival b"
  using rt_big_add_props [of a b] rt_big_sub_props [of a b] rt_big_mul_props [of a b] assms
  by (cases a; cases b; auto simp: sint_ring)+

lemma pq_neg_val: "canonical a \<Longrightarrow> canonical (pq_neg a) \<and> ival (pq_neg a) = - ival a"
proof (cases a)
  case (D_int i)
  have "in_i64 (- sint i)" if "i \<noteq> INT64_MIN"
    using that in_i64_sint [of i] sint_small(4) [of i] by (auto simp: in_i64_def)
  then show ?thesis using D_int rt_big_neg_props [of a] by (auto simp: sint_ring)
qed (use rt_big_neg_props [of a] in auto)

lemma sdiv_in_i64:
  assumes "\<not> (i = INT64_MIN \<and> j = - 1)" "j \<noteq> 0"
  shows "in_i64 (sint i sdiv sint (j :: u64))" "in_i64 (sint i smod sint j)"
proof -
  have j: "sint j \<noteq> 0" using assms(2) sint_small(1) [of j] by simp
  show "in_i64 (sint i smod sint j)"
    using smod_int_range [OF j, of "sint i"] in_i64_sint [of j] by (auto simp: in_i64_def)
  show "in_i64 (sint i sdiv sint j)"
  proof (cases "i = INT64_MIN")
    case False
    then have "\<bar>sint i\<bar> < 2 ^ 63" using in_i64_sint [of i] sint_small(4) [of i] by (auto simp: in_i64_def)
    then show ?thesis using sdiv_int_range [of "sint i" "sint j"] by (auto simp: in_i64_def)
  next
    case True
    then have "sint j \<noteq> - 1" using assms(1) sint_small(3) [of j] by simp
    show ?thesis
    proof (cases "sint j = 1")
      case False
      then have "2 \<le> \<bar>sint j\<bar>" using j \<open>sint j \<noteq> - 1\<close> by auto
      then have "2 ^ 63 div \<bar>sint j\<bar> \<le> 2 ^ 63 div 2" by (intro zdiv_mono2) simp_all
      moreover have "0 \<le> 2 ^ 63 div \<bar>sint j\<bar>"
        using \<open>2 \<le> \<bar>sint j\<bar>\<close> by (subst pos_imp_zdiv_nonneg_iff) auto
      ultimately show ?thesis
        using True sint_min by (cases "0 < sint j") (simp_all add: in_i64_def signed_divide_int_def sgn_if)
    qed (use True sint_min in \<open>simp add: in_i64_def\<close>)
  qed
qed

lemma pq_div_vals:
  assumes "canonical a" "canonical b" "ival b \<noteq> 0"
  shows "canonical (pq_divt a b) \<and> ival (pq_divt a b) = ival a sdiv ival b"
    "canonical (pq_modt a b) \<and> ival (pq_modt a b) = ival a smod ival b"
proof -
  note big = rt_big_divmod_props [of a b]
  have "canonical (pq_divt a b) \<and> ival (pq_divt a b) = ival a sdiv ival b
    \<and> canonical (pq_modt a b) \<and> ival (pq_modt a b) = ival a smod ival b"
  proof (cases "\<exists>i j. a = D_int i \<and> b = D_int j")
    case True
    then obtain i j where ij: "a = D_int i" "b = D_int j" by blast
    have "sint i smod - 1 = 0" by (simp add: signed_modulo_int_def)
    then show ?thesis
      using ij big assms sdiv_in_i64 [of i j] sint_small(1,3) [of j]
      by (auto simp: INT_VAL_def sint_min in_i64_def)
  next
    case False
    then have "pq_divt a b = rt_big_div a b" "pq_modt a b = rt_big_mod a b"
      by (cases a; cases b; simp)+
    then show ?thesis using big assms by auto
  qed
  then show "canonical (pq_divt a b) \<and> ival (pq_divt a b) = ival a sdiv ival b"
    "canonical (pq_modt a b) \<and> ival (pq_modt a b) = ival a smod ival b" by auto
qed

interpretation pq: integers canonical ival pq_add pq_sub pq_mul pq_divt pq_modt pq_neg INT_VAL pq_zero pq_one pq_sgn
  by unfold_locales
    (auto simp: pq_ring_vals pq_neg_val pq_div_vals pq_zero_val pq_one_val pq_sgn_def rt_big_sign_props INT_VAL_def
      intro: canonical_inject)

lemma pq_abs_val: "canonical a \<Longrightarrow> canonical (pq_abs a) \<and> ival (pq_abs a) = \<bar>ival a\<bar>"
  unfolding pq_abs_def by (rule pq.abs_val)

lemma pq_floordiv_val:
  "canonical a \<Longrightarrow> canonical b \<Longrightarrow> ival b \<noteq> 0 \<Longrightarrow>
   canonical (pq_floordiv a b) \<and> ival (pq_floordiv a b) = ival a div ival b"
  using pq.floor_val [of a b] by (simp add: pq_floordiv_def Let_def)

lemma pq_cmp_val: "canonical a \<Longrightarrow> canonical b \<Longrightarrow> pq_cmp a b = sgn (ival a - ival b)"
  using rt_big_cmp_props [of a b] by (cases a; cases b) auto

lemma pq_same_val:
  assumes "canonical a" "canonical b"
  shows "pq_same a b \<longleftrightarrow> ival a = ival b"
proof -
  have "pq_same a b \<longleftrightarrow> a = b"
    using assms rt_big_eq_props [OF assms] canonical_inject [OF assms]
    by (cases a rule: int_descr.cases; cases b rule: int_descr.cases)
       (auto simp: pq_same_def canonical_def)
  then show ?thesis using canonical_inject [OF assms] by auto
qed

text \<open>The length in binary; \<open>__builtin_clzll\<close> of a word that is not zero.\<close>

definition clz64 :: "u64 \<Rightarrow> nat" where
  "clz64 x = 64 - bit_len (unat x)"

definition pq_bits :: "descr \<Rightarrow> int" where
  "pq_bits a =
     (case a of D_int i \<Rightarrow> (let v = i64_mag i in if v \<noteq> 0 then 64 - int (clz64 v) else 0)
      | _ \<Rightarrow> rt_big_bits a)"

lemma clz64_bits: "64 - int (clz64 v) = int (bit_len (unat v))"
proof -
  have "unat v < 2 ^ 64" using unsigned_less [of v, where 'a = nat] by simp
  then have "bit_len (unat v) \<le> 64" by (rule bit_len_le)
  then show ?thesis by (simp add: clz64_def of_nat_diff)
qed

lemma pq_bits_val:
  assumes "canonical a"
  shows "pq_bits a = int (bit_len (nat \<bar>ival a\<bar>))"
proof (cases a rule: int_descr.cases)
  case (1 i)
  then show ?thesis
    using i64_mag_val [of i] by (auto simp: pq_bits_def Let_def clz64_bits unat_eq_nat_uint)
next
  case (2 b)
  then have "big_wf b" "bval b \<noteq> 0" using assms by (auto simp: canonical_def in_i64_def)
  then show ?thesis using 2 rt_big_bits_props [of b] by (simp add: pq_bits_def)
qed (use assms in \<open>auto simp: canonical_def\<close>)

subsection \<open>Greatest common divisors\<close>

function gcd64 :: "u64 \<Rightarrow> u64 \<Rightarrow> u64" where
  "gcd64 x y = (if y = 0 then x else gcd64 y (x mod y))"
  by pat_completeness auto

termination
  by (relation "measure (\<lambda>(x, y). unat y)") (simp_all add: unat_mod unat_gt_0)

declare gcd64.simps [simp del]

lemma gcd64_val: "unat (gcd64 x y) = gcd (unat x) (unat y)"
proof (induction x y rule: gcd64.induct)
  case (1 x y)
  then show ?case
    by (subst gcd64.simps) (auto simp: unat_mod gcd.commute gcd_red_nat [symmetric] unat_eq_0)
qed

definition pq_gcd :: "descr \<Rightarrow> descr \<Rightarrow> descr option" where
  "pq_gcd a b =
     (let a = pq_abs a; b = pq_abs b
      in case (a, b) of
           (D_int x, D_int y) \<Rightarrow> Some (D_int (gcd64 x y))
         | _ \<Rightarrow> map_option fst (while_option (\<lambda>(a, b). \<not> pq_zero b) (\<lambda>(a, b). (b, pq_modt a b)) (a, b)))"

lemma sint_unat_nonneg: "0 \<le> sint (x :: u64) \<Longrightarrow> sint x = int (unat x)"
  by (simp add: sint_eq_uint64)

lemma sint_unat_small:
  assumes "unat (z :: u64) \<le> 2 ^ 63 - 1"
  shows "sint z = int (unat z)"
proof -
  have "unat z < 2 ^ 63" using assms by simp
  then have "int (unat z) < int (2 ^ 63)" by (simp only: of_nat_less_iff)
  then show ?thesis using sint_of_uint64 [of z] by simp
qed

lemma gcd64_sint:
  assumes "0 \<le> sint x" "0 \<le> sint y"
  shows "sint (gcd64 x y) = gcd (sint x) (sint y)"
proof -
  have b: "unat x = nat (sint x)" "unat y = nat (sint y)"
    using arg_cong [OF sint_unat_nonneg [OF assms(1)], of nat] arg_cong [OF sint_unat_nonneg [OF assms(2)], of nat]
    unfolding nat_int by (simp_all only:)
  have u: "nat (sint z) < 2 ^ 63" for z :: u64
    using in_i64_sint [of z] by (cases "0 \<le> sint z") (simp_all add: in_i64_def nat_less_iff)
  have "gcd (unat x) (unat y) < 2 ^ 63"
  proof (cases "unat x = 0")
    case True
    then have "gcd (unat x) (unat y) = unat y" by (simp only: gcd_0_left_nat)
    then show ?thesis unfolding b(2) using u [of y] by (simp only:)
  next
    case False
    then have "gcd (unat x) (unat y) \<le> unat x" by (rule gcd_le1_nat)
    also have "unat x < 2 ^ 63" unfolding b(1) by (rule u)
    finally show ?thesis .
  qed
  then have "unat (gcd64 x y) \<le> 2 ^ 63 - 1" by (simp add: gcd64_val)
  then have "sint (gcd64 x y) = int (unat (gcd64 x y))" by (rule sint_unat_small)
  also have "\<dots> = gcd (int (unat x)) (int (unat y))" by (simp only: gcd64_val gcd_int_int_eq)
  also have "\<dots> = gcd (sint x) (sint y)" using assms by (simp only: sint_unat_nonneg)
  finally show ?thesis .
qed

text \<open>\<open>pq_gcd\<close> returns, for every pair of integers, and what it returns is their gcd.\<close>

lemma pq_gcd_val:
  assumes "canonical a" "canonical b"
  obtains g where "pq_gcd a b = Some g" "canonical g" "ival g = gcd (ival a) (ival b)"
proof -
  note ab = pq_abs_val [OF assms(1)] pq_abs_val [OF assms(2)]
  show thesis
  proof (cases "\<exists>x y. pq_abs a = D_int x \<and> pq_abs b = D_int y")
    case True
    then obtain x y where xy: "pq_abs a = D_int x" "pq_abs b = D_int y" by blast
    show thesis
      by (rule that [of "D_int (gcd64 x y)"]) (use xy ab gcd64_sint [of x y] in \<open>simp_all add: pq_gcd_def\<close>)
  next
    case False
    obtain g z where "while_option (\<lambda>(a, b). \<not> pq_zero b) (\<lambda>(a, b). (b, pq_modt a b)) (pq_abs a, pq_abs b) = Some (g, z)"
      "canonical g" "ival g = gcd \<bar>ival a\<bar> \<bar>ival b\<bar>"
      using pq.gcd_loop [of "pq_abs a" "pq_abs b"] ab by auto
    moreover have "pq_gcd a b = map_option fst (while_option (\<lambda>(a, b). \<not> pq_zero b) (\<lambda>(a, b). (b, pq_modt a b)) (pq_abs a, pq_abs b))"
      using False by (auto simp: pq_gcd_def Let_def split: descr.split)
    ultimately show thesis using that [of g] by simp
  qed
qed

subsection \<open>Powers\<close>

text \<open>The loop of \<open>pq_pow\<close> on the machine's integers; \<open>None\<close> once a product has overflowed.\<close>

function pow64 :: "int \<Rightarrow> int \<Rightarrow> int \<Rightarrow> int option" where
  "pow64 acc base k =
     (if k \<le> 0 then Some acc
      else let acc' = (if odd k then acc * base else acc); k' = k div 2;
               base' = (if k' \<noteq> 0 then base * base else base)
           in if in_i64 acc' \<and> in_i64 base' then pow64 acc' base' k' else None)"
  by pat_completeness auto

termination
  by (relation "measure (\<lambda>(acc, base, k). nat k)") auto

declare pow64.simps [simp del]

definition pq_pow :: "descr \<Rightarrow> int \<Rightarrow> descr" where
  "pq_pow a e =
     (if e = 0 then INT_VAL 1
      else case a of
             D_int i \<Rightarrow> (case pow64 1 (sint i) e of Some z \<Rightarrow> INT_VAL z | None \<Rightarrow> rt_big_pow a e)
           | _ \<Rightarrow> rt_big_pow a e)"

lemma pow64_val:
  "pow64 acc base k = Some z \<Longrightarrow> 0 \<le> k \<Longrightarrow> in_i64 acc \<Longrightarrow> z = acc * base ^ nat k \<and> in_i64 z"
proof (induction acc base k rule: pow64.induct)
  case (1 acc base k)
  show ?case
  proof (cases "k \<le> 0")
    case True
    then have "k = 0" using 1(3) by simp
    then show ?thesis using 1(2,4) by (simp add: pow64.simps [of acc base 0])
  next
    case False
    define a where "a = (if odd k then acc * base else acc)"
    define b where "b = (if k div 2 \<noteq> 0 then base * base else base)"
    have r: "pow64 a b (k div 2) = Some z" "in_i64 a" "in_i64 b"
      using 1(2) False by (simp_all add: pow64.simps [of acc base k] a_def b_def Let_def split: if_split_asm)
    then have z: "z = a * b ^ nat (k div 2)" "in_i64 z"
      using 1(1) [OF False a_def refl b_def] False 1(3) by auto
    have "a * b ^ nat (k div 2) = acc * base ^ nat k"
    proof (cases "k = 1")
      case True
      then show ?thesis by (simp add: a_def)
    next
      case F: False
      then have "b = base * base" using False by (auto simp: b_def)
      moreover have "nat k = 2 * nat (k div 2) + (if odd k then 1 else 0)" using False by (cases "odd k") (auto elim: oddE)
      ultimately show ?thesis
        by (simp add: a_def power_add power_mult power2_eq_square power_mult_distrib)
    qed
    then show ?thesis using z by simp
  qed
qed

lemma pq_pow_val:
  assumes "canonical a" "0 \<le> e"
  shows "canonical (pq_pow a e) \<and> ival (pq_pow a e) = ival a ^ nat e"
proof (cases "\<exists>i z. e \<noteq> 0 \<and> a = D_int i \<and> pow64 1 (sint i) e = Some z")
  case True
  then obtain i z where a: "e \<noteq> 0" "a = D_int i" "pow64 1 (sint i) e = Some z" by blast
  have "z = sint i ^ nat e" "in_i64 z" using pow64_val [OF a(3) assms(2)] by (simp_all add: in_i64_def)
  moreover have "pq_pow a e = INT_VAL z" using a by (simp add: pq_pow_def)
  ultimately show ?thesis using a(2) pq.lit [of z] by (metis ival.simps(1))
next
  case False
  then have "pq_pow a e = (if e = 0 then INT_VAL 1 else rt_big_pow a e)"
    by (auto simp: pq_pow_def split: descr.split option.split)
  then show ?thesis using rt_big_pow_props [of a e] assms pq.lit [of 1] by (auto simp: in_i64_def)
qed

end
