(* ===== verification/Rk_Rat.thy ===== *)
theory Rk_Rat
  imports Int_Ops Descr Complex_Main
begin

text \<open>
  The rational numbers of \<open>src/runtime/rk_rat.c\<close>: pairs of integers that the runtime keeps in a
  data record of type \<open>Rat\<close> or \<open>FatRat\<close>. \<open>option\<close> is the value of a run: \<open>None\<close> when it does not
  come back, because a loop goes on or because the machine traps on a division by zero.
\<close>

section \<open>The integers of \<open>rk_rat.c\<close>\<close>

definition bi_is :: "descr \<Rightarrow> bool" where
  "bi_is a = (case a of D_int i \<Rightarrow> True | D_big b \<Rightarrow> True | _ \<Rightarrow> False)"

definition bi_sgn :: "descr \<Rightarrow> int" where
  "bi_sgn a = rt_big_sign a"

definition bi_zero :: "descr \<Rightarrow> bool" where
  "bi_zero a = (case a of D_int i \<Rightarrow> i = 0 | _ \<Rightarrow> False)"

definition bi_one :: "descr \<Rightarrow> bool" where
  "bi_one a = (case a of D_int i \<Rightarrow> i = 1 | _ \<Rightarrow> False)"

fun bi_add :: "descr \<Rightarrow> descr \<Rightarrow> descr" where
  "bi_add (D_int i) (D_int j) =
     (if in_i64 (sint i + sint j) then D_int (i + j) else rt_big_add (D_int i) (D_int j))"
| "bi_add a b = rt_big_add a b"

fun bi_sub :: "descr \<Rightarrow> descr \<Rightarrow> descr" where
  "bi_sub (D_int i) (D_int j) =
     (if in_i64 (sint i - sint j) then D_int (i - j) else rt_big_sub (D_int i) (D_int j))"
| "bi_sub a b = rt_big_sub a b"

fun bi_mul :: "descr \<Rightarrow> descr \<Rightarrow> descr" where
  "bi_mul (D_int i) (D_int j) =
     (if in_i64 (sint i * sint j) then D_int (i * j) else rt_big_mul (D_int i) (D_int j))"
| "bi_mul a b = rt_big_mul a b"

fun bi_neg :: "descr \<Rightarrow> descr" where
  "bi_neg (D_int i) = (if i \<noteq> INT64_MIN then D_int (- i) else rt_big_neg (D_int i))"
| "bi_neg a = rt_big_neg a"

definition bi_abs :: "descr \<Rightarrow> descr" where
  "bi_abs a = (if bi_sgn a < 0 then bi_neg a else a)"

fun bi_cmp :: "descr \<Rightarrow> descr \<Rightarrow> int" where
  "bi_cmp (D_int i) (D_int j) = of_bool (sint i > sint j) - of_bool (sint i < sint j)"
| "bi_cmp a b = rt_big_cmp a b"

fun bi_divt :: "descr \<Rightarrow> descr \<Rightarrow> descr" where
  "bi_divt (D_int i) (D_int j) =
     (if i = INT64_MIN \<and> j = - 1 then rt_big_div (D_int i) (D_int j)
      else INT_VAL (sint i sdiv sint j))"
| "bi_divt a b = rt_big_div a b"

fun bi_modt :: "descr \<Rightarrow> descr \<Rightarrow> descr" where
  "bi_modt (D_int i) (D_int j) = (if j \<noteq> - 1 then INT_VAL (sint i smod sint j) else INT_VAL 0)"
| "bi_modt a b = rt_big_mod a b"

definition bi_floordiv :: "descr \<Rightarrow> descr \<Rightarrow> descr" where
  "bi_floordiv a b =
     (let q = bi_divt a b; r = bi_modt a b
      in if \<not> bi_zero r \<and> bi_sgn r \<noteq> bi_sgn b then bi_sub q (INT_VAL 1) else q)"

definition bi_gcd :: "descr \<Rightarrow> descr \<Rightarrow> descr option" where
  "bi_gcd a b =
     (let slow = map_option fst (while_option (\<lambda>(a, b). \<not> bi_zero b) (\<lambda>(a, b). (b, bi_modt a b))
                   (bi_abs a, bi_abs b))
      in case (a, b) of
           (D_int i, D_int j) \<Rightarrow>
             (let g = gcd64 (i64_mag i) (i64_mag j)
              in if unat g \<le> 2 ^ 63 - 1 then Some (D_int g) else slow)
         | _ \<Rightarrow> slow)"

definition bi_pow :: "descr \<Rightarrow> int \<Rightarrow> descr" where
  "bi_pow a e =
     (if e = 0 then INT_VAL 1
      else case a of
             D_int i \<Rightarrow> (case pow64 1 (sint i) e of Some z \<Rightarrow> INT_VAL z | None \<Rightarrow> rt_big_pow a e)
           | _ \<Rightarrow> rt_big_pow a e)"

text \<open>A \<open>long\<close> cast to \<open>int\<close>.\<close>

definition c_int :: "int \<Rightarrow> int" where
  "c_int n = sint (word_of_int n :: 32 word)"

definition bi_bits :: "descr \<Rightarrow> int" where
  "bi_bits a =
     (case a of D_int i \<Rightarrow> (let v = i64_mag i in if v \<noteq> 0 then 64 - int (clz64 v) else 0)
      | _ \<Rightarrow> c_int (rt_big_bits a))"

definition bi_lt_2p64 :: "descr \<Rightarrow> bool" where
  "bi_lt_2p64 d = (case d of D_int i \<Rightarrow> 0 \<le> sint i | _ \<Rightarrow> bi_sgn d > 0 \<and> bi_bits d \<le> 64)"

text \<open>They are the integers of \<open>pl_rat.c\<close>, written out a second time.\<close>

lemma bi_pq:
  "bi_sgn = pq_sgn" "bi_zero = pq_zero" "bi_one = pq_one" "bi_add = pq_add" "bi_sub = pq_sub"
  "bi_mul = pq_mul" "bi_neg = pq_neg" "bi_cmp = pq_cmp" "bi_divt = pq_divt" "bi_modt = pq_modt"
  "bi_pow = pq_pow" "bi_is = pq_int"
proof -
  have "bi_add a b = pq_add a b" "bi_sub a b = pq_sub a b" "bi_mul a b = pq_mul a b" "bi_neg a = pq_neg a"
    "bi_cmp a b = pq_cmp a b" "bi_divt a b = pq_divt a b" "bi_modt a b = pq_modt a b" for a b
    by (cases a; cases b; simp)+
  then show "bi_add = pq_add" "bi_sub = pq_sub" "bi_mul = pq_mul" "bi_neg = pq_neg"
    "bi_cmp = pq_cmp" "bi_divt = pq_divt" "bi_modt = pq_modt" by blast+
qed (simp_all add: fun_eq_iff bi_sgn_def pq_sgn_def bi_zero_def pq_zero_def bi_one_def pq_one_def bi_pow_def
  pq_pow_def bi_is_def pq_int_def)

interpretation bi: integers canonical ival bi_add bi_sub bi_mul bi_divt bi_modt bi_neg INT_VAL bi_zero bi_one bi_sgn
  unfolding bi_pq by (rule pq.integers_axioms)

section \<open>The operations\<close>

text \<open>
  A value is a plain descriptor or an instance of the data type \<open>Rat\<close> (\<open>False\<close>) or \<open>FatRat\<close>
  (\<open>True\<close>) with its numerator and denominator. A double is its bit pattern; the operations of the
  machine and the C library on doubles are the fields of \<open>fp_ops\<close>.
\<close>

datatype qdescr = Q_val descr | Q_rat bool descr descr

record fp_ops =
  int_dbl :: "descr \<Rightarrow> u64"
  rat_dbl :: "descr \<Rightarrow> descr \<Rightarrow> u64"
  str_dbl :: "u64 \<Rightarrow> u64 option"
  fp_add :: "u64 \<Rightarrow> u64 \<Rightarrow> u64"
  fp_sub :: "u64 \<Rightarrow> u64 \<Rightarrow> u64"
  fp_mul :: "u64 \<Rightarrow> u64 \<Rightarrow> u64"
  fp_div :: "u64 \<Rightarrow> u64 \<Rightarrow> u64"
  fp_pow :: "u64 \<Rightarrow> u64 \<Rightarrow> u64"
  fp_floor :: "u64 \<Rightarrow> u64"
  fp_neg :: "u64 \<Rightarrow> u64"
  fp_int :: "u64 \<Rightarrow> int"
  fp_lt :: "u64 \<Rightarrow> u64 \<Rightarrow> bool"
  fp_eq :: "u64 \<Rightarrow> u64 \<Rightarrow> bool"

definition REAL_VAL :: "u64 \<Rightarrow> qdescr" where
  "REAL_VAL x = Q_val (D_other (dt_code DT_R) x)"

definition rq_bool :: "bool \<Rightarrow> qdescr" where
  "rq_bool b = Q_val (D_other (dt_code DT_BOOL) (of_bool b))"

datatype binop =
    BINOP_ADD | BINOP_SUB | BINOP_MUL | BINOP_DIV | BINOP_MOD | BINOP_LT | BINOP_LE | BINOP_GT
  | BINOP_GE | BINOP_EQ | BINOP_NE | BINOP_CONCAT | BINOP_SLT | BINOP_SLE | BINOP_SGT | BINOP_SGE
  | BINOP_SEQ | BINOP_SNE | BINOP_POW | BINOP_CUNION | BINOP_CDIFF | BINOP_CINTER | BINOP_EQV
  | BINOP_NEQV | BINOP_XREP | BINOP_CONCAT_FRACDIGIT | BINOP_POW_PROMOTE | BINOP_ADD_BIG
  | BINOP_SUB_BIG | BINOP_MUL_BIG | BINOP_LCONCAT | BINOP_CONCAT_SNO

text \<open>
  What an operation says: it does not handle the operands (it returned 0), it stored a result, or it
  raised the script's division-by-zero error under the operator's name and stored \<open>FAILDESCR\<close>.
\<close>

datatype rk_res = Unhandled | Done qdescr | Dies string

definition rq_kind :: "qdescr \<Rightarrow> nat" where
  "rq_kind v = (case v of Q_val _ \<Rightarrow> 0 | Q_rat fat _ _ \<Rightarrow> if fat then 2 else 1)"

definition rk_rat_is :: "qdescr \<Rightarrow> bool" where
  "rk_rat_is d \<longleftrightarrow> rq_kind d \<noteq> 0"

definition rk_rat_zero_den :: "qdescr \<Rightarrow> bool" where
  "rk_rat_zero_den q = (case q of Q_rat _ n d \<Rightarrow> bi_zero d | _ \<Rightarrow> False)"

definition rq_new :: "descr \<Rightarrow> descr \<Rightarrow> bool \<Rightarrow> qdescr" where
  "rq_new n d fat = Q_rat fat n d"

definition rq_make :: "fp_ops \<Rightarrow> descr \<Rightarrow> descr \<Rightarrow> bool \<Rightarrow> qdescr option" where
  "rq_make F n0 d0 fat = do {
     let (n, d) = (if bi_sgn d0 < 0 then (bi_neg n0, bi_neg d0) else (n0, d0));
     (n, d) \<leftarrow> (if \<not> bi_one d
               then do {
                 g \<leftarrow> bi_gcd n d;
                 Some (if \<not> bi_one g \<and> \<not> bi_zero g then (bi_divt n g, bi_divt d g) else (n, d))
               }
               else Some (n, d));
     Some (if \<not> fat \<and> \<not> bi_lt_2p64 d then REAL_VAL (rat_dbl F n d) else rq_new n d fat)
   }"

fun rq_get :: "qdescr \<Rightarrow> (descr \<times> descr \<times> bool) option" where
  "rq_get (Q_val (D_int i)) = Some (D_int i, INT_VAL 1, False)"
| "rq_get (Q_val (D_big b)) = Some (D_big b, INT_VAL 1, False)"
| "rq_get (Q_val (D_other t i)) =
     (if t = dt_code DT_BOOL then Some (INT_VAL (of_bool (i \<noteq> 0)), INT_VAL 1, False) else None)"
| "rq_get (Q_val D_fail) = None"
| "rq_get (Q_rat fat n d) = Some (n, d, fat)"

definition rq_pow :: "fp_ops \<Rightarrow> descr \<Rightarrow> descr \<Rightarrow> descr \<Rightarrow> bool \<Rightarrow> rk_res option" where
  "rq_pow F n d e fat =
     (case e of
        D_int i \<Rightarrow>
          (let k = sint i; neg = k < 0
           in if neg \<and> i = INT64_MIN then Some (Done (REAL_VAL (fp_pow F (rat_dbl F n d) (int_dbl F e))))
              else let k = (if neg then - k else k); pn = bi_pow n k; pd = bi_pow d k
                   in if neg then (if bi_zero pn then Some (Dies ''infix:<**>'')
                                   else map_option Done (rq_make F pd pn fat))
                      else map_option Done (rq_make F pn pd fat))
      | _ \<Rightarrow> Some (Done (REAL_VAL (fp_pow F (rat_dbl F n d) (int_dbl F e)))))"

text \<open>
  Floor division as the code calls it where the divisor may be zero: two machine integers trap,
  \<open>bignum.c\<close> answers with \<open>FAILDESCR\<close>.
\<close>

definition c_floordiv :: "descr \<Rightarrow> descr \<Rightarrow> descr option" where
  "c_floordiv a b =
     (case (a, b) of (D_int i, D_int j) \<Rightarrow> (if j = 0 then None else Some (bi_floordiv a b))
      | _ \<Rightarrow> Some (bi_floordiv a b))"

definition is_compare :: "binop \<Rightarrow> bool" where
  "is_compare op \<longleftrightarrow> op \<in> {BINOP_LT, BINOP_LE, BINOP_GT, BINOP_GE, BINOP_EQ, BINOP_NE}"

definition rq_compare :: "binop \<Rightarrow> int \<Rightarrow> bool" where
  "rq_compare op c \<longleftrightarrow>
     (if op = BINOP_LT then c < 0 else if op = BINOP_LE then c \<le> 0 else if op = BINOP_GT then c > 0
      else if op = BINOP_GE then c \<ge> 0 else if op = BINOP_EQ then c = 0 else c \<noteq> 0)"

text \<open>The switch on two exact operands; \<open>Unhandled\<close> is its \<open>break\<close>.\<close>

definition rq_exact :: "fp_ops \<Rightarrow> binop \<Rightarrow> descr \<Rightarrow> descr \<Rightarrow> descr \<Rightarrow> descr \<Rightarrow> bool \<Rightarrow> rk_res option" where
  "rq_exact F op an ad bn bd fat =
     (case op of
        BINOP_ADD \<Rightarrow> map_option Done
          (if bi_cmp ad bd = 0 then rq_make F (bi_add an bn) ad fat
           else rq_make F (bi_add (bi_mul an bd) (bi_mul bn ad)) (bi_mul ad bd) fat)
      | BINOP_SUB \<Rightarrow> map_option Done
          (if bi_cmp ad bd = 0 then rq_make F (bi_sub an bn) ad fat
           else rq_make F (bi_sub (bi_mul an bd) (bi_mul bn ad)) (bi_mul ad bd) fat)
      | BINOP_MUL \<Rightarrow> map_option Done (rq_make F (bi_mul an bn) (bi_mul ad bd) fat)
      | BINOP_DIV \<Rightarrow>
          (if bi_zero bn then Some (Done (rq_new (INT_VAL (bi_sgn an)) (INT_VAL 0) fat))
           else map_option Done (rq_make F (bi_mul an bd) (bi_mul ad bn) fat))
      | BINOP_MOD \<Rightarrow>
          (if bi_zero bn then Some (Dies ''infix:<%>'')
           else do {
             let qn = bi_mul an bd;
             let qd = bi_mul ad bn;
             fl \<leftarrow> c_floordiv qn qd;
             map_option Done (rq_make F (bi_sub qn (bi_mul (bi_mul fl bn) ad)) (bi_mul ad bd) fat)
           })
      | BINOP_POW \<Rightarrow> (if bi_one bd then rq_pow F an ad bn fat else Some Unhandled)
      | _ \<Rightarrow>
          (if is_compare op
           then Some (Done (rq_bool (rq_compare op (bi_cmp (bi_mul an bd) (bi_mul bn ad)))))
           else Some Unhandled))"

text \<open>An operand read as a double: an exact one, a real or the text of a number.\<close>

definition rq_dbl_of :: "fp_ops \<Rightarrow> qdescr \<Rightarrow> u64 option" where
  "rq_dbl_of F v =
     (case rq_get v of Some (n, d, fat) \<Rightarrow> Some (rat_dbl F n d)
      | None \<Rightarrow> (case v of
            Q_val (D_other t x) \<Rightarrow>
              (if t = dt_code DT_R then Some x else if t = dt_code DT_S then str_dbl F x else None)
          | _ \<Rightarrow> None))"

definition rq_float :: "fp_ops \<Rightarrow> binop \<Rightarrow> u64 \<Rightarrow> u64 \<Rightarrow> rk_res" where
  "rq_float F op x y =
     (case op of
        BINOP_ADD \<Rightarrow> Done (REAL_VAL (fp_add F x y))
      | BINOP_SUB \<Rightarrow> Done (REAL_VAL (fp_sub F x y))
      | BINOP_MUL \<Rightarrow> Done (REAL_VAL (fp_mul F x y))
      | BINOP_DIV \<Rightarrow> (if fp_eq F y 0 then Dies ''infix:</>'' else Done (REAL_VAL (fp_div F x y)))
      | BINOP_MOD \<Rightarrow>
          (if fp_eq F y 0 then Dies ''infix:<%>''
           else Done (REAL_VAL (fp_sub F x (fp_mul F y (fp_floor F (fp_div F x y))))))
      | BINOP_POW \<Rightarrow> Done (REAL_VAL (fp_pow F x y))
      | BINOP_LT \<Rightarrow> Done (rq_bool (fp_lt F x y))
      | BINOP_LE \<Rightarrow> Done (rq_bool (fp_lt F x y \<or> fp_eq F x y))
      | BINOP_GT \<Rightarrow> Done (rq_bool (fp_lt F y x))
      | BINOP_GE \<Rightarrow> Done (rq_bool (fp_lt F y x \<or> fp_eq F x y))
      | BINOP_EQ \<Rightarrow> Done (rq_bool (fp_eq F x y))
      | BINOP_NE \<Rightarrow> Done (rq_bool (\<not> fp_eq F x y))
      | _ \<Rightarrow> Unhandled)"

definition rk_rat_binop :: "fp_ops \<Rightarrow> qdescr \<Rightarrow> qdescr \<Rightarrow> binop \<Rightarrow> rk_res option" where
  "rk_rat_binop F a b op =
     (if rq_kind a = 0 \<and> rq_kind b = 0 then Some Unhandled
      else do {
        r \<leftarrow> (case (rq_get a, rq_get b) of
               (Some (an, ad, fa), Some (bn, bd, fb)) \<Rightarrow> rq_exact F op an ad bn bd (fa \<or> fb)
             | _ \<Rightarrow> Some Unhandled);
        Some (if r \<noteq> Unhandled then r
              else case rq_dbl_of F a of None \<Rightarrow> Unhandled
                 | Some x \<Rightarrow> (case rq_dbl_of F b of None \<Rightarrow> Unhandled | Some y \<Rightarrow> rq_float F op x y))
      })"

definition rk_rat_cmp :: "fp_ops \<Rightarrow> qdescr \<Rightarrow> qdescr \<Rightarrow> int option" where
  "rk_rat_cmp F a b =
     (if rq_kind a = 0 \<and> rq_kind b = 0 then None
      else case (rq_get a, rq_get b) of
        (Some (an, ad, fa), Some (bn, bd, fb)) \<Rightarrow> Some (bi_cmp (bi_mul an bd) (bi_mul bn ad))
      | _ \<Rightarrow> (case (rq_dbl_of F a, rq_dbl_of F b) of
               (Some x, Some y) \<Rightarrow> Some (if fp_lt F x y then - 1 else if fp_lt F y x then 1 else 0)
             | _ \<Rightarrow> None))"

definition rk_rat_div :: "fp_ops \<Rightarrow> qdescr \<Rightarrow> qdescr \<Rightarrow> qdescr option" where
  "rk_rat_div F a b =
     (case (rq_get a, rq_get b) of
        (Some (an, ad, fa), Some (bn, bd, fb)) \<Rightarrow>
          (if bi_zero bn then Some (rq_new (INT_VAL (bi_sgn an)) (INT_VAL 0) (fa \<or> fb))
           else rq_make F (bi_mul an bd) (bi_mul ad bn) (fa \<or> fb))
      | _ \<Rightarrow> Some (Q_val D_fail))"

definition rk_rat_new :: "fp_ops \<Rightarrow> descr \<Rightarrow> descr \<Rightarrow> bool \<Rightarrow> qdescr option" where
  "rk_rat_new F n d fat =
     (if \<not> bi_is n \<or> \<not> bi_is d then Some (Q_val D_fail)
      else if bi_zero d then Some (rq_new (INT_VAL (bi_sgn n)) (INT_VAL 0) fat)
      else rq_make F n d fat)"

definition rk_rat_new_reduced :: "descr \<Rightarrow> descr \<Rightarrow> bool \<Rightarrow> qdescr" where
  "rk_rat_new_reduced n d fat = rq_new n d fat"

section \<open>Lowest terms\<close>

text \<open>\<open>n / d\<close> is the number \<open>r\<close> in lowest terms with a positive denominator.\<close>

definition low :: "int \<Rightarrow> int \<Rightarrow> rat \<Rightarrow> bool" where
  "low n d r \<longleftrightarrow> 0 < d \<and> coprime n d \<and> r = of_int n / of_int d"

lemma low_unique: "low n d r \<Longrightarrow> low m e r \<Longrightarrow> n = m \<and> d = e"
  unfolding low_def by (metis Fract_of_int_quotient quotient_of_Fract normalize_stable prod.inject)

lemma low_int: "low n 1 r \<longleftrightarrow> r = of_int n"
  by (simp add: low_def)

lemma low_nz: "low n d r \<Longrightarrow> n = 0 \<longleftrightarrow> r = 0"
  by (auto simp: low_def)

lemma low_gcd:
  assumes "0 < d"
  shows "low (n div gcd n d) (d div gcd n d) (of_int n / of_int d)"
proof -
  have "0 < d div gcd n d" using assms by (simp add: pos_imp_zdiv_pos_iff zdvd_imp_le)
  moreover have "coprime (n div gcd n d) (d div gcd n d)" using assms by (intro div_gcd_coprime) simp
  moreover have "of_int (n div gcd n d) / of_int (d div gcd n d) = (of_int n / of_int d :: rat)"
    using assms by (simp add: of_int_div)
  ultimately show ?thesis by (simp add: low_def)
qed

lemma bi_gcd_val:
  assumes "canonical a" "canonical b"
  obtains g where "bi_gcd a b = Some g" "canonical g" "ival g = gcd (ival a) (ival b)"
proof -
  define slow where "slow = map_option fst (while_option (\<lambda>(a, b). \<not> bi_zero b)
    (\<lambda>(a, b). (b, bi_modt a b)) (bi_abs a, bi_abs b))"
  have "canonical (bi_abs c) \<and> ival (bi_abs c) = \<bar>ival c\<bar>" if "canonical c" for c
    unfolding bi_abs_def by (rule bi.abs_val [OF that])
  then obtain g where g: "slow = Some g" "canonical g" "ival g = gcd (ival a) (ival b)"
    using bi.gcd_loop [of "bi_abs a" "bi_abs b"] assms unfolding slow_def by fastforce
  show thesis
  proof (cases "\<exists>i j. a = D_int i \<and> b = D_int j \<and> unat (gcd64 (i64_mag i) (i64_mag j)) \<le> 2 ^ 63 - 1")
    case True
    then obtain i j where ij: "a = D_int i" "b = D_int j" "unat (gcd64 (i64_mag i) (i64_mag j)) \<le> 2 ^ 63 - 1"
      by blast
    have "int (unat (i64_mag k)) = \<bar>sint k\<bar>" for k using i64_mag_val [of k] by simp
    then have "int (unat (gcd64 (i64_mag i) (i64_mag j))) = gcd (sint i) (sint j)"
      unfolding gcd64_val gcd_int_int_eq [symmetric] by (simp only: gcd_abs1_int gcd_abs2_int)
    moreover have "sint (gcd64 (i64_mag i) (i64_mag j)) = int (unat (gcd64 (i64_mag i) (i64_mag j)))"
      by (rule sint_unat_small [OF ij(3)])
    ultimately have "sint (gcd64 (i64_mag i) (i64_mag j)) = gcd (sint i) (sint j)" by (simp only:)
    moreover have "bi_gcd a b = Some (D_int (gcd64 (i64_mag i) (i64_mag j)))"
      using ij by (simp add: bi_gcd_def Let_def)
    ultimately show thesis using ij by (intro that [of "D_int (gcd64 (i64_mag i) (i64_mag j))"]) simp_all
  next
    case False
    then have "bi_gcd a b = slow" by (auto simp: bi_gcd_def slow_def Let_def split: descr.split)
    then show thesis using g that by simp
  qed
qed

text \<open>
  The length of a number in binary, as the code reads it: cast to \<open>int\<close>, which is the length itself below
  \<open>2 ^ 31\<close> bits and a negative number from there on. A denominator is long when that is above 64.
\<close>

lemma c_int_small: "0 \<le> n \<Longrightarrow> n < 2 ^ 31 \<Longrightarrow> c_int n = n"
  by (simp add: c_int_def sint_sbintrunc' signed_take_bit_int_eq_self)

lemma c_int_wraps:
  assumes "2 ^ 31 \<le> n" "n < 2 ^ 32"
  shows "c_int n = n - 2 ^ 32"
proof -
  have "word_of_int n = (word_of_int (n - 2 ^ 32) :: 32 word)"
    by (simp only: word_of_int_eq_iff) (simp add: take_bit_eq_mod mod_diff_right_eq [symmetric])
  then show ?thesis using assms by (simp add: c_int_def sint_sbintrunc' signed_take_bit_int_eq_self del: of_int_diff)
qed

definition long_den :: "int \<Rightarrow> bool" where
  "long_den d \<longleftrightarrow> 64 < c_int (int (bit_len (nat d)))"

lemma bit_len_64: "bit_len n \<le> 64 \<longleftrightarrow> n < 2 ^ 64"
  using bit_len_le [of n 64] bit_len_upper [of n] power_increasing [of "bit_len n" 64 "2 :: nat"] by force

lemma long_den_iff: "0 \<le> d \<Longrightarrow> bit_len (nat d) < 2 ^ 31 \<Longrightarrow> long_den d \<longleftrightarrow> 2 ^ 64 \<le> d"
  using bit_len_64 [of "nat d"] by (simp add: long_den_def c_int_small nat_less_iff) linarith

lemma long_den_wraps: "2 ^ 31 \<le> bit_len (nat d) \<Longrightarrow> bit_len (nat d) < 2 ^ 32 \<Longrightarrow> \<not> long_den d"
  using c_int_wraps [of "int (bit_len (nat d))"] by (simp add: long_den_def)

lemma short_den: "0 \<le> d \<Longrightarrow> d < 2 ^ 64 \<Longrightarrow> \<not> long_den d"
  using bit_len_64 [of "nat d"] long_den_iff [of d] by (simp add: nat_less_iff)

lemma bi_bits_val: "canonical a \<Longrightarrow> bi_bits a = c_int (int (bit_len (nat \<bar>ival a\<bar>)))"
proof (cases a rule: int_descr.cases)
  case (1 i)
  have "bit_len (nat \<bar>sint i\<bar>) \<le> 64" using in_i64_sint [of i] by (intro bit_len_64 [THEN iffD2]) (auto simp: in_i64_def nat_less_iff)
  moreover assume "canonical a"
  ultimately show ?thesis using pq_bits_val [of a] 1 by (simp add: c_int_small bi_bits_def pq_bits_def)
next
  case (2 b)
  moreover assume "canonical a"
  ultimately show ?thesis using pq_bits_val [of a] by (simp add: bi_bits_def pq_bits_def)
qed (auto simp: canonical_def)

lemma bi_lt_2p64_val:
  assumes "canonical d" "0 \<le> ival d"
  shows "bi_lt_2p64 d \<longleftrightarrow> \<not> long_den (ival d)"
proof (cases d rule: int_descr.cases)
  case (1 i)
  then show ?thesis using assms(2) in_i64_sint [of i] short_den [of "ival d"] by (simp add: bi_lt_2p64_def in_i64_def)
next
  case (2 b)
  have "bi_sgn d = 1" using 2 assms bi.sg [OF assms(1)] by (auto simp: canonical_def in_i64_def sgn_if)
  then show ?thesis using 2 assms bi_bits_val [OF assms(1)] by (simp add: bi_lt_2p64_def long_den_def not_less)
qed (use assms in \<open>auto simp: canonical_def\<close>)

text \<open>
  What \<open>rq_make\<close> stores for the number \<open>r\<close>: its lowest terms, or a double when the result is not a
  \<open>FatRat\<close> and the denominator is long, that is, below \<open>2 ^ 31\<close> bits, when it does not fit in 64.
\<close>

definition rat_result :: "fp_ops \<Rightarrow> bool \<Rightarrow> rat \<Rightarrow> qdescr \<Rightarrow> bool" where
  "rat_result F fat r q \<longleftrightarrow>
     (\<exists>n d. canonical n \<and> canonical d \<and> low (ival n) (ival d) r
       \<and> q = (if \<not> fat \<and> long_den (ival d) then REAL_VAL (rat_dbl F n d) else Q_rat fat n d))"

lemma rat_resultI:
  assumes "canonical n" "canonical d" "low (ival n) (ival d) r"
  shows "rat_result F fat r (if \<not> fat \<and> long_den (ival d) then REAL_VAL (rat_dbl F n d) else Q_rat fat n d)"
  unfolding rat_result_def using assms by blast

lemma rq_make_val:
  assumes "canonical n" "canonical d" "ival d \<noteq> 0"
  obtains q where "rq_make F n d fat = Some q" "rat_result F fat (of_int (ival n) / of_int (ival d)) q"
proof -
  define n1 d1 where "n1 = (if bi_sgn d < 0 then bi_neg n else n)" and "d1 = (if bi_sgn d < 0 then bi_neg d else d)"
  have 1: "canonical n1" "canonical d1" "0 < ival d1"
    and r: "of_int (ival n1) / of_int (ival d1) = (of_int (ival n) / of_int (ival d) :: rat)"
    using bi.neg [of n] bi.neg [of d] assms bi.sg [of d] by (auto simp: n1_def d1_def sgn_if)
  obtain g where g: "bi_gcd n1 d1 = Some g" "canonical g" "ival g = gcd (ival n1) (ival d1)"
    by (rule bi_gcd_val [OF 1(1,2)])
  define n2 d2 where "n2 = (if bi_one d1 \<or> bi_one g then n1 else bi_divt n1 g)"
    and "d2 = (if bi_one d1 \<or> bi_one g then d1 else bi_divt d1 g)"
  have g0: "ival g \<noteq> 0" using 1(3) g(3) by auto
  have 2: "canonical n2 \<and> ival n2 = ival n1 div ival g" "canonical d2 \<and> ival d2 = ival d1 div ival g"
    using bi.exact_val [OF 1(1) g(2) g0] bi.exact_val [OF 1(2) g(2) g0] g(3) bi.one [OF 1(2)] bi.one [OF g(2)] 1
    by (auto simp: n2_def d2_def)
  have low: "low (ival n2) (ival d2) (of_int (ival n) / of_int (ival d))"
    using low_gcd [OF 1(3), of "ival n1"] 2 g(3) r by simp
  have "(if bi_sgn d < 0 then (bi_neg n, bi_neg d) else (n, d)) = (n1, d1)" by (simp add: n1_def d1_def)
  then have "rq_make F n d fat = Some (if \<not> fat \<and> \<not> bi_lt_2p64 d2 then REAL_VAL (rat_dbl F n2 d2) else Q_rat fat n2 d2)"
    using g g0 bi.zero [OF g(2)]
    by (cases "bi_one d1"; cases "bi_one g") (simp_all add: rq_make_def Let_def n2_def d2_def rq_new_def)
  moreover have "bi_lt_2p64 d2 \<longleftrightarrow> \<not> long_den (ival d2)" using bi_lt_2p64_val 2 low by (simp add: low_def)
  ultimately have "rq_make F n d fat = Some (if \<not> fat \<and> long_den (ival d2) then REAL_VAL (rat_dbl F n2 d2) else Q_rat fat n2 d2)"
    by (simp only: not_not)
  then show thesis by (rule that) (use 2 low in \<open>blast intro: rat_resultI\<close>)
qed

section \<open>What the operators compute\<close>

text \<open>A value that the operators take for the number \<open>r\<close>; \<open>fat\<close> when it is a \<open>FatRat\<close>.\<close>

definition rk_operand :: "qdescr \<Rightarrow> rat \<Rightarrow> bool \<Rightarrow> bool" where
  "rk_operand q r fat \<longleftrightarrow>
     (\<exists>n d. rq_get q = Some (n, d, fat) \<and> canonical n \<and> canonical d \<and> low (ival n) (ival d) r)"

definition rat_op :: "binop \<Rightarrow> rat \<Rightarrow> rat \<Rightarrow> rat" where
  "rat_op op r s =
     (if op = BINOP_ADD then r + s else if op = BINOP_SUB then r - s else if op = BINOP_MUL then r * s
      else if op = BINOP_DIV then r / s else r - s * of_int \<lfloor>r / s\<rfloor>)"

lemma bi_cmp_val: "canonical a \<Longrightarrow> canonical b \<Longrightarrow> bi_cmp a b = sgn (ival a - ival b)"
  unfolding bi_pq by (rule pq_cmp_val)

lemma bi_floordiv_val:
  "canonical a \<Longrightarrow> canonical b \<Longrightarrow> ival b \<noteq> 0 \<Longrightarrow>
   canonical (bi_floordiv a b) \<and> ival (bi_floordiv a b) = ival a div ival b"
  using bi.floor_val [of a b] by (simp add: bi_floordiv_def Let_def)

lemma c_floordiv_val:
  assumes "canonical a" "canonical b" "ival b \<noteq> 0"
  shows "c_floordiv a b = Some (bi_floordiv a b)"
  using assms by (auto simp: c_floordiv_def split: descr.split)

lemma floor_quotient: "\<lfloor>rat_of_int a / rat_of_int b\<rfloor> = a div b"
  by (rule floor_divide_of_int_eq)

lemma floor_half: "0 < d \<Longrightarrow> (2 * n + d) div (2 * d) = \<lfloor>rat_of_int n / rat_of_int d + 1 / 2\<rfloor>"
proof -
  assume "0 < d"
  then have "rat_of_int n / rat_of_int d + 1 / 2 = of_int (2 * n + d) / of_int (2 * d)" by (simp add: field_simps)
  then show ?thesis by (simp only: floor_quotient)
qed

text \<open>The roundings of a number from its lowest terms.\<close>

lemma quotient_roundings:
  assumes "low n d r"
  shows "\<lfloor>r\<rfloor> = n div d" "\<lceil>r\<rceil> = - ((- n) div d)" "\<lfloor>r + 1 / 2\<rfloor> = (2 * n + d) div (2 * d)"
    "n sdiv d = (if r < 0 then \<lceil>r\<rceil> else \<lfloor>r\<rfloor>)"
proof -
  have d: "0 < d" "r = of_int n / of_int d" using assms by (auto simp: low_def)
  show f: "\<lfloor>r\<rfloor> = n div d" unfolding d(2) by (rule floor_quotient)
  have "- r = of_int (- n) / of_int d" using d(2) by simp
  then show c: "\<lceil>r\<rceil> = - ((- n) div d)" unfolding ceiling_def by (simp only: floor_quotient)
  show "\<lfloor>r + 1 / 2\<rfloor> = (2 * n + d) div (2 * d)" unfolding d(2) by (simp only: floor_half [OF d(1)])
  have "r < 0 \<longleftrightarrow> n < 0" using d by (simp add: divide_less_0_iff)
  then show "n sdiv d = (if r < 0 then \<lceil>r\<rceil> else \<lfloor>r\<rfloor>)"
    unfolding f c using d(1) by (simp add: signed_divide_int_def sgn_if)
qed

lemma frac_rem:
  assumes "x \<noteq> 0" "y \<noteq> 0"
  shows "rat_of_int a / of_int x - of_int b / of_int y * of_int f = of_int (a * y - f * b * x) / of_int (x * y)"
  using assms by (simp add: field_simps)

lemma rq_exact_val:
  assumes "canonical an" "canonical ad" "canonical bn" "canonical bd"
    and r: "low (ival an) (ival ad) r" and s: "low (ival bn) (ival bd) s"
    and op: "op \<in> {BINOP_ADD, BINOP_SUB, BINOP_MUL} \<or> op \<in> {BINOP_DIV, BINOP_MOD} \<and> s \<noteq> 0"
  obtains q where "rq_exact F op an ad bn bd fat = Some (Done q)" "rat_result F fat (rat_op op r s) q"
proof -
  note mul = bi.mul [OF assms(1,3)] bi.mul [OF assms(1,4)] bi.mul [OF assms(3,2)] bi.mul [OF assms(2,3)]
    bi.mul [OF assms(2,4)]
  have d: "ival ad \<noteq> 0" "ival bd \<noteq> 0" "r = of_int (ival an) / of_int (ival ad)" "s = of_int (ival bn) / of_int (ival bd)"
    using r s by (auto simp: low_def)
  have make: thesis
    if "rq_exact F op an ad bn bd fat = map_option Done (rq_make F n e fat)" "canonical n" "canonical e" "ival e \<noteq> 0"
      "rat_op op r s = of_int (ival n) / of_int (ival e)" for n e
    using rq_make_val [OF that(2-4), of F fat] \<open>\<And>q. rq_exact F op an ad bn bd fat = Some (Done q) \<Longrightarrow> rat_result F fat (rat_op op r s) q \<Longrightarrow> thesis\<close> that
    by (metis option.simps(9))
  consider "op = BINOP_ADD" | "op = BINOP_SUB" | "op = BINOP_MUL" | "op = BINOP_DIV" "s \<noteq> 0" | "op = BINOP_MOD" "s \<noteq> 0"
    using op by auto
  then show thesis
  proof cases
    case 1
    show thesis
    proof (cases "ival ad = ival bd")
      case True
      then show thesis
        using 1 d bi_cmp_val [OF assms(2,4)] bi.add [OF assms(1,3)] assms(2)
        by (intro make [of "bi_add an bn" ad]) (simp_all add: rq_exact_def rat_op_def add_divide_distrib)
    next
      case False
      then show thesis
        using 1 d bi_cmp_val [OF assms(2,4)] mul bi.add [of "bi_mul an bd" "bi_mul bn ad"]
        by (intro make [of "bi_add (bi_mul an bd) (bi_mul bn ad)" "bi_mul ad bd"])
           (simp_all add: rq_exact_def rat_op_def add_frac_eq sgn_0_0)
    qed
  next
    case 2
    show thesis
    proof (cases "ival ad = ival bd")
      case True
      then show thesis
        using 2 d bi_cmp_val [OF assms(2,4)] bi.sub [OF assms(1,3)] assms(2)
        by (intro make [of "bi_sub an bn" ad]) (simp_all add: rq_exact_def rat_op_def diff_divide_distrib)
    next
      case False
      then show thesis
        using 2 d bi_cmp_val [OF assms(2,4)] mul bi.sub [of "bi_mul an bd" "bi_mul bn ad"]
        by (intro make [of "bi_sub (bi_mul an bd) (bi_mul bn ad)" "bi_mul ad bd"])
           (simp_all add: rq_exact_def rat_op_def diff_frac_eq sgn_0_0)
    qed
  next
    case 3
    then show thesis
      using d mul by (intro make [of "bi_mul an bn" "bi_mul ad bd"]) (simp_all add: rq_exact_def rat_op_def)
  next
    case 4
    then show thesis
      using d mul bi.zero [OF assms(3)] by (intro make [of "bi_mul an bd" "bi_mul ad bn"]) (simp_all add: rq_exact_def rat_op_def)
  next
    case 5
    define fl where "fl = bi_floordiv (bi_mul an bd) (bi_mul ad bn)"
    have q: "r / s = of_int (ival an * ival bd) / of_int (ival ad * ival bn)" using d 5 by simp
    have "ival bn \<noteq> 0" using 5 d by auto
    then have fl: "canonical fl" "ival fl = \<lfloor>r / s\<rfloor>" "c_floordiv (bi_mul an bd) (bi_mul ad bn) = Some fl"
      using mul d bi_floordiv_val [of "bi_mul an bd" "bi_mul ad bn"] c_floordiv_val [of "bi_mul an bd" "bi_mul ad bn"]
      unfolding q floor_quotient by (simp_all add: fl_def)
    define n where "n = bi_sub (bi_mul an bd) (bi_mul (bi_mul fl bn) ad)"
    have n: "canonical n" "ival n = ival an * ival bd - \<lfloor>r / s\<rfloor> * ival bn * ival ad"
      using mul fl bi.mul [of fl bn] bi.mul [of "bi_mul fl bn" ad] bi.sub [of "bi_mul an bd" "bi_mul (bi_mul fl bn) ad"] assms(2,3)
      by (simp_all add: n_def)
    have "rat_op op r s = of_int (ival n) / of_int (ival (bi_mul ad bd))"
      using frac_rem [OF d(1,2), of "ival an" "ival bn" "\<lfloor>r / s\<rfloor>"] 5 mul
      unfolding n(2) d(3,4) [symmetric] by (simp add: rat_op_def)
    then show thesis
      using 5 fl n(1) d mul \<open>ival bn \<noteq> 0\<close> bi.zero [OF assms(3)]
      by (intro make [of n "bi_mul ad bd"]) (simp_all add: rq_exact_def n_def)
  qed
qed

lemma rk_rat_binop_exact:
  assumes "rk_rat_is a \<or> rk_rat_is b" "rq_get a = Some (an, ad, fa)" "rq_get b = Some (bn, bd, fb)"
    and "rq_exact F op an ad bn bd (fa \<or> fb) = Some x" "x \<noteq> Unhandled"
  shows "rk_rat_binop F a b op = Some x"
  using assms by (auto simp: rk_rat_binop_def rk_rat_is_def)

lemma rk_operandE:
  assumes "rk_operand q r fat"
  obtains n d where "rq_get q = Some (n, d, fat)" "canonical n" "canonical d" "low (ival n) (ival d) r"
  using assms by (auto simp: rk_operand_def)

text \<open>A machine whose doubles are all zero, for the witnesses.\<close>

definition fp_zero :: fp_ops where
  "fp_zero = \<lparr>int_dbl = \<lambda>_. 0, rat_dbl = \<lambda>_ _. 0, str_dbl = \<lambda>_. None, fp_add = \<lambda>_ _. 0, fp_sub = \<lambda>_ _. 0,
     fp_mul = \<lambda>_ _. 0, fp_div = \<lambda>_ _. 0, fp_pow = \<lambda>_ _. 0, fp_floor = \<lambda>_. 0, fp_neg = \<lambda>_. 0, fp_int = \<lambda>_. 0, fp_lt = \<lambda>_ _. False,
     fp_eq = \<lambda>_ _. True\<rparr>"

lemma rk_operand_D_int: "rk_operand (Q_val (D_int i)) (of_int (sint i)) False"
  by (simp add: rk_operand_def low_int INT_VAL_def sint_small)

lemma rk_operand_third: "rk_operand (Q_rat True (D_int 1) (D_int 3)) (1 / 3) True"
proof -
  have "sint (3 :: u64) = 3" using sint_word_of_int64 [of 3] by (simp add: in_i64_def)
  then show ?thesis by (simp add: rk_operand_def low_def sint_small)
qed

lemma sint_2: "sint (2 :: u64) = 2"
  using sint_word_of_int64 [of 2] by (simp add: in_i64_def)

text \<open>C6. The operators on exact operands, at least one of them a \<open>Rat\<close> or a \<open>FatRat\<close>, refine the
  arithmetic of the rational numbers: \<open>+\<close>, \<open>-\<close>, \<open>*\<close>, and with a divisor that is not zero \<open>/\<close> and the
  remainder of floor division, return, and what they store is the number in lowest terms, a
  \<open>FatRat\<close> when one operand was, and a double where a \<open>Rat\<close>'s denominator has more than 64 bits, their
  count read as an \<open>int\<close>: below \<open>2 ^ 31\<close> bits that is a denominator which does not fit in 64 bits
  (\<open>long_den_iff\<close>), while one of \<open>2 ^ 31\<close> bits or more counts as short and is kept in a \<open>Rat\<close>
  (\<open>long_den_wraps\<close>).\<close>

theorem rk_rat_binop_refines:
  assumes "rk_operand a r fa" "rk_operand b s fb" "rk_rat_is a \<or> rk_rat_is b"
    and "op \<in> {BINOP_ADD, BINOP_SUB, BINOP_MUL} \<or> op \<in> {BINOP_DIV, BINOP_MOD} \<and> s \<noteq> 0"
  shows "\<exists>q. rk_rat_binop F a b op = Some (Done q) \<and> rat_result F (fa \<or> fb) (rat_op op r s) q"
proof -
  obtain an ad where a: "rq_get a = Some (an, ad, fa)" "canonical an" "canonical ad" "low (ival an) (ival ad) r"
    using assms(1) by (rule rk_operandE)
  obtain bn bd where b: "rq_get b = Some (bn, bd, fb)" "canonical bn" "canonical bd" "low (ival bn) (ival bd) s"
    using assms(2) by (rule rk_operandE)
  obtain q where "rq_exact F op an ad bn bd (fa \<or> fb) = Some (Done q)" "rat_result F (fa \<or> fb) (rat_op op r s) q"
    by (rule rq_exact_val [OF a(2,3) b(2,3) a(4) b(4) assms(4)])
  then show ?thesis using rk_rat_binop_exact [OF assms(3) a(1) b(1)] by blast
qed

theorem rk_rat_binop_refines_witness:
  "\<exists>q. rk_rat_binop fp_zero (Q_rat True (D_int 1) (D_int 3)) (Q_val (D_int 2)) BINOP_MOD = Some (Done q)
     \<and> rat_result fp_zero True (rat_op BINOP_MOD (1 / 3) 2) q"
  using rk_rat_binop_refines [OF rk_operand_third rk_operand_D_int [of 2], of BINOP_MOD fp_zero]
  by (simp add: rk_rat_is_def rq_kind_def sint_2)

definition rat_compare :: "binop \<Rightarrow> rat \<Rightarrow> rat \<Rightarrow> bool" where
  "rat_compare op r s \<longleftrightarrow>
     (if op = BINOP_LT then r < s else if op = BINOP_LE then r \<le> s else if op = BINOP_GT then r > s
      else if op = BINOP_GE then r \<ge> s else if op = BINOP_EQ then r = s else r \<noteq> s)"

lemma cross_compare:
  assumes "low n d r" "low m e s"
  shows "sgn (n * e - m * d) = of_bool (s < r) - of_bool (r < s)"
proof -
  have "r < s \<longleftrightarrow> n * e < m * d" "s < r \<longleftrightarrow> m * d < n * e"
    using assms by (simp_all add: low_def field_simps flip: of_int_mult)
  then show ?thesis by (simp add: sgn_if)
qed

text \<open>The comparisons of exact operands are the order of the rational numbers.\<close>

theorem rk_rat_binop_compares:
  assumes "rk_operand a r fa" "rk_operand b s fb" "rk_rat_is a \<or> rk_rat_is b" "is_compare op"
  shows "rk_rat_binop F a b op = Some (Done (rq_bool (rat_compare op r s)))"
proof -
  obtain an ad where a: "rq_get a = Some (an, ad, fa)" "canonical an" "canonical ad" "low (ival an) (ival ad) r"
    using assms(1) by (rule rk_operandE)
  obtain bn bd where b: "rq_get b = Some (bn, bd, fb)" "canonical bn" "canonical bd" "low (ival bn) (ival bd) s"
    using assms(2) by (rule rk_operandE)
  have "bi_cmp (bi_mul an bd) (bi_mul bn ad) = of_bool (s < r) - of_bool (r < s)"
    using bi.mul [OF a(2) b(3)] bi.mul [OF b(2) a(3)] cross_compare [OF a(4) b(4)] by (simp add: bi_cmp_val)
  then have "rq_compare op (bi_cmp (bi_mul an bd) (bi_mul bn ad)) = rat_compare op r s"
    using assms(4) by (auto simp: rq_compare_def rat_compare_def is_compare_def)
  then have "rq_exact F op an ad bn bd (fa \<or> fb) = Some (Done (rq_bool (rat_compare op r s)))"
    using assms(4) by (auto simp: rq_exact_def is_compare_def)
  then show ?thesis using rk_rat_binop_exact [OF assms(3) a(1) b(1)] by blast
qed

lemma bi_pow_val: "canonical a \<Longrightarrow> 0 \<le> e \<Longrightarrow> canonical (bi_pow a e) \<and> ival (bi_pow a e) = ival a ^ nat e"
  unfolding bi_pq by (rule pq_pow_val)

lemma rk_operand_int:
  assumes "rk_operand b (of_int k) fb" "in_i64 k"
  obtains i where "rq_get b = Some (D_int i, INT_VAL 1, fb)" "sint i = k"
proof -
  obtain bn bd where b: "rq_get b = Some (bn, bd, fb)" "canonical bn" "canonical bd" "low (ival bn) (ival bd) (of_int k)"
    using assms(1) by (rule rk_operandE)
  then have k: "ival bn = k" "ival bd = 1" using low_unique [of "ival bn" "ival bd" "of_int k" k 1] by (auto simp: low_int)
  with b(2) assms(2) obtain i where "bn = D_int i" by (elim canonical_small) simp_all
  moreover have "bd = INT_VAL 1" using b(3) k(2) bi.lit [of 1] by (intro bi.same) (simp_all add: in_i64_def)
  ultimately show thesis using b(1) k(1) by (intro that) simp_all
qed

lemma rq_pow_val:
  assumes "canonical n" "canonical d" "low (ival n) (ival d) r" "- (2 ^ 63) < sint i" "r \<noteq> 0 \<or> 0 \<le> sint i"
  obtains q where "rq_pow F n d (D_int i) fat = Some (Done q)" "rat_result F fat (r powi sint i) q"
proof -
  define k where "k = \<bar>sint i\<bar>"
  have i: "i \<noteq> INT64_MIN" using assms(4) sint_min(1) by auto
  have p: "canonical (bi_pow n k)" "ival (bi_pow n k) = ival n ^ nat k" "canonical (bi_pow d k)" "ival (bi_pow d k) = ival d ^ nat k"
    using bi_pow_val [of n k] bi_pow_val [of d k] assms(1,2) by (auto simp: k_def)
  have r: "ival d \<noteq> 0" "r = of_int (ival n) / of_int (ival d)" using assms(3) by (auto simp: low_def)
  show thesis
  proof (cases "sint i < 0")
    case True
    then have n: "ival n \<noteq> 0" using assms(3,5) low_nz by auto
    then have z: "\<not> bi_zero (bi_pow n k)" using bi.zero [OF p(1)] p(2) by simp
    have "r powi sint i = of_int (ival (bi_pow d k)) / of_int (ival (bi_pow n k))"
      unfolding r(2) p using True by (simp add: power_int_def k_def power_divide)
    then show thesis
      using True z rq_make_val [OF p(3,1), of F fat] p n i that
      by (simp add: rq_pow_def k_def Let_def) (metis option.simps(9))
  next
    case False
    have "r powi sint i = of_int (ival (bi_pow n k)) / of_int (ival (bi_pow d k))"
      using False p r by (simp add: power_int_def k_def power_divide)
    then show thesis
      using False rq_make_val [OF p(1,3), of F fat] p r i that
      by (simp add: rq_pow_def k_def Let_def) (metis option.simps(9))
  qed
qed

text \<open>A rational number to the power of a whole number, negative ones included, is computed exactly.\<close>

theorem rk_rat_binop_power:
  assumes "rk_operand a r fa" "rk_operand b (of_int k) fb" "rk_rat_is a \<or> rk_rat_is b"
    and "- (2 ^ 63) < k" "k < 2 ^ 63" "r \<noteq> 0 \<or> 0 \<le> k"
  shows "\<exists>q. rk_rat_binop F a b BINOP_POW = Some (Done q) \<and> rat_result F (fa \<or> fb) (r powi k) q"
proof -
  obtain an ad where a: "rq_get a = Some (an, ad, fa)" "canonical an" "canonical ad" "low (ival an) (ival ad) r"
    using assms(1) by (rule rk_operandE)
  obtain i where b: "rq_get b = Some (D_int i, INT_VAL 1, fb)" "sint i = k"
    by (rule rk_operand_int [OF assms(2)]) (use assms in \<open>auto simp: in_i64_def\<close>)
  obtain q where q: "rq_pow F an ad (D_int i) (fa \<or> fb) = Some (Done q)" "rat_result F (fa \<or> fb) (r powi k) q"
    using rq_pow_val [OF a(2-4), of i F "fa \<or> fb"] assms(4-6) b(2) by auto
  have "bi_one (INT_VAL 1)" by (simp add: bi_one_def INT_VAL_def)
  then have "rq_exact F BINOP_POW an ad (D_int i) (INT_VAL 1) (fa \<or> fb) = Some (Done q)"
    using q(1) by (simp add: rq_exact_def)
  then show ?thesis using rk_rat_binop_exact [OF assms(3) a(1) b(1)] q(2) by blast
qed

section \<open>Division by zero\<close>

lemma rk_operand_zero:
  assumes "rk_operand b 0 fb"
  shows "rq_get b = Some (INT_VAL 0, INT_VAL 1, fb)"
proof -
  obtain i where "rq_get b = Some (D_int i, INT_VAL 1, fb)" "sint i = 0"
    by (rule rk_operand_int [of b 0 fb]) (use assms in \<open>simp_all add: in_i64_def\<close>)
  then show ?thesis by (simp add: INT_VAL_def sint_small)
qed

text \<open>Division by zero: \<open>/\<close> yields the number's sign over zero, \<open>%\<close> raises the script's error under its
  own name, and so does zero to a negative power.\<close>

theorem rk_rat_binop_zero_divisor:
  assumes "rk_operand a r fa" "rk_operand b 0 fb" "rk_rat_is a \<or> rk_rat_is b"
  shows "rk_rat_binop F a b BINOP_DIV = Some (Done (Q_rat (fa \<or> fb) (INT_VAL \<lfloor>sgn r\<rfloor>) (INT_VAL 0)))
    \<and> rk_rat_binop F a b BINOP_MOD = Some (Dies ''infix:<%>'')"
proof -
  obtain an ad where a: "rq_get a = Some (an, ad, fa)" "canonical an" "canonical ad" "low (ival an) (ival ad) r"
    using assms(1) by (rule rk_operandE)
  have "sgn r = of_int (sgn (ival an))" using a(4) by (auto simp: low_def sgn_if field_simps)
  then have "bi_sgn an = \<lfloor>sgn r\<rfloor>" using bi.sg [OF a(2)] by (simp only: floor_of_int)
  moreover have "bi_zero (INT_VAL 0)" by (simp add: bi_zero_def INT_VAL_def)
  ultimately show ?thesis
    using rk_rat_binop_exact [OF assms(3) a(1) rk_operand_zero [OF assms(2)]]
    by (simp add: rq_exact_def rq_new_def)
qed

theorem rk_rat_binop_zero_divisor_witness:
  "rk_rat_binop fp_zero (Q_rat True (D_int 1) (D_int 3)) (Q_val (D_int 0)) BINOP_DIV
     = Some (Done (Q_rat True (INT_VAL \<lfloor>sgn (1 / 3 :: rat)\<rfloor>) (INT_VAL 0)))
   \<and> rk_rat_binop fp_zero (Q_rat True (D_int 1) (D_int 3)) (Q_val (D_int 0)) BINOP_MOD = Some (Dies ''infix:<%>'')"
  using rk_rat_binop_zero_divisor [OF rk_operand_third, of "Q_val (D_int 0)" False fp_zero] rk_operand_D_int [of 0]
  by (simp add: rk_rat_is_def rq_kind_def)

text \<open>What division by zero stores is not safe to compute with: the remainder of it by any
  machine integer but zero divides by zero in the machine, and the run does not come back.\<close>

theorem rk_rat_binop_mod_traps:
  assumes "rk_operand a r fa" "rk_operand b 0 fb" "rk_rat_is a \<or> rk_rat_is b" "i \<noteq> 0"
  shows "\<exists>q. rk_rat_binop F a b BINOP_DIV = Some (Done q) \<and> rk_rat_binop F q (Q_val (D_int i)) BINOP_MOD = None"
proof -
  obtain an ad where a: "rq_get a = Some (an, ad, fa)" "canonical an" "canonical ad" "low (ival an) (ival ad) r"
    using assms(1) by (rule rk_operandE)
  define q where "q = Q_rat (fa \<or> fb) (INT_VAL (bi_sgn an)) (INT_VAL 0)"
  have z: "bi_zero (INT_VAL 0)" "\<not> bi_zero (D_int i)" using assms(4) by (simp_all add: bi_zero_def INT_VAL_def)
  have "in_i64 (sint (word_of_int (bi_sgn an) :: u64) * sint (1 :: u64))" by simp
  then obtain j where "bi_mul (INT_VAL (bi_sgn an)) (INT_VAL 1) = D_int j" by (simp add: INT_VAL_def)
  moreover have "bi_mul (INT_VAL 0) (D_int i) = D_int 0" by (simp add: INT_VAL_def in_i64_def)
  ultimately have "rq_exact F BINOP_MOD (INT_VAL (bi_sgn an)) (INT_VAL 0) (D_int i) (INT_VAL 1) (fa \<or> fb) = None"
    using z by (simp add: rq_exact_def c_floordiv_def)
  then have "rk_rat_binop F q (Q_val (D_int i)) BINOP_MOD = None"
    by (simp add: q_def rk_rat_binop_def rq_kind_def)
  moreover have "rk_rat_binop F a b BINOP_DIV = Some (Done q)"
    using rk_rat_binop_exact [OF assms(3) a(1) rk_operand_zero [OF assms(2)]] z
    by (simp add: rq_exact_def rq_new_def q_def)
  ultimately show ?thesis by blast
qed

end
