(* ===== verification/Pl_Rat.thy ===== *)
theory Pl_Rat
  imports Rk_Rat
begin

text \<open>
  The exact arithmetic of \<open>src/runtime/pl_rat.c\<close>: integers and the rationals of \<open>rk_rat.c\<close> together,
  with a rational that turns out whole stored as an integer. As in \<open>Rk_Rat\<close>, \<open>option\<close> is the value
  of a run and \<open>None\<close> one that does not come back.
\<close>

section \<open>Parts\<close>

datatype plq = PLQ_ZDIV | PLQ_UNDEF | PLQ_TYPE_INT | PLQ_TYPE_RAT

text \<open>Not handled, a result, or an error code with the operand to blame.\<close>

datatype pl_res = PL_unhandled | PL_out qdescr | PL_err plq "qdescr option"

definition pl_rat_is :: "qdescr \<Rightarrow> bool" where
  "pl_rat_is a = (case a of Q_val _ \<Rightarrow> False | Q_rat _ _ _ \<Rightarrow> rk_rat_is a)"

definition pl_rat_exact :: "qdescr \<Rightarrow> bool" where
  "pl_rat_exact a \<longleftrightarrow> (case a of Q_val d \<Rightarrow> pq_int d | _ \<Rightarrow> False) \<or> pl_rat_is a"

definition pq_parts :: "qdescr \<Rightarrow> descr \<times> descr" where
  "pq_parts a = (case a of Q_rat _ n d \<Rightarrow> (n, d) | Q_val n \<Rightarrow> (n, INT_VAL 1))"

definition pq_exq :: "descr \<Rightarrow> descr \<Rightarrow> descr" where
  "pq_exq a g = (if pq_one g then a else pq_divt a g)"

definition pq_reduced :: "descr \<Rightarrow> descr \<Rightarrow> qdescr" where
  "pq_reduced n d = (if pq_one d then Q_val n else rk_rat_new_reduced n d True)"

definition pq_rat_add :: "descr \<Rightarrow> descr \<Rightarrow> descr \<Rightarrow> descr \<Rightarrow> qdescr option" where
  "pq_rat_add an ad bn bd =
     (if pq_one ad \<and> pq_one bd then Some (Q_val (pq_add an bn))
      else do {
        g \<leftarrow> pq_gcd ad bd;
        let t = pq_add (pq_mul an (pq_exq bd g)) (pq_mul bn (pq_exq ad g));
        if pq_zero t then Some (Q_val (INT_VAL 0))
        else do {
          g2 \<leftarrow> (if pq_one g then Some g else pq_gcd t g);
          Some (pq_reduced (pq_exq t g2) (pq_mul (pq_exq ad g) (pq_exq bd g2)))
        }
      })"

definition pq_rat_mul :: "descr \<Rightarrow> descr \<Rightarrow> descr \<Rightarrow> descr \<Rightarrow> qdescr option" where
  "pq_rat_mul an ad bn bd =
     (if pq_zero an \<or> pq_zero bn then Some (Q_val (INT_VAL 0))
      else do {
        g1 \<leftarrow> (if pq_one bd then Some bd else pq_gcd an bd);
        g2 \<leftarrow> (if pq_one ad then Some ad else pq_gcd bn ad);
        Some (pq_reduced (pq_mul (pq_exq an g1) (pq_exq bn g2)) (pq_mul (pq_exq ad g2) (pq_exq bd g1)))
      })"

definition pl_rat_make :: "fp_ops \<Rightarrow> descr \<Rightarrow> descr \<Rightarrow> qdescr option" where
  "pl_rat_make F n0 d0 =
     (if pq_zero d0 then rk_rat_new F n0 d0 True
      else do {
        let (n, d) = (if pq_sgn d0 < 0 then (pq_neg n0, pq_neg d0) else (n0, d0));
        g \<leftarrow> pq_gcd n d;
        let (n, d) = (if \<not> pq_one g \<and> \<not> pq_zero g then (pq_divt n g, pq_divt d g) else (n, d));
        Some (pq_reduced n d)
      })"

definition pl_rat_real :: "fp_ops \<Rightarrow> qdescr \<Rightarrow> u64" where
  "pl_rat_real F a =
     (case a of Q_val (D_int i) \<Rightarrow> int_dbl F (D_int i) | Q_val (D_big b) \<Rightarrow> int_dbl F (D_big b)
      | Q_val _ \<Rightarrow> 0 | Q_rat _ n d \<Rightarrow> rat_dbl F n d)"

definition pl_rat_cmp :: "qdescr \<Rightarrow> qdescr \<Rightarrow> int" where
  "pl_rat_cmp a b =
     (let (an, ad) = pq_parts a; (bn, bd) = pq_parts b in pq_cmp (pq_mul an bd) (pq_mul bn ad))"

definition pl_rat_eq :: "qdescr \<Rightarrow> qdescr \<Rightarrow> bool" where
  "pl_rat_eq a b \<longleftrightarrow>
     (let (an, ad) = pq_parts a; (bn, bd) = pq_parts b in pq_same an bn \<and> pq_same ad bd)"

definition pl_rat_num :: "qdescr \<Rightarrow> descr" where
  "pl_rat_num a = fst (pq_parts a)"

definition pl_rat_den :: "qdescr \<Rightarrow> descr" where
  "pl_rat_den a = snd (pq_parts a)"

text \<open>The result and the sign the caller's \<open>neg\<close> is set to.\<close>

definition pl_rat_scaled :: "qdescr \<Rightarrow> int \<Rightarrow> descr \<times> bool" where
  "pl_rat_scaled a places =
     (let (n, d) = pq_parts a; neg = pq_sgn n < 0; two = INT_VAL 2;
          n = pq_mul (pq_mul (pq_abs n) (pq_pow (INT_VAL 10) places)) two
      in (pq_divt (pq_add n d) (pq_mul d two), neg))"

section \<open>Text\<close>

definition strchr_pos :: "char \<Rightarrow> string \<Rightarrow> nat option" where
  "strchr_pos c s = (if c \<in> set s then Some (length (takeWhile (\<lambda>x. x \<noteq> c) s)) else None)"

definition pl_rat_parse :: "fp_ops \<Rightarrow> string option \<Rightarrow> qdescr option" where
  "pl_rat_parse F so =
     (case so of None \<Rightarrow> Some (Q_val D_fail)
      | Some s \<Rightarrow>
          (case strchr_pos CHR ''r'' s of None \<Rightarrow> Some (Q_val D_fail)
           | Some r \<Rightarrow>
               (if r = 0 \<or> Suc r = length s then Some (Q_val D_fail)
                else let n = rt_big_from_str (take r s); d = rt_big_from_str (drop (Suc r) s)
                     in if n = D_fail \<or> d = D_fail \<or> pq_zero d then Some (Q_val D_fail)
                        else pl_rat_make F n d)))"

definition pq_text :: "descr \<Rightarrow> string" where
  "pq_text a =
     (case a of D_int i \<Rightarrow> (if sint i < 0 then ''-'' else []) @ dec_str (nat \<bar>sint i\<bar>)
      | _ \<Rightarrow> rt_big_str a)"

definition pl_rat_fput :: "qdescr \<Rightarrow> string" where
  "pl_rat_fput a = (let (n, d) = pq_parts a in pq_text n @ ''r'' @ pq_text d)"

text \<open>\<open>snprintf\<close> stores what fits in \<open>cap\<close> bytes with the end mark and returns the whole length.\<close>

definition pl_rat_text :: "qdescr \<Rightarrow> nat \<Rightarrow> string \<times> nat" where
  "pl_rat_text a cap =
     (let (n, d) = pq_parts a; s = pq_text n @ ''r'' @ pq_text d in (take (cap - 1) s, length s))"

section \<open>Doubles\<close>

text \<open>
  The parts of an IEEE double from its bits, and \<open>frexp\<close> followed by \<open>ldexp\<close> to 53 bits: the whole
  number and the exponent of two of the absolute value, which is neither zero, infinite nor a NaN.
\<close>

definition dbl_exp :: "u64 \<Rightarrow> nat" where "dbl_exp x = unat x div 2 ^ 52 mod 2048"
definition dbl_frac :: "u64 \<Rightarrow> nat" where "dbl_frac x = unat x mod 2 ^ 52"
definition dbl_neg :: "u64 \<Rightarrow> bool" where "dbl_neg x \<longleftrightarrow> 2 ^ 63 \<le> unat x"

definition frexp53 :: "u64 \<Rightarrow> int \<times> int" where
  "frexp53 x =
     (if dbl_exp x = 0
      then (int (dbl_frac x) * 2 ^ (53 - bit_len (dbl_frac x)), int (bit_len (dbl_frac x)) - 1074)
      else (2 ^ 52 + int (dbl_frac x), int (dbl_exp x) - 1022))"

definition pl_rat_from_double :: "fp_ops \<Rightarrow> u64 \<Rightarrow> qdescr option option" where
  "pl_rat_from_double F x =
     (if dbl_exp x = 2047 then Some None
      else if dbl_exp x = 0 \<and> dbl_frac x = 0 then Some (Some (Q_val (INT_VAL 0)))
      else let (mm, e) = frexp53 x;
               n = INT_VAL (if dbl_neg x then - mm else mm);
               e = e - 53
           in map_option Some (if 0 \<le> e then Some (Q_val (pq_mul n (pq_pow (INT_VAL 2) e)))
                               else pl_rat_make F n (pq_pow (INT_VAL 2) (- e))))"

definition dbl_abs :: "u64 \<Rightarrow> u64" where
  "dbl_abs x = word_of_nat (unat x mod 2 ^ 63)"

text \<open>The continued fraction of the double, until a convergent reads back as the double.\<close>

partial_function (option) ratz_loop ::
    "fp_ops \<Rightarrow> u64 \<Rightarrow> bool \<Rightarrow> descr \<Rightarrow> descr \<Rightarrow> descr \<Rightarrow> descr \<Rightarrow> descr \<Rightarrow> descr \<Rightarrow> qdescr option" where
  "ratz_loop F ax neg n d p1 p2 q1 q2 =
     (let a = pq_divt n d; p = pq_add (pq_mul a p1) p2; q = pq_add (pq_mul a q1) q2
      in do {
        r \<leftarrow> pl_rat_make F p q;
        let rem = pq_sub n (pq_mul a d);
        if fp_eq F (pl_rat_real F r) ax \<or> pq_zero rem
        then (if neg then pl_rat_make F (pq_neg p) q else Some r)
        else ratz_loop F ax neg d rem p p1 q q1
      })"

definition pl_rat_rationalize :: "fp_ops \<Rightarrow> u64 \<Rightarrow> qdescr option option" where
  "pl_rat_rationalize F x =
     do {
       ex \<leftarrow> pl_rat_from_double F (dbl_abs x);
       (case ex of None \<Rightarrow> Some None
        | Some ex \<Rightarrow>
            (let (n, d) = pq_parts ex
             in map_option Some (ratz_loop F (dbl_abs x) (fp_lt F x 0) n d (INT_VAL 1) (INT_VAL 0) (INT_VAL 0) (INT_VAL 1))))
     }"

section \<open>Powers and roots\<close>

text \<open>
  The candidate root of a number below \<open>2 ^ 52\<close> comes from \<open>pow\<close>; the loop over its neighbours counts
  in doubles, which are exact at this size. Newton's iteration serves the larger numbers.
\<close>

definition root_guess :: "fp_ops \<Rightarrow> descr \<Rightarrow> int \<Rightarrow> int" where
  "root_guess F n k =
     fp_int F (fp_floor F (fp_add F (fp_pow F (int_dbl F n) (fp_div F 0x3FF0000000000000 (int_dbl F (INT_VAL k))))
       0x3FE0000000000000))"

definition newton_step :: "descr \<Rightarrow> int \<Rightarrow> descr \<Rightarrow> descr" where
  "newton_step n k x =
     pq_divt (pq_add (pq_mul (INT_VAL (k - 1)) x) (pq_divt n (pq_pow x (k - 1)))) (INT_VAL k)"

definition pq_iroot :: "fp_ops \<Rightarrow> descr \<Rightarrow> int \<Rightarrow> (descr \<times> bool) option" where
  "pq_iroot F n k =
     (if pq_zero n \<or> pq_one n then Some (n, True)
      else if (case n of D_int i \<Rightarrow> sint i < 2 ^ 52 | _ \<Rightarrow> False)
      then let r0 = root_guess F n k
           in (case List.find (\<lambda>c. pq_cmp (pq_pow (INT_VAL c) k) n = 0) [max 0 (r0 - 1)..r0 + 1] of
                 Some c \<Rightarrow> Some (INT_VAL c, True)
               | None \<Rightarrow> Some (INT_VAL r0, False))
      else do {
        x \<leftarrow> while_option (\<lambda>x. pq_cmp (newton_step n k x) x < 0) (newton_step n k)
               (pq_pow (INT_VAL 2) (pq_bits n div k + 1));
        Some (x, pq_cmp (pq_pow x k) n = 0)
      })"

definition pq_ipow :: "fp_ops \<Rightarrow> descr \<Rightarrow> descr \<Rightarrow> descr \<Rightarrow> pl_res option" where
  "pq_ipow F bn bd e =
     (case e of
        D_int i \<Rightarrow>
          (let k = sint i
           in if 0 \<le> k then map_option PL_out (pl_rat_make F (pq_pow bn k) (pq_pow bd k))
              else if pq_zero bn then Some (PL_err PLQ_ZDIV None)
              else if i = INT64_MIN then Some PL_unhandled
              else map_option PL_out (pl_rat_make F (pq_pow bd (- k)) (pq_pow bn (- k))))
      | _ \<Rightarrow>
          (if pq_one bd \<and> (pq_zero bn \<or> pq_one bn)
           then (if pq_zero bn \<and> pq_sgn e < 0 then Some (PL_err PLQ_ZDIV None) else Some (PL_out (Q_val bn)))
           else Some PL_unhandled))"

text \<open>
  \<open>pq_abs\<close> where the code gives it a whole value: of a rational it reads the sign of the record's
  address, which is positive, and leaves the rational as it is.
\<close>

definition pq_abs_value :: "qdescr \<Rightarrow> qdescr" where
  "pq_abs_value b = (case b of Q_val d \<Rightarrow> Q_val (pq_abs d) | Q_rat fat n d \<Rightarrow> b)"

definition pl_rat_pow :: "fp_ops \<Rightarrow> qdescr \<Rightarrow> qdescr \<Rightarrow> pl_res option" where
  "pl_rat_pow F b e =
     (let (bn, bd) = pq_parts b; (p, q) = pq_parts e; neg = pq_sgn bn < 0
      in case e of
           Q_val ev \<Rightarrow> (if pq_int ev then pq_ipow F bn bd ev else Some PL_unhandled)
         | Q_rat _ _ _ \<Rightarrow>
             (if pq_zero bn
              then Some (if pq_sgn p > 0 then PL_out (Q_val (INT_VAL 0)) else PL_err PLQ_ZDIV None)
              else if pq_one bn \<and> pq_one bd then Some (PL_out (Q_val (INT_VAL 1)))
              else case q of
                D_int qi \<Rightarrow>
                  (if neg \<and> even (sint qi) then Some (PL_err PLQ_UNDEF None)
                   else do {
                     (rn, xn) \<leftarrow> pq_iroot F (pq_abs bn) (sint qi);
                     (rd, xd) \<leftarrow> pq_iroot F bd (sint qi);
                     if xn \<and> xd then pq_ipow F (if neg then pq_neg rn else rn) rd p
                     else let v = fp_pow F (pl_rat_real F (pq_abs_value b)) (pl_rat_real F e)
                          in Some (PL_out (REAL_VAL (if neg \<and> (case p of D_int i \<Rightarrow> odd (sint i) | _ \<Rightarrow> False)
                                                    then fp_neg F v else v)))
                   })
              | _ \<Rightarrow> Some PL_unhandled))"

section \<open>The operators\<close>

definition real_of :: "qdescr \<Rightarrow> u64 option" where
  "real_of a = (case a of Q_val (D_other t x) \<Rightarrow> (if t = dt_code DT_R then Some x else None) | _ \<Rightarrow> None)"

definition pl_rat_unop :: "fp_ops \<Rightarrow> string \<Rightarrow> qdescr \<Rightarrow> pl_res option" where
  "pl_rat_unop F op a =
     (if \<not> pl_rat_exact a
      then case real_of a of None \<Rightarrow> Some PL_unhandled
        | Some x \<Rightarrow>
            (if op = ''rat''
             then map_option (\<lambda>r. case r of Some q \<Rightarrow> PL_out q | None \<Rightarrow> PL_err PLQ_UNDEF None) (pl_rat_from_double F x)
             else if op = ''ratz''
             then map_option (\<lambda>r. case r of Some q \<Rightarrow> PL_out q | None \<Rightarrow> PL_err PLQ_UNDEF None) (pl_rat_rationalize F x)
             else if op = ''numer'' \<or> op = ''denom'' then Some (PL_err PLQ_TYPE_RAT None)
             else Some PL_unhandled)
      else let (n, d) = pq_parts a
           in if op = ''rat'' \<or> op = ''ratz'' \<or> op = ''pos'' then Some (PL_out a)
              else if op = ''numer'' then Some (PL_out (Q_val n))
              else if op = ''denom'' then Some (PL_out (Q_val d))
              else if \<not> pl_rat_is a then Some PL_unhandled
              else if op = ''neg'' then map_option PL_out (pl_rat_make F (pq_neg n) d)
              else if op = ''abs'' then map_option PL_out (pl_rat_make F (pq_abs n) d)
              else if op = ''sign'' then Some (PL_out (Q_val (INT_VAL (pq_sgn n))))
              else if op = ''trunc'' then Some (PL_out (Q_val (pq_divt n d)))
              else if op = ''floor'' then Some (PL_out (Q_val (pq_floordiv n d)))
              else if op = ''ceil'' then Some (PL_out (Q_val (pq_neg (pq_floordiv (pq_neg n) d))))
              else if op = ''round'' \<or> op = ''intg''
              then let r = pq_floordiv (pq_add (pq_mul (INT_VAL 2) (pq_abs n)) d) (pq_mul (INT_VAL 2) d)
                   in Some (PL_out (Q_val (if pq_sgn n < 0 then pq_neg r else r)))
              else if op = ''flt'' then Some (PL_out (REAL_VAL (pl_rat_real F a)))
              else Some PL_unhandled)"

definition pl_rat_binop :: "fp_ops \<Rightarrow> string \<Rightarrow> qdescr \<Rightarrow> qdescr \<Rightarrow> pl_res option" where
  "pl_rat_binop F op a b =
     (if \<not> pl_rat_exact a \<or> \<not> pl_rat_exact b
      then (case (op = ''copysign'' \<and> pl_rat_is a, real_of b) of
              (True, Some x) \<Rightarrow>
                (let (an, ad) = pq_parts a
                 in map_option PL_out (pl_rat_make F (if dbl_neg x then pq_neg (pq_abs an) else pq_abs an) ad))
            | _ \<Rightarrow> Some (if op = ''rdiv'' then PL_err PLQ_TYPE_RAT (Some (if pl_rat_exact a then b else a))
                        else PL_unhandled))
      else let (an, ad) = pq_parts a; (bn, bd) = pq_parts b
           in if op = ''add'' then map_option PL_out (pq_rat_add an ad bn bd)
              else if op = ''sub'' then map_option PL_out (pq_rat_add an ad (pq_neg bn) bd)
              else if op = ''mul'' then map_option PL_out (pq_rat_mul an ad bn bd)
              else if op = ''div'' \<or> op = ''rdiv''
              then (if pq_zero bn then Some (PL_err PLQ_ZDIV None)
                    else map_option PL_out
                           (if pq_sgn bn < 0 then pq_rat_mul an ad (pq_neg bd) (pq_neg bn) else pq_rat_mul an ad bd bn))
              else if op = ''min'' then Some (PL_out (if pl_rat_cmp a b \<le> 0 then a else b))
              else if op = ''max'' then Some (PL_out (if pl_rat_cmp a b \<ge> 0 then a else b))
              else if op = ''fpow'' \<or> op = ''pow'' then pl_rat_pow F a b
              else if op = ''copysign''
              then (if \<not> pl_rat_is a then Some PL_unhandled
                    else map_option PL_out (pl_rat_make F (if pq_sgn bn < 0 then pq_neg (pq_abs an) else pq_abs an) ad))
              else if op \<in> {''idiv'', ''divf'', ''mod'', ''rem'', ''gcd'', ''shr'', ''shl'', ''band'', ''bor'', ''xor''}
              then Some (PL_err PLQ_TYPE_INT (Some (if pl_rat_is a then a else b)))
              else Some PL_unhandled)"

section \<open>The numbers they denote\<close>

text \<open>An exact value in the form the operations keep: lowest terms, a whole number as an integer.\<close>

fun qrep :: "qdescr \<Rightarrow> rat \<Rightarrow> bool" where
  "qrep (Q_val d) r \<longleftrightarrow> canonical d \<and> r = of_int (ival d)"
| "qrep (Q_rat fat n d) r \<longleftrightarrow> canonical n \<and> canonical d \<and> ival d \<noteq> 1 \<and> low (ival n) (ival d) r"

lemma pq_lits: "canonical (INT_VAL 0)" "ival (INT_VAL 0) = 0" "canonical (INT_VAL 1)" "ival (INT_VAL 1) = 1"
  "canonical (INT_VAL 2)" "ival (INT_VAL 2) = 2" "canonical (INT_VAL 10)" "ival (INT_VAL 10) = 10"
  using pq.lit [of 0] pq.lit [of 1] pq.lit [of 2] pq.lit [of 10] by (auto simp: in_i64_def)

lemma qrep_parts:
  assumes "qrep q r"
  obtains n d where "pq_parts q = (n, d)" "canonical n" "canonical d" "low (ival n) (ival d) r" "pl_rat_exact q"
proof (cases q)
  case (Q_val v)
  then show thesis
    using assms that [of v "INT_VAL 1"] pq_lits(3,4)
    by (cases v rule: int_descr.cases) (auto simp: pq_parts_def low_int pl_rat_exact_def pq_int_def canonical_def)
next
  case (Q_rat f n d)
  then show thesis
    using assms that by (simp add: pq_parts_def pl_rat_exact_def pl_rat_is_def rk_rat_is_def rq_kind_def)
qed

lemma pq_reduced_rep:
  assumes "canonical n" "canonical d" "low (ival n) (ival d) r"
  shows "qrep (pq_reduced n d) r"
  using assms pq.one [OF assms(2)] by (auto simp: pq_reduced_def rk_rat_new_reduced_def rq_new_def low_int)

lemma pq_exq_val:
  "canonical a \<Longrightarrow> canonical g \<Longrightarrow> ival g \<noteq> 0 \<Longrightarrow> ival g dvd ival a \<Longrightarrow>
   canonical (pq_exq a g) \<and> ival (pq_exq a g) = ival a div ival g"
  unfolding pq_exq_def by (rule pq.exact_val)

lemma pl_rat_make_rep:
  assumes "canonical n" "canonical d" "ival d \<noteq> 0"
  obtains q where "pl_rat_make F n d = Some q" "qrep q (of_int (ival n) / of_int (ival d))"
proof -
  define n1 d1 where "n1 = (if pq_sgn d < 0 then pq_neg n else n)" and "d1 = (if pq_sgn d < 0 then pq_neg d else d)"
  have 1: "canonical n1" "canonical d1" "0 < ival d1"
    and r: "of_int (ival n1) / of_int (ival d1) = (of_int (ival n) / of_int (ival d) :: rat)"
    using pq.neg [of n] pq.neg [of d] assms pq.sg [of d] by (auto simp: n1_def d1_def sgn_if)
  obtain g where g: "pq_gcd n1 d1 = Some g" "canonical g" "ival g = gcd (ival n1) (ival d1)"
    by (rule pq_gcd_val [OF 1(1,2)])
  define n2 d2 where "n2 = pq_exq n1 g" and "d2 = pq_exq d1 g"
  have g0: "ival g \<noteq> 0" using 1(3) g(3) by auto
  have 2: "canonical n2 \<and> ival n2 = ival n1 div ival g" "canonical d2 \<and> ival d2 = ival d1 div ival g"
    using pq_exq_val [OF 1(1) g(2) g0] pq_exq_val [OF 1(2) g(2) g0] g(3) by (simp_all add: n2_def d2_def)
  have "(if pq_sgn d < 0 then (pq_neg n, pq_neg d) else (n, d)) = (n1, d1)" by (simp add: n1_def d1_def)
  then have "pl_rat_make F n d = Some (pq_reduced n2 d2)"
    using g g0 pq.zero [OF g(2)] pq.zero [OF assms(2)] assms(3)
    by (simp add: pl_rat_make_def Let_def n2_def d2_def pq_exq_def)
  moreover have "low (ival n2) (ival d2) (of_int (ival n) / of_int (ival d))"
    using low_gcd [OF 1(3), of "ival n1"] 2 g(3) r by simp
  then have "qrep (pq_reduced n2 d2) (of_int (ival n) / of_int (ival d))"
    by (rule pq_reduced_rep [rotated 2]) (use 2 in simp_all)
  ultimately show thesis by (rule that)
qed

text \<open>Adding and multiplying fractions with the common divisors taken out beforehand.\<close>

lemma low_add:
  assumes "low an ad r" "low bn bd s"
  defines "g \<equiv> gcd ad bd"
  defines "x \<equiv> ad div g" and "y \<equiv> bd div g"
  defines "t \<equiv> an * y + bn * x"
  defines "g2 \<equiv> gcd t g"
  shows "low (t div g2) (x * (bd div g2)) (r + s)"
proof -
  have ab: "0 < ad" "0 < bd" "coprime an ad" "coprime bn bd" "r = of_int an / of_int ad" "s = of_int bn / of_int bd"
    using assms(1,2) by (auto simp: low_def)
  have g: "0 < g" using ab by (simp add: g_def)
  have xy: "ad = g * x" "bd = g * y" by (simp_all add: x_def y_def g_def)
  have pos: "0 < x" "0 < y" using ab(1,2) g unfolding xy by (simp_all add: zero_less_mult_iff)
  have cop: "coprime x y" unfolding x_def y_def g_def using ab by (intro div_gcd_coprime) simp
  have "g2 \<noteq> 0" using g by (simp add: g2_def)
  obtain u h where uh: "t = g2 * u" "g = g2 * h" by (metis g2_def gcd_dvd1 gcd_dvd2 dvdE)
  have g2: "0 < g2" using g by (simp add: g2_def)
  have "coprime (t div g2) (g div g2)" unfolding g2_def using g by (intro div_gcd_coprime) simp
  then have c1: "coprime u h" using uh g2 by simp
  have "coprime (an * y) x" "coprime (bn * x) y"
    using ab(3,4) cop unfolding xy by (simp_all add: coprime_commute)
  then have "coprime t x" "coprime t y"
    unfolding t_def by (metis coprime_iff_gcd_eq_1 gcd_add_mult mult.commute add.commute gcd.commute)+
  then have "coprime u (x * (h * y))" using c1 unfolding uh(1) by simp
  moreover have "bd div g2 = h * y" using g2 unfolding xy(2) uh(2) by (simp add: mult.assoc)
  moreover have "r + s = of_int t / of_int (g * x * y)"
    using g pos unfolding ab(5,6) xy t_def by (simp add: field_simps)
  moreover have "of_int t / of_int (g * x * y) = (of_int u / of_int (x * (h * y)) :: rat)"
    using g2 unfolding uh by (simp add: field_simps)
  moreover have "0 < h" using g g2 uh(2) by (simp add: zero_less_mult_iff)
  ultimately show ?thesis using uh(1) g2 pos by (simp add: low_def)
qed

lemma low_mul:
  assumes "low an ad r" "low bn bd s"
  shows "low (an div gcd an bd * (bn div gcd bn ad)) (ad div gcd bn ad * (bd div gcd an bd)) (r * s)"
proof -
  have ab: "0 < ad" "0 < bd" "coprime an ad" "coprime bn bd" "r = of_int an / of_int ad" "s = of_int bn / of_int bd"
    using assms by (auto simp: low_def)
  define g h where "g = gcd an bd" and "h = gcd bn ad"
  have gh: "0 < g" "0 < h" using ab by (simp_all add: g_def h_def)
  define a b c d where "a = an div g" and "b = bd div g" and "c = bn div h" and "d = ad div h"
  have eq: "an = g * a" "bd = g * b" "bn = h * c" "ad = h * d"
    by (simp_all add: a_def b_def c_def d_def g_def h_def)
  have "coprime a b" "coprime c d"
    unfolding a_def b_def c_def d_def g_def h_def using ab by (intro div_gcd_coprime; simp)+
  then have "coprime (a * c) (d * b)" using ab(3,4) unfolding eq by (simp add: coprime_commute)
  moreover have "0 < d * b" using ab(1,2) gh unfolding eq by (simp add: zero_less_mult_iff)
  moreover have "r * s = of_int (a * c) / of_int (d * b)"
    using gh unfolding ab(5,6) eq by (simp add: field_simps)
  ultimately show ?thesis by (simp add: low_def a_def b_def c_def d_def flip: g_def h_def)
qed

lemma pq_rat_add_rep:
  assumes "canonical an" "canonical ad" "canonical bn" "canonical bd"
    and r: "low (ival an) (ival ad) r" and s: "low (ival bn) (ival bd) s"
  obtains q where "pq_rat_add an ad bn bd = Some q" "qrep q (r + s)"
proof (cases "pq_one ad \<and> pq_one bd")
  case True
  then show thesis
    using assms pq.one pq.add [OF assms(1,3)] that by (auto simp: pq_rat_add_def low_int)
next
  case False
  obtain g where g: "pq_gcd ad bd = Some g" "canonical g" "ival g = gcd (ival ad) (ival bd)"
    by (rule pq_gcd_val [OF assms(2,4)])
  have g0: "ival g \<noteq> 0" "ival g dvd ival ad" "ival g dvd ival bd" using r g(3) by (auto simp: low_def)
  define x y where "x = pq_exq ad g" and "y = pq_exq bd g"
  have xy: "canonical x \<and> ival x = ival ad div ival g" "canonical y \<and> ival y = ival bd div ival g"
    using pq_exq_val assms g g0 by (simp_all add: x_def y_def)
  define t where "t = pq_add (pq_mul an y) (pq_mul bn x)"
  have t: "canonical t" "ival t = ival an * ival y + ival bn * ival x"
    using xy assms pq.mul [of an y] pq.mul [of bn x] pq.add [of "pq_mul an y" "pq_mul bn x"] by (simp_all add: t_def)
  obtain g2 where g2: "(if pq_one g then Some g else pq_gcd t g) = Some g2" "canonical g2" "ival g2 = gcd (ival t) (ival g)"
    by (cases "pq_one g", use pq.one [OF g(2)] g(2) in simp, rule pq_gcd_val [OF t(1) g(2)], auto)
  have h: "ival g2 \<noteq> 0" "ival g2 dvd ival t" "ival g2 dvd ival bd"
    using g2(3) g0 by (auto intro: dvd_trans)
  define u v where "u = pq_exq t g2" and "v = pq_mul x (pq_exq bd g2)"
  have uv: "canonical u" "ival u = ival t div ival g2" "canonical v" "ival v = ival x * (ival bd div ival g2)"
    using pq_exq_val [OF t(1) g2(2) h(1,2)] pq_exq_val [OF assms(4) g2(2) h(1,3)] pq.mul [of x "pq_exq bd g2"] xy
    by (simp_all add: u_def v_def)
  have low: "low (ival u) (ival v) (r + s)"
    using low_add [OF r s] xy g(3) g2(3) t(2) uv by simp
  have e: "pq_rat_add an ad bn bd = (if pq_zero t then Some (Q_val (INT_VAL 0)) else Some (pq_reduced u v))"
    by (simp only: pq_rat_add_def if_not_P [OF False] g(1) Option.bind.simps Let_def g2(1) u_def v_def
      flip: x_def y_def t_def)
  show thesis
  proof (cases "pq_zero t")
    case True
    then have "ival u = 0" using pq.zero [OF t(1)] uv by simp
    then have "r + s = 0" using low_nz [OF low] by simp
    then show thesis using True e pq_lits by (intro that [of "Q_val (INT_VAL 0)"]) simp_all
  qed (use e low uv pq_reduced_rep that in auto)
qed

lemma pq_rat_mul_rep:
  assumes "canonical an" "canonical ad" "canonical bn" "canonical bd"
    and r: "low (ival an) (ival ad) r" and s: "low (ival bn) (ival bd) s"
  obtains q where "pq_rat_mul an ad bn bd = Some q" "qrep q (r * s)"
proof (cases "pq_zero an \<or> pq_zero bn")
  case True
  then have "r * s = 0" using pq.zero assms low_nz [OF r] low_nz [OF s] by auto
  then show thesis using True pq_lits by (intro that [of "Q_val (INT_VAL 0)"]) (simp_all add: pq_rat_mul_def)
next
  case False
  obtain g1 where g1: "(if pq_one bd then Some bd else pq_gcd an bd) = Some g1" "canonical g1" "ival g1 = gcd (ival an) (ival bd)"
    by (cases "pq_one bd", use pq.one [OF assms(4)] assms(4) in simp, rule pq_gcd_val [OF assms(1,4)], auto)
  obtain g2 where g2: "(if pq_one ad then Some ad else pq_gcd bn ad) = Some g2" "canonical g2" "ival g2 = gcd (ival bn) (ival ad)"
    by (cases "pq_one ad", use pq.one [OF assms(2)] assms(2) in simp, rule pq_gcd_val [OF assms(3,2)], auto)
  have nz: "ival g1 \<noteq> 0" "ival g2 \<noteq> 0" using r s g1(3) g2(3) by (auto simp: low_def)
  define n d where "n = pq_mul (pq_exq an g1) (pq_exq bn g2)" and "d = pq_mul (pq_exq ad g2) (pq_exq bd g1)"
  have "canonical (pq_exq c g1) \<and> ival (pq_exq c g1) = ival c div ival g1" if "c = an \<or> c = bd" for c
    using that assms pq_exq_val [OF _ g1(2) nz(1), of c] g1(3) by auto
  moreover have "canonical (pq_exq c g2) \<and> ival (pq_exq c g2) = ival c div ival g2" if "c = bn \<or> c = ad" for c
    using that assms pq_exq_val [OF _ g2(2) nz(2), of c] g2(3) by auto
  ultimately have nd: "canonical n" "ival n = ival an div ival g1 * (ival bn div ival g2)"
    "canonical d" "ival d = ival ad div ival g2 * (ival bd div ival g1)"
    unfolding n_def d_def by (simp_all add: pq.mul)
  have "pq_rat_mul an ad bn bd = Some (pq_reduced n d)"
    by (simp only: pq_rat_mul_def if_not_P [OF False] g1(1) g2(1) Option.bind.simps n_def d_def)
  moreover have "qrep (pq_reduced n d) (r * s)"
    by (rule pq_reduced_rep) (use nd low_mul [OF r s] g1(3) g2(3) in simp_all)
  ultimately show thesis by (rule that)
qed

section \<open>What the operators compute\<close>

definition pl_op :: "string \<Rightarrow> rat \<Rightarrow> rat \<Rightarrow> rat" where
  "pl_op op r s =
     (if op = ''add'' then r + s else if op = ''sub'' then r - s else if op = ''mul'' then r * s
      else if op = ''min'' then min r s else if op = ''max'' then max r s else r / s)"

lemma pl_rat_cmp_val: "qrep a r \<Longrightarrow> qrep b s \<Longrightarrow> pl_rat_cmp a b = of_bool (s < r) - of_bool (r < s)"
  by (elim qrep_parts) (simp add: pl_rat_cmp_def pq_cmp_val pq.mul cross_compare)

lemma low_neg: "low n d r \<Longrightarrow> low (- n) d (- r)"
  by (simp add: low_def)

lemma low_inverse: "low n d r \<Longrightarrow> 0 < n \<Longrightarrow> low d n (inverse r)"
  by (simp add: low_def coprime_commute)

text \<open>One equation per operator, on exact operands with their parts.\<close>

lemma pl_rat_binop_ops:
  assumes "pl_rat_exact a" "pl_rat_exact b" "pq_parts a = (an, ad)" "pq_parts b = (bn, bd)"
  shows "pl_rat_binop F ''add'' a b = map_option PL_out (pq_rat_add an ad bn bd)"
    "pl_rat_binop F ''sub'' a b = map_option PL_out (pq_rat_add an ad (pq_neg bn) bd)"
    "pl_rat_binop F ''mul'' a b = map_option PL_out (pq_rat_mul an ad bn bd)"
    "pl_rat_binop F ''min'' a b = Some (PL_out (if pl_rat_cmp a b \<le> 0 then a else b))"
    "pl_rat_binop F ''max'' a b = Some (PL_out (if pl_rat_cmp a b \<ge> 0 then a else b))"
    "op \<in> {''div'', ''rdiv''} \<Longrightarrow> pl_rat_binop F op a b =
       (if pq_zero bn then Some (PL_err PLQ_ZDIV None)
        else map_option PL_out
               (if pq_sgn bn < 0 then pq_rat_mul an ad (pq_neg bd) (pq_neg bn) else pq_rat_mul an ad bd bn))"
  unfolding pl_rat_binop_def assms using assms(1,2) by (auto simp del: map_option_eq_Some)

lemma pl_op_simps:
  "pl_op ''add'' r s = r + s" "pl_op ''sub'' r s = r - s" "pl_op ''mul'' r s = r * s"
  "pl_op ''min'' r s = min r s" "pl_op ''max'' r s = max r s" "op \<in> {''div'', ''rdiv''} \<Longrightarrow> pl_op op r s = r / s"
  by (auto simp: pl_op_def)

lemma qrep_third: "qrep (Q_rat True (D_int 1) (D_int 3)) (1 / 3)"
proof -
  have "sint (3 :: u64) = 3" using sint_word_of_int64 [of 3] by (simp add: in_i64_def)
  then show ?thesis by (simp add: low_def sint_small)
qed

text \<open>C5. The exact operators of the Prolog arithmetic refine the field of the rational numbers: on
  integers and rationals in normal form \<open>+\<close>, \<open>-\<close>, \<open>*\<close>, \<open>min\<close>, \<open>max\<close> and division by a number that is not
  zero return, and what they return is the number in normal form, whole numbers as integers.\<close>

theorem pl_rat_binop_refines:
  assumes "qrep a r" "qrep b s"
    and "op \<in> {''add'', ''sub'', ''mul'', ''min'', ''max''} \<or> op \<in> {''div'', ''rdiv''} \<and> s \<noteq> 0"
  shows "\<exists>q. pl_rat_binop F op a b = Some (PL_out q) \<and> qrep q (pl_op op r s)"
proof -
  obtain an ad where a: "pq_parts a = (an, ad)" "canonical an" "canonical ad" "low (ival an) (ival ad) r" "pl_rat_exact a"
    using assms(1) by (rule qrep_parts)
  obtain bn bd where b: "pq_parts b = (bn, bd)" "canonical bn" "canonical bd" "low (ival bn) (ival bd) s" "pl_rat_exact b"
    using assms(2) by (rule qrep_parts)
  note run = pl_rat_binop_ops [OF a(5) b(5) a(1) b(1)] pl_op_simps
  consider "op = ''add''" | "op = ''sub''" | "op = ''mul''" | "op = ''min''" | "op = ''max''"
    | "op \<in> {''div'', ''rdiv''}" "s \<noteq> 0" using assms(3) by (elim disjE conjE insertE emptyE) simp_all
  then show ?thesis
  proof cases
    case 1
    obtain q where "pq_rat_add an ad bn bd = Some q" "qrep q (r + s)" by (rule pq_rat_add_rep [OF a(2,3) b(2,3) a(4) b(4)])
    then show ?thesis using 1 by (simp add: run)
  next
    case 2
    note n = pq.neg [OF b(2)]
    obtain q where "pq_rat_add an ad (pq_neg bn) bd = Some q" "qrep q (r + - s)"
      by (rule pq_rat_add_rep [OF a(2,3) _ b(3) a(4), of "pq_neg bn" "- s"]) (use n low_neg [OF b(4)] in auto)
    then show ?thesis using 2 by (simp add: run)
  next
    case 3
    obtain q where "pq_rat_mul an ad bn bd = Some q" "qrep q (r * s)" by (rule pq_rat_mul_rep [OF a(2,3) b(2,3) a(4) b(4)])
    then show ?thesis using 3 by (simp add: run)
  next
    case 4
    then show ?thesis using pl_rat_cmp_val [OF assms(1,2)] assms(1,2) by (simp add: run min_def)
  next
    case 5
    then show ?thesis using pl_rat_cmp_val [OF assms(1,2)] assms(1,2) by (auto simp: run max_def)
  next
    case 6
    have z: "\<not> pq_zero bn" "pq_sgn bn < 0 \<longleftrightarrow> ival bn < 0" "ival bn \<noteq> 0"
      using 6 pq.zero [OF b(2)] pq.sg [OF b(2)] low_nz [OF b(4)] by (auto simp: sgn_if)
    obtain q where "(if pq_sgn bn < 0 then pq_rat_mul an ad (pq_neg bd) (pq_neg bn) else pq_rat_mul an ad bd bn) = Some q"
      "qrep q (r * inverse s)"
    proof (cases "ival bn < 0")
      case True
      note n = pq.neg [OF b(2)] pq.neg [OF b(3)]
      have "low (- ival bd) (- ival bn) (inverse s)"
        using low_inverse [OF low_neg [OF b(4)]] True low_neg [of "ival bd" "- ival bn" "- inverse s"] by simp
      then obtain q where q: "pq_rat_mul an ad (pq_neg bd) (pq_neg bn) = Some q" "qrep q (r * inverse s)"
        using pq_rat_mul_rep [OF a(2,3) conjunct1 [OF n(2)] conjunct1 [OF n(1)] a(4), of "inverse s" thesis] n by simp
      show thesis by (rule that [of q]) (use q z(2) True in simp_all)
    next
      case False
      then have "0 < ival bn" using z(3) by simp
      from pq_rat_mul_rep [OF a(2,3) b(3,2) a(4) low_inverse [OF b(4) this]]
      obtain q where q: "pq_rat_mul an ad bd bn = Some q" "qrep q (r * inverse s)" .
      show thesis by (rule that [of q]) (use q z(2) False in simp_all)
    qed
    then show ?thesis unfolding run(6) [OF 6(1)] run(12) [OF 6(1)] divide_inverse using z(1) by (simp only: if_False option.simps pl_res.inject) blast
  qed
qed

theorem pl_rat_binop_refines_witness:
  "\<exists>q. pl_rat_binop fp_zero ''div'' (Q_rat True (D_int 1) (D_int 3)) (Q_val (D_int 2)) = Some (PL_out q)
     \<and> qrep q (pl_op ''div'' (1 / 3) 2)"
  using pl_rat_binop_refines [OF qrep_third, of "Q_val (D_int 2)" 2 "''div''" fp_zero] by (simp add: sint_2)

text \<open>\<open>floor\<close>, \<open>ceil\<close>, \<open>trunc\<close>, and \<open>round\<close> or \<open>intg\<close>, which rounds halves away from zero.\<close>

definition pl_rounding :: "string \<Rightarrow> rat \<Rightarrow> int" where
  "pl_rounding op r =
     (if op = ''floor'' then \<lfloor>r\<rfloor> else if op = ''ceil'' then \<lceil>r\<rceil>
      else if op = ''trunc'' then (if r < 0 then \<lceil>r\<rceil> else \<lfloor>r\<rfloor>)
      else if r < 0 then - \<lfloor>1 / 2 - r\<rfloor> else \<lfloor>r + 1 / 2\<rfloor>)"

text \<open>The four roundings of a rational are the nearest integer in their direction, in full precision.\<close>

theorem pl_rat_unop_rounds:
  assumes "qrep (Q_rat fat n d) r" "op \<in> {''floor'', ''ceil'', ''trunc'', ''round'', ''intg''}"
  shows "\<exists>v. pl_rat_unop F op (Q_rat fat n d) = Some (PL_out (Q_val v)) \<and> canonical v \<and> ival v = pl_rounding op r"
proof -
  have nd: "canonical n" "canonical d" "0 < ival d" "r = of_int (ival n) / of_int (ival d)" "ival d \<noteq> 0"
    using assms(1) by (auto simp: low_def)
  have neg: "r < 0 \<longleftrightarrow> ival n < 0" "pq_sgn n < 0 \<longleftrightarrow> ival n < 0"
    using nd pq.sg [OF nd(1)] by (auto simp: divide_less_0_iff sgn_if)
  note fl = quotient_roundings [OF conjunct2 [OF conjunct2 [OF conjunct2 [OF assms(1) [unfolded qrep.simps]]]]]
  note run = pl_rat_unop_def pl_rat_exact_def pl_rat_is_def rk_rat_is_def rq_kind_def pq_parts_def pl_rounding_def
  note abs = pq_abs_val [OF nd(1)]
  consider "op = ''floor''" | "op = ''ceil''" | "op = ''trunc''" | "op = ''round'' \<or> op = ''intg''" using assms(2) by auto
  then show ?thesis
  proof cases
    case 1
    then show ?thesis using pq_floordiv_val [OF nd(1,2,5)] fl by (simp add: run)
  next
    case 2
    then show ?thesis
      using pq.neg [OF nd(1)] pq_floordiv_val [of "pq_neg n" d] pq.neg [of "pq_floordiv (pq_neg n) d"] nd(2,5) fl
      by (simp add: run)
  next
    case 3
    then show ?thesis using pq.divt [OF nd(1,2,5)] fl neg nd(3) by (simp add: run signed_divide_int_def sgn_if)
  next
    case 4
    define v where "v = pq_floordiv (pq_add (pq_mul (INT_VAL 2) (pq_abs n)) d) (pq_mul (INT_VAL 2) d)"
    have v: "canonical v" "ival v = (2 * \<bar>ival n\<bar> + ival d) div (2 * ival d)"
      using pq.mul [OF pq_lits(5) conjunct1 [OF abs]] pq.mul [OF pq_lits(5) nd(2)] nd abs pq_lits(6)
        pq.add [of "pq_mul (INT_VAL 2) (pq_abs n)" d]
        pq_floordiv_val [of "pq_add (pq_mul (INT_VAL 2) (pq_abs n)) d" "pq_mul (INT_VAL 2) d"]
      by (simp_all add: v_def)
    have "\<lfloor>\<bar>r\<bar> + 1 / 2\<rfloor> = ival v"
      unfolding v(2) floor_half [OF nd(3)] using nd(3,4) by (simp add: abs_divide)
    then show ?thesis using 4 v(1) neg pq.neg [OF v(1)] by (elim disjE) (auto simp: run v_def [symmetric] Let_def)
  qed
qed

theorem pl_rat_unop_rounds_witness:
  "\<exists>v. pl_rat_unop fp_zero ''ceil'' (Q_rat True (D_int 1) (D_int 3)) = Some (PL_out (Q_val v)) \<and> canonical v
     \<and> ival v = pl_rounding ''ceil'' (1 / 3)"
  using pl_rat_unop_rounds [OF qrep_third, of "''ceil''" fp_zero] by simp

section \<open>Text\<close>

lemma pq_text_dec:
  assumes "canonical a"
  shows "pq_text a = (if ival a < 0 then ''-'' else []) @ dec_str (nat \<bar>ival a\<bar>)"
  using rt_big_str_dec [of a] assms by (cases a rule: int_descr.cases) (auto simp: pq_text_def canonical_def)

lemma from_str_text:
  assumes "canonical a"
  shows "rt_big_from_str (pq_text a) = a"
proof -
  have "canonical (rt_big_from_str (pq_text a)) \<and> ival (rt_big_from_str (pq_text a)) = ival a"
    unfolding pq_text_dec [OF assms] using from_str_dec [of "ival a < 0" "nat \<bar>ival a\<bar>"] by auto
  then show ?thesis using canonical_inject [OF _ assms] by blast
qed

lemma pq_text_chars: "canonical a \<Longrightarrow> CHR ''r'' \<notin> set (pq_text a) \<and> pq_text a \<noteq> []"
proof -
  assume "canonical a"
  have "CHR ''r'' \<noteq> digit_char d" if "d < 10" for d
  proof
    assume "CHR ''r'' = digit_char d"
    then have "of_char CHR ''r'' = 48 + d" using of_char_digit [OF that] by simp
    then show False using that by simp
  qed
  then show ?thesis using pq_text_dec [OF \<open>canonical a\<close>] dec_str_digits [of "nat \<bar>ival a\<bar>"] by auto
qed

lemma qrep_inject:
  assumes "qrep p r" "qrep q r" "rq_kind p \<noteq> 1" "rq_kind q \<noteq> 1"
  shows "p = q"
proof (cases p; cases q)
  fix a b assume "p = Q_val a" "q = Q_val b"
  then show ?thesis using assms canonical_inject [of a b] by simp
next
  fix a f n d assume "p = Q_val a" "q = Q_rat f n d"
  then show ?thesis using assms low_unique [of "ival n" "ival d" r "ival a" 1] by (simp add: low_int)
next
  fix a f n d assume "q = Q_val a" "p = Q_rat f n d"
  then show ?thesis using assms low_unique [of "ival n" "ival d" r "ival a" 1] by (simp add: low_int)
next
  fix f n d f' n' d' assume "p = Q_rat f n d" "q = Q_rat f' n' d'"
  then show ?thesis
    using assms low_unique [of "ival n" "ival d" r "ival n'" "ival d'"] canonical_inject [of n n'] canonical_inject [of d d']
    by (auto simp: rq_kind_def split: if_split_asm)
qed

text \<open>C34. Text round trip: what \<open>pl_rat_text\<close> writes for an exact value in normal form, given a buffer
  that holds it, \<open>pl_rat_parse\<close> reads back as the same value.\<close>

theorem pl_rat_text_parse:
  assumes "qrep q r" "rq_kind q \<noteq> 1" "snd (pl_rat_text q cap) < cap"
  shows "pl_rat_parse F (Some (fst (pl_rat_text q cap))) = Some q"
proof -
  obtain n d where q: "pq_parts q = (n, d)" "canonical n" "canonical d" "low (ival n) (ival d) r"
    using assms(1) by (rule qrep_parts)
  define s where "s = pq_text n @ ''r'' @ pq_text d"
  have s: "fst (pl_rat_text q cap) = s" using assms(3) by (simp add: pl_rat_text_def q s_def)
  have pos: "strchr_pos CHR ''r'' s = Some (length (pq_text n))"
    unfolding strchr_pos_def s_def by (subst takeWhile_append2) (use pq_text_chars [OF q(2)] in auto)
  have d0: "ival d \<noteq> 0" "\<not> pq_zero d" "n \<noteq> D_fail" "d \<noteq> D_fail"
    using q(2-4) pq.zero [OF q(3)] by (auto simp: low_def canonical_def)
  obtain q' where q': "pl_rat_make F n d = Some q'" "qrep q' r"
    using pl_rat_make_rep [OF q(2,3) d0(1), of F] q(4) by (auto simp: low_def)
  have "pl_rat_parse F (Some s) = pl_rat_make F n d"
    using pos pq_text_chars [OF q(2)] pq_text_chars [OF q(3)] from_str_text q(2,3) d0
    by (simp add: pl_rat_parse_def) (simp add: s_def)
  moreover have "rq_kind q' \<noteq> 1"
    using q'(1) q(3) d0 by (auto simp: pl_rat_make_def pq_reduced_def rk_rat_new_reduced_def rq_new_def rq_kind_def Let_def
      split: bind_split_asm if_split_asm)
  ultimately show ?thesis using qrep_inject [OF assms(1) q'(2) assms(2)] q'(1) s by simp
qed

theorem pl_rat_text_parse_witness:
  "snd (pl_rat_text (Q_rat True (D_int 1) (D_int 3)) 9) < 9
   \<and> pl_rat_parse fp_zero (Some (fst (pl_rat_text (Q_rat True (D_int 1) (D_int 3)) 9)))
       = Some (Q_rat True (D_int 1) (D_int 3))"
proof -
  have "sint (3 :: u64) = 3" using sint_word_of_int64 [of 3] by (simp add: in_i64_def)
  then have "snd (pl_rat_text (Q_rat True (D_int 1) (D_int 3)) 9) < 9"
    by (simp add: pl_rat_text_def pq_parts_def pq_text_def dec_str_small sint_small)
  then show ?thesis using pl_rat_text_parse [OF qrep_third, of 9 fp_zero] by (simp add: rq_kind_def)
qed

section \<open>Doubles\<close>

text \<open>The number a finite double stands for.\<close>

definition dbl_val :: "u64 \<Rightarrow> rat" where
  "dbl_val x = (if dbl_neg x then - 1 else 1) *
     (if dbl_exp x = 0 then of_nat (dbl_frac x) * 2 powi (- 1074)
      else of_nat (2 ^ 52 + dbl_frac x) * 2 powi (int (dbl_exp x) - 1075))"

lemma frexp53_val:
  assumes "\<not> (dbl_exp x = 0 \<and> dbl_frac x = 0)"
  obtains m e where "frexp53 x = (m, e)" "0 \<le> m" "m < 2 ^ 53"
    "dbl_val x = (if dbl_neg x then - 1 else 1) * of_int m * 2 powi (e - 53)"
proof (cases "dbl_exp x = 0")
  case True
  define f b where "f = dbl_frac x" and "b = bit_len f"
  have f: "f < 2 ^ 52" by (simp add: f_def dbl_frac_def)
  then have b: "b \<le> 52" unfolding b_def by (rule bit_len_le)
  have "f * 2 ^ (53 - b) < 2 ^ b * 2 ^ (53 - b)" using bit_len_upper [of f] by (simp add: b_def)
  also have "\<dots> = (2 :: nat) ^ (b + (53 - b))" by (rule power_add [symmetric])
  also have "b + (53 - b) = 53" using b by simp
  finally have "int (f * 2 ^ (53 - b)) < int (2 ^ 53)" by (rule iffD2 [OF of_nat_less_iff])
  then have lt: "int f * 2 ^ (53 - b) < 2 ^ 53" by simp
  have "int (53 - b) + (int b - 1074 - 53) = - 1074" using b by simp
  then have "(2 :: rat) ^ (53 - b) * 2 powi (int b - 1074 - 53) = 2 powi (- 1074)"
    using power_int_add [of "2 :: rat" "int (53 - b)" "int b - 1074 - 53"] by (simp only: power_int_of_nat) simp
  then have v: "rat_of_int (int f * 2 ^ (53 - b)) * 2 powi (int b - 1074 - 53) = of_nat f * 2 powi (- 1074)"
    by (simp only: of_int_mult of_int_power of_int_of_nat_eq of_int_numeral mult.assoc)
  show thesis
    by (rule that [of "int f * 2 ^ (53 - b)" "int b - 1074"])
       (simp_all only: frexp53_def dbl_val_def if_P [OF True] v lt mult.assoc flip: f_def b_def, simp)
next
  case False
  have "dbl_frac x < 2 ^ 52" by (simp add: dbl_frac_def)
  then show thesis
    using False by (intro that [of "2 ^ 52 + int (dbl_frac x)" "int (dbl_exp x) - 1022"]) (simp_all add: frexp53_def dbl_val_def)
qed

text \<open>The rational made of a finite double is exactly the double's value, subnormal ones included.\<close>

theorem pl_rat_from_double_exact:
  assumes "dbl_exp x \<noteq> 2047"
  shows "\<exists>q. pl_rat_from_double F x = Some (Some q) \<and> qrep q (dbl_val x)"
proof (cases "dbl_exp x = 0 \<and> dbl_frac x = 0")
  case True
  then have "dbl_val x = 0" by (simp only: dbl_val_def if_True simp_thms of_nat_0 mult_zero_left mult_zero_right)
  then show ?thesis using True pq_lits by (simp add: pl_rat_from_double_def)
next
  case False
  obtain m e where m: "frexp53 x = (m, e)" "0 \<le> m" "m < 2 ^ 53"
    "dbl_val x = (if dbl_neg x then - 1 else 1) * of_int m * 2 powi (e - 53)"
    by (rule frexp53_val [OF False])
  define z where "z = (if dbl_neg x then - m else m)"
  have "in_i64 z" using m(2,3) by (auto simp: z_def in_i64_def)
  then have z: "canonical (INT_VAL z)" "ival (INT_VAL z) = z" using pq.lit by blast+
  have v: "dbl_val x = of_int z * 2 powi (e - 53)" using m(4) by (simp add: z_def)
  have run: "pl_rat_from_double F x = map_option Some
      (if 0 \<le> e - 53 then Some (Q_val (pq_mul (INT_VAL z) (pq_pow (INT_VAL 2) (e - 53))))
       else pl_rat_make F (INT_VAL z) (pq_pow (INT_VAL 2) (- (e - 53))))"
    unfolding pl_rat_from_double_def if_not_P [OF False] if_not_P [OF assms] m(1) z_def by (simp only: Let_def prod.case)
  have pow: "canonical (pq_pow (INT_VAL 2) k) \<and> ival (pq_pow (INT_VAL 2) k) = 2 ^ nat k" if "0 \<le> k" for k
    using pq_pow_val [OF pq_lits(5) that] by (simp only: pq_lits(6))
  show ?thesis
  proof (cases "0 \<le> e - 53")
    case True
    have "canonical (pq_mul (INT_VAL z) (pq_pow (INT_VAL 2) (e - 53)))
        \<and> ival (pq_mul (INT_VAL z) (pq_pow (INT_VAL 2) (e - 53))) = z * 2 ^ nat (e - 53)"
      using pq.mul [OF z(1) conjunct1 [OF pow [OF True]]] pow [OF True] z(2) by (simp only:)
    moreover have "dbl_val x = of_int (z * 2 ^ nat (e - 53))" using v True by (simp only: power_int_def if_True) simp
    ultimately show ?thesis using run True by simp
  next
    case e: False
    then have e': "0 \<le> - (e - 53)" by simp
    have "ival (pq_pow (INT_VAL 2) (- (e - 53))) \<noteq> 0" using pow [OF e'] by simp
    then obtain q where q: "pl_rat_make F (INT_VAL z) (pq_pow (INT_VAL 2) (- (e - 53))) = Some q"
      "qrep q (of_int z / of_int (ival (pq_pow (INT_VAL 2) (- (e - 53)))))"
      using pl_rat_make_rep [OF z(1) conjunct1 [OF pow [OF e']], of F] z(2) by auto
    have "of_int z / of_int (ival (pq_pow (INT_VAL 2) (- (e - 53)))) = dbl_val x"
      unfolding v conjunct2 [OF pow [OF e']] power_int_def if_not_P [OF e] divide_inverse
      by (simp only: of_int_power of_int_numeral power_inverse)
    then show ?thesis using run e q by simp
  qed
qed

theorem pl_rat_from_double_exact_witness:
  "\<exists>q. pl_rat_from_double fp_zero 0xBFE0000000000000 = Some (Some q) \<and> qrep q (dbl_val 0xBFE0000000000000)"
  by (rule pl_rat_from_double_exact) (simp add: dbl_exp_def)

section \<open>Roots\<close>

text \<open>A tangent of a power lies below it; so one Newton step does not fall below the root.\<close>

lemma power_tangent:
  fixes x z :: int
  assumes "0 < x" "0 \<le> z"
  shows "x ^ m * (int (Suc m) * z - int m * x) \<le> z ^ Suc m"
proof (induction m)
  case (Suc m)
  have "z * (x ^ m * (int (Suc m) * z - int m * x)) \<le> z * z ^ Suc m"
    using Suc assms(2) by (rule mult_left_mono)
  moreover have "0 \<le> int (Suc m) * x ^ m * (z - x) ^ 2" using assms(1) by simp
  ultimately show ?case by (simp add: algebra_simps power2_eq_square)
qed simp

lemma newton_bound:
  fixes n x :: int
  assumes "0 < x" "0 \<le> n" "0 < k"
  defines "y \<equiv> (int (k - 1) * x + n div x ^ (k - 1)) div int k"
  shows "0 \<le> y" "n < (y + 1) ^ k" "x \<le> y \<Longrightarrow> x ^ k \<le> n"
proof -
  obtain m where m: "k = Suc m" using assms(3) by (cases k) auto
  define q where "q = n div x ^ m"
  have x: "0 < x ^ m" "0 \<le> q" using assms(1,2) by (simp_all add: q_def pos_imp_zdiv_nonneg_iff)
  have y: "y = (int m * x + q) div int (Suc m)" by (simp add: y_def m q_def)
  obtain r where r: "0 \<le> r" "r < int (Suc m)" "int (Suc m) * y + r = int m * x + q"
    by (rule that [of "(int m * x + q) mod int (Suc m)"]) (simp_all add: y del: of_nat_Suc)
  show y0: "0 \<le> y" using x assms(1) unfolding y by (intro div_int_pos_iff [THEN iffD2]) simp
  have "n < (q + 1) * x ^ m" using x(1) unfolding q_def by (metis div_mult_mod_eq add_strict_left_mono pos_mod_bound distrib_right mult_1)
  moreover have "q + 1 \<le> int (Suc m) * (y + 1) - int m * x" using r by (simp add: algebra_simps)
  then have "(q + 1) * x ^ m \<le> x ^ m * (int (Suc m) * (y + 1) - int m * x)"
    using x(1) by (metis mult.commute mult_left_mono less_imp_le)
  moreover have "x ^ m * (int (Suc m) * (y + 1) - int m * x) \<le> (y + 1) ^ Suc m"
    using power_tangent [of x "y + 1" m] assms(1) y0 by simp
  ultimately show "n < (y + 1) ^ k" unfolding m by linarith
  assume "x \<le> y"
  then have "int (Suc m) * x \<le> int (Suc m) * y" by (rule mult_left_mono) simp
  then have "int (Suc m) * x \<le> int m * x + q" using r by linarith
  then have "x \<le> q" by (simp add: algebra_simps)
  then have "x * x ^ m \<le> q * x ^ m" using x(1) by (simp add: mult_right_mono)
  also have "\<dots> \<le> n" unfolding q_def using x(1) by (metis add_increasing2 div_mult_mod_eq pos_mod_sign order_refl)
  finally show "x ^ k \<le> n" by (simp add: m)
qed

lemma sdiv_nonneg: "0 \<le> a \<Longrightarrow> 0 < b \<Longrightarrow> (a :: int) sdiv b = a div b"
  by (simp add: signed_divide_int_def sgn_if)

lemma newton_step_val:
  assumes "canonical n" "canonical x" "0 \<le> ival n" "0 < ival x" "1 \<le> k" "in_i64 k"
  shows "canonical (newton_step n k x)
    \<and> ival (newton_step n k x) = ((k - 1) * ival x + ival n div ival x ^ nat (k - 1)) div k"
proof -
  have k: "canonical (INT_VAL (k - 1))" "ival (INT_VAL (k - 1)) = k - 1" "canonical (INT_VAL k)" "ival (INT_VAL k) = k"
    using pq.lit [of "k - 1"] pq.lit [of k] assms(5,6) by (auto simp: in_i64_def)
  note p = pq_pow_val [OF assms(2), of "k - 1"]
  have p0: "0 < ival x ^ nat (k - 1)" using assms(4) by simp
  have d: "canonical (pq_divt n (pq_pow x (k - 1)))" "ival (pq_divt n (pq_pow x (k - 1))) = ival n div ival x ^ nat (k - 1)"
    using pq.divt [OF assms(1), of "pq_pow x (k - 1)"] p p0 assms(3-5) by (auto simp: sdiv_nonneg)
  define a where "a = pq_add (pq_mul (INT_VAL (k - 1)) x) (pq_divt n (pq_pow x (k - 1)))"
  have a: "canonical a" "ival a = (k - 1) * ival x + ival n div ival x ^ nat (k - 1)"
    using pq.mul [OF k(1) assms(2)] d k(2) pq.add [of "pq_mul (INT_VAL (k - 1)) x" "pq_divt n (pq_pow x (k - 1))"]
    by (simp_all add: a_def)
  have "0 \<le> ival n div ival x ^ nat (k - 1)" using p0 assms(3) by (simp add: pos_imp_zdiv_nonneg_iff)
  then have "0 \<le> ival a" using a(2) assms(4,5) by simp
  then show ?thesis
    using pq.divt [OF a(1) k(3)] k(4) a(2) assms(5) by (simp add: newton_step_def a_def [symmetric] sdiv_nonneg)
qed

lemma newton_loop:
  assumes "canonical n" "0 < ival n" "1 \<le> k" "in_i64 k" "canonical x" "0 < ival x" "ival n < (ival x + 1) ^ nat k"
  shows "\<exists>z. while_option (\<lambda>x. pq_cmp (newton_step n k x) x < 0) (newton_step n k) x = Some z
    \<and> canonical z \<and> 0 < ival z \<and> ival z ^ nat k \<le> ival n \<and> ival n < (ival z + 1) ^ nat k"
  using assms(5-7)
proof (induction "nat (ival x)" arbitrary: x rule: less_induct)
  case less
  define y where "y = newton_step n k x"
  have y: "canonical y" "ival y = (int (nat k - 1) * ival x + ival n div ival x ^ (nat k - 1)) div int (nat k)"
    using newton_step_val [OF assms(1) less.prems(1) _ less.prems(2) assms(3,4)] assms(2,3) unfolding y_def by (auto simp: of_nat_diff nat_diff_distrib')
  have k: "0 < nat k" using assms(3) by simp
  note b = newton_bound [OF less.prems(2) less_imp_le [OF assms(2)] k, folded y(2)]
  have c: "pq_cmp (newton_step n k x) x < 0 \<longleftrightarrow> ival y < ival x"
    using pq_cmp_val [OF y(1) less.prems(1)] by (simp add: y_def sgn_if)
  show ?case
  proof (cases "ival y < ival x")
    case False
    then show ?thesis using c b(3) less.prems by (subst while_option_unfold) simp
  next
    case True
    have "ival y \<noteq> 0" using b(2) assms(2) by auto
    then have "0 < ival y" using b(1) by simp
    from less.hyps [OF _ y(1) this b(2)] True c less.prems show ?thesis
      by (subst while_option_unfold) (simp add: y_def)
  qed
qed

text \<open>C15. The integer root: for a number of at least 52 bits and any degree, Newton's iteration ends, at
  the root rounded down, and the root is called exact just when the number is a perfect power.\<close>

theorem pq_iroot_root:
  assumes "canonical n" "2 ^ 52 \<le> ival n" "1 \<le> k" "k < 2 ^ 63"
  shows "\<exists>z exact. pq_iroot F n k = Some (z, exact) \<and> canonical z
    \<and> ival z ^ nat k \<le> ival n \<and> ival n < (ival z + 1) ^ nat k \<and> (exact \<longleftrightarrow> ival z ^ nat k = ival n)"
proof -
  have k: "in_i64 k" using assms(3,4) by (simp add: in_i64_def)
  have n: "0 < ival n" "\<not> pq_zero n" "\<not> pq_one n" "\<not> (case n of D_int i \<Rightarrow> sint i < 2 ^ 52 | _ \<Rightarrow> False)"
    using assms(1,2) pq.zero [OF assms(1)] pq.one [OF assms(1)] by (auto split: descr.split)
  define b where "b = pq_bits n div k + 1"
  define x where "x = pq_pow (INT_VAL 2) b"
  have bits: "pq_bits n = int (bit_len (nat (ival n)))" using pq_bits_val [OF assms(1)] n(1) by simp
  have b0: "0 \<le> b" using bits assms(3) by (simp add: b_def pos_imp_zdiv_nonneg_iff)
  have x: "canonical x" "ival x = 2 ^ nat b"
    using pq_pow_val [OF pq_lits(5) b0] unfolding x_def pq_lits(6) by auto
  have "pq_bits n mod k < k" using assms(3) by (intro pos_mod_bound) simp
  then have "pq_bits n \<le> k * b"
    using mult_div_mod_eq [of k "pq_bits n"] unfolding b_def distrib_left by linarith
  then have "bit_len (nat (ival n)) \<le> nat b * nat k"
    using bits b0 assms(3) by (simp add: nat_mult_distrib [symmetric] mult.commute nat_le_iff le_nat_iff)
  then have "nat (ival n) < 2 ^ (nat b * nat k)"
    using bit_len_upper [of "nat (ival n)"] power_increasing [of _ _ "2 :: nat"] by (meson less_le_trans one_le_numeral)
  then have "ival n < ival x ^ nat k" using n(1) by (simp add: x power_mult nat_less_iff)
  also have "\<dots> \<le> (ival x + 1) ^ nat k" by (intro power_mono) (simp_all add: x)
  finally obtain z where z: "while_option (\<lambda>x. pq_cmp (newton_step n k x) x < 0) (newton_step n k) x = Some z"
    "canonical z" "ival z ^ nat k \<le> ival n" "ival n < (ival z + 1) ^ nat k"
    using newton_loop [OF assms(1) n(1) assms(3) k x(1)] x(2) by auto
  have "pq_iroot F n k = Some (z, pq_cmp (pq_pow z k) n = 0)"
    using z(1) n by (simp add: pq_iroot_def x_def b_def)
  moreover have "pq_cmp (pq_pow z k) n = 0 \<longleftrightarrow> ival z ^ nat k = ival n"
    using pq_pow_val [OF z(2), of k] assms(1,3) by (simp add: pq_cmp_val sgn_0_0)
  ultimately show ?thesis using z by blast
qed

theorem pq_iroot_root_witness:
  "\<exists>z exact. pq_iroot fp_zero (D_int 0x10000000000001) 3 = Some (z, exact) \<and> canonical z
    \<and> ival z ^ nat 3 \<le> ival (D_int 0x10000000000001) \<and> ival (D_int 0x10000000000001) < (ival z + 1) ^ nat 3
    \<and> (exact \<longleftrightarrow> ival z ^ nat 3 = ival (D_int 0x10000000000001))"
proof -
  have "sint (0x10000000000001 :: u64) = 0x10000000000001"
    using sint_word_of_int64 [of "0x10000000000001"] by (simp add: in_i64_def)
  then show ?thesis by (intro pq_iroot_root) simp_all
qed

end
