(* ===== verification/Rk_Text.thy ===== *)
theory Rk_Text
  imports Pl_Rat
begin

text \<open>
  The text of Raku's rationals (\<open>src/runtime/rk_rat.c\<close>): literals, printing, printing in a base and
  the methods that answer by these. A text the code builds in a buffer is a list of characters; the
  script error raised on the way is a flag beside it.
\<close>

section \<open>Literals\<close>

text \<open>The loop over a literal without a slash: digits, how many follow the point, point seen, sign.\<close>

fun lit_scan :: "string \<Rightarrow> string \<times> nat \<times> bool \<times> bool \<Rightarrow> string \<times> nat \<times> bool \<times> bool" where
  "lit_scan [] st = st"
| "lit_scan (c # s) (dig, nf, seen, neg) =
     (if c = CHR ''-'' \<and> dig = [] \<and> \<not> seen then lit_scan s (dig, nf, seen, True)
      else if c = CHR ''.'' then lit_scan s (dig, nf, True, neg)
      else if dec_digit c \<noteq> None then lit_scan s (dig @ [c], (if seen then Suc nf else nf), seen, neg)
      else lit_scan s (dig, nf, seen, neg))"

definition rk_rat_lit :: "fp_ops \<Rightarrow> string \<Rightarrow> qdescr option" where
  "rk_rat_lit F txt =
     (case strchr_pos CHR ''/'' txt of
        Some sl \<Rightarrow>
          (let nb = filter (\<lambda>c. dec_digit c \<noteq> None \<or> c = CHR ''-'') (take sl txt);
               db = filter (\<lambda>c. dec_digit c \<noteq> None) (drop (Suc sl) txt)
           in if nb = [] \<or> db = [] then Some (Q_val (INT_VAL 0))
              else rk_rat_new F (rt_big_from_str nb) (rt_big_from_str db) False)
      | None \<Rightarrow>
          (let (dig, nf, seen, neg) = lit_scan txt ([], 0, False, False)
           in if dig = [] then Some (Q_val (INT_VAL 0))
              else let n = rt_big_from_str dig; n = (if neg then bi_neg n else n)
                   in rq_make F n (bi_pow (INT_VAL 10) (int nf)) False))"

section \<open>Printing\<close>

definition rq_pow10_cmp_den :: "descr \<Rightarrow> bool" where
  "rq_pow10_cmp_den d \<longleftrightarrow> bi_cmp d (INT_VAL 100000) < 0"

definition rq_chars :: "descr \<Rightarrow> nat" where
  "rq_chars a =
     (case a of D_int i \<Rightarrow> length ((if sint i < 0 then ''-'' else []) @ dec_str (nat \<bar>sint i\<bar>))
      | _ \<Rightarrow> length (rt_big_str a))"

text \<open>Divide out a prime while the rest is not one; divide out a prime and count how often.\<close>

definition strip_factor :: "int \<Rightarrow> descr \<Rightarrow> descr option" where
  "strip_factor p t =
     while_option (\<lambda>t. \<not> bi_one t \<and> bi_zero (bi_modt t (INT_VAL p))) (\<lambda>t. bi_divt t (INT_VAL p)) t"

definition count_factor :: "int \<Rightarrow> descr \<Rightarrow> (descr \<times> nat) option" where
  "count_factor p u =
     while_option (\<lambda>(u, k). bi_zero (bi_modt u (INT_VAL p))) (\<lambda>(u, k). (bi_divt u (INT_VAL p), Suc k)) (u, 0)"

definition strip_zeros_end :: "string \<Rightarrow> string" where
  "strip_zeros_end s = rev (dropWhile (\<lambda>c. c = CHR ''0'') (rev s))"

text \<open>The text, and whether the script's division-by-zero error was raised.\<close>

definition rk_rat_str :: "fp_ops \<Rightarrow> qdescr \<Rightarrow> bool \<Rightarrow> (string \<times> bool) option" where
  "rk_rat_str F v raku =
     (case rq_get v of None \<Rightarrow> Some ([], False)
      | Some (n, d, fat) \<Rightarrow>
          (let sign = (if bi_sgn n < 0 then ''-'' else [])
           in if bi_zero d
              then Some (if raku then (''<'' @ rt_big_str n @ ''/0>'', False) else ([], True))
              else let an = bi_abs n; whole = bi_divt an d; fn = bi_modt an d; ws = rt_big_str whole
                in if raku \<and> \<not> fat
                   then do {
                     t \<leftarrow> strip_factor 5 d;
                     t \<leftarrow> strip_factor 2 t;
                     if bi_one d then Some (sign @ ws @ ''.0'', False)
                     else if \<not> bi_one t then Some (''<'' @ rt_big_str n @ ''/'' @ rt_big_str d @ ''>'', False)
                     else do {
                       (u, k2) \<leftarrow> count_factor 2 d;
                       (u, k5) \<leftarrow> count_factor 5 u;
                       let k = max k2 k5;
                       let fs = rt_big_str (bi_floordiv (bi_mul fn (bi_pow (INT_VAL 10) (int k))) d);
                       Some (sign @ ws @ ''.'' @ replicate (k - length fs) CHR ''0'' @ fs, False)
                     }
                   }
                   else if raku then Some (''FatRat.new('' @ rt_big_str n @ '', '' @ rt_big_str d @ '')'', False)
                   else if bi_zero fn then Some (sign @ ws, False)
                   else let digits = (if \<not> fat then (if rq_pow10_cmp_den d then 6 else rq_chars d + 1)
                                      else if rq_pow10_cmp_den d then 6 else rq_chars d + rq_chars whole + 5);
                            p10 = bi_pow (INT_VAL 10) (int digits);
                            sc = bi_floordiv (bi_add (bi_mul (bi_mul fn p10) (INT_VAL 2)) d) (bi_mul d (INT_VAL 2));
                            sc = (if \<not> fat \<and> (case (fn, d) of (D_int _, D_int _) \<Rightarrow> True | _ \<Rightarrow> False)
                                     \<and> fp_eq F (rat_dbl F fn d) 0x3FF0000000000000 then p10 else sc)
                        in if bi_cmp sc p10 \<ge> 0 then Some (sign @ rt_big_str (bi_add whole (INT_VAL 1)), False)
                           else let fs = rt_big_str sc;
                                    fr = strip_zeros_end (replicate (digits - length fs) CHR ''0'' @ fs)
                                in Some (sign @ ws @ (if fr = [] then [] else ''.'' @ fr), False)))"

section \<open>In a base\<close>

definition base_char :: "int \<Rightarrow> char" where
  "base_char r = ''0123456789ABCDEFGHIJKLMNOPQRSTUVWXYZ'' ! nat r"

fun base_loop :: "nat \<Rightarrow> descr \<Rightarrow> int \<Rightarrow> string \<Rightarrow> string" where
  "base_loop 0 v base out = out"
| "base_loop (Suc cap) v base out =
     (if bi_zero v then out
      else base_loop cap (bi_divt v (INT_VAL base)) base
             (base_char (sint (descr_i (bi_modt v (INT_VAL base)))) # out))"

text \<open>
  The room for the digits is an \<open>int\<close>; the run is \<open>None\<close> when it overflows, or when the array of digits,
  one longer, would have no positive length.
\<close>

definition bi_base_str :: "descr \<Rightarrow> int \<Rightarrow> string option" where
  "bi_base_str v base =
     (if bi_zero v then Some ''0''
      else let cap = bi_bits v + 2
        in if 0 \<le> cap \<and> cap + 1 < 2 ^ 31 then Some (base_loop (nat cap) v base []) else None)"

text \<open>
  \<open>rk_rat_base\<close>; \<open>log_digits d base\<close> is \<open>ceil(log(d) / log(base))\<close> in doubles. The inner \<open>None\<close> is the
  answer 0, not handled.
\<close>

definition rk_rat_base ::
    "fp_ops \<Rightarrow> (descr \<Rightarrow> int \<Rightarrow> int) \<Rightarrow> qdescr \<Rightarrow> qdescr \<Rightarrow> qdescr option \<Rightarrow> string option option" where
  "rk_rat_base F log_digits self radix digd =
     (case (self, radix) of
        (Q_rat fat n d, Q_val (D_int rx)) \<Rightarrow>
          (let base = sint rx; trailing = (digd \<noteq> None)
           in if bi_zero d \<or> base < 2 \<or> base > 36 then Some None
              else case (case digd of Some (Q_val (D_int k)) \<Rightarrow> (if sint k < 0 then None else Some (sint k))
                           | Some _ \<Rightarrow> None
                           | None \<Rightarrow> Some (if bi_cmp d (bi_pow (INT_VAL base) 6) < 0 then 6 else log_digits d base + 1)) of
                None \<Rightarrow> Some None
              | Some digits \<Rightarrow>
                  (if trailing \<and> digits = 0
                   then let rd = bi_floordiv (bi_add (bi_mul n (INT_VAL 2)) d) (bi_mul d (INT_VAL 2))
                        in map_option (\<lambda>rs. Some ((if bi_sgn rd < 0 then ''-'' else []) @ rs)) (bi_base_str (bi_abs rd) base)
                   else let sign = (if bi_sgn n < 0 then ''-'' else []); an = bi_abs n;
                            whole = bi_divt an d; r = bi_modt an d;
                            up = (\<not> bi_zero r \<and> fp_eq F (fp_div F (int_dbl F r) (int_dbl F d)) 0x3FF0000000000000);
                            whole = (if up then bi_add whole (INT_VAL 1) else whole);
                            r = (if up then INT_VAL 0 else r)
                        in do {
                          ws \<leftarrow> bi_base_str whole base;
                          if bi_zero r
                          then Some (Some (sign @ ws
                                 @ (if trailing \<and> digits \<noteq> 0 then ''.'' @ replicate (nat digits) CHR ''0'' else [])))
                          else do {
                            let B = bi_pow (INT_VAL base) digits;
                            let v = bi_floordiv (bi_add (bi_mul (bi_mul r B) (INT_VAL 2)) d) (bi_mul d (INT_VAL 2));
                            fs \<leftarrow> bi_base_str v base;
                            let force = (int (length fs) > digits);
                            ws \<leftarrow> (if force then bi_base_str (bi_add whole (INT_VAL 1)) base else Some ws);
                            let fr = (if force then tl fs else replicate (nat digits - length fs) CHR ''0'' @ fs);
                            let fr = (if trailing then fr else strip_zeros_end fr);
                            Some (Some (sign @ ws @ (if fr \<noteq> [] \<or> force then ''.'' else []) @ fr)) } }))
      | _ \<Rightarrow> Some None)"

section \<open>Dividing out a prime\<close>

lemma factor_step:
  assumes "canonical u" "0 < ival u" "1 < p" "in_i64 p"
  shows "bi_zero (bi_modt u (INT_VAL p)) \<longleftrightarrow> p dvd ival u"
    "p dvd ival u \<Longrightarrow> canonical (bi_divt u (INT_VAL p)) \<and> ival (bi_divt u (INT_VAL p)) = ival u div p
       \<and> 0 < ival u div p \<and> ival u div p < ival u \<and> p * (ival u div p) = ival u"
proof -
  have l: "canonical (INT_VAL p)" "ival (INT_VAL p) = p" "ival (INT_VAL p) \<noteq> 0" using bi.lit [OF assms(4)] assms(3) by auto
  note m = bi.modt [OF assms(1) l(1,3)] and d = bi.divt [OF assms(1) l(1,3)]
  show "bi_zero (bi_modt u (INT_VAL p)) \<longleftrightarrow> p dvd ival u"
    using m l(2) assms(2,3) bi.zero by (simp add: smod_mod_positive mod_eq_0_iff_dvd)
  assume "p dvd ival u"
  then obtain k where k: "ival u = p * k" by (elim dvdE)
  have "0 < k" using assms(2,3) unfolding k by (simp add: zero_less_mult_iff)
  moreover have "1 * k < p * k" using assms(3) \<open>0 < k\<close> by (intro mult_strict_right_mono)
  moreover have "ival u div p = k" unfolding k using assms(3) by simp
  ultimately show "canonical (bi_divt u (INT_VAL p)) \<and> ival (bi_divt u (INT_VAL p)) = ival u div p
       \<and> 0 < ival u div p \<and> ival u div p < ival u \<and> p * (ival u div p) = ival u"
    using d l(2) assms(2,3) k by (simp add: sdiv_nonneg)
qed

lemma strip_factor_val:
  assumes "canonical t" "0 < ival t" "1 < p" "in_i64 p"
  shows "\<exists>t' m. strip_factor p t = Some t' \<and> canonical t' \<and> 0 < ival t' \<and> ival t = p ^ m * ival t'
    \<and> (ival t' = 1 \<or> \<not> p dvd ival t')"
  using assms(1,2)
proof (induction "nat (ival t)" arbitrary: t rule: less_induct)
  case less
  note f = factor_step [OF less.prems assms(3,4)]
  show ?case
  proof (cases "\<not> bi_one t \<and> p dvd ival t")
    case False
    then have "strip_factor p t = Some t"
      unfolding strip_factor_def using f(1) by (subst while_option_unfold) auto
    then show ?thesis
      using less.prems False bi.one [OF less.prems(1)] by (intro exI [of _ t] exI [of _ 0]) auto
  next
    case True
    define u where "u = bi_divt t (INT_VAL p)"
    have u: "canonical u" "0 < ival u" "ival u < ival t" "p * ival u = ival t"
      using f(2) True by (auto simp: u_def)
    have "nat (ival u) < nat (ival t)" using u(2,3) by simp
    from less.hyps [OF this u(1,2)] obtain t' m where t: "strip_factor p u = Some t'" "canonical t'" "0 < ival t'"
      "ival u = p ^ m * ival t'" "ival t' = 1 \<or> \<not> p dvd ival t'" by blast
    have "strip_factor p t = strip_factor p u"
      unfolding strip_factor_def u_def using True f(1) by (subst while_option_unfold) simp
    then show ?thesis using t u(4) by (intro exI [of _ t'] exI [of _ "Suc m"]) (simp add: mult.assoc)
  qed
qed

lemma count_factor_loop:
  assumes "canonical u" "0 < ival u" "1 < p" "in_i64 p"
  shows "\<exists>u' m. while_option (\<lambda>(u, k). bi_zero (bi_modt u (INT_VAL p))) (\<lambda>(u, k). (bi_divt u (INT_VAL p), Suc k)) (u, k)
      = Some (u', k + m) \<and> canonical u' \<and> 0 < ival u' \<and> ival u = p ^ m * ival u' \<and> \<not> p dvd ival u'"
  using assms(1,2)
proof (induction "nat (ival u)" arbitrary: u k rule: less_induct)
  case less
  note f = factor_step [OF less.prems assms(3,4)]
  let ?w = "while_option (\<lambda>(u, k). bi_zero (bi_modt u (INT_VAL p))) (\<lambda>(u, k). (bi_divt u (INT_VAL p), Suc k))"
  show ?case
  proof (cases "p dvd ival u")
    case False
    then have "?w (u, k) = Some (u, k + 0)" using f(1) by (subst while_option_unfold) simp
    then show ?thesis using less.prems False by (intro exI [of _ u] exI [of _ 0]) simp
  next
    case True
    define v where "v = bi_divt u (INT_VAL p)"
    have v: "canonical v" "0 < ival v" "ival v < ival u" "p * ival v = ival u"
      using f(2) [OF True] by (auto simp: v_def)
    have "nat (ival v) < nat (ival u)" using v(2,3) by simp
    from less.hyps [OF this v(1,2), of "Suc k"] obtain u' m where u: "?w (v, Suc k) = Some (u', Suc k + m)" "canonical u'"
      "0 < ival u'" "ival v = p ^ m * ival u'" "\<not> p dvd ival u'" by blast
    have "?w (u, k) = ?w (v, Suc k)" using f(1) True by (subst while_option_unfold) (simp add: v_def)
    then show ?thesis using u v(4) by (intro exI [of _ u'] exI [of _ "Suc m"]) (simp add: mult.assoc)
  qed
qed

text \<open>\<open>d\<close> is a product of twos and fives just when nothing is left; then it divides a power of ten.\<close>

lemma two_five:
  fixes u :: int
  assumes "5 ^ a * 2 ^ b = 2 ^ k2 * (5 ^ k5 * u)" "\<not> 2 dvd 5 ^ k5 * u" "\<not> 5 dvd u" "0 < u"
  shows "2 ^ k2 * (5 ^ k5 * u) dvd 10 ^ max k2 k5"
proof -
  have c2: "coprime u 2" using assms(2) by (auto simp: coprime_right_2_iff_odd)
  have c5: "coprime u 5"
  proof -
    have "u mod 5 \<in> {1, 2, 3, 4}" using assms(3) pos_mod_bound [of 5 u] pos_mod_sign [of 5 u]
      unfolding dvd_eq_mod_eq_0 insert_iff by arith
    moreover have "gcd 5 (3 :: int) = 1" "gcd 5 (4 :: int) = 1" by (simp_all add: gcd_non_0_int)
    ultimately have "gcd 5 (u mod 5) = 1" by auto
    then show ?thesis by (simp add: coprime_iff_gcd_eq_1 gcd.commute gcd_red_int [of u 5])
  qed
  have "coprime u (5 ^ a * 2 ^ b)" using c2 c5 by simp
  moreover have "u dvd 5 ^ a * 2 ^ b" unfolding assms(1) by simp
  then have "coprime u (5 ^ a * 2 ^ b) \<longleftrightarrow> u dvd 1" by (rule coprime_absorb_left)
  ultimately have "u dvd 1" by (simp only:)
  then have "u = 1" using assms(4) by simp
  moreover have "(2 :: int) ^ k2 dvd 2 ^ max k2 k5" "(5 :: int) ^ k5 dvd 5 ^ max k2 k5" by (auto intro: le_imp_power_dvd)
  then have "(2 :: int) ^ k2 * 5 ^ k5 dvd 2 ^ max k2 k5 * 5 ^ max k2 k5" by (rule mult_dvd_mono)
  ultimately show ?thesis by (simp flip: power_mult_distrib)
qed

section \<open>Reading back what was printed\<close>

definition all_digits :: "string \<Rightarrow> bool" where
  "all_digits s \<longleftrightarrow> (\<forall>c\<in>set s. \<exists>d<10. c = digit_char d)"

lemma all_digits_append [simp]: "all_digits (s @ t) \<longleftrightarrow> all_digits s \<and> all_digits t"
  by (auto simp: all_digits_def)

lemma all_digits_dec_str [simp]: "all_digits (dec_str n)"
  using dec_str_digits [of n] by (simp add: all_digits_def)

lemma all_digits_zeros [simp]: "all_digits (replicate k CHR ''0'')"
proof -
  have "CHR ''0'' = digit_char 0" using digit_char_0 by simp
  then show ?thesis unfolding all_digits_def by (metis in_set_replicate zero_less_numeral)
qed

lemma digit_not:
  assumes "d < 10"
  shows "digit_char d \<noteq> CHR ''-''" "digit_char d \<noteq> CHR ''.''" "digit_char d \<noteq> CHR ''/''" "digit_char d \<noteq> CHR ''<''"
    "digit_char d \<noteq> CHR ''>''" "dec_digit (digit_char d) \<noteq> None"
proof -
  have n: "digit_char d \<noteq> c" if "of_char c < (48 :: nat) \<or> 57 < (of_char c :: nat)" for c
    using of_char_digit [OF assms] that assms by auto
  show "digit_char d \<noteq> CHR ''-''" "digit_char d \<noteq> CHR ''.''" "digit_char d \<noteq> CHR ''/''" "digit_char d \<noteq> CHR ''<''"
    "digit_char d \<noteq> CHR ''>''" by (rule n; simp)+
  show "dec_digit (digit_char d) \<noteq> None" by (simp add: dec_digit_char [OF assms])
qed

lemma all_digits_not:
  assumes "all_digits s"
  shows "CHR ''/'' \<notin> set s" "filter (\<lambda>c. dec_digit c \<noteq> None) s = s"
    "filter (\<lambda>c. dec_digit c \<noteq> None \<or> c = CHR ''-'') s = s"
proof -
  show "CHR ''/'' \<notin> set s" using assms digit_not(3) unfolding all_digits_def by metis
  have "dec_digit c \<noteq> None" if "c \<in> set s" for c using assms digit_not(6) that unfolding all_digits_def by metis
  then show "filter (\<lambda>c. dec_digit c \<noteq> None) s = s" "filter (\<lambda>c. dec_digit c \<noteq> None \<or> c = CHR ''-'') s = s"
    by (auto simp: filter_id_conv)
qed

lemma digits_val_split: "digits_val dv b v s = v * b ^ length s + digits_val dv b 0 s"
proof (induction s arbitrary: v)
  case (Cons c s)
  show ?case using Cons [of "v * b + the (dv c)"] Cons [of "the (dv c)"] by (simp add: algebra_simps)
qed simp

lemma digits_val_append: "digits_val dv b 0 (s @ t) = digits_val dv b 0 s * b ^ length t + digits_val dv b 0 t"
proof -
  have "digits_val dv b 0 (s @ t) = digits_val dv b (digits_val dv b 0 s) t" by (simp add: digits_val_def)
  then show ?thesis by (simp only: digits_val_split [of dv b "digits_val dv b 0 s" t])
qed

lemma digits_val_zeros: "digits_val dec_digit 10 0 (replicate k CHR ''0'') = 0"
proof (induction k)
  case (Suc k)
  have "dec_digit CHR ''0'' = Some 0" by (simp add: dec_digit_def)
  then show ?case using Suc by simp
qed simp

lemma from_str_digits:
  assumes "all_digits s" "s \<noteq> []"
  shows "canonical (rt_big_from_str s) \<and> ival (rt_big_from_str s) = int (digits_val dec_digit 10 0 s)"
proof -
  obtain d t where s: "s = digit_char d # t" "d < 10" using assms by (cases s) (auto simp: all_digits_def)
  have "skip_blanks s = s" using digit_char_plain(3) [OF s(2)] by (simp add: s skip_blanks_def)
  then have r: "read_sign (skip_blanks s) = (False, s)"
    using digit_char_plain(1,2) [OF s(2)] by (simp add: s(1) read_sign_def)
  have "\<forall>c\<in>set s. dec_digit c \<noteq> None" using assms(1) by (auto simp: all_digits_def dec_digit_char)
  then have w: "takeWhile (\<lambda>c. dec_digit c \<noteq> None) s = s" "dropWhile (\<lambda>c. dec_digit c \<noteq> None) s = []" by simp_all
  show ?thesis using from_str_run(2) [OF r] assms(2) unfolding w by (simp add: skip_blanks_def)
qed

lemma lit_scan_append: "lit_scan (s @ t) st = lit_scan t (lit_scan s st)"
  by (induction s st rule: lit_scan.induct) auto

lemma lit_scan_digits:
  "all_digits s \<Longrightarrow> lit_scan s (dig, nf, seen, neg) = (dig @ s, (if seen then nf + length s else nf), seen, neg)"
proof (induction s arbitrary: dig nf)
  case (Cons c s)
  then obtain d where "d < 10" "c = digit_char d" "all_digits s" by (auto simp: all_digits_def)
  then show ?case using Cons.IH digit_not [of d] by simp
qed simp

lemma lit_text:
  assumes "all_digits ws" "all_digits fs" "ws \<noteq> []"
  defines "N \<equiv> int (digits_val dec_digit 10 0 (ws @ fs))"
  obtains n where "canonical n" "ival n = (if neg then - N else N)"
    "rk_rat_lit F ((if neg then ''-'' else []) @ ws @ ''.'' @ fs) = rq_make F n (bi_pow (INT_VAL 10) (int (length fs))) False"
proof -
  let ?s = "(if neg then ''-'' else []) @ ws @ ''.'' @ fs"
  define m where "m = rt_big_from_str (ws @ fs)"
  have m: "canonical m" "ival m = N" using from_str_digits [of "ws @ fs"] assms(1-3) by (simp_all add: m_def N_def)
  have "CHR ''/'' \<notin> set ?s" using all_digits_not(1) [OF assms(1)] all_digits_not(1) [OF assms(2)] by auto
  then have p: "strchr_pos CHR ''/'' ?s = None" unfolding strchr_pos_def by (rule if_not_P)
  have "lit_scan (if neg then ''-'' else []) ([], 0, False, False) = ([], 0, False, neg)" by simp
  then have "lit_scan ?s ([], 0, False, False) = (ws @ fs, length fs, True, neg)"
    by (simp only: lit_scan_append lit_scan_digits [OF assms(1)] if_True add_0 append_Nil lit_scan_digits [OF assms(2)]) (simp add: lit_scan_digits [OF assms(2)])
  then have "rk_rat_lit F ?s = rq_make F (if neg then bi_neg m else m) (bi_pow (INT_VAL 10) (int (length fs))) False"
    unfolding rk_rat_lit_def p using assms(3) by (simp add: m_def Let_def)
  then show thesis using m bi.neg [OF m(1)] by (intro that [of "if neg then bi_neg m else m"]) auto
qed

lemma rk_result_unique:
  assumes "rq_make F m e False = Some q" "rat_result F False r q" "canonical n" "canonical d" "low (ival n) (ival d) r"
    "ival d < 2 ^ 64"
  shows "q = Q_rat False n d"
proof -
  obtain n' d' where q: "canonical n'" "canonical d'" "low (ival n') (ival d') r"
    "q = (if \<not> False \<and> long_den (ival d') then REAL_VAL (rat_dbl F n' d') else Q_rat False n' d')"
    using assms(2) unfolding rat_result_def by blast
  have "ival n' = ival n" "ival d' = ival d" using low_unique [OF q(3) assms(5)] by auto
  then have "n' = n" "d' = d" using canonical_inject q(1,2) assms(3,4) by blast+
  moreover have "\<not> long_den (ival d)" using assms(5,6) by (intro short_den) (simp_all add: low_def)
  ultimately show ?thesis using q(4) by simp
qed

lemma rq_make_unique:
  assumes "canonical m" "canonical e" "ival e \<noteq> 0" "of_int (ival m) / of_int (ival e) = r"
    "canonical n" "canonical d" "low (ival n) (ival d) r" "ival d < 2 ^ 64"
  shows "rq_make F m e False = Some (Q_rat False n d)"
proof -
  obtain q where "rq_make F m e False = Some q" "rat_result F False r q"
    using rq_make_val [OF assms(1-3), of F False] unfolding assms(4) .
  then show ?thesis using rk_result_unique [OF _ _ assms(5-8)] by blast
qed

lemma rt_big_str_text:
  assumes "canonical a"
  shows "rt_big_str a = (if ival a < 0 then ''-'' else []) @ dec_str (nat \<bar>ival a\<bar>)" "rt_big_from_str (rt_big_str a) = a"
  using assms rt_big_str_dec [of a] from_str_text [OF assms] pq_text_dec [OF assms] by auto

text \<open>The fraction form, \<open><n/d>\<close>.\<close>

lemma lit_fraction:
  assumes "canonical n" "canonical d" "0 < ival d" "low (ival n) (ival d) r" "ival d < 2 ^ 64"
  shows "rk_rat_lit F (''<'' @ rt_big_str n @ ''/'' @ rt_big_str d @ ''>'') = Some (Q_rat False n d)"
proof -
  let ?s = "''<'' @ rt_big_str n @ ''/'' @ rt_big_str d @ ''>''"
  note n = rt_big_str_text [OF assms(1)] and d = rt_big_str_text [OF assms(2)]
  have no: "CHR ''/'' \<notin> set (''<'' @ rt_big_str n)" using all_digits_not(1) [OF all_digits_dec_str] by (auto simp: n(1))
  have "takeWhile (\<lambda>c. c \<noteq> CHR ''/'') ((''<'' @ rt_big_str n) @ ''/'' @ rt_big_str d @ ''>'')
      = (''<'' @ rt_big_str n) @ takeWhile (\<lambda>c. c \<noteq> CHR ''/'') (''/'' @ rt_big_str d @ ''>'')"
    by (rule takeWhile_append2) (use no in blast)
  then have p: "strchr_pos CHR ''/'' ?s = Some (Suc (length (rt_big_str n)))" by (simp add: strchr_pos_def)
  have o: "dec_digit CHR ''<'' = None" "dec_digit CHR ''>'' = None" by (simp_all add: dec_digit_def)
  have f: "filter (\<lambda>c. dec_digit c \<noteq> None \<or> c = CHR ''-'') (rt_big_str n) = rt_big_str n"
    "filter (\<lambda>c. dec_digit c \<noteq> None) (rt_big_str d) = rt_big_str d"
    using all_digits_not(2,3) [OF all_digits_dec_str] assms(3) by (simp_all add: n(1) d(1))
  have ne: "rt_big_str n \<noteq> []" "rt_big_str d \<noteq> []" using dec_str_digits by (simp_all add: n(1) d(1))
  have "rk_rat_lit F ?s = rk_rat_new F (rt_big_from_str (rt_big_str n)) (rt_big_from_str (rt_big_str d)) False"
    unfolding rk_rat_lit_def p using f o ne by simp
  also have "\<dots> = rq_make F n d False"
    using n(2) d(2) assms(1-3) bi.zero [OF assms(2)] by (auto simp: rk_rat_new_def bi_pq pq_int_def canonical_def split: descr.split)
  also have "\<dots> = Some (Q_rat False n d)"
    using assms by (intro rq_make_unique [where r = r]) (auto simp: low_def)
  finally show ?thesis .
qed

text \<open>The decimal form: sign, whole part, point and \<open>k\<close> digits.\<close>

lemma lit_decimal:
  assumes "canonical n" "canonical d" "low (ival n) (ival d) r" "ival d < 2 ^ 64"
    and "int w * 10 ^ k * ival d + int f * ival d = \<bar>ival n\<bar> * 10 ^ k" "all_digits fs" "length fs = k"
    "digits_val dec_digit 10 0 fs = f"
  shows "rk_rat_lit F ((if bi_sgn n < 0 then ''-'' else []) @ dec_str w @ ''.'' @ fs) = Some (Q_rat False n d)"
proof -
  have d: "0 < ival d" using assms(3) by (simp add: low_def)
  have N: "digits_val dec_digit 10 0 (dec_str w @ fs) = w * 10 ^ k + f"
    unfolding digits_val_append assms(7,8) using dec_str_digits [of w] by simp
  obtain m where m: "canonical m" "ival m = (if bi_sgn n < 0 then - int (w * 10 ^ k + f) else int (w * 10 ^ k + f))"
    "rk_rat_lit F ((if bi_sgn n < 0 then ''-'' else []) @ dec_str w @ ''.'' @ fs) = rq_make F m (bi_pow (INT_VAL 10) (int k)) False"
    using lit_text [OF all_digits_dec_str assms(6), of w "bi_sgn n < 0" F] dec_str_digits [of w] unfolding N assms(7) by blast
  have p: "canonical (bi_pow (INT_VAL 10) (int k))" "ival (bi_pow (INT_VAL 10) (int k)) = 10 ^ k"
    using bi_pow_val [OF pq_lits(7), of "int k"] pq_lits(8) by simp_all
  have "ival m * ival d = ival n * 10 ^ k"
    using assms(5) bi.sg [OF assms(1)] unfolding m(2) by (auto simp: sgn_if algebra_simps split: if_splits)
  then have "rat_of_int (ival m * ival d) = of_int (ival n * 10 ^ k)" by (simp only:)
  then have "of_int (ival m) / of_int (ival (bi_pow (INT_VAL 10) (int k))) = r"
    using d assms(3) unfolding p(2) low_def by (simp add: field_simps)
  then show ?thesis
    unfolding m(3) using m(1) p assms(1-4) by (intro rq_make_unique [where r = r]) auto
qed

text \<open>The decimal part of a denominator of twos and fives.\<close>

lemma decimal_part:
  assumes "canonical d" "1 < ival d" "strip_factor 5 d = Some t1" "strip_factor 2 t1 = Some t" "ival t = 1"
  obtains u1 k2 u2 k5 where "count_factor 2 d = Some (u1, k2)" "count_factor 5 u1 = Some (u2, k5)"
    "ival d dvd 10 ^ max k2 k5"
proof -
  have p: "(1 :: int) < 5" "in_i64 5" "(1 :: int) < 2" "in_i64 2" by (simp_all add: in_i64_def)
  have d: "0 < ival d" using assms(2) by simp
  obtain a where t1: "canonical t1" "0 < ival t1" "ival d = 5 ^ a * ival t1"
    using strip_factor_val [OF assms(1) d p(1,2)] assms(3) by auto
  obtain b where t: "ival t1 = 2 ^ b * ival t"
    using strip_factor_val [OF t1(1,2) p(3,4)] assms(4) by auto
  obtain u1 k2 where u1: "count_factor 2 d = Some (u1, k2)" "canonical u1" "0 < ival u1" "ival d = 2 ^ k2 * ival u1" "\<not> 2 dvd ival u1"
    using count_factor_loop [OF assms(1) d p(3,4), of 0] unfolding count_factor_def by auto
  obtain u2 k5 where u2: "count_factor 5 u1 = Some (u2, k5)" "0 < ival u2" "ival u1 = 5 ^ k5 * ival u2" "\<not> 5 dvd ival u2"
    using count_factor_loop [OF u1(2,3) p(1,2), of 0] unfolding count_factor_def by auto
  have "5 ^ a * 2 ^ b = 2 ^ k2 * (5 ^ k5 * ival u2)"
    using t1(3) t assms(5) u1(4) u2(3) by simp
  then have "2 ^ k2 * (5 ^ k5 * ival u2) dvd 10 ^ max k2 k5"
    by (rule two_five) (use u1(5) u2 in auto)
  then show thesis using u1 u2 by (intro that) auto
qed

lemma strip_runs:
  assumes "canonical d" "0 < ival d"
  obtains t1 t where "strip_factor 5 d = Some t1" "strip_factor 2 t1 = Some t" "canonical t"
proof -
  have p: "(1 :: int) < 5" "in_i64 5" "(1 :: int) < 2" "in_i64 2" by (simp_all add: in_i64_def)
  obtain t1 where t1: "strip_factor 5 d = Some t1" "canonical t1" "0 < ival t1"
    using strip_factor_val [OF assms p(1,2)] by blast
  obtain t where "strip_factor 2 t1 = Some t" "canonical t" using strip_factor_val [OF t1(2,3) p(3,4)] by blast
  then show thesis using t1(1) that by blast
qed

lemma whole_and_rest:
  assumes "canonical n" "canonical d" "0 < ival d"
  defines "w \<equiv> bi_divt (bi_abs n) d" and "f \<equiv> bi_modt (bi_abs n) d"
  shows "canonical w" "ival w = \<bar>ival n\<bar> div ival d" "canonical f" "ival f = \<bar>ival n\<bar> mod ival d"
    "rt_big_str w = dec_str (nat (\<bar>ival n\<bar> div ival d))"
proof -
  have a: "canonical (bi_abs n)" "ival (bi_abs n) = \<bar>ival n\<bar>"
    using bi.abs_val [OF assms(1)] by (simp_all add: bi_abs_def)
  show w: "canonical w" "ival w = \<bar>ival n\<bar> div ival d" "canonical f" "ival f = \<bar>ival n\<bar> mod ival d"
    using bi.divt [OF a(1) assms(2)] bi.modt [OF a(1) assms(2)] a(2) assms(3)
    by (auto simp: w_def f_def sdiv_nonneg smod_mod_positive)
  have "0 \<le> ival w" using w(2) assms(3) by (simp add: pos_imp_zdiv_nonneg_iff)
  then show "rt_big_str w = dec_str (nat (\<bar>ival n\<bar> div ival d))" using rt_big_str_text(1) [OF w(1)] w(2) by simp
qed

lemma pad_digits:
  assumes "canonical c" "0 \<le> ival c" "ival c < 10 ^ k" "0 < k"
  defines "fs \<equiv> replicate (k - length (rt_big_str c)) CHR ''0'' @ rt_big_str c"
  shows "all_digits fs" "length fs = k" "digits_val dec_digit 10 0 fs = nat (ival c)"
proof -
  have s: "rt_big_str c = dec_str (nat (ival c))" using rt_big_str_text(1) [OF assms(1)] assms(2) by simp
  have "length (dec_str (nat (ival c))) \<le> k"
  proof (cases "ival c = 0")
    case True
    then show ?thesis using assms(4) by (simp add: dec_str_small)
  next
    case False
    then have "10 ^ (length (dec_str (nat (ival c))) - 1) \<le> nat (ival c)" using assms(2) by (intro dec_str_length) simp
    also have "nat (ival c) < 10 ^ k" using assms(2,3) by (simp add: nat_less_iff)
    finally have "length (dec_str (nat (ival c))) - 1 < k" by (rule power_less_imp_less_exp [rotated]) simp
    then show ?thesis by linarith
  qed
  then show "length fs = k" by (simp add: fs_def s)
  show "all_digits fs" by (simp add: fs_def s)
  show "digits_val dec_digit 10 0 fs = nat (ival c)"
    using dec_str_digits [of "nat (ival c)"] by (simp add: fs_def s digits_val_append digits_val_zeros)
qed

text \<open>C35. Raku round trip: the \<open>.raku\<close> text of a \<open>Rat\<close> in lowest terms, whether it comes out whole, as an
  exact decimal or as a fraction, is a literal that makes the same \<open>Rat\<close>, and no error is raised.\<close>

theorem rk_rat_raku_roundtrip:
  assumes "canonical n" "canonical d" "0 < ival d" "coprime (ival n) (ival d)" "ival d < 2 ^ 64"
  shows "\<exists>s. rk_rat_str F (Q_rat False n d) True = Some (s, False) \<and> rk_rat_lit F s = Some (Q_rat False n d)"
proof -
  define r where "r = rat_of_int (ival n) / of_int (ival d)"
  have low: "low (ival n) (ival d) r" using assms by (simp add: low_def r_def)
  note w = whole_and_rest [OF assms(1-3)]
  define sign where "sign = (if bi_sgn n < 0 then ''-'' else [])"
  define whole fn where "whole = bi_divt (bi_abs n) d" and "fn = bi_modt (bi_abs n) d"
  have z: "\<not> bi_zero d" using bi.zero [OF assms(2)] assms(3) by simp
  obtain t1 t where t: "strip_factor 5 d = Some t1" "strip_factor 2 t1 = Some t" "canonical t"
    by (rule strip_runs [OF assms(2,3)])
  note run = rk_rat_str_def rq_get.simps option.case prod.case if_not_P [OF z] Let_def simp_thms if_True if_False
    t(1,2) Option.bind.simps
  consider "bi_one d" | "\<not> bi_one d" "\<not> bi_one t" | "\<not> bi_one d" "bi_one t" by blast
  then show ?thesis
  proof cases
    case 1
    then have d1: "ival d = 1" using bi.one [OF assms(2)] by simp
    have "rk_rat_lit F (sign @ dec_str (nat \<bar>ival n\<bar>) @ ''.'' @ replicate 1 CHR ''0'') = Some (Q_rat False n d)"
      unfolding sign_def
      by (rule lit_decimal [OF assms(1,2) low assms(5), where f = 0]) (simp_all only: digits_val_zeros all_digits_zeros length_replicate, simp_all add: d1)
    moreover have "rk_rat_str F (Q_rat False n d) True = Some (sign @ dec_str (nat \<bar>ival n\<bar>) @ ''.0'', False)"
      unfolding run using 1 w(5) d1 by (simp add: sign_def)
    ultimately show ?thesis by auto
  next
    case 2
    have "rk_rat_str F (Q_rat False n d) True = Some (''<'' @ rt_big_str n @ ''/'' @ rt_big_str d @ ''>'', False)"
      unfolding run using 2 by simp
    then show ?thesis using lit_fraction [OF assms(1-3) low assms(5)] by blast
  next
    case 3
    have "1 < ival d" "ival t = 1" using 3 bi.one [OF assms(2)] bi.one [OF t(3)] assms(3) by auto
    then obtain u1 k2 u2 k5 where k: "count_factor 2 d = Some (u1, k2)" "count_factor 5 u1 = Some (u2, k5)"
      "ival d dvd 10 ^ max k2 k5" using decimal_part [OF assms(2) _ t(1,2)] by blast
    define k where "k = max k2 k5"
    have k0: "0 < k"
    proof (rule ccontr)
      assume "\<not> 0 < k"
      then have "k2 = 0" "k5 = 0" by (simp_all add: k_def)
      then show False using k(3) \<open>1 < ival d\<close> by simp
    qed
    define c where "c = bi_floordiv (bi_mul fn (bi_pow (INT_VAL 10) (int k))) d"
    have p: "canonical (bi_pow (INT_VAL 10) (int k))" "ival (bi_pow (INT_VAL 10) (int k)) = 10 ^ k"
      using bi_pow_val [OF pq_lits(7), of "int k"] pq_lits(8) by simp_all
    have fn: "canonical fn" "ival fn = \<bar>ival n\<bar> mod ival d" using w(3,4) by (simp_all add: fn_def)
    have c: "canonical c" "ival c = ival fn * 10 ^ k div ival d"
      using bi.mul [OF fn(1) p(1)] p(2) assms(2,3) bi_floordiv_val [of "bi_mul fn (bi_pow (INT_VAL 10) (int k))" d]
      by (simp_all add: c_def)
    have cd: "ival c * ival d = ival fn * 10 ^ k"
      unfolding c(2) using k(3) by (intro dvd_div_mult_self) (simp add: k_def)
    have f: "0 \<le> ival fn" "ival fn < ival d" using fn(2) assms(3) by simp_all
    have c0: "0 \<le> ival c" using c(2) f assms(3) by (simp add: pos_imp_zdiv_nonneg_iff)
    have "ival c * ival d < 10 ^ k * ival d" unfolding cd using f(2) by simp
    then have "ival c < 10 ^ k" using assms(3) by simp
    note fs = pad_digits [OF c(1) c0 this k0]
    have "\<bar>ival n\<bar> = \<bar>ival n\<bar> div ival d * ival d + ival fn" using fn(2) by simp
    then have "\<bar>ival n\<bar> * 10 ^ k = (\<bar>ival n\<bar> div ival d * ival d + ival fn) * 10 ^ k" by (rule arg_cong)
    then have e: "int (nat (\<bar>ival n\<bar> div ival d)) * 10 ^ k * ival d + int (nat (ival c)) * ival d = \<bar>ival n\<bar> * 10 ^ k"
      using c0 cd assms(3) by (simp add: pos_imp_zdiv_nonneg_iff distrib_right mult.assoc mult.commute [of "ival d"])
    have "rk_rat_str F (Q_rat False n d) True = Some (sign @ dec_str (nat (\<bar>ival n\<bar> div ival d)) @ ''.''
        @ replicate (k - length (rt_big_str c)) CHR ''0'' @ rt_big_str c, False)"
      unfolding run using 3 k(1,2) w(5) by (simp add: sign_def c_def fn_def k_def)
    moreover have "rk_rat_lit F (sign @ dec_str (nat (\<bar>ival n\<bar> div ival d)) @ ''.''
        @ replicate (k - length (rt_big_str c)) CHR ''0'' @ rt_big_str c) = Some (Q_rat False n d)"
      unfolding sign_def by (rule lit_decimal [OF assms(1,2) low assms(5) e fs])
    ultimately show ?thesis by blast
  qed
qed

theorem rk_rat_raku_roundtrip_witness:
  "\<exists>s. rk_rat_str fp_zero (Q_rat False (D_int (- 1)) (D_int 2)) True = Some (s, False)
     \<and> rk_rat_lit fp_zero s = Some (Q_rat False (D_int (- 1)) (D_int 2))"
  by (rule rk_rat_raku_roundtrip) (simp_all add: sint_2 sint_min)

end
