(* ===== verification/Rk_Method.thy ===== *)
theory Rk_Method
  imports Rk_Text
begin

text \<open>
  The rest of Raku's number conversions in \<open>src/runtime/rk_rat.c\<close>: the methods of rationals and of
  integers, exact powers, and numbers written in a radix.
\<close>

section \<open>Methods\<close>

text \<open>The integer a rational is truncated to, and whether the division-by-zero error was raised.\<close>

definition rk_rat_to_int :: "fp_ops \<Rightarrow> qdescr \<Rightarrow> (int \<times> bool) option" where
  "rk_rat_to_int F v =
     (case v of Q_val _ \<Rightarrow> None
      | Q_rat _ n d \<Rightarrow>
          (if bi_zero d then Some (0, True)
           else let q = bi_divt n d
             in Some (case q of D_int i \<Rightarrow> sint i | _ \<Rightarrow> fp_int F (int_dbl F q), False)))"

definition rk_rat_truthy :: "qdescr \<Rightarrow> bool" where
  "rk_rat_truthy v = (case v of Q_rat _ n d \<Rightarrow> \<not> bi_zero n | Q_val _ \<Rightarrow> False)"

definition rk_rat_pow :: "fp_ops \<Rightarrow> qdescr \<Rightarrow> qdescr \<Rightarrow> rk_res option" where
  "rk_rat_pow F a b =
     (case (rq_get a, rq_get b) of
        (Some (an, ad, fa), Some (bn, bd, fb)) \<Rightarrow>
          (let fat = fa \<or> fb; aint = (rq_kind a = 0)
           in if \<not> bi_one bd then Some (Done (Q_val D_fail))
              else if bi_zero an \<and> bi_sgn bn < 0 then Some (Dies ''infix:<**>'')
              else case bn of
                D_int i \<Rightarrow>
                  (if aint \<and> 0 \<le> sint i then Some (Done (Q_val (bi_pow an (sint i)))) else rq_pow F an ad bn fat)
              | _ \<Rightarrow>
                  (if aint \<and> bi_sgn bn > 0 \<and> (bi_zero an \<or> bi_one an) then Some (Done (Q_val an))
                   else if aint \<and> bi_sgn bn > 0 \<and> bi_cmp an (INT_VAL (- 1)) = 0
                   then Some (Done (Q_val (INT_VAL (if rt_big_sign (rt_big_mod bn (INT_VAL 2)) \<noteq> 0 then - 1 else 1))))
                   else Some (Done (REAL_VAL (fp_pow F (rat_dbl F an ad) (int_dbl F bn))))))
      | _ \<Rightarrow> Some (Done (Q_val D_fail)))"

text \<open>A method is unknown, gives a value or a text (with the error flag of printing), or raises the error.\<close>

datatype rk_meth = No_method | Gives qdescr | Gives_str string bool | Dies_calling string

definition round_half :: "descr \<Rightarrow> descr \<Rightarrow> descr" where
  "round_half n d = bi_floordiv (bi_add (bi_mul n (INT_VAL 2)) d) (bi_mul d (INT_VAL 2))"

definition rk_rat_method :: "fp_ops \<Rightarrow> string \<Rightarrow> qdescr \<Rightarrow> qdescr option \<Rightarrow> rk_meth option" where
  "rk_rat_method F m self arg =
     (case self of Q_val _ \<Rightarrow> Some No_method
      | Q_rat fat n d \<Rightarrow>
         (if m = ''numerator'' then Some (Gives (Q_val n))
          else if m = ''denominator'' then Some (Gives (Q_val d))
          else if m = ''isNaN'' then Some (Gives (rq_bool (bi_zero d \<and> bi_zero n)))
          else if bi_zero d \<and> m \<in> {''Int'', ''truncate'', ''floor'', ''ceiling'', ''round'', ''succ'', ''pred''}
          then Some (Dies_calling m)
          else if m = ''Num'' \<or> m = ''Bridge'' then Some (Gives (REAL_VAL (rat_dbl F n d)))
          else if m = ''Real'' \<or> m = ''Numeric'' then Some (Gives self)
          else if m = ''Int'' \<or> m = ''truncate'' then Some (Gives (Q_val (bi_divt n d)))
          else if m = ''floor'' then Some (Gives (Q_val (bi_floordiv n d)))
          else if m = ''ceiling'' then Some (Gives (Q_val (bi_neg (bi_floordiv (bi_neg n) d))))
          else if m = ''round''
          then (case arg of None \<Rightarrow> Some (Gives (Q_val (round_half n d)))
                | Some av \<Rightarrow>
                    (case rq_get av of None \<Rightarrow> Some No_method
                     | Some (sn, sd, f2) \<Rightarrow>
                         (if bi_zero sn then Some No_method
                          else let qn = bi_mul n sd; qd = bi_mul d sn;
                                   r = (if bi_sgn qd < 0 then round_half (bi_neg qn) (bi_neg qd) else round_half qn qd)
                               in map_option Gives (rq_make F (bi_mul r sn) sd (fat \<or> f2)))))
          else if m = ''abs'' then map_option Gives (rq_make F (bi_abs n) d fat)
          else if m = ''sign'' then Some (Gives (Q_val (INT_VAL (bi_sgn n))))
          else if m = ''narrow'' then Some (Gives (if bi_one d then Q_val n else self))
          else if m = ''Rat'' then (if \<not> fat then Some (Gives self) else map_option Gives (rq_make F n d False))
          else if m = ''FatRat'' then Some (Gives (rq_new n d True))
          else if m = ''Str'' \<or> m = ''gist'' then map_option (\<lambda>(s, e). Gives_str s e) (rk_rat_str F self False)
          else if m = ''raku'' \<or> m = ''perl'' then map_option (\<lambda>(s, e). Gives_str s e) (rk_rat_str F self True)
          else if m = ''Bool'' \<or> m = ''so'' then Some (Gives (rq_bool (\<not> bi_zero n)))
          else if m = ''not'' then Some (Gives (rq_bool (bi_zero n)))
          else if m = ''succ'' then map_option Gives (rq_make F (bi_add n d) d fat)
          else if m = ''pred'' then map_option Gives (rq_make F (bi_sub n d) d fat)
          else if m = ''defined'' then Some (Gives (rq_bool True))
          else Some No_method))"

definition rk_rat_int_method :: "string \<Rightarrow> qdescr \<Rightarrow> rk_meth" where
  "rk_rat_int_method m self =
     (case self of
        Q_val v \<Rightarrow>
          (if \<not> bi_is v then No_method
           else if m = ''numerator'' then Gives self
           else if m = ''denominator'' then Gives (Q_val (INT_VAL 1))
           else if m = ''isNaN'' then Gives (rq_bool False)
           else if m = ''Rat'' then Gives (rq_new v (INT_VAL 1) False)
           else if m = ''FatRat'' then Gives (rq_new v (INT_VAL 1) True)
           else No_method)
      | _ \<Rightarrow> No_method)"

text \<open>The roundings; \<open>round\<close> takes halves up. On a zero denominator they raise the error under their name.\<close>

definition rk_rounding :: "string \<Rightarrow> rat \<Rightarrow> int" where
  "rk_rounding m r =
     (if m = ''floor'' then \<lfloor>r\<rfloor> else if m = ''ceiling'' then \<lceil>r\<rceil> else if m = ''round'' then \<lfloor>r + 1 / 2\<rfloor>
      else if r < 0 then \<lceil>r\<rceil> else \<lfloor>r\<rfloor>)"

lemma round_half_val:
  assumes "canonical n" "canonical d" "0 < ival d"
  shows "canonical (round_half n d) \<and> ival (round_half n d) = (2 * ival n + ival d) div (2 * ival d)"
  using bi.mul [OF assms(1) pq_lits(5)] bi.mul [OF assms(2) pq_lits(5)] pq_lits(6) assms
    bi.add [of "bi_mul n (INT_VAL 2)" d] bi_floordiv_val [of "bi_add (bi_mul n (INT_VAL 2)) d" "bi_mul d (INT_VAL 2)"]
  by (simp add: round_half_def mult.commute)

lemma rk_rat_method_rounds:
  assumes "canonical n" "canonical d" "low (ival n) (ival d) r" "m \<in> {''Int'', ''truncate'', ''floor'', ''ceiling'', ''round''}"
  shows "\<exists>v. rk_rat_method F m (Q_rat fat n d) None = Some (Gives (Q_val v)) \<and> canonical v \<and> ival v = rk_rounding m r"
proof -
  have d: "0 < ival d" "ival d \<noteq> 0" "\<not> bi_zero d" using assms(3) bi.zero [OF assms(2)] by (auto simp: low_def)
  note q = quotient_roundings [OF assms(3)]
  note run = rk_rat_method_def rk_rounding_def
  consider "m = ''Int''" | "m = ''truncate''" | "m = ''floor''" | "m = ''ceiling''" | "m = ''round''" using assms(4) by blast
  then show ?thesis
  proof cases
    case 4
    then show ?thesis
      using d bi.neg [OF assms(1)] bi_floordiv_val [of "bi_neg n" d] bi.neg [of "bi_floordiv (bi_neg n) d"] assms(2) q(2)
      by (simp add: run)
  next
    case 5
    then show ?thesis using d round_half_val [OF assms(1,2) d(1)] q(3) by (simp add: run)
  qed (use d bi.divt [OF assms(1,2) d(2)] bi_floordiv_val [OF assms(1,2) d(2)] q in \<open>simp_all add: run\<close>)
qed

lemma rk_rat_method_zero_den:
  assumes "m \<in> {''Int'', ''truncate'', ''floor'', ''ceiling'', ''round'', ''succ'', ''pred''}"
  shows "rk_rat_method F m (Q_rat fat n (INT_VAL 0)) arg = Some (Dies_calling m)"
  using assms by (auto simp: rk_rat_method_def bi_zero_def INT_VAL_def)

section \<open>Numbers in a radix\<close>

text \<open>A number, or the message of the conversion error.\<close>

datatype rrv = Number qdescr | Cannot_convert string

definition at0 :: "string \<Rightarrow> char" where
  "at0 s = (case s of [] \<Rightarrow> CHR 0x00 | c # _ \<Rightarrow> c)"

definition rrv_dv :: "char \<Rightarrow> int" where
  "rrv_dv c =
     (if CHR ''0'' \<le> c \<and> c \<le> CHR ''9'' then of_char c - 48
      else if CHR ''a'' \<le> c \<and> c \<le> CHR ''z'' then of_char c - 97 + 10
      else if CHR ''A'' \<le> c \<and> c \<le> CHR ''Z'' then of_char c - 65 + 10 else 99)"

text \<open>
  Digits with single underscores between them: the text left, the value, how many digits, and after
  how many of them the last one came that is not zero. \<open>prev\<close> is the character before.
\<close>

fun rrv_run :: "int \<Rightarrow> char \<Rightarrow> string \<Rightarrow> descr \<Rightarrow> nat \<Rightarrow> nat \<Rightarrow> string \<times> descr \<times> nat \<times> nat" where
  "rrv_run radix prev [] acc n lst = ([], acc, n, lst)"
| "rrv_run radix prev (c # s) acc n lst =
     (let dv = rrv_dv c
      in if dv < radix
         then rrv_run radix c s (bi_add (bi_mul acc (INT_VAL radix)) (INT_VAL dv)) (Suc n) (if dv \<noteq> 0 then Suc n else lst)
         else if c = CHR ''_'' \<and> 0 < n \<and> prev \<noteq> CHR ''_'' \<and> rrv_dv (at0 s) < radix
         then rrv_run radix c s acc n lst
         else (c # s, acc, n, lst))"

definition rrv_dec :: "char \<Rightarrow> string \<Rightarrow> string \<times> int" where
  "rrv_dec prev s =
     (let (p, acc, n, lst) = rrv_run 10 prev s (INT_VAL 0) 0 0
      in (p, case acc of D_int i \<Rightarrow> (if n \<noteq> 0 then sint i else - 1) | _ \<Rightarrow> - 1))"

definition rrv_die :: "string \<Rightarrow> int \<Rightarrow> string \<Rightarrow> rrv option" where
  "rrv_die pre radix post =
     Some (Cannot_convert (''Cannot convert string to number: '' @ pre @ fmt_int radix @ post))"

definition q1 :: "string \<Rightarrow> string" where
  "q1 s = CHR 0x27 # s @ [CHR 0x27]"

text \<open>The scale \<open>*b**e\<close> behind the digits: the text left and the factor.\<close>

definition rrv_scale :: "string \<Rightarrow> (string \<times> descr) option" where
  "rrv_scale p =
     (if at0 p \<noteq> CHR ''*'' then Some (p, INT_VAL 1)
      else let (p, b) = rrv_dec CHR ''*'' (tl p)
        in if take 2 p \<noteq> ''**'' \<or> b < 0 then None
           else let (p, e) = rrv_dec CHR ''*'' (drop 2 p)
             in if e < 0 then None else Some (p, bi_pow (INT_VAL b) e))"

definition rrv_body :: "fp_ops \<Rightarrow> string \<Rightarrow> int \<Rightarrow> char \<Rightarrow> rrv option" where
  "rrv_body F s radix endc =
     (let (p, ip, ni, _) = rrv_run radix CHR 0x00 s (INT_VAL 0) 0 0
      in if ni = 0 \<and> at0 p \<noteq> CHR ''.''
         then rrv_die ''base-'' radix ('' number must begin with valid digits or '' @ q1 ''.'')
         else let (p, fp, nf, lst) = (if at0 p = CHR ''.'' then rrv_run radix CHR ''.'' (tl p) (INT_VAL 0) 0 0
                                       else (p, INT_VAL 0, 1, 0))
           in if nf = 0
              then rrv_die ''radix point must be followed by one or more valid digits in base-'' radix '' number''
              else case rrv_scale p of
                  None \<Rightarrow> rrv_die ''malformed base-'' radix '' number scale''
                | Some (p, sc) \<Rightarrow>
                    (if at0 p \<noteq> endc \<or> endc \<noteq> CHR 0x00 \<and> at0 (tl p) \<noteq> CHR 0x00
                     then rrv_die (''malformed '' @ [CHR 0x27, CHR '':'']) radix
                            (CHR 0x27 # '' style radix number, expecting '' @ q1 ''>'' @ '' after the body'')
                     else if lst = 0 then Some (Number (Q_val (bi_mul ip sc)))
                     else let den = bi_pow (INT_VAL radix) (int nf)
                       in map_option Number
                            (rk_rat_new F (bi_mul (bi_add (bi_mul ip den) fp) sc) den False)))"

definition rk_radix_value :: "fp_ops \<Rightarrow> int \<Rightarrow> string \<Rightarrow> bool \<Rightarrow> rrv option" where
  "rk_radix_value F radix s unbase =
     (if radix < 2 \<or> radix > 36 then rrv_die ''radix '' radix '' is out of range, expecting 2 to 36''
      else let c = (if at0 s = CHR ''0'' then at0 (tl s) else CHR 0x00)
        in if c \<noteq> CHR 0x00 \<and>
              (if unbase then radix \<le> 11 \<and> c \<in> set ''xdob'' \<or> radix \<le> 24 \<and> (c = CHR ''o'' \<or> c = CHR ''x'')
                              \<or> radix \<le> 33 \<and> c = CHR ''x''
               else c \<in> set ''xdob'')
           then let radix = (if c = CHR ''x'' then 16 else if c = CHR ''o'' then 8 else if c = CHR ''d'' then 10 else 2);
                    p = drop 2 s
                in rrv_body F (if at0 p = CHR ''_'' then tl p else p) radix (CHR 0x00)
           else if unbase \<and> at0 s = CHR '':'' \<and> CHR ''1'' \<le> at0 (tl s) \<and> at0 (tl s) \<le> CHR ''9''
           then let (q, r2) = rrv_dec CHR '':'' (tl s)
                in if at0 q \<noteq> CHR ''<'' \<or> r2 < 2 \<or> r2 > 36
                   then rrv_die (''malformed '' @ [CHR 0x27, CHR '':'']) (c_int r2) (CHR 0x27 # '' style radix number'')
                   else rrv_body F (tl q) r2 CHR ''>''
           else rrv_body F s radix (CHR 0x00))"

section \<open>Reading back a number written in a base\<close>

lemma base_char_props:
  assumes "0 \<le> r" "r < 36"
  shows "rrv_dv (base_char r) = r" "base_char r = CHR ''0'' \<longleftrightarrow> r = 0" "base_char r \<noteq> CHR '':''"
proof -
  have "\<forall>k\<in>set [0..<36]. rrv_dv (''0123456789ABCDEFGHIJKLMNOPQRSTUVWXYZ'' ! k) = int k
      \<and> (''0123456789ABCDEFGHIJKLMNOPQRSTUVWXYZ'' ! k = CHR ''0'' \<longleftrightarrow> k = 0)
      \<and> ''0123456789ABCDEFGHIJKLMNOPQRSTUVWXYZ'' ! k \<noteq> CHR '':''" by code_simp
  then have "rrv_dv (base_char (int (nat r))) = int (nat r) \<and> (base_char (int (nat r)) = CHR ''0'' \<longleftrightarrow> nat r = 0)
      \<and> base_char (int (nat r)) \<noteq> CHR '':''"
    using assms by (simp add: base_char_def nat_less_iff)
  then show "rrv_dv (base_char r) = r" "base_char r = CHR ''0'' \<longleftrightarrow> r = 0" "base_char r \<noteq> CHR '':''"
    using assms(1) by simp_all
qed

text \<open>The number a list of digits stands for, most significant first.\<close>

definition radix_val :: "int \<Rightarrow> int \<Rightarrow> string \<Rightarrow> int" where
  "radix_val base = foldl (\<lambda>v c. v * base + rrv_dv c)"

lemma radix_val_simps [simp]:
  "radix_val base v [] = v" "radix_val base v (c # s) = radix_val base (v * base + rrv_dv c) s"
  "radix_val base v (s @ [c]) = radix_val base v s * base + rrv_dv c"
  by (simp_all add: radix_val_def)

lemma base_loop_digits:
  assumes "2 \<le> base" "base \<le> 36" "canonical v" "0 \<le> ival v" "ival v < base ^ cap"
  shows "\<exists>ds. base_loop cap v base out = ds @ out \<and> (\<forall>c\<in>set ds. 0 \<le> rrv_dv c \<and> rrv_dv c < base) \<and> radix_val base 0 ds = ival v
    \<and> (ival v = 0 \<longleftrightarrow> ds = []) \<and> (ds \<noteq> [] \<longrightarrow> hd ds \<notin> {CHR ''0'', CHR '':''})"
  using assms(3-5)
proof (induction cap arbitrary: v out)
  case 0
  then show ?case by (intro exI [of _ "[]"]) simp
next
  case (Suc cap)
  have l: "canonical (INT_VAL base)" "ival (INT_VAL base) = base" "ival (INT_VAL base) \<noteq> 0"
    using bi.lit [of base] assms(1,2) by (auto simp: in_i64_def)
  show ?case
  proof (cases "ival v = 0")
    case True
    then show ?thesis using bi.zero [OF Suc.prems(1)] by (intro exI [of _ "[]"]) simp
  next
    case False
    define u m where "u = bi_divt v (INT_VAL base)" and "m = bi_modt v (INT_VAL base)"
    have u: "canonical u" "ival u = ival v div base" "canonical m" "ival m = ival v mod base"
      using bi.divt [OF Suc.prems(1) l(1,3)] bi.modt [OF Suc.prems(1) l(1,3)] l(2) Suc.prems(2) assms(1)
      by (auto simp: u_def m_def sdiv_nonneg smod_mod_positive)
    have m: "0 \<le> ival m" "ival m < base" using u(4) assms(1) by simp_all
    then obtain i where i: "m = D_int i" using canonical_small [OF u(3)] assms(2) by (auto simp: in_i64_def)
    define c where "c = base_char (sint (descr_i m))"
    have c: "rrv_dv c = ival m" "c = CHR ''0'' \<longleftrightarrow> ival m = 0" "c \<noteq> CHR '':''"
      using base_char_props [of "ival m"] m assms(2) i by (auto simp: c_def)
    have u0: "0 \<le> ival u" using u(2) Suc.prems(2) assms(1) by (simp add: pos_imp_zdiv_nonneg_iff)
    have "ival v < base ^ cap * base" using Suc.prems(3) by (simp add: mult.commute)
    moreover have "ival u * base \<le> ival v" using u(4) m(1) unfolding u(2) by (metis div_mult_mod_eq le_add_same_cancel1)
    ultimately have "ival u * base < base ^ cap * base" by linarith
    then have "ival u < base ^ cap" using assms(1) by simp
    from Suc.IH [OF u(1) u0 this, of "c # out"] obtain ds where ds: "base_loop cap u base (c # out) = ds @ c # out"
      "\<forall>c\<in>set ds. 0 \<le> rrv_dv c \<and> rrv_dv c < base" "radix_val base 0 ds = ival u" "ival u = 0 \<longleftrightarrow> ds = []"
      "ds \<noteq> [] \<longrightarrow> hd ds \<notin> {CHR ''0'', CHR '':''}" by blast
    have "base_loop (Suc cap) v base out = base_loop cap u base (c # out)"
      using False bi.zero [OF Suc.prems(1)] by (simp add: u_def c_def m_def)
    moreover have "radix_val base 0 (ds @ [c]) = ival v" using ds(3) c(1) u(2,4) by simp
    moreover have "ds = [] \<longrightarrow> ival m \<noteq> 0" using ds(4) u(2,4) False by (metis div_mult_mod_eq add.right_neutral mult_zero_left)
    then have "hd (ds @ [c]) \<notin> {CHR ''0'', CHR '':''}" using ds(5) c(2,3) by (cases ds) auto
    ultimately show ?thesis using ds(1,2) c(1) m False by (intro exI [of _ "ds @ [c]"]) auto
  qed
qed

lemma rrv_run_digits:
  assumes "2 \<le> base" "base \<le> 36" "canonical acc" "\<forall>c\<in>set ds. 0 \<le> rrv_dv c \<and> rrv_dv c < base"
  shows "\<exists>a l. rrv_run base prev ds acc n l0 = ([], a, n + length ds, l) \<and> canonical a \<and> ival a = radix_val base (ival acc) ds"
  using assms(3,4)
proof (induction ds arbitrary: prev acc n l0)
  case (Cons c ds)
  have l: "canonical (INT_VAL base)" "ival (INT_VAL base) = base"
    using bi.lit [of base] assms(1,2) by (auto simp: in_i64_def)
  have dv: "canonical (INT_VAL (rrv_dv c))" "ival (INT_VAL (rrv_dv c)) = rrv_dv c"
    using bi.lit [of "rrv_dv c"] Cons.prems(2) assms(2) by (auto simp: in_i64_def)
  define a where "a = bi_add (bi_mul acc (INT_VAL base)) (INT_VAL (rrv_dv c))"
  have a: "canonical a" "ival a = ival acc * base + rrv_dv c"
    using bi.mul [OF Cons.prems(1) l(1)] bi.add [of "bi_mul acc (INT_VAL base)" "INT_VAL (rrv_dv c)"] l(2) dv by (simp_all add: a_def)
  define l1 where "l1 = (if rrv_dv c \<noteq> 0 then Suc n else l0)"
  have "rrv_run base prev (c # ds) acc n l0 = rrv_run base c ds a (Suc n) l1"
    using Cons.prems(2) by (simp add: a_def l1_def)
  then show ?case using Cons.IH [OF a(1), of c "Suc n" l1] Cons.prems(2) a(2) by simp
qed simp

text \<open>C36. Radix round trip: a number that is not negative and shorter than \<open>2 ^ 31 - 3\<close> bits, for which the
  room that \<open>bi_base_str\<close> counts in an \<open>int\<close> does not overflow, can be written in every base from 2 to 36, and
  the text, read back as a number of that radix under either rule for prefixes, is the same number.\<close>

theorem rk_radix_roundtrip:
  assumes "canonical v" "0 \<le> ival v" "bit_len (nat (ival v)) < 2 ^ 31 - 3" "2 \<le> base" "base \<le> 36"
  shows "\<exists>s. bi_base_str v base = Some s \<and> rk_radix_value F base s unbase = Some (Number (Q_val v))"
proof -
  obtain ds where ds: "bi_base_str v base = Some ds" "\<forall>c\<in>set ds. 0 \<le> rrv_dv c \<and> rrv_dv c < base" "radix_val base 0 ds = ival v"
    "ds \<noteq> []" "hd ds \<noteq> CHR '':''" "hd ds = CHR ''0'' \<longrightarrow> tl ds = []"
  proof (cases "ival v = 0")
    case True
    then have "bi_base_str v base = Some ''0''" using bi.zero [OF assms(1)] by (simp add: bi_base_str_def)
    moreover have "rrv_dv CHR ''0'' = 0" by (simp add: rrv_dv_def)
    ultimately show thesis using that [of "''0''"] True assms(4) by simp
  next
    case False
    define cap where "cap = nat (bi_bits v + 2)"
    have b: "bi_bits v = int (bit_len (nat (ival v)))"
      using bi_bits_val [OF assms(1)] assms(2,3) by (simp add: c_int_small)
    have "nat (ival v) < 2 ^ bit_len (nat (ival v))" by (rule bit_len_upper)
    also have "\<dots> \<le> 2 ^ cap" by (rule power_increasing) (simp_all add: cap_def b nat_add_distrib)
    finally have "ival v < 2 ^ cap" using assms(2) by (simp add: nat_less_iff)
    also have "\<dots> \<le> base ^ cap" using assms(4) by (intro power_mono) simp_all
    finally obtain ds where "base_loop cap v base [] = ds @ []" "\<forall>c\<in>set ds. 0 \<le> rrv_dv c \<and> rrv_dv c < base"
      "radix_val base 0 ds = ival v" "ival v = 0 \<longleftrightarrow> ds = []" "ds \<noteq> [] \<longrightarrow> hd ds \<notin> {CHR ''0'', CHR '':''}"
      using base_loop_digits [OF assms(4,5,1,2), of cap "[]"] by blast
    then show thesis
      using that [of ds] False bi.zero [OF assms(1)] assms(3) b by (auto simp: bi_base_str_def cap_def)
  qed
  have z: "canonical (INT_VAL 0)" "ival (INT_VAL 0) = 0" by (rule pq_lits)+
  obtain a l where a: "rrv_run base CHR 0x00 ds (INT_VAL 0) 0 0 = ([], a, length ds, l)" "canonical a" "ival a = ival v"
    using rrv_run_digits [OF assms(4,5) z(1) ds(2), of "CHR 0x00" 0 0] z(2) ds(3) by auto
  have "a = v" using canonical_inject [OF a(2) assms(1)] a(3) by blast
  moreover have "bi_mul v (INT_VAL 1) = v"
    using bi.mul [OF assms(1) pq_lits(3)] pq_lits(4) canonical_inject [of "bi_mul v (INT_VAL 1)" v] assms(1) by simp
  ultimately have body: "rrv_body F ds base CHR 0x00 = Some (Number (Q_val v))"
    using a(1) ds(4) by (simp add: rrv_body_def rrv_scale_def at0_def)
  have "(if at0 ds = CHR ''0'' then at0 (tl ds) else CHR 0x00) = CHR 0x00" "at0 ds \<noteq> CHR '':''"
    using ds(4-6) by (cases ds; simp add: at0_def)+
  then show ?thesis using body assms(4,5) ds(1) by (simp add: rk_radix_value_def)
qed

theorem rk_radix_roundtrip_witness:
  "\<exists>s. bi_base_str (D_int 2) 36 = Some s \<and> rk_radix_value fp_zero 36 s True = Some (Number (Q_val (D_int 2)))"
proof (rule rk_radix_roundtrip)
  have "bit_len 2 \<le> 64" by (subst bit_len_64) simp
  then show "bit_len (nat (ival (D_int 2))) < 2 ^ 31 - 3" by (simp add: sint_2)
qed (simp_all add: sint_2)

end
