(* ===== verification/Probe.thy ===== *)
theory Probe
  imports Scrip_Prelude "HOL-Library.While_Combinator"
begin

text \<open>
  Open addressing with linear probing. Five hash tables of the compiler walk their slots in the same
  loop, \<open>while (!stop(tab[s])) s = (s + 1) & (cap - 1)\<close>; \<open>probe_run\<close> is that loop and the locale
  \<open>probing\<close> what the tables share: from the slot its key hashes to, a walk over a table that is not
  full ends at the key, or at an empty slot when the key is not there, and storing the key at that
  slot keeps every other key within reach.
\<close>

definition probe_run :: "('e \<Rightarrow> bool) \<Rightarrow> 'e list \<Rightarrow> 'w::len word \<Rightarrow> 'w word \<Rightarrow> 'w word option" where
  "probe_run stop tab msk s = while_option (\<lambda>s. \<not> stop (tab ! unat s)) (\<lambda>s. (s + 1) AND msk) s"

lemma probe_run_stop: "stop (tab ! unat s) \<Longrightarrow> probe_run stop tab msk s = Some s"
  by (simp add: probe_run_def while_option_unfold)

lemma probe_run_next:
  "\<not> stop (tab ! unat s) \<Longrightarrow> probe_run stop tab msk s = probe_run stop tab msk ((s + 1) AND msk)"
  by (subst probe_run_def, subst while_option_unfold) (simp add: probe_run_def)

lemma unat_next_slot:
  fixes s :: "'w::len word"
  assumes "m < LENGTH('w)" "unat s < 2 ^ m"
  shows "unat ((s + 1) AND mask m) = (unat s + 1) mod 2 ^ m"
proof -
  have "unat ((s + 1) AND mask m) = unat (s + 1) mod 2 ^ m"
    by (simp add: take_bit_eq_mask [symmetric] unsigned_take_bit_eq take_bit_nat_def)
  also have "\<dots> = (unat s + 1) mod 2 ^ m"
  proof -
    have "(2::nat) ^ m dvd 2 ^ LENGTH('w)" using assms(1) by (simp add: le_imp_power_dvd)
    then show ?thesis
      by (simp add: unat_word_ariths(1) mod_mod_cancel)
  qed
  finally show ?thesis .
qed

lemma unat_mask_slot: "unat ((x :: 'w::len word) AND mask m) < 2 ^ m"
  by (simp add: take_bit_eq_mask [symmetric] unsigned_take_bit_eq take_bit_nat_def)

text \<open>The walk visits the slots in cyclic order and ends at the first where the loop stops.\<close>

lemma probe_run_at:
  fixes s :: "'w::len word"
  assumes "m < LENGTH('w)" "unat s < 2 ^ m"
    and "stop (tab ! ((unat s + d) mod 2 ^ m))" "\<And>e. e < d \<Longrightarrow> \<not> stop (tab ! ((unat s + e) mod 2 ^ m))"
  shows "\<exists>t. probe_run stop tab (mask m) s = Some t \<and> unat t = (unat s + d) mod 2 ^ m"
  using assms(2-)
proof (induction d arbitrary: s)
  case 0
  then show ?case by (simp add: probe_run_stop)
next
  case (Suc d)
  let ?n = "(s + 1) AND mask m"
  have n: "unat ?n = (unat s + 1) mod 2 ^ m" using assms(1) Suc.prems(1) by (rule unat_next_slot)
  have shift: "(unat ?n + e) mod 2 ^ m = (unat s + Suc e) mod 2 ^ m" for e
    by (simp add: n mod_add_left_eq)
  have "\<not> stop (tab ! ((unat s + 0) mod 2 ^ m))" by (rule Suc.prems(3)) simp
  then have "probe_run stop tab (mask m) s = probe_run stop tab (mask m) ?n"
    using Suc.prems(1) by (intro probe_run_next) simp
  moreover have "\<exists>t. probe_run stop tab (mask m) ?n = Some t \<and> unat t = (unat ?n + d) mod 2 ^ m"
  proof (rule Suc.IH)
    show "unat ?n < 2 ^ m" by (simp add: n)
    show "stop (tab ! ((unat ?n + d) mod 2 ^ m))" using Suc.prems(2) unfolding shift .
    show "\<not> stop (tab ! ((unat ?n + e) mod 2 ^ m))" if "e < d" for e
      using Suc.prems(3) [of "Suc e"] that unfolding shift by simp
  qed
  ultimately show ?case unfolding shift by simp
qed

lemma slot_reached:
  fixes h i c :: nat
  assumes "h < c" "i < c"
  shows "\<exists>d<c. (h + d) mod c = i"
proof (cases "h \<le> i")
  case True
  then show ?thesis using assms by (intro exI [of _ "i - h"]) auto
next
  case False
  then have "h + (i + c - h) = i + c" using assms by simp
  then show ?thesis using assms False by (intro exI [of _ "i + c - h"]) auto
qed

lemma unat_pow2:
  assumes "m < LENGTH('w)"
  shows "unat ((2 :: 'w::len word) ^ m) = 2 ^ m"
proof -
  have "(2 :: 'w word) ^ m = of_nat (2 ^ m)" by simp
  moreover have "(2 :: nat) ^ m < 2 ^ LENGTH('w)" using assms by simp
  ultimately show ?thesis by (simp only: unsigned_of_nat take_bit_nat_eq_self of_nat_id)
qed

text \<open>Doubling a power of two until it reaches a bound below the width of the word.\<close>

lemma double_until:
  assumes "n \<le> 2 ^ (LENGTH('w) - 1)" "k < LENGTH('w)"
  shows "\<exists>m. while_option (\<lambda>cap. cap < of_nat n) (push_bit 1) ((2 :: 'w::len word) ^ k) = Some (2 ^ m)
    \<and> k \<le> m \<and> m < LENGTH('w) \<and> n \<le> 2 ^ m"
  using assms(2)
proof (induction "LENGTH('w) - k" arbitrary: k)
  case (Suc d)
  have L: "0 < LENGTH('w)" by simp
  have "(2::nat) ^ (LENGTH('w) - 1) < 2 ^ LENGTH('w)" using L by simp
  then have n: "n < 2 ^ LENGTH('w)" using assms(1) by linarith
  have less: "(2 :: 'w word) ^ k < of_nat n \<longleftrightarrow> 2 ^ k < n"
    using n unat_pow2 [OF Suc.prems] by (simp add: word_less_nat_alt unsigned_of_nat take_bit_nat_eq_self)
  show ?case
  proof (cases "2 ^ k < n")
    case True
    then have "(2::nat) ^ k < 2 ^ (LENGTH('w) - 1)" using assms(1) by linarith
    then have k: "k < LENGTH('w) - 1" by simp
    have "push_bit 1 ((2 :: 'w word) ^ k) = 2 ^ Suc k" by (simp add: push_bit_eq_mult)
    moreover have "\<exists>m. while_option (\<lambda>cap. cap < of_nat n) (push_bit 1) ((2 :: 'w word) ^ Suc k) = Some (2 ^ m)
        \<and> Suc k \<le> m \<and> m < LENGTH('w) \<and> n \<le> 2 ^ m"
      by (rule Suc.hyps(1)) (use Suc.hyps(2) k in auto)
    ultimately show ?thesis using True less
      by (subst while_option_unfold) (auto simp: mult.commute dest: Suc_leD)
  next
    case False
    then show ?thesis using less Suc.prems
      by (subst while_option_unfold) (auto simp: not_less)
  qed
qed simp

lemma distinct_filter_nth:
  "(\<And>i j. i < length xs \<Longrightarrow> j < length xs \<Longrightarrow> P (xs ! i) \<Longrightarrow> xs ! i = xs ! j \<Longrightarrow> i = j) \<Longrightarrow> distinct (filter P xs)"
proof (induction xs)
  case (Cons x xs)
  have "distinct (filter P xs)"
    by (rule Cons.IH) (use Cons.prems in \<open>metis Suc_inject Suc_mono length_Cons nth_Cons_Suc\<close>)
  moreover have "x \<notin> set xs" if "P x"
  proof
    assume "x \<in> set xs"
    then obtain j where "j < length xs" "xs ! j = x" by (auto simp: in_set_conv_nth)
    then show False using Cons.prems [of 0 "Suc j"] that by simp
  qed
  ultimately show ?case by simp
qed simp

section \<open>The interface of the tables\<close>

text \<open>
  \<open>home\<close> is the slot a key hashes to in a table of a given mask and \<open>key\<close> the key an entry of the
  table holds.
\<close>

locale probing =
  fixes home :: "'k \<Rightarrow> 'w::len word \<Rightarrow> 'w word"
    and key :: "'e \<Rightarrow> 'k option"
  assumes home_fits: "m < LENGTH('w) \<Longrightarrow> unat (home k (mask m)) < 2 ^ m"
begin

definition stops :: "'k \<Rightarrow> 'e \<Rightarrow> bool" where
  "stops k e \<longleftrightarrow> key e = None \<or> key e = Some k"

definition hunt :: "'e list \<Rightarrow> nat \<Rightarrow> 'k \<Rightarrow> 'w word option" where
  "hunt tab m k = probe_run (stops k) tab (mask m) (home k (mask m))"

definition keys :: "'e list \<Rightarrow> 'k set" where
  "keys tab = {k. Some k \<in> key ` set tab}"

definition roomy :: "'e list \<Rightarrow> bool" where
  "roomy tab \<longleftrightarrow> (\<exists>e\<in>set tab. key e = None)"

definition reachable :: "nat \<Rightarrow> 'e list \<Rightarrow> bool" where
  "reachable m tab \<longleftrightarrow> m < LENGTH('w) \<and> length tab = 2 ^ m \<and>
     (\<forall>i<2 ^ m. \<forall>k. key (tab ! i) = Some k \<longrightarrow>
        (\<exists>d<2 ^ m. i = (unat (home k (mask m)) + d) mod 2 ^ m
           \<and> (\<forall>e<d. \<not> stops k (tab ! ((unat (home k (mask m)) + e) mod 2 ^ m)))))"

lemma reachable_empty:
  "m < LENGTH('w) \<Longrightarrow> key e = None \<Longrightarrow> reachable m (replicate (2 ^ m) e)"
  by (simp add: reachable_def)

lemma keys_empty: "key e = None \<Longrightarrow> keys (replicate n e) = {}"
  by (auto simp: keys_def)

lemma hunt_at:
  assumes "reachable m tab" "stops k (tab ! ((unat (home k (mask m)) + d) mod 2 ^ m))"
    and "\<And>e. e < d \<Longrightarrow> \<not> stops k (tab ! ((unat (home k (mask m)) + e) mod 2 ^ m))"
  shows "\<exists>t. hunt tab m k = Some t \<and> unat t = (unat (home k (mask m)) + d) mod 2 ^ m"
  unfolding hunt_def using assms by (intro probe_run_at) (auto simp: reachable_def home_fits)

text \<open>A walk over a table with room ends at a slot where the loop stops.\<close>

lemma hunt_ends:
  assumes "reachable m tab" "roomy tab"
  obtains t d where "hunt tab m k = Some t" "unat t = (unat (home k (mask m)) + d) mod 2 ^ m" "d < 2 ^ m"
    "stops k (tab ! unat t)"
    "\<And>e. e < d \<Longrightarrow> \<not> stops k (tab ! ((unat (home k (mask m)) + e) mod 2 ^ m))"
proof -
  let ?h = "unat (home k (mask m))"
  have m: "m < LENGTH('w)" "length tab = 2 ^ m" using assms(1) by (auto simp: reachable_def)
  obtain i where i: "i < 2 ^ m" "key (tab ! i) = None"
    using assms(2) m by (auto simp: roomy_def in_set_conv_nth)
  obtain d0 where d0: "d0 < 2 ^ m" "(?h + d0) mod 2 ^ m = i"
    using slot_reached [of ?h "2 ^ m" i] home_fits [OF m(1)] i(1) by blast
  define d where "d = (LEAST d. stops k (tab ! ((?h + d) mod 2 ^ m)))"
  have s0: "stops k (tab ! ((?h + d0) mod 2 ^ m))" using i d0 by (simp add: stops_def)
  have d: "stops k (tab ! ((?h + d) mod 2 ^ m))" unfolding d_def by (rule LeastI [of _ d0]) (rule s0)
  have le: "d \<le> d0" unfolding d_def by (rule Least_le) (rule s0)
  have before: "\<not> stops k (tab ! ((?h + e) mod 2 ^ m))" if "e < d" for e
    using that not_less_Least unfolding d_def by blast
  obtain t where "hunt tab m k = Some t" "unat t = (?h + d) mod 2 ^ m"
    using hunt_at [OF assms(1) d before] by auto
  then show thesis using that [of t d] d before le d0(1) by auto
qed

text \<open>The walk for a key in the table ends at that key, for another at an empty slot.\<close>

lemma hunt_finds:
  assumes "reachable m tab" "i < 2 ^ m" "key (tab ! i) = Some k"
  shows "\<exists>t. hunt tab m k = Some t \<and> unat t = i"
proof -
  obtain d where d: "i = (unat (home k (mask m)) + d) mod 2 ^ m"
      "\<And>e. e < d \<Longrightarrow> \<not> stops k (tab ! ((unat (home k (mask m)) + e) mod 2 ^ m))"
    using assms by (auto simp: reachable_def)
  show ?thesis using hunt_at [OF assms(1) _ d(2)] assms(3) d(1) by (auto simp: stops_def)
qed

lemma keys_distinct:
  assumes "reachable m tab" "i < 2 ^ m" "j < 2 ^ m" "key (tab ! i) = Some k" "key (tab ! j) = Some k"
  shows "i = j"
  using hunt_finds [OF assms(1,2,4)] hunt_finds [OF assms(1,3,5)] by auto

lemma hunt_result:
  assumes "reachable m tab" "roomy tab"
  shows "\<exists>t. hunt tab m k = Some t \<and> unat t < 2 ^ m
    \<and> key (tab ! unat t) = (if k \<in> keys tab then Some k else None)"
proof -
  obtain t d where t: "hunt tab m k = Some t" "unat t = (unat (home k (mask m)) + d) mod 2 ^ m"
      "stops k (tab ! unat t)"
    using hunt_ends [OF assms] by metis
  have len: "length tab = 2 ^ m" using assms(1) by (simp add: reachable_def)
  have lt: "unat t < 2 ^ m" using t(2) by simp
  show ?thesis
  proof (cases "k \<in> keys tab")
    case True
    then obtain i where "i < 2 ^ m" "key (tab ! i) = Some k"
      using len by (fastforce simp: keys_def in_set_conv_nth)
    then have "unat t = i" using hunt_finds [OF assms(1)] t(1) by force
    then show ?thesis using \<open>key (tab ! i) = Some k\<close> t(1) lt True by simp
  next
    case False
    have "key (tab ! unat t) \<in> key ` set tab" using lt len by (intro imageI nth_mem) simp
    then show ?thesis using t lt False by (auto simp: stops_def keys_def)
  qed
qed

text \<open>For a key that is not in the table the walk may as well stop at empty slots only.\<close>

lemma hunt_free:
  assumes "reachable m tab" "roomy tab" "k \<notin> keys tab" "\<And>e. e \<in> set tab \<Longrightarrow> stop e \<longleftrightarrow> key e = None"
  shows "probe_run stop tab (mask m) (home k (mask m)) = hunt tab m k"
proof -
  let ?at = "\<lambda>d. tab ! ((unat (home k (mask m)) + d) mod 2 ^ m)"
  have m: "m < LENGTH('w)" "length tab = 2 ^ m" using assms(1) by (auto simp: reachable_def)
  have free: "stop (?at d) \<longleftrightarrow> stops k (?at d)" for d
  proof -
    have "?at d \<in> set tab" using m(2) by simp
    then have "key (?at d) \<noteq> Some k" using assms(3) by (force simp: keys_def)
    then show ?thesis using assms(4) [OF \<open>?at d \<in> set tab\<close>] by (simp add: stops_def)
  qed
  obtain t d where d: "hunt tab m k = Some t" "unat t = (unat (home k (mask m)) + d) mod 2 ^ m"
      "stops k (tab ! unat t)" "\<And>e. e < d \<Longrightarrow> \<not> stops k (?at e)"
    using hunt_ends [OF assms(1,2), of k] by metis
  obtain t' where "probe_run stop tab (mask m) (home k (mask m)) = Some t'"
      "unat t' = (unat (home k (mask m)) + d) mod 2 ^ m"
    using probe_run_at [OF m(1) home_fits [OF m(1)], of stop tab k d] d(2-4) free by auto
  then show ?thesis using d(1,2) by (metis word_unat_eq_iff)
qed

text \<open>Storing a key where its walk ended keeps the table.\<close>

lemma reachable_store:
  assumes "reachable m tab" "roomy tab" "hunt tab m k = Some t" "key e = Some k"
  shows "reachable m (tab[unat t := e])"
proof -
  let ?h = "\<lambda>k. unat (home k (mask m))"
  have m: "m < LENGTH('w)" "length tab = 2 ^ m" using assms(1) by (auto simp: reachable_def)
  obtain d where d: "unat t = (?h k + d) mod 2 ^ m" "d < 2 ^ m" "stops k (tab ! unat t)"
      "\<And>e. e < d \<Longrightarrow> \<not> stops k (tab ! ((?h k + e) mod 2 ^ m))"
    using hunt_ends [OF assms(1,2), of k] assms(3) by (metis option.inject)
  have tl: "unat t < 2 ^ m" using d(1) by simp
  have "\<exists>d<2 ^ m. i = (?h k' + d) mod 2 ^ m
      \<and> (\<forall>e'<d. \<not> stops k' (tab[unat t := e] ! ((?h k' + e') mod 2 ^ m)))"
    if i: "i < 2 ^ m" "key (tab[unat t := e] ! i) = Some k'" for i k'
  proof (cases "i = unat t")
    case True
    then have "k' = k" using i assms(4) tl m by simp
    moreover have "\<not> stops k (tab[unat t := e] ! ((?h k + e') mod 2 ^ m))" if "e' < d" for e'
      using d(3) d(4) [OF that] m tl by (metis nth_list_update_neq)
    ultimately show ?thesis using d(1,2) True by blast
  next
    case False
    then have "key (tab ! i) = Some k'" using i by simp
    then obtain d' where d': "d' < 2 ^ m" "i = (?h k' + d') mod 2 ^ m"
        "\<And>e. e < d' \<Longrightarrow> \<not> stops k' (tab ! ((?h k' + e) mod 2 ^ m))"
      using assms(1) i(1) by (auto simp: reachable_def)
    have "k' \<noteq> k" if "key (tab ! unat t) = None"
      using hunt_finds [OF assms(1) i(1), of k] assms(3) False \<open>key (tab ! i) = Some k'\<close> by auto
    moreover have "k' \<noteq> k" if "key (tab ! unat t) = Some k"
      using keys_distinct [OF assms(1) i(1) tl] False that \<open>key (tab ! i) = Some k'\<close> by blast
    ultimately have "k' \<noteq> k" using d(3) by (auto simp: stops_def)
    then have "\<not> stops k' (tab[unat t := e] ! ((?h k' + e') mod 2 ^ m))" if "e' < d'" for e'
      using d'(3) [OF that] assms(4) m
      by (cases "unat t = (?h k' + e') mod 2 ^ m") (auto simp: stops_def)
    then show ?thesis using d' by blast
  qed
  then show ?thesis using m by (simp add: reachable_def)
qed

lemma keys_store:
  assumes "reachable m tab" "roomy tab" "hunt tab m k = Some t" "key e = Some k"
  shows "keys (tab[unat t := e]) = insert k (keys tab)"
proof -
  obtain t' where t': "hunt tab m k = Some t'" "unat t' < 2 ^ m"
      "key (tab ! unat t') = (if k \<in> keys tab then Some k else None)"
    using hunt_result [OF assms(1,2)] by blast
  then have t: "unat t < length tab" "key (tab ! unat t) \<in> {None, Some k}"
    using assms(1,3) by (auto simp: reachable_def split: if_splits)
  show ?thesis
  proof (intro set_eqI iffI)
    fix x assume "x \<in> keys (tab[unat t := e])"
    then show "x \<in> insert k (keys tab)"
      using set_update_subset_insert [of tab "unat t" e] assms(4) by (auto simp: keys_def)
  next
    fix x assume x: "x \<in> insert k (keys tab)"
    show "x \<in> keys (tab[unat t := e])"
    proof (cases "x = k")
      case True
      have "e \<in> set (tab[unat t := e])" using t(1) by (rule set_update_memI)
      then have "key e \<in> key ` set (tab[unat t := e])" by (rule imageI)
      then show ?thesis using True assms(4) by (simp add: keys_def)
    next
      case False
      then obtain i where i: "i < length tab" "key (tab ! i) = Some x"
        using x by (fastforce simp: keys_def in_set_conv_nth)
      then have "i \<noteq> unat t" using t(2) False by auto
      then have "tab[unat t := e] ! i = tab ! i" by simp
      then have "tab ! i \<in> set (tab[unat t := e])" using i(1) by (metis length_list_update nth_mem)
      then have "key (tab ! i) \<in> key ` set (tab[unat t := e])" by (rule imageI)
      then show ?thesis using i(2) by (simp add: keys_def)
    qed
  qed
qed

text \<open>A table with fewer keys than slots has room.\<close>

lemma finite_keys: "finite (keys tab)"
proof -
  have "keys tab \<subseteq> (\<lambda>e. the (key e)) ` set tab"
    by (auto simp: keys_def) (metis image_iff option.sel)
  then show ?thesis by (rule finite_subset) simp
qed

lemma roomy_few:
  assumes "reachable m tab" "card (keys tab) < 2 ^ m"
  shows "roomy tab"
proof (rule ccontr)
  assume no: "\<not> roomy tab"
  have len: "length tab = 2 ^ m" using assms(1) by (simp add: reachable_def)
  define f where "f i = the (key (tab ! i))" for i
  have some: "key (tab ! i) = Some (f i)" if "i < 2 ^ m" for i
  proof -
    have "tab ! i \<in> set tab" using that len by simp
    then show ?thesis using no by (auto simp: roomy_def f_def)
  qed
  have "inj_on f {..<2 ^ m}"
    by (rule inj_onI) (metis keys_distinct [OF assms(1)] some lessThan_iff)
  moreover have "f ` {..<2 ^ m} \<subseteq> keys tab"
    using some len by (force simp: keys_def in_set_conv_nth)
  ultimately have "card {..<(2::nat) ^ m} \<le> card (keys tab)"
    using finite_keys by (metis card_image card_mono)
  then show False using assms(2) by simp
qed

end

end
