(* ===== verification/Ir_Index.thy ===== *)
theory Ir_Index
  imports Probe
begin

text \<open>
  The pointer tables of the optimizer: \<open>src/optimizer/ir_index.h\<close> (the index from a node to its first
  place in the graph, and a growing set of nodes). A node pointer is its address, a null pointer the
  address 0, an array of pointers the list of its cells. \<open>ct_zalloc\<close> stops the process rather than
  return a null pointer, so the model always allocates; a null \<open>key\<close> array is the empty list. What a
  table promises its clients are the locales \<open>node_places\<close> and \<open>node_set\<close>.
\<close>

type_synonym addr = u64

section \<open>The interfaces\<close>

text \<open>The first place of a pointer in an array, -1 when it is not there, by a search from the left.\<close>

fun first_pos_from :: "nat \<Rightarrow> addr list \<Rightarrow> addr \<Rightarrow> int" where
  "first_pos_from i [] p = -1"
| "first_pos_from i (q # qs) p = (if q = p then int i else first_pos_from (Suc i) qs p)"

definition first_pos :: "addr list \<Rightarrow> addr \<Rightarrow> int" where
  "first_pos ps p = first_pos_from 0 ps p"

lemma first_pos_from_snoc:
  "first_pos_from i (ps @ [q]) p =
     (if p \<in> set ps then first_pos_from i ps p else if q = p then int (i + length ps) else -1)"
  by (induction ps arbitrary: i) auto

lemma first_pos_Nil [simp]: "first_pos [] p = -1"
  by (simp add: first_pos_def)

lemma first_pos_snoc:
  "first_pos (ps @ [q]) p =
     (if p \<in> set ps then first_pos ps p else if q = p then int (length ps) else -1)"
  by (simp add: first_pos_def first_pos_from_snoc)

lemma first_pos_absent [simp]: "p \<notin> set ps \<Longrightarrow> first_pos ps p = -1"
  by (induction ps rule: rev_induct) (auto simp: first_pos_snoc)

lemma first_pos_present:
  "p \<in> set ps \<Longrightarrow> \<exists>i<length ps. first_pos ps p = int i \<and> ps ! i = p \<and> (\<forall>j<i. ps ! j \<noteq> p)"
proof (induction ps rule: rev_induct)
  case (snoc q ps)
  show ?case
  proof (cases "p \<in> set ps")
    case True
    with snoc.IH obtain i where "i < length ps" "first_pos ps p = int i" "ps ! i = p" "\<forall>j<i. ps ! j \<noteq> p"
      by blast
    then show ?thesis using True by (intro exI [of _ i]) (auto simp: first_pos_snoc nth_append)
  next
    case False
    then show ?thesis using snoc.prems
      by (intro exI [of _ "length ps"]) (auto simp: first_pos_snoc nth_append in_set_conv_nth)
  qed
qed simp

lemma first_pos_nonneg: "0 \<le> first_pos ps p \<longleftrightarrow> p \<in> set ps"
  using first_pos_present [of p ps] by (cases "p \<in> set ps") auto

lemma first_pos_nth: "0 \<le> first_pos ps p \<Longrightarrow> nat (first_pos ps p) < length ps \<and> ps ! nat (first_pos ps p) = p"
  using first_pos_present [of p ps] by (auto simp: first_pos_nonneg)

lemma first_pos_distinct: "distinct ps \<Longrightarrow> i < length ps \<Longrightarrow> first_pos ps (ps ! i) = int i"
  using first_pos_present [of "ps ! i" ps] by (auto simp: distinct_conv_nth)

locale node_places =
  fixes build :: "addr list \<Rightarrow> 'ix option"
    and look :: "'ix \<Rightarrow> addr \<Rightarrow> int option"
    and sized :: "addr list \<Rightarrow> bool"
  assumes build_returns: "sized ps \<Longrightarrow> \<exists>ix. build ps = Some ix"
    and look_first: "sized ps \<Longrightarrow> build ps = Some ix \<Longrightarrow> look ix p = Some (first_pos ps p)"
begin

lemma look_absent: "sized ps \<Longrightarrow> build ps = Some ix \<Longrightarrow> p \<notin> set ps \<Longrightarrow> look ix p = Some (-1)"
  by (simp add: look_first)

lemma look_place:
  "sized ps \<Longrightarrow> build ps = Some ix \<Longrightarrow> distinct ps \<Longrightarrow> i < length ps \<Longrightarrow> look ix (ps ! i) = Some (int i)"
  by (simp add: look_first first_pos_distinct)

end

locale node_set =
  fixes empty :: 's and add :: "'s \<Rightarrow> addr \<Rightarrow> 's option" and has :: "'s \<Rightarrow> addr \<Rightarrow> bool option"
    and holds :: "'s \<Rightarrow> addr set \<Rightarrow> bool" and room :: nat
  assumes holds_empty: "holds empty {}"
    and holds_has: "holds s S \<Longrightarrow> has s p = Some (p \<in> S)"
    and holds_add: "holds s S \<Longrightarrow> card S < room \<Longrightarrow> \<exists>s'. add s p = Some s' \<and> holds s' (insert p S)"
    and holds_finite: "holds s S \<Longrightarrow> finite S"
begin

fun add_all :: "'s \<Rightarrow> addr list \<Rightarrow> 's option" where
  "add_all s [] = Some s"
| "add_all s (p # ps) = (case add s p of None \<Rightarrow> None | Some s' \<Rightarrow> add_all s' ps)"

lemma add_all_holds:
  "holds s S \<Longrightarrow> card S + length ps \<le> room \<Longrightarrow> \<exists>s'. add_all s ps = Some s' \<and> holds s' (S \<union> set ps)"
proof (induction ps arbitrary: s S)
  case (Cons p ps)
  then have "\<exists>s'. add s p = Some s' \<and> holds s' (insert p S)"
    using holds_add [OF Cons.prems(1)] by simp
  then obtain s' where s': "add s p = Some s'" "holds s' (insert p S)" by blast
  have "card (insert p S) \<le> Suc (card S)" using holds_finite [OF Cons.prems(1)] by (simp add: card_insert_if)
  then have "card (insert p S) + length ps \<le> room" using Cons.prems(2) by simp
  from Cons.IH [OF s'(2) this] s'(1) show ?case by (auto simp: insert_commute)
qed auto

end

text \<open>An entry of an array of keys, empty when null.\<close>

definition ptr_key :: "addr \<Rightarrow> addr option" where
  "ptr_key q = (if q = 0 then None else Some q)"

lemma ptr_key_simps [simp]: "ptr_key q = None \<longleftrightarrow> q = 0" "ptr_key q = Some p \<longleftrightarrow> q = p \<and> p \<noteq> 0"
  by (auto simp: ptr_key_def)

section \<open>Tables from a pointer to its first place\<close>

text \<open>
  An array of keys and one of values, filled from an array of pointers so that each key has the value
  of its first place; \<open>ir_index_t\<close> is such a table and so is the index of \<open>ir_node_index.c\<close>. They differ
  in the hash function and in where the arrays live.
\<close>

locale place_table = probing home ptr_key for home :: "addr \<Rightarrow> u64 \<Rightarrow> u64"
begin

definition firsts :: "nat \<Rightarrow> addr list \<Rightarrow> addr list \<Rightarrow> int list \<Rightarrow> bool" where
  "firsts m ds ks vs \<longleftrightarrow> reachable m ks \<and> length vs = 2 ^ m \<and> keys ks = set ds - {0}
     \<and> (\<forall>i<2 ^ m. ks ! i \<noteq> 0 \<longrightarrow> vs ! i = first_pos ds (ks ! i))"

lemma keys_ptr: "keys ks = set ks - {0}"
  unfolding keys_def by (force simp: image_iff ptr_key_def)

lemma probe_hunt:
  assumes "p \<noteq> 0"
  shows "probe_run (\<lambda>q. q = 0 \<or> q = p) ks (mask m) (home p (mask m)) = hunt ks m p"
proof -
  have "(\<lambda>q. q = 0 \<or> q = p) = stops p" using assms by (auto simp: stops_def fun_eq_iff)
  then show ?thesis by (simp add: hunt_def)
qed

lemma firsts_empty: "m < 64 \<Longrightarrow> length vs = 2 ^ m \<Longrightarrow> firsts m [] (replicate (2 ^ m) 0) vs"
  by (simp add: firsts_def reachable_empty keys_empty)

lemma firsts_lengths: "firsts m ds ks vs \<Longrightarrow> length ks = 2 ^ m \<and> length vs = 2 ^ m"
  by (simp add: firsts_def reachable_def)

lemma firsts_roomy:
  assumes "firsts m ds ks vs" "length ds < 2 ^ m"
  shows "roomy ks"
proof (rule roomy_few)
  show "reachable m ks" using assms(1) by (simp add: firsts_def)
  have "card (set ds - {0}) \<le> card (set ds)" by (rule card_mono) auto
  also have "\<dots> \<le> length ds" by (rule card_length)
  finally show "card (keys ks) < 2 ^ m" using assms by (simp add: firsts_def)
qed

text \<open>The walk that every operation makes, and what it reads.\<close>

lemma firsts_probe:
  assumes "firsts m ds ks vs" "length ds < 2 ^ m" "p \<noteq> 0"
  shows "\<exists>s. probe_run (\<lambda>q. q = 0 \<or> q = p) ks (mask m) (home p (mask m)) = Some s
    \<and> hunt ks m p = Some s \<and> unat s < 2 ^ m \<and> ks ! unat s = (if p \<in> set ds then p else 0)
    \<and> (p \<in> set ds \<longrightarrow> vs ! unat s = first_pos ds p)"
  using hunt_result [OF _ firsts_roomy [OF assms(1,2)], of m p] assms probe_hunt [OF assms(3), of ks m]
  by (auto simp: firsts_def split: if_splits)

lemma firsts_null: "firsts m ds ks vs \<Longrightarrow> firsts m (ds @ [0]) ks vs"
  by (auto simp: firsts_def first_pos_snoc)

lemma firsts_old: "firsts m ds ks vs \<Longrightarrow> p \<in> set ds \<Longrightarrow> firsts m (ds @ [p]) ks vs"
  by (auto simp: firsts_def first_pos_snoc insert_absorb)

lemma firsts_new:
  assumes "firsts m ds ks vs" "length ds < 2 ^ m" "p \<noteq> 0" "p \<notin> set ds" "hunt ks m p = Some s" "unat s < 2 ^ m"
  shows "firsts m (ds @ [p]) (ks[unat s := p]) (vs[unat s := int (length ds)])"
proof -
  have r: "reachable m ks" and l: "length ks = 2 ^ m" "length vs = 2 ^ m"
    using assms(1) by (auto simp: firsts_def reachable_def)
  note store = reachable_store [OF r firsts_roomy [OF assms(1,2)] assms(5)]
    keys_store [OF r firsts_roomy [OF assms(1,2)] assms(5)]
  have "ks[unat s := p] ! i \<noteq> 0 \<longrightarrow> vs[unat s := int (length ds)] ! i = first_pos (ds @ [p]) (ks[unat s := p] ! i)"
    if i: "i < 2 ^ m" for i
  proof (cases "i = unat s")
    case False
    have "ks ! i \<in> set ds" if "ks ! i \<noteq> 0"
    proof -
      have "ks ! i \<in> keys ks" using i l that by (simp add: keys_ptr)
      then show ?thesis using assms(1) by (simp add: firsts_def)
    qed
    then show ?thesis using False assms(1) i by (auto simp: firsts_def first_pos_snoc)
  qed (use assms(4,6) l in \<open>simp add: first_pos_snoc\<close>)
  then show ?thesis using assms(1,3) store l by (auto simp: firsts_def first_pos_snoc)
qed

end

section \<open>The index of a graph's nodes\<close>

record ir_index =
  ix_key :: "addr list"
  ix_val :: "int list"
  ix_cap :: u64
  ix_nullix :: int
  ix_g :: "addr list"

definition ptr_hash :: "addr \<Rightarrow> u64" where
  "ptr_hash p =
     (let h = p XOR drop_bit 33 p; h = h * 0xff51afd7ed558ccd in h XOR drop_bit 29 h)"

definition ir_index_slot :: "u64 \<Rightarrow> addr \<Rightarrow> u64" where
  "ir_index_slot cap p = ptr_hash p AND (cap - 1)"

definition ir_index_cap :: "nat \<Rightarrow> u64 option" where
  "ir_index_cap n = while_option (\<lambda>cap. cap < of_nat (max n 1) * 2) (push_bit 1) 16"

fun ir_index_fill :: "nat \<Rightarrow> addr list \<Rightarrow> ir_index \<Rightarrow> ir_index option" where
  "ir_index_fill i [] ix = Some ix"
| "ir_index_fill i (p # ps) ix =
     (if p = 0 then ir_index_fill (Suc i) ps (if ix_nullix ix < 0 then ix\<lparr>ix_nullix := int i\<rparr> else ix)
      else case probe_run (\<lambda>q. q = 0 \<or> q = p) (ix_key ix) (ix_cap ix - 1) (ir_index_slot (ix_cap ix) p) of
          None \<Rightarrow> None
        | Some s \<Rightarrow> ir_index_fill (Suc i) ps
            (if ix_key ix ! unat s = 0
             then ix\<lparr>ix_key := (ix_key ix)[unat s := p], ix_val := (ix_val ix)[unat s := int i]\<rparr>
             else ix))"

definition ir_index_build :: "addr list \<Rightarrow> ir_index option" where
  "ir_index_build ps =
     (case ir_index_cap (length ps) of
        None \<Rightarrow> None
      | Some cap \<Rightarrow> ir_index_fill 0 ps
          \<lparr>ix_key = replicate (unat cap) 0, ix_val = replicate (unat cap) 0, ix_cap = cap,
           ix_nullix = -1, ix_g = ps\<rparr>)"

definition ir_index_of :: "ir_index \<Rightarrow> addr \<Rightarrow> int option" where
  "ir_index_of ix p =
     (if p = 0 then Some (ix_nullix ix)
      else if ix_key ix = [] then Some (first_pos_from 0 (ix_g ix) p)
      else case probe_run (\<lambda>q. q = 0 \<or> q = p) (ix_key ix) (ix_cap ix - 1) (ir_index_slot (ix_cap ix) p) of
          None \<Rightarrow> None
        | Some s \<Rightarrow> Some (if ix_key ix ! unat s = p then ix_val ix ! unat s else -1))"

interpretation ptr: place_table "\<lambda>p msk. ptr_hash p AND msk"
  by unfold_locales (rule unat_mask_slot)

lemma pow2_neq0: "m < 64 \<Longrightarrow> (2 :: u64) ^ m \<noteq> 0"
  using unat_pow2 [where 'w = 64, of m] by (intro notI) simp

lemma cap_mask: "cap = (2 :: u64) ^ m \<Longrightarrow> cap - 1 = mask m"
  by (simp add: mask_eq_exp_minus_1)

text \<open>The capacity is a power of two that leaves half of the slots empty.\<close>

lemma ir_index_cap_ok:
  assumes "n < 2 ^ 31"
  shows "\<exists>m. ir_index_cap n = Some (2 ^ m) \<and> m < 64 \<and> 2 * n \<le> 2 ^ m"
proof -
  have "of_nat (max n 1) * 2 = (of_nat (max n 1 * 2) :: u64)" by simp
  moreover have "max n 1 * 2 \<le> 2 ^ 63" using assms by simp
  ultimately show ?thesis
    using double_until [where 'w = 64, of "max n 1 * 2" 4] by (auto simp: ir_index_cap_def)
qed

definition ix_ok :: "nat \<Rightarrow> addr list \<Rightarrow> ir_index \<Rightarrow> bool" where
  "ix_ok m ds ix \<longleftrightarrow> ix_cap ix = 2 ^ m \<and> ptr.firsts m ds (ix_key ix) (ix_val ix) \<and> ix_nullix ix = first_pos ds 0"

text \<open>One step of the walk that every operation on the index makes.\<close>

lemma ix_ok_probe:
  assumes "ix_ok m ds ix" "length ds < 2 ^ m" "p \<noteq> 0"
  shows "\<exists>s. probe_run (\<lambda>q. q = 0 \<or> q = p) (ix_key ix) (ix_cap ix - 1) (ir_index_slot (ix_cap ix) p) = Some s
    \<and> ptr.hunt (ix_key ix) m p = Some s \<and> unat s < 2 ^ m \<and> ix_key ix ! unat s = (if p \<in> set ds then p else 0)
    \<and> (p \<in> set ds \<longrightarrow> ix_val ix ! unat s = first_pos ds p)"
proof -
  have "ix_cap ix - 1 = mask m" using assms(1) by (intro cap_mask) (simp add: ix_ok_def)
  then show ?thesis using ptr.firsts_probe [of m ds "ix_key ix" "ix_val ix" p] assms by (simp add: ix_ok_def ir_index_slot_def)
qed

lemma ix_ok_null: "ix_ok m ds ix \<Longrightarrow>
    ix_ok m (ds @ [0]) (if ix_nullix ix < 0 then ix\<lparr>ix_nullix := int (length ds)\<rparr> else ix)"
  using first_pos_nonneg [of ds 0] by (auto simp: ix_ok_def first_pos_snoc ptr.firsts_null)

lemma ix_ok_old: "ix_ok m ds ix \<Longrightarrow> p \<in> set ds \<Longrightarrow> p \<noteq> 0 \<Longrightarrow> ix_ok m (ds @ [p]) ix"
  by (auto simp: ix_ok_def first_pos_snoc ptr.firsts_old)

lemma ix_ok_new:
  assumes "ix_ok m ds ix" "length ds < 2 ^ m" "p \<noteq> 0" "p \<notin> set ds"
    "ptr.hunt (ix_key ix) m p = Some s" "unat s < 2 ^ m"
  shows "ix_ok m (ds @ [p])
    (ix\<lparr>ix_key := (ix_key ix)[unat s := p], ix_val := (ix_val ix)[unat s := int (length ds)]\<rparr>)"
  using assms ptr.firsts_new [of m ds "ix_key ix" "ix_val ix" p s] by (auto simp: ix_ok_def first_pos_snoc)

lemma ir_index_fill_ok:
  "ix_ok m ds ix \<Longrightarrow> length ds + length ps < 2 ^ m \<Longrightarrow>
   \<exists>ix'. ir_index_fill (length ds) ps ix = Some ix' \<and> ix_ok m (ds @ ps) ix'"
proof (induction ps arbitrary: ds ix)
  case (Cons p ps)
  let ?thesis' = "\<lambda>ix'. ix_ok m (ds @ [p]) ix'"
  have step: "\<exists>ix''. ir_index_fill (Suc (length ds)) ps ix' = Some ix'' \<and> ix_ok m (ds @ p # ps) ix''"
    if "ix_ok m (ds @ [p]) ix'" for ix'
    using Cons.IH [OF that] Cons.prems(2) by simp
  have lt: "length ds < 2 ^ m" using Cons.prems(2) by simp
  show ?case
  proof (cases "p = 0")
    case True
    then show ?thesis using step [OF ix_ok_null [OF Cons.prems(1), folded True]] by simp
  next
    case False
    then obtain s where s: "probe_run (\<lambda>q. q = 0 \<or> q = p) (ix_key ix) (ix_cap ix - 1)
          (ir_index_slot (ix_cap ix) p) = Some s"
        "ptr.hunt (ix_key ix) m p = Some s" "unat s < 2 ^ m"
        "ix_key ix ! unat s = (if p \<in> set ds then p else 0)"
      using ix_ok_probe [OF Cons.prems(1) lt] by blast
    show ?thesis
    proof (cases "p \<in> set ds")
      case True
      then show ?thesis using False s step [OF ix_ok_old [OF Cons.prems(1) True \<open>p \<noteq> 0\<close>]] by simp
    next
      case new: False
      then show ?thesis
        using False s step [OF ix_ok_new [OF Cons.prems(1) lt False new s(2,3)]] by simp
    qed
  qed
qed auto

lemma ir_index_built:
  assumes "length ps < 2 ^ 31"
  shows "\<exists>m ix. ir_index_build ps = Some ix \<and> ix_ok m ps ix \<and> length ps < 2 ^ m"
proof -
  obtain m where m: "ir_index_cap (length ps) = Some (2 ^ m)" "m < 64" "2 * length ps \<le> 2 ^ m"
    using ir_index_cap_ok [OF assms] by blast
  have u: "unat ((2 :: u64) ^ m) = 2 ^ m" using m(2) by (simp add: unat_pow2)
  have lt: "length ps < 2 ^ m" using m(3) by (cases "length ps") auto
  have "ix_ok m [] \<lparr>ix_key = replicate (2 ^ m) 0, ix_val = replicate (2 ^ m) 0, ix_cap = 2 ^ m,
      ix_nullix = -1, ix_g = ps\<rparr>"
    using m(2) by (simp add: ix_ok_def ptr.firsts_empty)
  from ir_index_fill_ok [OF this, of ps] lt show ?thesis
    using m(1) u by (auto simp: ir_index_build_def)
qed

lemma ir_index_places:
  assumes "length ps < 2 ^ 31"
  shows "\<exists>ix. ir_index_build ps = Some ix \<and> (\<forall>p. ir_index_of ix p = Some (first_pos ps p))"
proof -
  obtain m ix where ix: "ir_index_build ps = Some ix" "ix_ok m ps ix" "length ps < 2 ^ m"
    using ir_index_built [OF assms] by blast
  have "ix_key ix \<noteq> []" using ix(2) ptr.firsts_lengths by (force simp: ix_ok_def)
  then have "ir_index_of ix p = Some (first_pos ps p)" for p
    using ix_ok_probe [OF ix(2,3), of p] ix(2) by (auto simp: ir_index_of_def ix_ok_def split: if_splits)
  then show ?thesis using ix(1) by blast
qed

interpretation ixp: node_places ir_index_build ir_index_of "\<lambda>ps. length ps < 2 ^ 31"
proof unfold_locales
  fix ps :: "addr list" assume ps: "length ps < 2 ^ 31"
  then show "\<exists>ix. ir_index_build ps = Some ix" using ir_index_places by blast
  show "ir_index_of ix p = Some (first_pos ps p)" if "ir_index_build ps = Some ix" for ix p
    using ir_index_places [OF ps] that by auto
qed

text \<open>
  C17. The index of a graph of less than 2^31 nodes answers the first place of every pointer, null
  pointers included, and -1 for a pointer the graph does not hold; building it and looking in it
  always come back.
\<close>

theorem ir_index_of_first:
  assumes "length ps < 2 ^ 31"
  shows "\<exists>ix. ir_index_build ps = Some ix
    \<and> (\<forall>p. ir_index_of ix p = Some (first_pos ps p) \<and> (first_pos ps p < 0 \<longleftrightarrow> p \<notin> set ps))
    \<and> (\<forall>p\<in>set ps. \<exists>i. ir_index_of ix p = Some (int i) \<and> ps ! i = p \<and> (\<forall>j<i. ps ! j \<noteq> p))"
proof -
  obtain ix where ix: "ir_index_build ps = Some ix" using ixp.build_returns [OF assms] by blast
  note look = ixp.look_first [OF assms ix]
  have "\<exists>i. ir_index_of ix p = Some (int i) \<and> ps ! i = p \<and> (\<forall>j<i. ps ! j \<noteq> p)" if "p \<in> set ps" for p
    using first_pos_present [OF that] unfolding look by auto
  moreover have "first_pos ps p < 0 \<longleftrightarrow> p \<notin> set ps" for p
    using first_pos_nonneg [of ps p] by linarith
  ultimately show ?thesis using ix look by (intro exI [of _ ix] conjI allI ballI) simp_all
qed

theorem ir_index_of_first_witness:
  "\<exists>ix. ir_index_build [0x10, 0, 0x20, 0x10] = Some ix \<and> ir_index_of ix 0x20 = Some 2
     \<and> ir_index_of ix 0x10 = Some 0 \<and> ir_index_of ix 0 = Some 1 \<and> ir_index_of ix 0x30 = Some (-1)"
proof -
  let ?ps = "[0x10, 0, 0x20, 0x10] :: addr list"
  have pos: "first_pos ?ps 0x20 = 2" "first_pos ?ps 0x10 = 0" "first_pos ?ps 0 = 1" "first_pos ?ps 0x30 = -1"
    by (simp_all add: first_pos_def)
  have "length ?ps < 2 ^ 31" by simp
  from ir_index_of_first [OF this] obtain ix where "ir_index_build ?ps = Some ix"
    and "\<forall>p. ir_index_of ix p = Some (first_pos ?ps p) \<and> (first_pos ?ps p < 0 \<longleftrightarrow> p \<notin> set ?ps)"
    by (elim exE conjE) (rule that)
  then show ?thesis using pos by (intro exI [of _ ix]) metis
qed

section \<open>Growing sets of nodes\<close>

record ir_pset =
  ps_slot :: "addr list"
  ps_cap :: u64
  ps_cnt :: nat
  ps_has_null :: bool

definition ir_pset_init :: ir_pset where
  "ir_pset_init = \<lparr>ps_slot = [], ps_cap = 0, ps_cnt = 0, ps_has_null = False\<rparr>"

definition ir_pset_probe :: "addr list \<Rightarrow> u64 \<Rightarrow> addr \<Rightarrow> u64 option" where
  "ir_pset_probe slot cap p = probe_run (\<lambda>q. q = 0 \<or> q = p) slot (cap - 1) (ptr_hash p AND (cap - 1))"

definition ir_pset_has :: "ir_pset \<Rightarrow> addr \<Rightarrow> bool option" where
  "ir_pset_has s p =
     (if p = 0 then Some (ps_has_null s)
      else if ps_cap s = 0 then Some False
      else case ir_pset_probe (ps_slot s) (ps_cap s) p of
          None \<Rightarrow> None | Some i \<Rightarrow> Some (ps_slot s ! unat i = p))"

text \<open>The loop of \<open>ir_pset_add\<close> that moves the old slots into the doubled table.\<close>

fun ir_pset_move :: "addr list \<Rightarrow> u64 \<Rightarrow> addr list \<Rightarrow> addr list option" where
  "ir_pset_move [] nc ns = Some ns"
| "ir_pset_move (p # ps) nc ns =
     (if p = 0 then ir_pset_move ps nc ns
      else case ir_pset_probe ns nc p of
          None \<Rightarrow> None | Some i \<Rightarrow> ir_pset_move ps nc (ns[unat i := p]))"

definition ir_pset_grow :: "ir_pset \<Rightarrow> ir_pset option" where
  "ir_pset_grow s =
     (let nc = (if ps_cap s \<noteq> 0 then ps_cap s * 2 else 1024)
      in case ir_pset_move (ps_slot s) nc (replicate (unat nc) 0) of
          None \<Rightarrow> None | Some ns \<Rightarrow> Some (s\<lparr>ps_slot := ns, ps_cap := nc\<rparr>))"

definition ir_pset_put :: "ir_pset \<Rightarrow> addr \<Rightarrow> ir_pset option" where
  "ir_pset_put s p =
     (case ir_pset_probe (ps_slot s) (ps_cap s) p of
        None \<Rightarrow> None
      | Some i \<Rightarrow> Some (if ps_slot s ! unat i = 0
          then s\<lparr>ps_slot := (ps_slot s)[unat i := p], ps_cnt := ps_cnt s + 1\<rparr> else s))"

definition ir_pset_add :: "ir_pset \<Rightarrow> addr \<Rightarrow> ir_pset option" where
  "ir_pset_add s p =
     (if p = 0 then Some (s\<lparr>ps_has_null := True\<rparr>)
      else if of_nat (ps_cnt s) * 2 \<ge> ps_cap s
      then case ir_pset_grow s of None \<Rightarrow> None | Some s' \<Rightarrow> ir_pset_put s' p
      else ir_pset_put s p)"

text \<open>\<open>holds\<close>: what the set of the table is; half of the slots at least are empty.\<close>

definition pset_tab :: "nat \<Rightarrow> ir_pset \<Rightarrow> addr set \<Rightarrow> bool" where
  "pset_tab m s S \<longleftrightarrow> 1 \<le> m \<and> m \<le> 62 \<and> ps_cap s = 2 ^ m \<and> ptr.reachable m (ps_slot s)
     \<and> ptr.keys (ps_slot s) = S - {0} \<and> ps_cnt s = card (S - {0}) \<and> 2 * ps_cnt s \<le> 2 ^ m"

definition pset_holds :: "ir_pset \<Rightarrow> addr set \<Rightarrow> bool" where
  "pset_holds s S \<longleftrightarrow> finite S \<and> ps_has_null s = (0 \<in> S) \<and>
     (ps_cap s = 0 \<and> ps_slot s = [] \<and> ps_cnt s = 0 \<and> S \<subseteq> {0} \<or> (\<exists>m. pset_tab m s S))"

lemma pset_probe_ok:
  assumes "ptr.reachable m tab" "card (ptr.keys tab) < 2 ^ m" "p \<noteq> 0"
  shows "\<exists>i. ir_pset_probe tab (2 ^ m) p = Some i \<and> ptr.hunt tab m p = Some i \<and> unat i < 2 ^ m
    \<and> tab ! unat i = (if p \<in> ptr.keys tab then p else 0)"
  using ptr.hunt_result [OF assms(1) ptr.roomy_few [OF assms(1,2)], of p] ptr.probe_hunt [OF assms(3), of tab m]
    cap_mask [OF refl, of m] assms(3) by (auto simp: ir_pset_probe_def split: if_splits)

lemma pset_move_ok:
  "ptr.reachable m ns \<Longrightarrow> card (ptr.keys ns \<union> set ps) < 2 ^ m \<Longrightarrow>
   \<exists>ns'. ir_pset_move ps (2 ^ m) ns = Some ns' \<and> ptr.reachable m ns'
     \<and> ptr.keys ns' = ptr.keys ns \<union> (set ps - {0})"
proof (induction ps arbitrary: ns)
  case (Cons p ps)
  have le: "card (ptr.keys ns) < 2 ^ m" "card (ptr.keys ns \<union> set ps) < 2 ^ m"
    using Cons.prems(2) card_mono [of "ptr.keys ns \<union> set (p # ps)"] ptr.finite_keys [of ns]
    by (meson List.finite_set Un_upper1 finite_UnI order.strict_trans1)
      (rule order.strict_trans1 [OF card_mono Cons.prems(2)]; auto simp: ptr.finite_keys)
  show ?case
  proof (cases "p = 0")
    case True
    then show ?thesis using Cons.IH [OF Cons.prems(1) le(2)] by auto
  next
    case False
    then obtain i where i: "ir_pset_probe ns (2 ^ m) p = Some i" "ptr.hunt ns m p = Some i"
      using pset_probe_ok [OF Cons.prems(1) le(1)] by blast
    note room = ptr.roomy_few [OF Cons.prems(1) le(1)]
    have r: "ptr.reachable m (ns[unat i := p])" "ptr.keys (ns[unat i := p]) = insert p (ptr.keys ns)"
      using ptr.reachable_store [OF Cons.prems(1) room i(2)] ptr.keys_store [OF Cons.prems(1) room i(2)] False
      by simp_all
    then have "card (ptr.keys (ns[unat i := p]) \<union> set ps) < 2 ^ m" using Cons.prems(2) by simp
    from Cons.IH [OF r(1) this] show ?thesis using False i(1) r(2) by auto
  qed
qed auto

lemma pset_put_ok:
  assumes "pset_tab m s S" "2 * card (S - {0}) < 2 ^ m" "p \<noteq> 0" "finite S"
  shows "\<exists>s'. ir_pset_put s p = Some s' \<and> pset_tab m s' (insert p S) \<and> ps_has_null s' = ps_has_null s"
proof -
  note tab = assms(1) [unfolded pset_tab_def]
  have r: "ptr.reachable m (ps_slot s)" and c: "card (ptr.keys (ps_slot s)) < 2 ^ m"
    using tab assms(2) by auto
  obtain i where i: "ir_pset_probe (ps_slot s) (2 ^ m) p = Some i" "ptr.hunt (ps_slot s) m p = Some i"
      "ps_slot s ! unat i = (if p \<in> S then p else 0)"
    using pset_probe_ok [OF r c assms(3)] tab assms(3) by auto
  have "even ((2::nat) ^ m)" using tab by simp
  then have "2 * Suc (card (S - {0})) \<le> 2 ^ m" using assms(2) by presburger
  moreover have "insert p S - {0} = insert p (S - {0})" using assms(3) by auto
  ultimately show ?thesis
    using i tab assms(3,4) ptr.reachable_store [OF r ptr.roomy_few [OF r c] i(2)]
      ptr.keys_store [OF r ptr.roomy_few [OF r c] i(2)]
    by (cases "p \<in> S") (auto simp: ir_pset_put_def pset_tab_def insert_absorb)
qed

lemma pset_grow_ok:
  assumes "pset_tab m s S" "m \<le> 61" "finite S"
  shows "\<exists>s'. ir_pset_grow s = Some s' \<and> pset_tab (Suc m) s' S \<and> ps_has_null s' = ps_has_null s"
proof -
  note tab = assms(1) [unfolded pset_tab_def]
  have u: "unat ((2 :: u64) ^ m * 2) = 2 ^ Suc m" using unat_pow2 [where 'w = 64, of "Suc m"] assms(2)
    by (simp add: mult.commute)
  have nz: "(2 :: u64) ^ m \<noteq> 0" using assms(2) by (simp add: pow2_neq0)
  have e: "ptr.reachable (Suc m) (replicate (2 ^ Suc m) 0)" "ptr.keys (replicate (2 ^ Suc m) 0) = {}"
    using assms(2) by (intro ptr.reachable_empty ptr.keys_empty; simp)+
  have keys: "set (ps_slot s) - {0} = S - {0}" using tab by (simp add: ptr.keys_ptr)
  then have "card (set (ps_slot s)) \<le> card (insert 0 (S - {0}))"
    by (intro card_mono) (use assms(3) in auto)
  also have "\<dots> \<le> Suc (card (S - {0}))"
    using card_insert_le_m1 [of "Suc (card (S - {0}))" "S - {0}" 0] by simp
  also have "\<dots> < 2 ^ Suc m"
  proof -
    have "2 * card (S - {0}) \<le> 2 ^ m" "1 \<le> m" using tab by auto
    moreover have "(2::nat) \<le> 2 ^ m" using \<open>1 \<le> m\<close> self_le_power [of 2 m] by simp
    ultimately show ?thesis by simp
  qed
  finally have "card (ptr.keys (replicate (2 ^ Suc m) 0) \<union> set (ps_slot s)) < 2 ^ Suc m" unfolding e(2) by simp
  from pset_move_ok [OF e(1) this] obtain ns where
    "ir_pset_move (ps_slot s) (2 ^ Suc m) (replicate (2 ^ Suc m) 0) = Some ns"
    "ptr.reachable (Suc m) ns" "ptr.keys ns = S - {0}" using e(2) keys by auto
  then show ?thesis using tab assms(2) u nz
    by (auto simp: ir_pset_grow_def pset_tab_def Let_def mult.commute)
qed

lemma pset_first_grow:
  assumes "ps_cap s = 0" "ps_slot s = []" "ps_cnt s = 0" "S \<subseteq> {0}"
  shows "\<exists>s'. ir_pset_grow s = Some s' \<and> pset_tab 10 s' S \<and> ps_has_null s' = ps_has_null s"
proof -
  have "ptr.reachable 10 (replicate (2 ^ 10) 0)" "ptr.keys (replicate (2 ^ 10) 0) = {}"
    by (intro ptr.reachable_empty ptr.keys_empty; simp)+
  moreover have "S - {0} = {}" using assms(4) by auto
  moreover have "unat (1024 :: u64) = 2 ^ 10" by simp
  ultimately show ?thesis using assms by (simp add: ir_pset_grow_def pset_tab_def Let_def)
qed

lemma half_full: "2 * c \<le> 2 ^ m \<Longrightarrow> (c :: nat) < 2 ^ m"
  by (cases c) auto

lemma pset_has_ok:
  assumes "pset_holds s S"
  shows "ir_pset_has s p = Some (p \<in> S)"
proof (cases "p = 0")
  case True
  then show ?thesis using assms by (simp add: ir_pset_has_def pset_holds_def)
next
  case p: False
  consider (empty) "ps_cap s = 0" "S \<subseteq> {0}" | (tab) m where "pset_tab m s S"
    using assms by (auto simp: pset_holds_def)
  then show ?thesis
  proof cases
    case empty
    then show ?thesis using p by (auto simp: ir_pset_has_def)
  next
    case (tab m)
    then have c: "card (ptr.keys (ps_slot s)) < 2 ^ m" and r: "ptr.reachable m (ps_slot s)"
      and m: "ps_cap s = 2 ^ m" "ps_cap s \<noteq> 0" "ptr.keys (ps_slot s) = S - {0}"
      by (auto simp: pset_tab_def half_full pow2_neq0)
    obtain i where "ir_pset_probe (ps_slot s) (2 ^ m) p = Some i"
        "ps_slot s ! unat i = (if p \<in> ptr.keys (ps_slot s) then p else 0)"
      using pset_probe_ok [OF r c p] by blast
    then show ?thesis using p m by (simp add: ir_pset_has_def)
  qed
qed

lemma pset_add_ok:
  assumes "pset_holds s S" "card S < 2 ^ 60"
  shows "\<exists>s'. ir_pset_add s p = Some s' \<and> pset_holds s' (insert p S)"
proof (cases "p = 0")
  case True
  then show ?thesis using assms(1) by (auto simp: ir_pset_add_def pset_holds_def pset_tab_def)
next
  case p: False
  have fin: "finite S" and null: "ps_has_null s = (0 \<in> S)" using assms(1) by (auto simp: pset_holds_def)
  have small: "card (S - {0}) < 2 ^ 60"
    using assms(2) card_mono [of S "S - {0}"] fin by (auto intro: le_less_trans)
  have put: "\<exists>s'. ir_pset_put t p = Some s' \<and> pset_holds s' (insert p S)"
    if "pset_tab k t S" "2 * card (S - {0}) < 2 ^ k" "ps_has_null t = ps_has_null s" for k t
    using pset_put_ok [OF that(1,2) p fin] that(3) fin null p by (auto simp: pset_holds_def)
  consider (empty) "ps_cap s = 0" "ps_slot s = []" "ps_cnt s = 0" "S \<subseteq> {0}"
    | (tab) m where "pset_tab m s S" using assms(1) by (auto simp: pset_holds_def)
  then show ?thesis
  proof cases
    case empty
    obtain s' where s': "ir_pset_grow s = Some s'" "pset_tab 10 s' S" "ps_has_null s' = ps_has_null s"
      using pset_first_grow [OF empty] by blast
    have c: "card (S - {0}) = 0" by (metis card.empty Diff_eq_empty_iff empty(4))
    have "2 * card (S - {0}) < 2 ^ 10" unfolding c by simp
    from put [OF s'(2) this s'(3)] s'(1) p empty(1,3) show ?thesis by (simp add: ir_pset_add_def)
  next
    case (tab m)
    note t = tab [unfolded pset_tab_def]
    have cap: "ps_cap s = 2 ^ m" and c: "ps_cnt s = card (S - {0})" and half: "2 * card (S - {0}) \<le> 2 ^ m"
      and m: "m \<le> 62" using t by simp_all
    have "2 * ps_cnt s < 2 ^ 64" using small c by simp
    then have u: "unat (of_nat (2 * ps_cnt s) :: u64) = 2 * ps_cnt s"
      unfolding unsigned_of_nat of_nat_id by (intro take_bit_nat_eq_self) simp
    have "unat (ps_cap s) = 2 ^ m" unfolding cap using m by (intro unat_pow2) simp
    then have cnt: "of_nat (ps_cnt s) * 2 \<ge> ps_cap s \<longleftrightarrow> 2 ^ m \<le> 2 * card (S - {0})"
      using u by (simp add: word_le_nat_alt c mult.commute)
    show ?thesis
    proof (cases "2 ^ m \<le> 2 * card (S - {0})")
      case True
      have "(2::nat) ^ m \<le> 2 * card (S - {0})" by (rule True)
      also have "\<dots> < 2 ^ 61" using small by simp
      finally have "m < 61" by (rule power_less_imp_less_exp [rotated]) simp
      then have "m \<le> 61" by simp
      then obtain s' where s': "ir_pset_grow s = Some s'" "pset_tab (Suc m) s' S" "ps_has_null s' = ps_has_null s"
        using pset_grow_ok [OF tab _ fin] by blast
      have "2 * card (S - {0}) < 2 ^ Suc m" using half_full [OF half] by simp
      from put [OF s'(2) this s'(3)] show ?thesis using s'(1) p cnt True by (simp add: ir_pset_add_def)
    next
      case False
      from put [OF tab _ refl] False have "\<exists>s'. ir_pset_put s p = Some s' \<and> pset_holds s' (insert p S)" by simp
      then show ?thesis using p cnt False by (simp add: ir_pset_add_def)
    qed
  qed
qed

interpretation pset: node_set ir_pset_init ir_pset_add ir_pset_has pset_holds "2 ^ 60"
  by unfold_locales
    (simp add: pset_holds_def ir_pset_init_def, erule pset_has_ok, erule (1) pset_add_ok,
      simp add: pset_holds_def)

text \<open>The additions of a client, one after the other.\<close>

fun ir_pset_add_all :: "ir_pset \<Rightarrow> addr list \<Rightarrow> ir_pset option" where
  "ir_pset_add_all s [] = Some s"
| "ir_pset_add_all s (p # ps) =
     (case ir_pset_add s p of None \<Rightarrow> None | Some s' \<Rightarrow> ir_pset_add_all s' ps)"

lemma ir_pset_add_all_eq: "ir_pset_add_all s ps = pset.add_all s ps"
  by (induction s ps rule: ir_pset_add_all.induct) (auto split: option.split)

text \<open>
  C38. A set built by a sequence of additions, however often its table doubled and moved, answers
  exactly the pointers added, the null pointer among them; adding and asking always come back.
\<close>

theorem ir_pset_exact:
  assumes "length ps \<le> 2 ^ 60"
  shows "\<exists>s. ir_pset_add_all ir_pset_init ps = Some s \<and> (\<forall>p. ir_pset_has s p = Some (p \<in> set ps))"
proof -
  obtain s where s: "ir_pset_add_all ir_pset_init ps = Some s" "pset_holds s ({} \<union> set ps)"
    using pset.add_all_holds [OF pset.holds_empty, of ps] assms by (auto simp: ir_pset_add_all_eq)
  from pset.holds_has [OF s(2)] s(1) show ?thesis by simp
qed

theorem ir_pset_exact_witness:
  "\<exists>s. ir_pset_add_all ir_pset_init [0x40, 0, 0x50] = Some s
     \<and> (\<forall>p. ir_pset_has s p = Some (p \<in> {0x40, 0, 0x50}))"
  using ir_pset_exact [of "[0x40, 0, 0x50]"] by simp

end
