(* ===== verification/Numbering.thy ===== *)
theory Numbering
  imports Scrip_Prelude
begin

text \<open>
  The interface of the tables that give numbers to keys, in the order the keys are first asked for:
  global variables, procedures, nodes. \<open>key_at\<close> is the key with a number, \<open>nxt\<close> the next number, \<open>admits\<close>
  says which keys get a number, \<open>room\<close> how many more numbers there are, and \<open>none\<close> is the answer for a key
  that gets none. \<open>numbering_look\<close> adds a search that gives no new numbers.
\<close>

locale numbering =
  fixes add :: "'s \<Rightarrow> 'k \<Rightarrow> ('s \<times> int) option"
    and key_at :: "'s \<Rightarrow> int \<Rightarrow> 'k option"
    and nxt :: "'s \<Rightarrow> int"
    and admits :: "'s \<Rightarrow> 'k \<Rightarrow> bool"
    and fit :: "'s \<Rightarrow> bool"
    and room :: "'s \<Rightarrow> nat"
    and none :: int
  assumes apart: "fit s \<Longrightarrow> key_at s k = Some x \<Longrightarrow> key_at s j = Some x \<Longrightarrow> j = k"
    and below: "fit s \<Longrightarrow> key_at s k = Some x \<Longrightarrow> k < nxt s"
    and add_refused: "fit s \<Longrightarrow> \<not> admits s x \<Longrightarrow> add s x = Some (s, none)"
    and add_known: "fit s \<Longrightarrow> admits s x \<Longrightarrow> key_at s k = Some x \<Longrightarrow>
      \<exists>s'. add s x = Some (s', k) \<and> fit s' \<and> room s \<le> Suc (room s') \<and> nxt s' = nxt s \<and> admits s' = admits s
        \<and> key_at s' = key_at s"
    and add_unknown: "fit s \<Longrightarrow> admits s x \<Longrightarrow> (\<forall>k. key_at s k \<noteq> Some x) \<Longrightarrow> 0 < room s \<Longrightarrow>
      \<exists>s'. add s x = Some (s', nxt s) \<and> fit s' \<and> room s \<le> Suc (room s') \<and> nxt s' = nxt s + 1 \<and> admits s' = admits s
        \<and> key_at s' = (key_at s)(nxt s := Some x)"
begin

text \<open>One step keeps every number and gives the key one if it may have one.\<close>

lemma add_numbers:
  assumes "fit s" "0 < room s"
  shows "\<exists>s' k. add s x = Some (s', k) \<and> fit s' \<and> room s \<le> Suc (room s') \<and> admits s' = admits s
    \<and> (\<forall>j y. key_at s j = Some y \<longrightarrow> key_at s' j = Some y)
    \<and> (\<forall>j y. key_at s' j = Some y \<longrightarrow> key_at s j = Some y \<or> y = x \<and> admits s x)
    \<and> (if admits s x then key_at s' k = Some x else k = none)"
proof (cases "admits s x")
  case False
  then show ?thesis using assms(1) add_refused [OF assms(1) False] by (intro exI [of _ s] exI [of _ none]) simp
next
  case True
  show ?thesis
  proof (cases "\<exists>k. key_at s k = Some x")
    case known: True
    then obtain k where k: "key_at s k = Some x" by blast
    obtain s' where "add s x = Some (s', k)" "fit s'" "room s \<le> Suc (room s')" "admits s' = admits s" "key_at s' = key_at s"
      using add_known [OF assms(1) True k] by blast
    then show ?thesis using True k by (intro exI [of _ s'] exI [of _ k]) simp
  next
    case False
    then obtain s' where s': "add s x = Some (s', nxt s)" "fit s'" "room s \<le> Suc (room s')"
        "admits s' = admits s" "key_at s' = (key_at s)(nxt s := Some x)"
      using add_unknown [OF assms(1) True _ assms(2)] by blast
    have "j \<noteq> nxt s" if "key_at s j = Some y" for j y using below [OF assms(1) that] by simp
    then show ?thesis using s' True by (intro exI [of _ s'] exI [of _ "nxt s"]) auto
  qed
qed

fun add_all :: "'s \<Rightarrow> 'k list \<Rightarrow> 's option" where
  "add_all s [] = Some s"
| "add_all s (x # xs) = (case add s x of None \<Rightarrow> None | Some (s', k) \<Rightarrow> add_all s' xs)"

text \<open>Any keys in any order: old numbers stay, and exactly the admitted keys have numbers.\<close>

lemma add_all_numbers:
  "fit s \<Longrightarrow> length xs \<le> room s \<Longrightarrow>
   \<exists>s'. add_all s xs = Some s' \<and> fit s' \<and> admits s' = admits s
     \<and> (\<forall>j y. key_at s j = Some y \<longrightarrow> key_at s' j = Some y)
     \<and> (\<forall>j y. key_at s' j = Some y \<longrightarrow> key_at s j = Some y \<or> y \<in> set xs \<and> admits s y)
     \<and> (\<forall>x\<in>set xs. admits s x \<longrightarrow> (\<exists>k. key_at s' k = Some x))"
proof (induction xs arbitrary: s)
  case Nil
  then show ?case by auto
next
  case (Cons x xs)
  have "0 < room s" using Cons.prems(2) by simp
  from add_numbers [OF Cons.prems(1) this, of x] obtain s1 k where s1: "add s x = Some (s1, k)" "fit s1"
      "room s \<le> Suc (room s1)" "admits s1 = admits s" "\<forall>j y. key_at s j = Some y \<longrightarrow> key_at s1 j = Some y"
      "\<forall>j y. key_at s1 j = Some y \<longrightarrow> key_at s j = Some y \<or> y = x \<and> admits s x"
      "if admits s x then key_at s1 k = Some x else k = none" by blast
  have "length xs \<le> room s1" using s1(3) Cons.prems(2) by simp
  from Cons.IH [OF s1(2) this] obtain s2 where s2: "add_all s1 xs = Some s2" "fit s2" "admits s2 = admits s1"
      "\<forall>j y. key_at s1 j = Some y \<longrightarrow> key_at s2 j = Some y"
      "\<forall>j y. key_at s2 j = Some y \<longrightarrow> key_at s1 j = Some y \<or> y \<in> set xs \<and> admits s1 y"
      "\<forall>x\<in>set xs. admits s1 x \<longrightarrow> (\<exists>k. key_at s2 k = Some x)" by blast
  have "\<exists>k. key_at s2 k = Some x" if "admits s x"
  proof -
    have "key_at s1 k = Some x" using s1(7) that by simp
    then show ?thesis using s2(4) by blast
  qed
  moreover have "key_at s j = Some y \<or> y \<in> set (x # xs) \<and> admits s y" if "key_at s2 j = Some y" for j y
    using s2(5) [rule_format, OF that] s1(4,6) by auto
  moreover have "key_at s2 j = Some y" if "key_at s j = Some y" for j y using s1(5) s2(4) that by blast
  ultimately show ?case using s1(1,4) s2(1,2,3,6) by (intro exI [of _ s2]) simp
qed

end

locale numbering_look = numbering add key_at nxt admits fit room none
  for add :: "'s \<Rightarrow> 'k \<Rightarrow> ('s \<times> int) option" and key_at nxt admits fit room none +
  fixes look :: "'s \<Rightarrow> 'k \<Rightarrow> int option"
  assumes look_known: "fit s \<Longrightarrow> key_at s k = Some x \<Longrightarrow> look s x = Some k"
    and look_unknown: "fit s \<Longrightarrow> (\<forall>k. key_at s k \<noteq> Some x) \<Longrightarrow> look s x = Some (-1)"
begin

text \<open>A number that is found leads back to the key.\<close>

lemma look_at:
  assumes "fit s" "look s x = Some k" "0 \<le> k"
  shows "key_at s k = Some x"
proof (rule ccontr)
  assume no: "key_at s k \<noteq> Some x"
  have "look s x \<noteq> Some (-1)" using assms(2,3) by simp
  then obtain j where "key_at s j = Some x" using look_unknown [OF assms(1)] by blast
  then show False using look_known [OF assms(1)] assms(2) no by force
qed

lemma look_apart: "fit s \<Longrightarrow> look s x = Some k \<Longrightarrow> look s y = Some k \<Longrightarrow> 0 \<le> k \<Longrightarrow> x = y"
  by (metis look_at option.inject)

end

end
