(* ===== verification/Ir_Node_Index.thy ===== *)
theory Ir_Node_Index
  imports Ir_Index Numbering "HOL-Library.Monad_Syntax"
begin

text \<open>
  The tables of nodes of the planner and the emitter. \<open>src/ir/ir_node_index.c\<close> holds two: the numbers
  that the names of boxes are made of (\<open>bb_node_id\<close>), and an index from a node to its place in an array,
  of which one is live at a time and others wait in scopes. \<open>src/planner/frame_layout.c\<close> has an index of
  its own over the same walk (\<open>zls_nidx_t\<close>). An array is its address and length; \<open>mem\<close> gives its cells.
\<close>

section \<open>The walk they share\<close>

text \<open>The slot of a pointer, and filling the arrays of keys and values of a table of \<open>cap\<close> slots.\<close>

definition nx_slot :: "u64 \<Rightarrow> addr \<Rightarrow> u64" where
  "nx_slot cap p = drop_bit 4 p AND (cap - 1)"

fun nx_fill :: "nat \<Rightarrow> addr list \<Rightarrow> u64 \<Rightarrow> addr list \<Rightarrow> int list \<Rightarrow> (addr list \<times> int list) option" where
  "nx_fill i [] cap ks vs = Some (ks, vs)"
| "nx_fill i (p # ps) cap ks vs =
     (if p = 0 then nx_fill (Suc i) ps cap ks vs
      else do {
        h \<leftarrow> probe_run (\<lambda>q. q = 0 \<or> q = p) ks (cap - 1) (nx_slot cap p);
        if ks ! unat h = 0 then nx_fill (Suc i) ps cap (ks[unat h := p]) (vs[unat h := int i])
        else nx_fill (Suc i) ps cap ks vs })"

definition nx_want :: "nat \<Rightarrow> u64 option" where
  "nx_want n = while_option (\<lambda>w. w < of_nat n * 2 + 2) (push_bit 1) 16"

definition nx_look :: "u64 \<Rightarrow> addr list \<Rightarrow> int list \<Rightarrow> addr \<Rightarrow> int option" where
  "nx_look cap ks vs p = do {
     h \<leftarrow> probe_run (\<lambda>q. q = 0 \<or> q = p) ks (cap - 1) (nx_slot cap p);
     Some (if ks ! unat h = 0 then -1 else vs ! unat h) }"

interpretation nx: place_table "\<lambda>p msk. drop_bit 4 p AND msk"
  by unfold_locales (rule unat_mask_slot)

lemma nx_fill_ok:
  "nx.firsts m ds ks vs \<Longrightarrow> length ds + length ps < 2 ^ m \<Longrightarrow>
   \<exists>ks' vs'. nx_fill (length ds) ps (2 ^ m) ks vs = Some (ks', vs') \<and> nx.firsts m (ds @ ps) ks' vs'"
proof (induction ps arbitrary: ds ks vs)
  case (Cons p ps)
  have step: "\<exists>ks'' vs''. nx_fill (Suc (length ds)) ps (2 ^ m) ks' vs' = Some (ks'', vs'') \<and> nx.firsts m (ds @ p # ps) ks'' vs''"
    if "nx.firsts m (ds @ [p]) ks' vs'" for ks' vs'
    using Cons.IH [OF that] Cons.prems(2) by simp
  have lt: "length ds < 2 ^ m" using Cons.prems(2) by simp
  show ?case
  proof (cases "p = 0")
    case True
    then show ?thesis using step [OF nx.firsts_null [OF Cons.prems(1), folded True]] by simp
  next
    case False
    then obtain s where s: "probe_run (\<lambda>q. q = 0 \<or> q = p) ks (2 ^ m - 1) (nx_slot (2 ^ m) p) = Some s"
        "nx.hunt ks m p = Some s" "unat s < 2 ^ m" "ks ! unat s = (if p \<in> set ds then p else 0)"
      using nx.firsts_probe [OF Cons.prems(1) lt, of p] by (auto simp: nx_slot_def cap_mask [OF refl])
    show ?thesis
    proof (cases "p \<in> set ds")
      case True
      then show ?thesis using False s step [OF nx.firsts_old [OF Cons.prems(1) True]] by simp
    next
      case new: False
      then show ?thesis using False s step [OF nx.firsts_new [OF Cons.prems(1) lt False new s(2,3)]] by simp
    qed
  qed
qed auto

lemma nx_want_ok:
  assumes "n < 2 ^ 31"
  shows "\<exists>m. nx_want n = Some (2 ^ m) \<and> m < 64 \<and> 2 * n + 2 \<le> 2 ^ m"
proof -
  have "of_nat n * 2 + 2 = (of_nat (2 * n + 2) :: u64)" "(16 :: u64) = 2 ^ 4" by simp_all
  then have want: "nx_want n = while_option (\<lambda>w. w < of_nat (2 * n + 2)) (push_bit 1) (2 ^ 4)"
    unfolding nx_want_def by (simp only:)
  have "2 * n + 2 \<le> 2 ^ (LENGTH(64) - 1)" "4 < LENGTH(64)" using assms by simp_all
  from double_until [where 'w = 64, OF this] show ?thesis unfolding want by auto
qed

lemma nx_look_ok:
  assumes "nx.firsts m ds ks vs" "length ds < 2 ^ m" "p \<noteq> 0"
  shows "nx_look (2 ^ m) ks vs p = Some (first_pos ds p)"
  using nx.firsts_probe [OF assms] assms(3) by (auto simp: nx_look_def nx_slot_def cap_mask [OF refl] split: if_splits)

section \<open>The index of the frame layout\<close>

record zls_nidx =
  zx_k :: "addr list"
  zx_v :: "int list"
  zx_cap :: u64

definition zls_nidx_build :: "addr list \<Rightarrow> zls_nidx option" where
  "zls_nidx_build ps = do {
     cap \<leftarrow> nx_want (length ps);
     (ks, vs) \<leftarrow> nx_fill 0 ps cap (replicate (unat cap) 0) (replicate (unat cap) 0);
     Some \<lparr>zx_k = ks, zx_v = vs, zx_cap = cap\<rparr> }"

definition zls_reuse_index :: "zls_nidx \<Rightarrow> addr \<Rightarrow> int option" where
  "zls_reuse_index m p = nx_look (zx_cap m) (zx_k m) (zx_v m) p"

lemma zls_nidx_places:
  assumes "length ps < 2 ^ 31"
  shows "\<exists>ix. zls_nidx_build ps = Some ix \<and> (\<forall>p. p \<noteq> 0 \<longrightarrow> zls_reuse_index ix p = Some (first_pos ps p))"
proof -
  obtain m where m: "nx_want (length ps) = Some (2 ^ m)" "m < 64" "2 * length ps + 2 \<le> 2 ^ m"
    using nx_want_ok [OF assms] by blast
  have u: "unat ((2 :: u64) ^ m) = 2 ^ m" using m(2) by (simp add: unat_pow2)
  obtain ks vs where "nx_fill 0 ps (2 ^ m) (replicate (2 ^ m) 0) (replicate (2 ^ m) 0) = Some (ks, vs)"
      "nx.firsts m ps ks vs"
    using nx_fill_ok [OF nx.firsts_empty [OF m(2), of "replicate (2 ^ m) 0"], of ps] m(3) by auto
  then show ?thesis using m u nx_look_ok [of m ps ks vs] by (simp add: zls_nidx_build_def zls_reuse_index_def)
qed

section \<open>The live index and its scopes\<close>

record nidx_state =
  nidx_nodes :: addr
  nidx_n :: nat
  nidx_keys :: "addr list"
  nidx_vals :: "int list"
  nidx_cap :: u64

type_synonym arrays = "addr \<Rightarrow> nat \<Rightarrow> addr list"

definition nidx_build :: "arrays \<Rightarrow> addr \<Rightarrow> nat \<Rightarrow> nidx_state \<Rightarrow> nidx_state option" where
  "nidx_build mem nodes n s = do {
     want \<leftarrow> nx_want n;
     let s = (if want > nidx_cap s
              then s\<lparr>nidx_keys := replicate (unat want) 0, nidx_vals := replicate (unat want) 0, nidx_cap := want\<rparr>
              else s);
     (ks, vs) \<leftarrow> nx_fill 0 (mem nodes n) (nidx_cap s) (replicate (unat (nidx_cap s)) 0) (nidx_vals s);
     Some (s\<lparr>nidx_keys := ks, nidx_vals := vs, nidx_nodes := nodes, nidx_n := n\<rparr>) }"

text \<open>The search; reading through a null array of keys is no result.\<close>

definition nidx :: "arrays \<Rightarrow> addr \<Rightarrow> nat \<Rightarrow> addr \<Rightarrow> nidx_state \<Rightarrow> int option" where
  "nidx mem nodes n e s =
     (if e = 0 then Some (-1)
      else if nodes \<noteq> nidx_nodes s \<or> n \<noteq> nidx_n s then Some (first_pos_from 0 (mem nodes n) e)
      else if nidx_keys s = [] then None
      else nx_look (nidx_cap s) (nidx_keys s) (nidx_vals s) e)"

record nidx_scope =
  sc_nodes :: addr
  sc_n :: nat
  sc_keys :: "addr list"
  sc_vals :: "int list"
  sc_cap :: u64
  sc_own :: bool

definition nidx_scope_open :: "arrays \<Rightarrow> addr \<Rightarrow> nat \<Rightarrow> nidx_scope \<Rightarrow> nidx_state \<Rightarrow> (nidx_scope \<times> nidx_state) option" where
  "nidx_scope_open mem nodes n sc s =
     (let sc = sc\<lparr>sc_own := \<not> (nodes = nidx_nodes s \<and> n = nidx_n s)\<rparr> in
      if \<not> sc_own sc then Some (sc, s)
      else let sc = sc\<lparr>sc_nodes := nidx_nodes s, sc_n := nidx_n s, sc_keys := nidx_keys s, sc_vals := nidx_vals s,
                 sc_cap := nidx_cap s\<rparr>;
               s = s\<lparr>nidx_keys := [], nidx_vals := [], nidx_cap := 0\<rparr>
           in do { s \<leftarrow> nidx_build mem nodes n s; Some (sc, s) })"

definition nidx_scope_close :: "nidx_scope \<Rightarrow> nidx_state \<Rightarrow> nidx_state" where
  "nidx_scope_close sc s =
     (if \<not> sc_own sc then s
      else s\<lparr>nidx_nodes := sc_nodes sc, nidx_n := sc_n sc, nidx_keys := sc_keys sc, nidx_vals := sc_vals sc,
             nidx_cap := sc_cap sc\<rparr>)"

definition nidx_reset :: "nidx_state \<Rightarrow> nidx_state" where
  "nidx_reset s = s\<lparr>nidx_nodes := 0, nidx_n := 0\<rparr>"

text \<open>
  The state: no table was built yet, or the arrays have a power of two of slots and, when an array is
  indexed, hold the first places of the cells \<open>snap\<close> it had when it was indexed.
\<close>

definition nidx_fits :: "addr list \<Rightarrow> nidx_state \<Rightarrow> bool" where
  "nidx_fits snap s \<longleftrightarrow>
     nidx_nodes s = 0 \<and> nidx_cap s = 0
     \<or> (\<exists>m<64. nidx_cap s = 2 ^ m \<and> length (nidx_vals s) = 2 ^ m
          \<and> (nidx_nodes s \<noteq> 0 \<longrightarrow> length snap < 2 ^ m \<and> nx.firsts m snap (nidx_keys s) (nidx_vals s)))"

definition nidx_tables :: "nidx_state \<Rightarrow> bool" where
  "nidx_tables s \<longleftrightarrow> nidx_cap s = 0 \<or> (\<exists>m<64. nidx_cap s = 2 ^ m \<and> length (nidx_vals s) = 2 ^ m)"

lemma nidx_fits_tables: "nidx_fits snap s \<Longrightarrow> nidx_tables s"
  by (auto simp: nidx_fits_def nidx_tables_def)

definition sized :: "arrays \<Rightarrow> bool" where
  "sized mem \<longleftrightarrow> (\<forall>a n. length (mem a n) = n)"

lemma nidx_build_ok:
  assumes "nidx_tables s" "sized mem" "n < 2 ^ 31"
  shows "\<exists>s'. nidx_build mem a n s = Some s' \<and> nidx_fits (mem a n) s' \<and> nidx_nodes s' = a \<and> nidx_n s' = n"
proof -
  obtain w where w: "nx_want n = Some (2 ^ w)" "w < 64" "2 * n + 2 \<le> 2 ^ w" using nx_want_ok [OF assms(3)] by blast
  define s1 where "s1 = (if 2 ^ w > nidx_cap s
      then s\<lparr>nidx_keys := replicate (unat ((2 :: u64) ^ w)) 0, nidx_vals := replicate (unat ((2 :: u64) ^ w)) 0, nidx_cap := 2 ^ w\<rparr>
      else s)"
  have "\<exists>m<64. nidx_cap s1 = 2 ^ m \<and> length (nidx_vals s1) = 2 ^ m \<and> 2 * n + 2 \<le> 2 ^ m"
  proof (cases "2 ^ w > nidx_cap s")
    case True
    then show ?thesis using w by (intro exI [of _ w]) (simp add: s1_def unat_pow2)
  next
    case False
    moreover have "(0 :: u64) < 2 ^ w" using pow2_neq0 [OF w(2)] by (metis word_gt_0)
    ultimately have "nidx_cap s \<noteq> 0" by (metis)
    then obtain m where m: "m < 64" "nidx_cap s = 2 ^ m" "length (nidx_vals s) = 2 ^ m"
      using assms(1) by (auto simp: nidx_tables_def)
    then have "(2::nat) ^ w \<le> 2 ^ m" using False w(2) by (simp add: not_less word_le_nat_alt unat_pow2)
    then have "2 * n + 2 \<le> 2 ^ m" using w(3) by linarith
    then show ?thesis using m False by (intro exI [of _ m]) (simp add: s1_def)
  qed
  then obtain m where m: "m < 64" "nidx_cap s1 = 2 ^ m" "length (nidx_vals s1) = 2 ^ m" "2 * n + 2 \<le> 2 ^ m" by blast
  have len: "length (mem a n) = n" using assms(2) by (simp add: sized_def)
  obtain ks vs where kv: "nx_fill 0 (mem a n) (2 ^ m) (replicate (2 ^ m) 0) (nidx_vals s1) = Some (ks, vs)"
      "nx.firsts m (mem a n) ks vs"
    using nx_fill_ok [OF nx.firsts_empty [OF m(1,3)], of "mem a n"] m(4) len by auto
  have "nidx_build mem a n s = Some (s1\<lparr>nidx_keys := ks, nidx_vals := vs, nidx_nodes := a, nidx_n := n\<rparr>)"
    using w(1) kv(1) m unat_pow2 [where 'w = 64, of m] by (simp add: nidx_build_def s1_def [symmetric])
  then show ?thesis using m kv(2) len nx.firsts_lengths [OF kv(2)] by (auto simp: nidx_fits_def)
qed

lemma nidx_look_ok:
  assumes "nidx_fits snap s" "a \<noteq> 0"
  shows "nidx mem a n e s =
    Some (if e = 0 then -1 else first_pos (if a = nidx_nodes s \<and> n = nidx_n s then snap else mem a n) e)"
proof (cases "e \<noteq> 0 \<and> a = nidx_nodes s \<and> n = nidx_n s")
  case True
  then obtain m where m: "nidx_cap s = 2 ^ m" "length snap < 2 ^ m" "nx.firsts m snap (nidx_keys s) (nidx_vals s)"
    using assms by (auto simp: nidx_fits_def)
  then show ?thesis using True nx.firsts_lengths [OF m(3)] nx_look_ok [OF m(3,2)] by (auto simp: nidx_def)
next
  case False
  then show ?thesis by (auto simp: nidx_def first_pos_def)
qed

text \<open>
  The states a process reaches. The memory of arrays is part of the state, and any array, the indexed one
  too, may be rewritten at any time. Beside it the relation carries the cells the live array had when it
  was indexed, and with each scope, the innermost first, those of the array that was live before it.
\<close>

definition nidx_start :: nidx_state where
  "nidx_start = \<lparr>nidx_nodes = 0, nidx_n = 0, nidx_keys = [], nidx_vals = [], nidx_cap = 0\<rparr>"

inductive nidx_run :: "arrays \<Rightarrow> addr list \<Rightarrow> (nidx_scope \<times> addr list) list \<Rightarrow> nidx_state \<Rightarrow> bool" where
  start: "sized mem \<Longrightarrow> nidx_run mem [] [] nidx_start"
| rewrite: "nidx_run mem snap scs s \<Longrightarrow> sized mem' \<Longrightarrow> nidx_run mem' snap scs s"
| build: "nidx_run mem snap scs s \<Longrightarrow> n < 2 ^ 31 \<Longrightarrow> nidx_build mem a n s = Some s' \<Longrightarrow> nidx_run mem (mem a n) scs s'"
| reset: "nidx_run mem snap scs s \<Longrightarrow> nidx_run mem snap scs (nidx_reset s)"
| scope_open: "nidx_run mem snap scs s \<Longrightarrow> n < 2 ^ 31 \<Longrightarrow> nidx_scope_open mem a n sc0 s = Some (sc, s') \<Longrightarrow>
    nidx_run mem (if sc_own sc then mem a n else snap) ((sc, snap) # scs) s'"
| scope_close: "nidx_run mem snap ((sc, old) # scs) s \<Longrightarrow>
    nidx_run mem (if sc_own sc then old else snap) scs (nidx_scope_close sc s)"

definition scope_fits :: "nidx_scope \<times> addr list \<Rightarrow> bool" where
  "scope_fits sc \<longleftrightarrow> (sc_own (fst sc) \<longrightarrow> nidx_fits (snd sc) (nidx_scope_close (fst sc) nidx_start))"

lemma nidx_scope_restores:
  "nidx_scope_open mem a n sc0 s = Some (sc, s1) \<Longrightarrow> nidx_scope_close sc s2 = (if sc_own sc then s else s2)"
  by (auto simp: nidx_scope_open_def nidx_scope_close_def Let_def bind_eq_Some_conv split: if_splits)

lemma nidx_close_own: "sc_own sc \<Longrightarrow> nidx_scope_close sc s = nidx_scope_close sc nidx_start"
  by (cases s) (simp add: nidx_scope_close_def nidx_start_def)

lemma nidx_open_ok:
  assumes "nidx_fits snap s" "sized mem" "n < 2 ^ 31"
  shows "\<exists>sc s'. nidx_scope_open mem a n sc0 s = Some (sc, s') \<and> sc_own sc = (\<not> (nidx_nodes s = a \<and> nidx_n s = n))
    \<and> nidx_fits (if sc_own sc then mem a n else snap) s' \<and> scope_fits (sc, snap) \<and> nidx_nodes s' = a \<and> nidx_n s' = n"
proof -
  have "\<exists>sc s'. nidx_scope_open mem a n sc0 s = Some (sc, s') \<and> sc_own sc = (\<not> (nidx_nodes s = a \<and> nidx_n s = n))
    \<and> nidx_fits (if sc_own sc then mem a n else snap) s' \<and> nidx_nodes s' = a \<and> nidx_n s' = n"
  proof (cases "nidx_nodes s = a \<and> nidx_n s = n")
    case True
    then show ?thesis using assms(1) by (simp add: nidx_scope_open_def)
  next
    case False
    have "nidx_tables (s\<lparr>nidx_keys := [], nidx_vals := [], nidx_cap := 0\<rparr>)" by (simp add: nidx_tables_def)
    from nidx_build_ok [OF this assms(2,3), of a] show ?thesis
      using False by (auto simp: nidx_scope_open_def Let_def)
  qed
  then obtain sc s' where o': "nidx_scope_open mem a n sc0 s = Some (sc, s')" "sc_own sc = (\<not> (nidx_nodes s = a \<and> nidx_n s = n))"
      "nidx_fits (if sc_own sc then mem a n else snap) s'" "nidx_nodes s' = a" "nidx_n s' = n"
    by blast
  moreover have "scope_fits (sc, snap)" using nidx_scope_restores [OF o'(1)] assms(1) by (simp add: scope_fits_def)
  ultimately show ?thesis by blast
qed

lemma nidx_run_fits: "nidx_run mem snap scs s \<Longrightarrow> sized mem \<and> nidx_fits snap s \<and> (\<forall>sc\<in>set scs. scope_fits sc)"
proof (induction rule: nidx_run.induct)
  case (start mem)
  then show ?case by (simp add: nidx_fits_def nidx_start_def)
next
  case (rewrite mem snap scs s mem')
  then show ?case by simp
next
  case (build mem snap scs s n a s')
  then show ?case using nidx_build_ok [of s mem n a] nidx_fits_tables [of snap s] by auto
next
  case (reset mem snap scs s)
  then show ?case by (auto simp: nidx_fits_def nidx_reset_def)
next
  case (scope_open mem snap scs s n a sc0 sc s')
  then show ?case using nidx_open_ok [of snap s mem n a sc0] by auto
next
  case (scope_close mem snap sc old scs s)
  then show ?case using nidx_close_own [of sc s]
    by (cases "sc_own sc") (auto simp: scope_fits_def nidx_scope_close_def [of sc s])
qed

text \<open>
  C18. What the index of nodes answers in every state a process reaches by builds, resets, scopes closed
  innermost first, and arrays rewritten in place at any time. Asked about an array that is not live it
  answers the first place of the node in the array as it is now, or -1; asked about the live one, its
  first place in the cells the array had when it was indexed, which is the first place now as long as the
  array was not rewritten since. Opening a scope comes back: an array that is live already keeps its
  index, and closing the scope then changes nothing; any other array is indexed as it is now, and closing
  the scope restores exactly the index that was live before, whatever was done in between.
\<close>

theorem nidx_always_right:
  assumes "nidx_run mem snap scs s" "a \<noteq> 0" "n < 2 ^ 31"
  shows "let live = (a = nidx_nodes s \<and> n = nidx_n s);
             ans = Some (if e = 0 then -1 else first_pos (if live then snap else mem a n) e)
         in nidx mem a n e s = ans
            \<and> (live \<and> mem a n = snap \<longrightarrow> nidx mem a n e s = Some (if e = 0 then -1 else first_pos (mem a n) e))
            \<and> (\<exists>sc s1. nidx_scope_open mem a n sc0 s = Some (sc, s1) \<and> nidx mem a n e s1 = ans
                 \<and> (live \<longrightarrow> s1 = s) \<and> (\<forall>s2. nidx_scope_close sc s2 = (if live then s2 else s)))"
proof -
  let ?live = "a = nidx_nodes s \<and> n = nidx_n s"
  have fits: "sized mem" "nidx_fits snap s" using nidx_run_fits [OF assms(1)] by blast+
  obtain sc s1 where o': "nidx_scope_open mem a n sc0 s = Some (sc, s1)" "sc_own sc = (\<not> (nidx_nodes s = a \<and> nidx_n s = n))"
      "nidx_fits (if sc_own sc then mem a n else snap) s1" "nidx_nodes s1 = a" "nidx_n s1 = n"
    using nidx_open_ok [OF fits(2,1) assms(3)] by blast
  have own: "sc_own sc \<longleftrightarrow> \<not> ?live" using o'(2) by auto
  have same: "?live \<longrightarrow> s1 = s" using o'(1) own by (auto simp: nidx_scope_open_def Let_def)
  have now: "nidx mem a n e s1 = Some (if e = 0 then -1 else first_pos (if ?live then snap else mem a n) e)"
    using nidx_look_ok [OF o'(3) assms(2), of mem n e] o'(4,5) own by (cases "sc_own sc") auto
  have "nidx_scope_close sc s2 = (if ?live then s2 else s)" for s2
    using nidx_scope_restores [OF o'(1), of s2] own by simp
  then show ?thesis
    unfolding Let_def using nidx_look_ok [OF fits(2) assms(2)] o'(1) same now
    by (intro conjI impI exI [of _ sc] exI [of _ s1]) auto
qed

definition demo_arrays :: arrays where
  "demo_arrays a n = map (\<lambda>k. a + 16 * of_nat (Suc k)) [0..<n]"

text \<open>The demo with the array at 4096 rewritten: its cells are turned round.\<close>

definition demo_turned :: arrays where
  "demo_turned a n = (if a = 4096 then rev (demo_arrays a n) else demo_arrays a n)"

text \<open>
  Three cells at 4096 are indexed; another array is searched as it is. After the rewriting the index still
  answers the old place of a node, while the walk over the array would find it in another one.
\<close>

theorem nidx_always_right_witness:
  "\<exists>s. nidx_build demo_arrays 4096 3 nidx_start = Some s \<and> nidx demo_arrays 4096 3 0x1010 s = Some 0
    \<and> nidx demo_arrays 8192 2 0x2020 s = Some 1 \<and> nidx demo_arrays 4096 3 0x2020 s = Some (-1)
    \<and> nidx demo_turned 4096 3 0x1010 s = Some 0 \<and> first_pos (demo_turned 4096 3) 0x1010 = 2"
proof -
  have sized: "sized demo_arrays" "sized demo_turned" by (simp_all add: sized_def demo_arrays_def demo_turned_def)
  have "nidx_tables nidx_start" by (simp add: nidx_tables_def nidx_start_def)
  then obtain s where s: "nidx_build demo_arrays 4096 3 nidx_start = Some s" "nidx_nodes s = 4096" "nidx_n s = 3"
    using nidx_build_ok [OF _ sized(1), of nidx_start 3 4096] by auto
  have run: "nidx_run demo_arrays (demo_arrays 4096 3) [] s"
    by (rule nidx_run.build [OF nidx_run.start [OF sized(1)] _ s(1)]) simp
  have run': "nidx_run demo_turned (demo_arrays 4096 3) [] s" by (rule nidx_run.rewrite [OF run sized(2)])
  have pos: "first_pos (demo_arrays 4096 3) 0x1010 = 0" "first_pos (demo_arrays 8192 2) 0x2020 = 1"
      "first_pos (demo_arrays 4096 3) 0x2020 = -1" "first_pos (demo_turned 4096 3) 0x1010 = 2" by code_simp+
  show ?thesis
    using s pos nidx_always_right [OF run, of 4096 3 4112] nidx_always_right [OF run, of 8192 2 8224]
      nidx_always_right [OF run, of 4096 3 8224] nidx_always_right [OF run', of 4096 3 4112] by (simp add: Let_def)
qed

section \<open>The numbers of nodes\<close>

text \<open>\<open>nid_dense\<close> is the switch \<open>g_m4_dense_nid\<close>; without it the number is made of the address.\<close>

record nid_state =
  nid_tab :: "(addr \<times> int) list"
  nid_len :: u32
  nid_count :: nat
  nid_dense :: bool

definition nid_slot :: "u32 \<Rightarrow> addr \<Rightarrow> u64" where
  "nid_slot len p = drop_bit 4 p AND ucast (len - 1)"

fun nid_move :: "(addr \<times> int) list \<Rightarrow> u32 \<Rightarrow> (addr \<times> int) list \<Rightarrow> (addr \<times> int) list option" where
  "nid_move [] len tab = Some tab"
| "nid_move (q # qs) len tab =
     (if fst q = 0 then nid_move qs len tab
      else do {
        j \<leftarrow> probe_run (\<lambda>e. fst e = 0) tab (ucast (len - 1)) (nid_slot len (fst q));
        nid_move qs len (tab[unat j := q]) })"

definition nid_grow :: "nid_state \<Rightarrow> nid_state option" where
  "nid_grow s =
     (if (nid_count s + 1) * 2 > unat (nid_len s)
      then let nc = (if nid_len s \<noteq> 0 then nid_len s * 2 else 8) in do {
        tab \<leftarrow> nid_move (nid_tab s) nc (replicate (unat nc) (0, 0));
        Some (s\<lparr>nid_tab := tab, nid_len := nc\<rparr>) }
      else Some s)"

definition bb_node_id :: "nid_state \<Rightarrow> addr \<Rightarrow> (nid_state \<times> int) option" where
  "bb_node_id s nd =
     (if nd = 0 then Some (s, 0)
      else if \<not> nid_dense s then Some (s, int (unat nd mod 100000))
      else do {
        s \<leftarrow> nid_grow s;
        h \<leftarrow> probe_run (\<lambda>e. fst e = 0 \<or> fst e = nd) (nid_tab s) (ucast (nid_len s - 1)) (nid_slot (nid_len s) nd);
        if fst (nid_tab s ! unat h) \<noteq> 0 then Some (s, snd (nid_tab s ! unat h))
        else let k = nid_count s + 1 in
          Some (s\<lparr>nid_tab := (nid_tab s)[unat h := (nd, int k)], nid_count := k\<rparr>, int k) })"

definition nid_key :: "addr \<times> int \<Rightarrow> addr option" where
  "nid_key e = (if fst e = 0 then None else Some (fst e))"

lemma nid_key_simps [simp]: "nid_key e = None \<longleftrightarrow> fst e = 0" "nid_key e = Some x \<longleftrightarrow> fst e \<noteq> 0 \<and> fst e = x"
  by (auto simp: nid_key_def)

interpretation nidt: probing "\<lambda>p msk. drop_bit 4 p AND msk" nid_key
  by unfold_locales (rule unat_mask_slot)

text \<open>The entries in use, and the node with a number.\<close>

definition used :: "(addr \<times> int) list \<Rightarrow> (addr \<times> int) set" where
  "used tab = {e \<in> set tab. fst e \<noteq> 0}"

definition nid_at :: "nid_state \<Rightarrow> int \<Rightarrow> addr option" where
  "nid_at s k = map_option fst (find (\<lambda>e. fst e \<noteq> 0 \<and> snd e = k) (nid_tab s))"

lemma keys_used: "nidt.keys tab = fst ` used tab"
  by (force simp: nidt.keys_def used_def nid_key_def)

lemma used_store:
  assumes "t < length tab" "fst (tab ! t) = 0" "fst e \<noteq> 0"
  shows "used (tab[t := e]) = insert e (used tab)"
proof (intro set_eqI iffI)
  fix x assume "x \<in> insert e (used tab)"
  then consider "x = e" | i where "i < length tab" "tab ! i = x" "fst x \<noteq> 0"
    by (auto simp: used_def in_set_conv_nth)
  then show "x \<in> used (tab[t := e])"
  proof cases
    case 1
    then show ?thesis using assms(1,3) set_update_memI by (auto simp: used_def)
  next
    case (2 i)
    then have "i \<noteq> t" using assms(2) by auto
    then have "tab[t := e] ! i = x" using 2 by simp
    then show ?thesis using 2 by (metis (mono_tags, lifting) CollectI length_list_update nth_mem used_def)
  qed
qed (use set_update_subset_insert [of tab t e] assms(3) in \<open>auto simp: used_def\<close>)

lemma nid_mask: "m < 32 \<Longrightarrow> ucast ((2 :: u32) ^ m - 1) = (mask m :: u64)"
  unfolding mask_eq_exp_minus_1 [symmetric] by (rule bit_word_eqI) (auto simp: bit_simps)

lemma nid_move_ok:
  "nidt.reachable m tab \<Longrightarrow> m < 32 \<Longrightarrow> distinct (map fst (filter (\<lambda>e. fst e \<noteq> 0) qs)) \<Longrightarrow>
   fst ` used tab \<inter> set (map fst (filter (\<lambda>e. fst e \<noteq> 0) qs)) = {} \<Longrightarrow>
   card (fst ` used tab) + length (filter (\<lambda>e. fst e \<noteq> 0) qs) < 2 ^ m \<Longrightarrow>
   \<exists>tab'. nid_move qs (2 ^ m) tab = Some tab' \<and> nidt.reachable m tab' \<and> used tab' = used tab \<union> used qs"
proof (induction qs arbitrary: tab)
  case Nil
  then show ?case by (simp add: used_def)
next
  case (Cons q qs)
  show ?case
  proof (cases "fst q = 0")
    case True
    then have "used (q # qs) = used qs" by (auto simp: used_def)
    then show ?thesis using True Cons.IH [OF Cons.prems(1,2)] Cons.prems(3-5) by simp
  next
    case False
    have roomy: "nidt.roomy tab" using nidt.roomy_few [OF Cons.prems(1)] Cons.prems(5) by (simp add: keys_used)
    have new: "fst q \<notin> nidt.keys tab" using Cons.prems(4) False by (auto simp: keys_used)
    obtain t where t: "nidt.hunt tab m (fst q) = Some t" "unat t < 2 ^ m" "nid_key (tab ! unat t) = None"
      using nidt.hunt_result [OF Cons.prems(1) roomy, of "fst q"] new by auto
    have "probe_run (\<lambda>e. fst e = 0) tab (mask m) (drop_bit 4 (fst q) AND mask m) = nidt.hunt tab m (fst q)"
      by (rule nidt.hunt_free [OF Cons.prems(1) roomy new]) simp
    then have run: "probe_run (\<lambda>e. fst e = 0) tab (ucast ((2 :: u32) ^ m - 1)) (nid_slot (2 ^ m) (fst q)) = Some t"
      using t(1) by (simp only: nid_slot_def nid_mask [OF Cons.prems(2)])
    have key: "nid_key q = Some (fst q)" using False by simp
    have len: "length tab = 2 ^ m" using Cons.prems(1) by (simp add: nidt.reachable_def)
    have store: "nidt.reachable m (tab[unat t := q])" by (rule nidt.reachable_store [OF Cons.prems(1) roomy t(1) key])
    have u: "used (tab[unat t := q]) = insert q (used tab)"
      by (rule used_store) (use t(2,3) len False in simp_all)
    have "finite (used tab)" by (simp add: used_def)
    then have "card (fst ` used (tab[unat t := q])) = Suc (card (fst ` used tab))"
      unfolding u using new by (simp add: keys_used)
    then obtain tab' where "nid_move qs (2 ^ m) (tab[unat t := q]) = Some tab'" "nidt.reachable m tab'"
        "used tab' = used (tab[unat t := q]) \<union> used qs"
      using Cons.IH [OF store Cons.prems(2)] Cons.prems(3-5) False unfolding u by auto
    moreover have "used (q # qs) = insert q (used qs)" using False by (auto simp: used_def)
    ultimately show ?thesis using False run u by (intro exI [of _ tab']) simp
  qed
qed

lemma reachable_distinct:
  assumes "nidt.reachable m tab"
  shows "distinct (map fst (filter (\<lambda>e. fst e \<noteq> 0) tab))"
proof -
  have len: "length tab = 2 ^ m" using assms by (simp add: nidt.reachable_def)
  have "distinct (filter (\<lambda>a. a \<noteq> 0) (map fst tab))"
  proof (rule distinct_filter_nth)
    fix i j assume a: "i < length (map fst tab)" "j < length (map fst tab)" "map fst tab ! i \<noteq> 0" "map fst tab ! i = map fst tab ! j"
    then show "i = j" using nidt.keys_distinct [OF assms, of i j "fst (tab ! i)"] len by simp
  qed
  then show ?thesis by (simp add: filter_map comp_def)
qed

text \<open>Numbers from 1 on without gaps, each of one node; half of the table is empty.\<close>

definition nid_fits :: "nid_state \<Rightarrow> bool" where
  "nid_fits s \<longleftrightarrow> nid_count s < 2 ^ 30 \<and> card (fst ` used (nid_tab s)) = nid_count s
     \<and> (\<forall>e\<in>used (nid_tab s). 1 \<le> snd e \<and> snd e \<le> int (nid_count s))
     \<and> (\<forall>e\<in>used (nid_tab s). \<forall>f\<in>used (nid_tab s). snd e = snd f \<longrightarrow> e = f)
     \<and> (nid_len s = 0 \<and> nid_tab s = []
        \<or> (\<exists>m<32. nid_len s = 2 ^ m \<and> nidt.reachable m (nid_tab s) \<and> 2 * nid_count s \<le> 2 ^ m))"

definition nid_ok :: "nid_state \<Rightarrow> bool" where
  "nid_ok s \<longleftrightarrow> nid_dense s \<and> nid_fits s"

lemma nid_okI:
  assumes "nid_dense s" "nid_count s < 2 ^ 30" "card (fst ` used (nid_tab s)) = nid_count s"
    "\<And>e. e \<in> used (nid_tab s) \<Longrightarrow> 1 \<le> snd e \<and> snd e \<le> int (nid_count s)"
    "\<And>e f. e \<in> used (nid_tab s) \<Longrightarrow> f \<in> used (nid_tab s) \<Longrightarrow> snd e = snd f \<Longrightarrow> e = f"
    "m < 32" "nid_len s = 2 ^ m" "nidt.reachable m (nid_tab s)" "2 * nid_count s \<le> 2 ^ m"
  shows "nid_ok s"
  unfolding nid_ok_def nid_fits_def using assms by blast

lemma nid_okD:
  assumes "nid_ok s"
  shows "nid_dense s" "nid_count s < 2 ^ 30" "card (fst ` used (nid_tab s)) = nid_count s"
    "\<And>e. e \<in> used (nid_tab s) \<Longrightarrow> 1 \<le> snd e \<and> snd e \<le> int (nid_count s)"
    "\<And>e f. e \<in> used (nid_tab s) \<Longrightarrow> f \<in> used (nid_tab s) \<Longrightarrow> snd e = snd f \<Longrightarrow> e = f"
  using assms unfolding nid_ok_def nid_fits_def by blast+

lemma nid_node_once:
  assumes "nid_ok s" "(p, k) \<in> used (nid_tab s)" "(p, j) \<in> used (nid_tab s)"
  shows "j = k"
proof -
  have "distinct (map fst (filter (\<lambda>e. fst e \<noteq> 0) (nid_tab s)))"
    using assms(1) reachable_distinct by (auto simp: nid_ok_def nid_fits_def)
  then show ?thesis using eq_key_imp_eq_value [of "filter (\<lambda>e. fst e \<noteq> 0) (nid_tab s)" p j k] assms(2,3) by (simp add: used_def)
qed

lemma nid_at_used:
  assumes "nid_ok s"
  shows "nid_at s k = Some p \<longleftrightarrow> (p, k) \<in> used (nid_tab s)"
proof (cases "\<exists>e\<in>set (nid_tab s). fst e \<noteq> 0 \<and> snd e = k")
  case True
  then obtain f where f: "find (\<lambda>e. fst e \<noteq> 0 \<and> snd e = k) (nid_tab s) = Some f"
    by (metis (mono_tags, lifting) find_None_iff not_None_eq)
  then have "f \<in> used (nid_tab s)" "snd f = k" by (auto simp: find_Some_iff used_def)
  then show ?thesis using f nid_okD(5) [OF assms, of f "(p, k)"] by (cases f) (auto simp: nid_at_def)
next
  case False
  then have "find (\<lambda>e. fst e \<noteq> 0 \<and> snd e = k) (nid_tab s) = None" by (auto simp: find_None_iff)
  then show ?thesis using False by (auto simp: nid_at_def used_def)
qed

text \<open>Growing the table keeps its entries and makes room for one more.\<close>

lemma nid_grow_ok:
  assumes "nid_ok s"
  shows "\<exists>s' m. nid_grow s = Some s' \<and> m < 32 \<and> nid_len s' = 2 ^ m \<and> nidt.reachable m (nid_tab s')
    \<and> 2 * (nid_count s + 1) \<le> 2 ^ m \<and> used (nid_tab s') = used (nid_tab s) \<and> nid_count s' = nid_count s \<and> nid_dense s'"
proof (cases "(nid_count s + 1) * 2 > unat (nid_len s)")
  case False
  then have "nid_len s \<noteq> 0" by auto
  then obtain m where m: "m < 32" "nid_len s = 2 ^ m" "nidt.reachable m (nid_tab s)" using assms by (auto simp: nid_ok_def nid_fits_def)
  then show ?thesis using False assms by (intro exI [of _ s] exI [of _ m]) (simp add: nid_grow_def nid_ok_def nid_fits_def unat_pow2)
next
  case True
  have card: "card (fst ` used (nid_tab s)) = nid_count s" using assms by (simp add: nid_ok_def nid_fits_def)
  have "\<exists>k<32. (if nid_len s \<noteq> 0 then nid_len s * 2 else 8) = 2 ^ k \<and> 2 * (nid_count s + 1) \<le> 2 ^ k
      \<and> distinct (map fst (filter (\<lambda>e. fst e \<noteq> 0) (nid_tab s)))"
  proof (cases "nid_len s = 0")
    case True
    then have "nid_tab s = []" using assms by (auto simp: nid_ok_def nid_fits_def)
    then have "nid_count s = 0" using card by (simp add: used_def)
    then show ?thesis using True \<open>nid_tab s = []\<close> by (intro exI [of _ 3]) simp
  next
    case False
    then obtain m where m: "m < 32" "nid_len s = 2 ^ m" "nidt.reachable m (nid_tab s)" "2 * nid_count s \<le> 2 ^ m"
      using assms by (auto simp: nid_ok_def nid_fits_def)
    have "(2::nat) ^ m < 2 ^ 31" using True nid_okD(2) [OF assms] m(1,2) by (simp add: unat_pow2)
    then have "m < 31" by (rule power_less_imp_less_exp [rotated]) simp
    moreover have "nid_len s * 2 = 2 ^ Suc m" using m(2) by simp
    moreover have "2 * (nid_count s + 1) \<le> 2 ^ Suc m"
    proof -
      have "(2::nat) \<le> 2 ^ Suc m" by simp
      moreover have "m \<noteq> 0 \<Longrightarrow> (2::nat) \<le> 2 ^ m" by (cases m) simp_all
      ultimately show ?thesis using m(4) by (cases "m = 0") auto
    qed
    ultimately show ?thesis using False reachable_distinct [OF m(3)] by (intro exI [of _ "Suc m"]) simp
  qed
  then obtain k where k: "k < 32" "(if nid_len s \<noteq> 0 then nid_len s * 2 else 8) = 2 ^ k" "2 * (nid_count s + 1) \<le> 2 ^ k"
      "distinct (map fst (filter (\<lambda>e. fst e \<noteq> 0) (nid_tab s)))" by blast
  have e: "used (replicate (2 ^ k) (0, 0)) = {}" by (auto simp: used_def)
  have "set (map fst (filter (\<lambda>e. fst e \<noteq> 0) (nid_tab s))) = fst ` used (nid_tab s)" by (auto simp: used_def)
  then have "length (filter (\<lambda>e. fst e \<noteq> 0) (nid_tab s)) = nid_count s"
    using distinct_card [OF k(4)] card by simp
  moreover have "nidt.reachable k (replicate (2 ^ k) (0, 0))" using k(1) by (intro nidt.reachable_empty) simp_all
  ultimately obtain tab where "nid_move (nid_tab s) (2 ^ k) (replicate (2 ^ k) (0, 0)) = Some tab" "nidt.reachable k tab"
      "used tab = used (nid_tab s)"
    using nid_move_ok [of k "replicate (2 ^ k) (0, 0)" "nid_tab s"] k e by auto
  then show ?thesis using True k(1-3) assms
    by (intro exI [of _ "s\<lparr>nid_tab := tab, nid_len := 2 ^ k\<rparr>"] exI [of _ k])
      (simp add: nid_grow_def Let_def nid_ok_def nid_fits_def unat_pow2)
qed

text \<open>One call: the number the node has, or the next one.\<close>

lemma bb_node_id_ok:
  assumes "nid_ok s" "nd \<notin> fst ` used (nid_tab s) \<Longrightarrow> nid_count s < 2 ^ 30 - 1" "nd \<noteq> 0"
  shows "\<exists>s'. nid_ok s' \<and>
    (if nd \<in> fst ` used (nid_tab s)
     then \<exists>k. (nd, k) \<in> used (nid_tab s) \<and> bb_node_id s nd = Some (s', k) \<and> used (nid_tab s') = used (nid_tab s) \<and> nid_count s' = nid_count s
     else bb_node_id s nd = Some (s', int (nid_count s) + 1) \<and> nid_count s' = nid_count s + 1
       \<and> used (nid_tab s') = insert (nd, int (nid_count s) + 1) (used (nid_tab s)))"
proof -
  obtain s1 m where s1: "nid_grow s = Some s1" "m < 32" "nid_len s1 = 2 ^ m" "nidt.reachable m (nid_tab s1)"
      "2 * (nid_count s + 1) \<le> 2 ^ m" "used (nid_tab s1) = used (nid_tab s)" "nid_count s1 = nid_count s" "nid_dense s1"
    using nid_grow_ok [OF assms(1)] by blast
  let ?tab = "nid_tab s1"
  have keys: "nidt.keys ?tab = fst ` used (nid_tab s)" by (simp add: keys_used s1(6))
  have len: "length ?tab = 2 ^ m" using s1(4) by (simp add: nidt.reachable_def)
  have card: "card (fst ` used (nid_tab s)) = nid_count s" using assms(1) by (simp add: nid_ok_def nid_fits_def)
  have roomy: "nidt.roomy ?tab" using nidt.roomy_few [OF s1(4)] s1(5) card by (simp add: keys)
  obtain t where t: "nidt.hunt ?tab m nd = Some t" "unat t < 2 ^ m"
      "nid_key (?tab ! unat t) = (if nd \<in> fst ` used (nid_tab s) then Some nd else None)"
    using nidt.hunt_result [OF s1(4) roomy, of nd] keys by auto
  have "nidt.stops nd = (\<lambda>e. fst e = 0 \<or> fst e = nd)" by (auto simp: nidt.stops_def fun_eq_iff)
  then have run: "probe_run (\<lambda>e. fst e = 0 \<or> fst e = nd) ?tab (ucast (nid_len s1 - 1)) (nid_slot (nid_len s1) nd) = Some t"
    using t(1) unfolding nid_slot_def s1(3) nid_mask [OF s1(2)] nidt.hunt_def by simp
  have dense: "nid_dense s" using assms(1) by (simp add: nid_ok_def nid_fits_def)
  show ?thesis
  proof (cases "nd \<in> fst ` used (nid_tab s)")
    case True
    then have e: "fst (?tab ! unat t) = nd" using t(3) by simp
    obtain k where k: "?tab ! unat t = (nd, k)" using e by (cases "?tab ! unat t") simp
    have "?tab ! unat t \<in> set ?tab" using t(2) len by simp
    then have in_use: "(nd, k) \<in> used (nid_tab s)" unfolding s1(6) [symmetric] k by (simp add: used_def assms(3))
    have ok: "nid_ok s1"
      by (rule nid_okI [OF s1(8) _ _ _ _ s1(2-4)]) (use nid_okD [OF assms(1)] s1(5) in \<open>simp_all add: s1(6,7)\<close>)
    have "bb_node_id s nd = Some (s1, k)"
      using assms(3) dense s1(1) run k by (simp add: bb_node_id_def)
    with ok in_use s1(6,7) True show ?thesis by auto
  next
    case False
    let ?e = "(nd, int (nid_count s) + 1)"
    let ?s = "s1\<lparr>nid_tab := ?tab[unat t := ?e], nid_count := nid_count s + 1\<rparr>"
    have free: "fst (?tab ! unat t) = 0" using t(3) False by simp
    have u: "used (?tab[unat t := ?e]) = insert ?e (used (nid_tab s))"
      using used_store [of "unat t" ?tab ?e] t(2) len free assms(3) s1(6) by simp
    have r: "nidt.reachable m (?tab[unat t := ?e])"
      by (rule nidt.reachable_store [OF s1(4) roomy t(1)]) (simp add: assms(3))
    have "finite (used (nid_tab s))" by (simp add: used_def)
    then have "card (fst ` used (?tab[unat t := ?e])) = nid_count s + 1" using False card by (simp add: u)
    note card' = this
    have range: "1 \<le> snd e \<and> snd e \<le> 1 + int (nid_count s)" if "e \<in> insert ?e (used (nid_tab s))" for e
      using that nid_okD(4) [OF assms(1), of e] by auto
    have one: "e = f" if "e \<in> insert ?e (used (nid_tab s))" "f \<in> insert ?e (used (nid_tab s))" "snd e = snd f" for e f
      using that nid_okD(4) [OF assms(1), of e] nid_okD(4) [OF assms(1), of f] nid_okD(5) [OF assms(1), of e f] by auto
    have "nid_ok ?s"
      by (rule nid_okI [where m = m]) (use range one card' assms(2) [OF False] s1(2,3,5,8) r in \<open>simp_all add: u\<close>)
    moreover have "bb_node_id s nd = Some (?s, int (nid_count s) + 1)"
      using assms(3) dense s1(1,7) run free by (simp add: bb_node_id_def Let_def add.commute)
    ultimately show ?thesis using False u by (intro exI [of _ ?s]) simp
  qed
qed

interpretation nid: numbering bb_node_id nid_at "\<lambda>s. int (nid_count s) + 1" "\<lambda>s p. p \<noteq> 0" nid_ok
  "\<lambda>s. 2 ^ 30 - 1 - nid_count s" 0
proof unfold_locales
  fix s p k
  assume s: "nid_ok s"
  have u: "nid_at s k = Some p \<longleftrightarrow> (p, k) \<in> used (nid_tab s)" for k p by (rule nid_at_used [OF s])
  have same: "nid_at s' = nid_at s" if "nid_ok s'" "used (nid_tab s') = used (nid_tab s)" for s'
    using nid_at_used [OF that(1)] u that(2) by (metis (no_types) ext not_Some_eq)
  show "j = k" if "nid_at s k = Some p" "nid_at s j = Some p" for j
    using nid_node_once [OF s] that by (simp add: u)
  show "k < int (nid_count s) + 1" if "nid_at s k = Some p"
    using nid_okD(4) [OF s, of "(p, k)"] that by (simp add: u)
  show "bb_node_id s p = Some (s, 0)" if "\<not> p \<noteq> 0" using that by (simp add: bb_node_id_def)
  show "\<exists>s'. bb_node_id s p = Some (s', k) \<and> nid_ok s' \<and> 2 ^ 30 - 1 - nid_count s \<le> Suc (2 ^ 30 - 1 - nid_count s')
      \<and> int (nid_count s') + 1 = int (nid_count s) + 1 \<and> (\<lambda>p :: addr. p \<noteq> 0) = (\<lambda>p. p \<noteq> 0) \<and> nid_at s' = nid_at s"
    if nz: "p \<noteq> 0" and at: "nid_at s k = Some p"
  proof -
    have in_tab: "(p, k) \<in> used (nid_tab s)" "p \<in> fst ` used (nid_tab s)" using at by (force simp: u)+
    then obtain s' j where "nid_ok s'" "(p, j) \<in> used (nid_tab s)" "bb_node_id s p = Some (s', j)"
        "used (nid_tab s') = used (nid_tab s)" "nid_count s' = nid_count s"
      using bb_node_id_ok [OF s _ nz] by auto
    then show ?thesis using same nid_node_once [OF s in_tab(1)] by (intro exI [of _ s']) simp
  qed
  show "\<exists>s'. bb_node_id s p = Some (s', int (nid_count s) + 1) \<and> nid_ok s' \<and> 2 ^ 30 - 1 - nid_count s \<le> Suc (2 ^ 30 - 1 - nid_count s')
      \<and> int (nid_count s') + 1 = int (nid_count s) + 1 + 1 \<and> (\<lambda>p :: addr. p \<noteq> 0) = (\<lambda>p. p \<noteq> 0)
      \<and> nid_at s' = (nid_at s)(int (nid_count s) + 1 := Some p)"
    if nz: "p \<noteq> 0" and no: "\<forall>k. nid_at s k \<noteq> Some p" and room: "0 < 2 ^ 30 - 1 - nid_count s"
  proof -
    have new: "p \<notin> fst ` used (nid_tab s)" using no by (force simp: u)
    have "nid_count s < 2 ^ 30 - 1" using room by linarith
    then obtain s' where s': "nid_ok s'" "bb_node_id s p = Some (s', int (nid_count s) + 1)" "nid_count s' = nid_count s + 1"
        "used (nid_tab s') = insert (p, int (nid_count s) + 1) (used (nid_tab s))"
      using bb_node_id_ok [OF s _ nz] new by auto
    have fresh: "(q, int (nid_count s) + 1) \<notin> used (nid_tab s)" for q using nid_okD(4) [OF s] by force
    have "nid_at s' k = Some q \<longleftrightarrow> ((nid_at s)(int (nid_count s) + 1 := Some p)) k = Some q" for k q
      using nid_at_used [OF s'(1), of k q] u [of k q] s'(4) fresh [of q] by auto
    then have "nid_at s' k = ((nid_at s)(int (nid_count s) + 1 := Some p)) k" for k
      by (metis not_Some_eq)
    then show ?thesis using s'(1-3) by (intro exI [of _ s']) auto
  qed
qed

text \<open>A sequence of calls, with the numbers they answer.\<close>

primrec bb_node_ids :: "addr list \<Rightarrow> nid_state \<Rightarrow> (nid_state \<times> int list) option" where
  "bb_node_ids [] s = Some (s, [])"
| "bb_node_ids (p # ps) s = do { (s, k) \<leftarrow> bb_node_id s p; (s, ks) \<leftarrow> bb_node_ids ps s; Some (s, k # ks) }"

definition number_of :: "nid_state \<Rightarrow> addr \<Rightarrow> int \<Rightarrow> bool" where
  "number_of s p k \<longleftrightarrow> (if p = 0 then k = 0 else nid_at s k = Some p)"

lemma number_of_iff:
  assumes "nid_ok s" "number_of s p k" "number_of s q j"
  shows "k = j \<longleftrightarrow> p = q"
proof -
  have "1 \<le> k" if "nid_at s k = Some p" for p k
    using nid_okD(4) [OF assms(1), of "(p, k)"] that by (simp add: nid_at_used [OF assms(1)])
  then show ?thesis using assms(2,3) nid.apart [OF assms(1)] by (fastforce simp: number_of_def split: if_splits)
qed

lemma bb_node_ids_ok:
  "nid_ok s \<Longrightarrow> length ps \<le> 2 ^ 30 - 1 - nid_count s \<Longrightarrow>
   \<exists>s' ks. bb_node_ids ps s = Some (s', ks) \<and> nid_ok s' \<and> list_all2 (number_of s') ps ks
     \<and> (\<forall>k p. nid_at s k = Some p \<longrightarrow> nid_at s' k = Some p)"
proof (induction ps arbitrary: s)
  case Nil
  then show ?case by simp
next
  case (Cons p ps)
  have "0 < 2 ^ 30 - 1 - nid_count s" using Cons.prems(2) by simp
  from nid.add_numbers [OF Cons.prems(1) this, of p] obtain s1 k where s1: "bb_node_id s p = Some (s1, k)" "nid_ok s1"
      "2 ^ 30 - 1 - nid_count s \<le> Suc (2 ^ 30 - 1 - nid_count s1)" "\<forall>j y. nid_at s j = Some y \<longrightarrow> nid_at s1 j = Some y"
      "if p \<noteq> 0 then nid_at s1 k = Some p else k = 0" by blast
  have "length ps \<le> 2 ^ 30 - 1 - nid_count s1" using s1(3) Cons.prems(2) by simp
  from Cons.IH [OF s1(2) this] obtain s2 ks where s2: "bb_node_ids ps s1 = Some (s2, ks)" "nid_ok s2"
      "list_all2 (number_of s2) ps ks" "\<forall>k p. nid_at s1 k = Some p \<longrightarrow> nid_at s2 k = Some p" by blast
  have "number_of s2 p k" using s1(5) s2(4) by (simp add: number_of_def)
  then show ?case using s1(1,4) s2 by simp
qed

text \<open>Without the switch a number is the address modulo 100000, and nodes may share one.\<close>

lemma bb_node_ids_address:
  "\<not> nid_dense s \<Longrightarrow> bb_node_ids ps s = Some (s, map (\<lambda>p. int (unat p mod 100000)) ps)"
  by (induction ps) (simp_all add: bb_node_id_def)

text \<open>
  C40. Nodes are numbered. With the switch \<open>g_m4_dense_nid\<close> on, any sequence of calls comes back, and two
  calls, however far apart, answer the same number exactly when they are about the same node; the null
  pointer has the number 0, a node a number that stays its own. With the switch off, as it is unless the
  driver sets it, nothing is stored and the number is the address modulo 100000, which two nodes can share.
\<close>

theorem bb_node_id_numbers:
  assumes "nid_fits s" "length ps + nid_count s < 2 ^ 30"
  shows "if nid_dense s
    then \<exists>s' ks. bb_node_ids ps s = Some (s', ks) \<and> nid_fits s' \<and> nid_dense s' \<and> length ks = length ps
      \<and> (\<forall>i<length ps. \<forall>j<length ps. ks ! i = ks ! j \<longleftrightarrow> ps ! i = ps ! j)
      \<and> (\<forall>i<length ps. ks ! i = 0 \<longleftrightarrow> ps ! i = 0)
      \<and> (\<forall>k p. nid_at s k = Some p \<longrightarrow> nid_at s' k = Some p)
    else bb_node_ids ps s = Some (s, map (\<lambda>p. int (unat p mod 100000)) ps)"
proof (cases "nid_dense s")
  case True
  have ok: "nid_ok s" using assms(1) True by (simp add: nid_ok_def)
  have "length ps \<le> 2 ^ 30 - 1 - nid_count s" using assms(2) by simp
  from bb_node_ids_ok [OF ok this] obtain s' ks where s': "bb_node_ids ps s = Some (s', ks)" "nid_ok s'"
      "list_all2 (number_of s') ps ks" "\<forall>k p. nid_at s k = Some p \<longrightarrow> nid_at s' k = Some p" by blast
  have at: "number_of s' (ps ! i) (ks ! i)" if "i < length ps" for i using s'(3) that by (simp add: list_all2_conv_all_nth)
  have "number_of s' 0 0" by (simp add: number_of_def)
  moreover have "nid_fits s'" "nid_dense s'" using s'(2) by (simp_all add: nid_ok_def)
  ultimately show ?thesis
    using True s' list_all2_lengthD [OF s'(3)] number_of_iff [OF s'(2)] at
    by (simp only: if_True) (intro exI [of _ s'] exI [of _ ks], auto)
qed (simp add: bb_node_ids_address)

definition nid_start :: nid_state where
  "nid_start = \<lparr>nid_tab = [], nid_len = 0, nid_count = 0, nid_dense = True\<rparr>"

lemma nid_start_fits: "nid_fits (nid_start\<lparr>nid_dense := b\<rparr>)"
  by (simp add: nid_fits_def nid_start_def used_def)

text \<open>Both modes on four calls; in the second one two nodes at a distance of 100000 bytes share a number.\<close>

theorem bb_node_id_numbers_witness:
  "(\<exists>s' ks. bb_node_ids [16, 32, 0, 16] nid_start = Some (s', ks) \<and> ks ! 3 = ks ! 0 \<and> ks ! 1 \<noteq> ks ! 0 \<and> ks ! 2 = 0)
   \<and> bb_node_ids [4096, 104096] (nid_start\<lparr>nid_dense := False\<rparr>) = Some (nid_start\<lparr>nid_dense := False\<rparr>, [4096, 4096])"
proof -
  let ?ps = "[16, 32, 0, 16] :: addr list"
  have "nid_fits nid_start" using nid_start_fits [of True] by (simp add: nid_start_def)
  moreover have "length ?ps + nid_count nid_start < 2 ^ 30" "nid_dense nid_start" by (simp_all add: nid_start_def)
  ultimately obtain s' ks where ks: "bb_node_ids ?ps nid_start = Some (s', ks)"
    and same: "\<forall>i<length ?ps. \<forall>j<length ?ps. ks ! i = ks ! j \<longleftrightarrow> ?ps ! i = ?ps ! j"
    and null: "\<forall>i<length ?ps. ks ! i = 0 \<longleftrightarrow> ?ps ! i = 0"
    using bb_node_id_numbers [of nid_start ?ps] by (simp only: if_True) blast
  have "ks ! 3 = ks ! 0" "ks ! 1 \<noteq> ks ! 0" "ks ! 2 = 0"
    using same [rule_format, of 3 0] same [rule_format, of 1 0] null [rule_format, of 2] by simp_all
  moreover have "bb_node_ids [4096, 104096] (nid_start\<lparr>nid_dense := False\<rparr>) = Some (nid_start\<lparr>nid_dense := False\<rparr>, [4096, 4096])"
    using bb_node_id_numbers [OF nid_start_fits [of False], of "[4096, 104096]"] by (simp add: nid_start_def)
  ultimately show ?thesis using ks by blast
qed

end
