(* ===== verification/Ir_Graph.thy ===== *)
theory Ir_Graph
  imports Ir_Index "HOL-Library.Monad_Syntax"
begin

text \<open>
  The intermediate representation the optimizer works on: \<open>IR_t\<close> (\<open>src/ir/ir_node.h\<close>), \<open>IR_graph_t\<close>
  (\<open>src/ir/ir_graph.h\<close>), the allocation of nodes (\<open>src/ir/scrip_ir.c\<close>) and the questions asked of a node
  (\<open>src/optimizer/ir_query.c\<close>). Nodes are shared and mutated through their addresses, so the state of
  a pass is the memory of nodes and bytes, with the list \<open>g_heap\<close> of the nodes allocated so far, together with the fields of the graph the passes read and
  write. The union of \<open>sval\<close>, \<open>ival\<close> and \<open>dval\<close> is one 64-bit cell.
\<close>

section \<open>Operations\<close>

text \<open>
  \<open>IR_e\<close> is an enumeration of consecutive codes from 1, some of which are tested by range; a code is
  a number, \<open>ir_e_names\<close> lists the names in their order, and the codes the optimizer tests by name
  are abbreviations.
\<close>

type_synonym ir_e = nat

definition ir_e_names :: "string list" where
  "ir_e_names =
    [''IR_ACTIVATE'', ''IR_ASSIGN'', ''IR_ASSIGN_VAR'', ''IR_BINOP'', ''IR_BINOP_RELOP_VAL'',
     ''IR_BINOP_TEST'', ''IR_BOUND'', ''IR_CALL'', ''IR_CALL_BUILTIN'', ''IR_CALL_BUILTIN_GEN'',
     ''IR_CALL_ICON'', ''IR_CALL_SNOBOL4'', ''IR_CALL_PROC_STAGED'', ''IR_CALL_VALUE'',
     ''IR_CMP_TEST'', ''IR_COERCE_INTEGER'', ''IR_COERCE_NUMERIC'', ''IR_COERCE_REAL'',
     ''IR_COERCE_STRING'', ''IR_COFAIL'', ''IR_CONJUNCTION'', ''IR_CORET'', ''IR_CREATE'',
     ''IR_CUT'', ''IR_DEFINE_BIND'', ''IR_DEFINE_ADOPT'', ''IR_DEFINE_SHIM'',
     ''IR_DEFINE_RT_SHIM'', ''IR_DEFINE_RETURN'', ''IR_DEFINE_FRETURN'', ''IR_DEFINE_CALL'',
     ''IR_DEREF'', ''IR_DIFFER'', ''IR_DISJUNCTION'', ''IR_DTP_ASSIGN'', ''IR_EXCISED'',
     ''IR_FAIL'', ''IR_FIELD_GET'', ''IR_FIELD_VAR'', ''IR_GOTO'', ''IR_GOTO_DEFERRED'',
     ''IR_IDENT'', ''IR_GATE'', ''IR_INITIAL'', ''IR_ITERATE'', ''IR_KW_ASSIGN'',
     ''IR_KW_ASSIGN_SNOBOL4'', ''IR_KW_ICON'', ''IR_KW_ICON_GEN'', ''IR_KW_SNOBOL4'', ''IR_LIMIT'',
     ''IR_LIT_CHARSET'', ''IR_LIT_INTEGER'', ''IR_LIT_NAME'', ''IR_LIT_REAL'', ''IR_LIT_STRING'',
     ''IR_MAKE_LIST'', ''IR_MATCH'', ''IR_MATCH_ABORT'', ''IR_MATCH_TRAP'', ''IR_MATCH_ALTERNATE'',
     ''IR_MATCH_ANY'', ''IR_MATCH_ARB'', ''IR_MATCH_ARBNO'', ''IR_MATCH_ASSIGN_COND'',
     ''IR_MATCH_ASSIGN_IMM'', ''IR_MATCH_ASSIGN_SAVE'', ''IR_MATCH_ATP'', ''IR_MATCH_BAL'',
     ''IR_MATCH_CASMARK'', ''IR_MATCH_BEGIN'', ''IR_MATCH_BREAK'', ''IR_MATCH_BREAKX'',
     ''IR_MATCH_CALLOUT'', ''IR_MATCH_DEFER'', ''IR_MATCH_END'', ''IR_MATCH_FENCE0'',
     ''IR_MATCH_FENCE1'', ''IR_MATCH_LAMBDA'', ''IR_MATCH_LEN'', ''IR_MATCH_LIT'',
     ''IR_MATCH_NOTANY'', ''IR_MATCH_POS'', ''IR_MATCH_REM'', ''IR_MATCH_REPLACE'',
     ''IR_MATCH_RETRY'', ''IR_MATCH_RKRUN'', ''IR_MATCH_RKCAPS'', ''IR_MATCH_RKCAPE'',
     ''IR_MATCH_RKLAND'', ''IR_MATCH_RPOS'', ''IR_MATCH_RTAB'', ''IR_MATCH_SPAN'',
     ''IR_MATCH_SPAN_VAR'', ''IR_MATCH_TAB'', ''IR_MATCH_VALUE'', ''IR_GATE_ARM'',
     ''IR_NULLTEST_VAR'', ''IR_PATTERN_ALT'', ''IR_PATTERN_CAPTURE'', ''IR_PATTERN_CAT'',
     ''IR_PATTERN_DEFER'', ''IR_PROC_GEN'', ''IR_PROC_VALUE'', ''IR_RANDOM'', ''IR_REF_INVARIANT'',
     ''IR_REPALT'', ''IR_RETURN'', ''IR_REV_ASSIGN'', ''IR_REV_ASSIGN_VAR'', ''IR_REV_SWAP'',
     ''IR_SCAN'', ''IR_SCAN_ALTERNATE'', ''IR_SCAN_ANY'', ''IR_SCAN_BAL'', ''IR_SCAN_ENTER'',
     ''IR_SCAN_FIND'', ''IR_SCAN_MANY'', ''IR_SCAN_MATCH'', ''IR_SCAN_MOVE'', ''IR_SCAN_POS'',
     ''IR_SCAN_TAB'', ''IR_SCAN_UPTO'', ''IR_STATEMENT'', ''IR_STATEMENT_BEGIN'',
     ''IR_STATEMENT_END'', ''IR_STMT_MARK'', ''IR_LINE_MARK'', ''IR_SUBSCRIPT'', ''IR_SUCCEED'',
     ''IR_SUSPEND'', ''IR_SWAP'', ''IR_SWAP_VAR'', ''IR_TO'', ''IR_TO_BY'', ''IR_UNMARK'',
     ''IR_UNOP'', ''IR_UNOP_TEST'', ''IR_VAR'', ''IR_VAR_REF'', ''IR_VAR_FRAME'',
     ''IR_ASSIGN_FRAME'', ''IR_LIMIT_GATE'', ''IR_LIT_ATOM'', ''IR_UNIFY_CONST'',
     ''IR_UNIFY_STRUCT'', ''IR_UNIFY_FIRST'', ''IR_UNIFY_VALUE'', ''IR_SETEXIT_TEST'',
     ''IR_CLEANUP'', ''IR_CALL_DIRECT'', ''IR_CALL_PL_LEAF'', ''IR_CALL_PAS_BI'',
     ''IR_CALL_CALLEE_REC'', ''IR_CALL_FIELD_REC'', ''IR_CALL_BYNAME'', ''IR_CALL_TRY'',
     ''IR_CALL_METHOD'', ''IR_CALL_REDISP'', ''IR_CALL_APPLY'', ''IR_CALL_EVAL'', ''IR_CALL_GEN'',
     ''IR_LIT_DSTAR'', ''IR_LIT_THUNK'', ''IR_TABLE_HDR'']"

abbreviation "IR_BINOP \<equiv> 4 :: ir_e"
abbreviation "IR_BINOP_RELOP_VAL \<equiv> 5 :: ir_e"
abbreviation "IR_BINOP_TEST \<equiv> 6 :: ir_e"
abbreviation "IR_CALL \<equiv> 8 :: ir_e"
abbreviation "IR_CALL_BUILTIN_GEN \<equiv> 10 :: ir_e"
abbreviation "IR_CALL_PROC_STAGED \<equiv> 13 :: ir_e"
abbreviation "IR_CALL_VALUE \<equiv> 14 :: ir_e"
abbreviation "IR_CMP_TEST \<equiv> 15 :: ir_e"
abbreviation "IR_COERCE_INTEGER \<equiv> 16 :: ir_e"
abbreviation "IR_COERCE_STRING \<equiv> 19 :: ir_e"
abbreviation "IR_DIFFER \<equiv> 33 :: ir_e"
abbreviation "IR_DISJUNCTION \<equiv> 34 :: ir_e"
abbreviation "IR_FAIL \<equiv> 37 :: ir_e"
abbreviation "IR_GOTO \<equiv> 40 :: ir_e"
abbreviation "IR_IDENT \<equiv> 42 :: ir_e"
abbreviation "IR_ITERATE \<equiv> 45 :: ir_e"
abbreviation "IR_KW_ICON_GEN \<equiv> 49 :: ir_e"
abbreviation "IR_LIMIT \<equiv> 51 :: ir_e"
abbreviation "IR_LIT_INTEGER \<equiv> 53 :: ir_e"
abbreviation "IR_LIT_NAME \<equiv> 54 :: ir_e"
abbreviation "IR_LIT_REAL \<equiv> 55 :: ir_e"
abbreviation "IR_LIT_STRING \<equiv> 56 :: ir_e"
abbreviation "IR_MATCH_ABORT \<equiv> 59 :: ir_e"
abbreviation "IR_MATCH_TRAP \<equiv> 60 :: ir_e"
abbreviation "IR_MATCH_ALTERNATE \<equiv> 61 :: ir_e"
abbreviation "IR_MATCH_ANY \<equiv> 62 :: ir_e"
abbreviation "IR_MATCH_ARB \<equiv> 63 :: ir_e"
abbreviation "IR_MATCH_ARBNO \<equiv> 64 :: ir_e"
abbreviation "IR_MATCH_ASSIGN_COND \<equiv> 65 :: ir_e"
abbreviation "IR_MATCH_ASSIGN_IMM \<equiv> 66 :: ir_e"
abbreviation "IR_MATCH_ASSIGN_SAVE \<equiv> 67 :: ir_e"
abbreviation "IR_MATCH_ATP \<equiv> 68 :: ir_e"
abbreviation "IR_MATCH_BAL \<equiv> 69 :: ir_e"
abbreviation "IR_MATCH_CASMARK \<equiv> 70 :: ir_e"
abbreviation "IR_MATCH_BEGIN \<equiv> 71 :: ir_e"
abbreviation "IR_MATCH_BREAK \<equiv> 72 :: ir_e"
abbreviation "IR_MATCH_BREAKX \<equiv> 73 :: ir_e"
abbreviation "IR_MATCH_CALLOUT \<equiv> 74 :: ir_e"
abbreviation "IR_MATCH_DEFER \<equiv> 75 :: ir_e"
abbreviation "IR_MATCH_END \<equiv> 76 :: ir_e"
abbreviation "IR_MATCH_FENCE0 \<equiv> 77 :: ir_e"
abbreviation "IR_MATCH_FENCE1 \<equiv> 78 :: ir_e"
abbreviation "IR_MATCH_LAMBDA \<equiv> 79 :: ir_e"
abbreviation "IR_MATCH_LEN \<equiv> 80 :: ir_e"
abbreviation "IR_MATCH_LIT \<equiv> 81 :: ir_e"
abbreviation "IR_MATCH_NOTANY \<equiv> 82 :: ir_e"
abbreviation "IR_MATCH_POS \<equiv> 83 :: ir_e"
abbreviation "IR_MATCH_REM \<equiv> 84 :: ir_e"
abbreviation "IR_MATCH_REPLACE \<equiv> 85 :: ir_e"
abbreviation "IR_MATCH_RETRY \<equiv> 86 :: ir_e"
abbreviation "IR_MATCH_RPOS \<equiv> 91 :: ir_e"
abbreviation "IR_MATCH_RTAB \<equiv> 92 :: ir_e"
abbreviation "IR_MATCH_SPAN \<equiv> 93 :: ir_e"
abbreviation "IR_MATCH_SPAN_VAR \<equiv> 94 :: ir_e"
abbreviation "IR_MATCH_TAB \<equiv> 95 :: ir_e"
abbreviation "IR_MATCH_VALUE \<equiv> 96 :: ir_e"
abbreviation "IR_PATTERN_ALT \<equiv> 99 :: ir_e"
abbreviation "IR_PATTERN_CAT \<equiv> 101 :: ir_e"
abbreviation "IR_PATTERN_DEFER \<equiv> 102 :: ir_e"
abbreviation "IR_PROC_GEN \<equiv> 103 :: ir_e"
abbreviation "IR_REPALT \<equiv> 107 :: ir_e"
abbreviation "IR_REV_ASSIGN \<equiv> 109 :: ir_e"
abbreviation "IR_REV_ASSIGN_VAR \<equiv> 110 :: ir_e"
abbreviation "IR_REV_SWAP \<equiv> 111 :: ir_e"
abbreviation "IR_SCAN \<equiv> 112 :: ir_e"
abbreviation "IR_SCAN_ALTERNATE \<equiv> 113 :: ir_e"
abbreviation "IR_SCAN_BAL \<equiv> 115 :: ir_e"
abbreviation "IR_SCAN_FIND \<equiv> 117 :: ir_e"
abbreviation "IR_SCAN_MANY \<equiv> 118 :: ir_e"
abbreviation "IR_SCAN_UPTO \<equiv> 123 :: ir_e"
abbreviation "IR_SUCCEED \<equiv> 130 :: ir_e"
abbreviation "IR_TO \<equiv> 134 :: ir_e"
abbreviation "IR_TO_BY \<equiv> 135 :: ir_e"
abbreviation "IR_UNOP \<equiv> 137 :: ir_e"
abbreviation "IR_UNOP_TEST \<equiv> 138 :: ir_e"
abbreviation "IR_LIT_ATOM \<equiv> 144 :: ir_e"
abbreviation "IR_CALL_GEN \<equiv> 162 :: ir_e"
abbreviation "IR_LIT_DSTAR \<equiv> 163 :: ir_e"
abbreviation "IR_LIT_THUNK \<equiv> 164 :: ir_e"

lemma ir_codes:
  "map (\<lambda>c. ir_e_names ! (c - 1))
    [IR_BINOP, IR_BINOP_RELOP_VAL, IR_BINOP_TEST, IR_CALL, IR_CALL_BUILTIN_GEN,
     IR_CALL_PROC_STAGED, IR_CALL_VALUE, IR_CMP_TEST, IR_COERCE_INTEGER, IR_COERCE_STRING,
     IR_DIFFER, IR_DISJUNCTION, IR_FAIL, IR_GOTO, IR_IDENT, IR_ITERATE, IR_KW_ICON_GEN, IR_LIMIT,
     IR_LIT_INTEGER, IR_LIT_NAME, IR_LIT_REAL, IR_LIT_STRING, IR_MATCH_ABORT, IR_MATCH_TRAP,
     IR_MATCH_ALTERNATE, IR_MATCH_ANY, IR_MATCH_ARB, IR_MATCH_ARBNO, IR_MATCH_ASSIGN_COND,
     IR_MATCH_ASSIGN_IMM, IR_MATCH_ASSIGN_SAVE, IR_MATCH_ATP, IR_MATCH_BAL, IR_MATCH_CASMARK,
     IR_MATCH_BEGIN, IR_MATCH_BREAK, IR_MATCH_BREAKX, IR_MATCH_CALLOUT, IR_MATCH_DEFER,
     IR_MATCH_END, IR_MATCH_FENCE0, IR_MATCH_FENCE1, IR_MATCH_LAMBDA, IR_MATCH_LEN, IR_MATCH_LIT,
     IR_MATCH_NOTANY, IR_MATCH_POS, IR_MATCH_REM, IR_MATCH_REPLACE, IR_MATCH_RETRY, IR_MATCH_RPOS,
     IR_MATCH_RTAB, IR_MATCH_SPAN, IR_MATCH_SPAN_VAR, IR_MATCH_TAB, IR_MATCH_VALUE, IR_PATTERN_ALT,
     IR_PATTERN_CAT, IR_PATTERN_DEFER, IR_PROC_GEN, IR_REPALT, IR_REV_ASSIGN, IR_REV_ASSIGN_VAR,
     IR_REV_SWAP, IR_SCAN, IR_SCAN_ALTERNATE, IR_SCAN_BAL, IR_SCAN_FIND, IR_SCAN_MANY,
     IR_SCAN_UPTO, IR_SUCCEED, IR_TO, IR_TO_BY, IR_UNOP, IR_UNOP_TEST, IR_LIT_ATOM, IR_CALL_GEN,
     IR_LIT_DSTAR, IR_LIT_THUNK]
   = [''IR_BINOP'', ''IR_BINOP_RELOP_VAL'', ''IR_BINOP_TEST'', ''IR_CALL'', ''IR_CALL_BUILTIN_GEN'',
     ''IR_CALL_PROC_STAGED'', ''IR_CALL_VALUE'', ''IR_CMP_TEST'', ''IR_COERCE_INTEGER'',
     ''IR_COERCE_STRING'', ''IR_DIFFER'', ''IR_DISJUNCTION'', ''IR_FAIL'', ''IR_GOTO'',
     ''IR_IDENT'', ''IR_ITERATE'', ''IR_KW_ICON_GEN'', ''IR_LIMIT'', ''IR_LIT_INTEGER'',
     ''IR_LIT_NAME'', ''IR_LIT_REAL'', ''IR_LIT_STRING'', ''IR_MATCH_ABORT'', ''IR_MATCH_TRAP'',
     ''IR_MATCH_ALTERNATE'', ''IR_MATCH_ANY'', ''IR_MATCH_ARB'', ''IR_MATCH_ARBNO'',
     ''IR_MATCH_ASSIGN_COND'', ''IR_MATCH_ASSIGN_IMM'', ''IR_MATCH_ASSIGN_SAVE'', ''IR_MATCH_ATP'',
     ''IR_MATCH_BAL'', ''IR_MATCH_CASMARK'', ''IR_MATCH_BEGIN'', ''IR_MATCH_BREAK'',
     ''IR_MATCH_BREAKX'', ''IR_MATCH_CALLOUT'', ''IR_MATCH_DEFER'', ''IR_MATCH_END'',
     ''IR_MATCH_FENCE0'', ''IR_MATCH_FENCE1'', ''IR_MATCH_LAMBDA'', ''IR_MATCH_LEN'',
     ''IR_MATCH_LIT'', ''IR_MATCH_NOTANY'', ''IR_MATCH_POS'', ''IR_MATCH_REM'',
     ''IR_MATCH_REPLACE'', ''IR_MATCH_RETRY'', ''IR_MATCH_RPOS'', ''IR_MATCH_RTAB'',
     ''IR_MATCH_SPAN'', ''IR_MATCH_SPAN_VAR'', ''IR_MATCH_TAB'', ''IR_MATCH_VALUE'',
     ''IR_PATTERN_ALT'', ''IR_PATTERN_CAT'', ''IR_PATTERN_DEFER'', ''IR_PROC_GEN'', ''IR_REPALT'',
     ''IR_REV_ASSIGN'', ''IR_REV_ASSIGN_VAR'', ''IR_REV_SWAP'', ''IR_SCAN'', ''IR_SCAN_ALTERNATE'',
     ''IR_SCAN_BAL'', ''IR_SCAN_FIND'', ''IR_SCAN_MANY'', ''IR_SCAN_UPTO'', ''IR_SUCCEED'',
     ''IR_TO'', ''IR_TO_BY'', ''IR_UNOP'', ''IR_UNOP_TEST'', ''IR_LIT_ATOM'', ''IR_CALL_GEN'',
     ''IR_LIT_DSTAR'', ''IR_LIT_THUNK'']"
  by code_simp

definition ir_is_lit_text_kind :: "ir_e \<Rightarrow> bool" where
  "ir_is_lit_text_kind op \<longleftrightarrow> op = IR_LIT_STRING \<or> op = IR_LIT_DSTAR \<or> op = IR_LIT_THUNK"

definition ir_is_matcher :: "ir_e \<Rightarrow> bool" where
  "ir_is_matcher t \<longleftrightarrow> t \<in> set
    [IR_MATCH_LIT, IR_MATCH_ANY, IR_MATCH_NOTANY, IR_MATCH_SPAN, IR_MATCH_SPAN_VAR, IR_MATCH_BREAK,
     IR_MATCH_BREAKX, IR_MATCH_LEN, IR_MATCH_POS, IR_MATCH_RPOS, IR_MATCH_TAB, IR_MATCH_RTAB,
     IR_MATCH_ARB, IR_MATCH_ARBNO, IR_MATCH_REM, IR_MATCH_BAL, IR_MATCH_FENCE0, IR_MATCH_FENCE1,
     IR_MATCH_ABORT, IR_MATCH_TRAP, IR_MATCH_ALTERNATE, IR_MATCH_ASSIGN_IMM, IR_MATCH_ASSIGN_COND,
     IR_MATCH_ASSIGN_SAVE, IR_MATCH_ATP, IR_MATCH_CASMARK, IR_MATCH_CALLOUT, IR_MATCH_DEFER,
     IR_MATCH_LAMBDA, IR_MATCH_VALUE, IR_MATCH_BEGIN, IR_MATCH_END, IR_MATCH_REPLACE,
     IR_MATCH_RETRY]"

definition ir_is_generator_kind :: "ir_e \<Rightarrow> bool" where
  "ir_is_generator_kind t \<longleftrightarrow> t \<in> set
    [IR_TO, IR_TO_BY, IR_PROC_GEN, IR_CALL_VALUE, IR_REPALT, IR_LIMIT, IR_ITERATE, IR_REV_ASSIGN,
     IR_REV_ASSIGN_VAR, IR_REV_SWAP, IR_SCAN, IR_SCAN_UPTO, IR_SCAN_FIND, IR_SCAN_MANY,
     IR_SCAN_BAL, IR_SCAN_ALTERNATE, IR_DISJUNCTION, IR_MATCH_BEGIN, IR_MATCH_ARB, IR_MATCH_BAL,
     IR_MATCH_FENCE0, IR_MATCH_FENCE1, IR_MATCH_BREAKX, IR_MATCH_ARBNO, IR_MATCH_DEFER,
     IR_MATCH_VALUE, IR_MATCH_ASSIGN_COND, IR_MATCH_ASSIGN_SAVE, IR_MATCH_ALTERNATE,
     IR_KW_ICON_GEN, IR_CALL_BUILTIN_GEN, IR_CALL_GEN]"

section \<open>Nodes and graphs\<close>

text \<open>The port a reference enters its target by, the four bytes of \<open>sz\<close>.\<close>

type_synonym port = "u8 list"

record ir_node =
  n_op :: ir_e
  n_op0 :: ir_e
  n_gam :: addr
  n_gam_sz :: port
  n_omg :: addr
  n_omg_sz :: port
  n_operands :: "addr list"
  n_seal :: int
  n_pat_static :: int
  n_strict :: int
  n_elem_access :: int
  n_lit :: u64

record ir_graph =
  g_node :: "addr \<Rightarrow> ir_node"
  g_byte :: "u64 \<Rightarrow> u8"
  g_heap :: "addr list"
  g_all :: "addr list"
  g_max :: nat
  g_entry :: addr
  g_body_root :: addr
  g_dead :: "addr list"
  g_nparams :: int
  g_resumable_callable :: int
  g_smx :: int

definition ir_ival :: "ir_node \<Rightarrow> int" where "ir_ival x = sint (n_lit x)"

definition set_node :: "addr \<Rightarrow> ir_node \<Rightarrow> ir_graph \<Rightarrow> ir_graph" where
  "set_node a x g = g\<lparr>g_node := (g_node g)(a := x)\<rparr>"

text \<open>A zeroed node; \<open>IR_node_alloc\<close> writes it at the address \<open>a\<close> the allocator hands out.\<close>

definition zero_node :: ir_node where
  "zero_node = \<lparr>n_op = 0, n_op0 = 0, n_gam = 0, n_gam_sz = [0, 0, 0, 0], n_omg = 0, n_omg_sz = [0, 0, 0, 0],
     n_operands = [], n_seal = 0, n_pat_static = 0, n_strict = 0, n_elem_access = 0, n_lit = 0\<rparr>"

definition IR_node_alloc :: "addr \<Rightarrow> ir_e \<Rightarrow> ir_graph \<Rightarrow> ir_graph" where
  "IR_node_alloc a t g =
     (let g = set_node a (zero_node\<lparr>n_op := t\<rparr>) g;
          g = g\<lparr>g_heap := a # g_heap g\<rparr>;
          g = (if length (g_all g) \<ge> g_max g
               then g\<lparr>g_max := (if g_max g > 0 then g_max g * 2 else 16)\<rparr> else g)
      in g\<lparr>g_all := g_all g @ [a]\<rparr>)"

definition ir_operand_push :: "addr \<Rightarrow> addr \<Rightarrow> ir_graph \<Rightarrow> ir_graph" where
  "ir_operand_push nd child g =
     (if nd = 0 then g
      else set_node nd ((g_node g nd)\<lparr>n_operands := n_operands (g_node g nd) @ [child]\<rparr>) g)"

text \<open>\<open>ir_value_is_null_string\<close>: a node whose value is the empty string.\<close>

definition lit_length_node :: "ir_graph \<Rightarrow> ir_node \<Rightarrow> bool" where
  "lit_length_node g x \<longleftrightarrow> n_operands x \<noteq> [] \<and> hd (n_operands x) \<noteq> 0
     \<and> n_op (g_node g (hd (n_operands x))) = IR_LIT_INTEGER"

definition ir_value_is_null_string :: "ir_graph \<Rightarrow> addr \<Rightarrow> bool" where
  "ir_value_is_null_string g nd =
     (if nd = 0 then False
      else let x = g_node g nd in
        if n_op x = IR_CMP_TEST then True
        else if n_op x = IR_IDENT \<or> n_op x = IR_DIFFER then True
        else if n_op x = IR_LIT_STRING
        then if lit_length_node g x then ir_ival (g_node g (hd (n_operands x))) = 0
             else n_lit x = 0 \<or> g_byte g (n_lit x) = 0
        else False)"

text \<open>The switches the optimizer reads from the environment, each the same during a run.\<close>

record opt_env =
  e_bc_mon :: bool
  e_dg_mon :: bool
  e_nullcat :: bool
  e_cf_spine :: bool

section \<open>Marking\<close>

text \<open>
  The loops of the passes that set \<open>mark[j] = 1\<close> for the places \<open>j\<close> of the pointers a node refers to;
  \<open>refs\<close> says which they are.
\<close>

fun ix_mark :: "ir_index \<Rightarrow> addr list \<Rightarrow> bool list \<Rightarrow> bool list option" where
  "ix_mark ix [] marks = Some marks"
| "ix_mark ix (p # ps) marks = do {
     j \<leftarrow> ir_index_of ix p;
     ix_mark ix ps (if j \<ge> 0 then marks[nat j := True] else marks) }"

fun ix_mark_nodes :: "ir_index \<Rightarrow> (addr \<Rightarrow> addr list) \<Rightarrow> addr list \<Rightarrow> bool list \<Rightarrow> bool list option" where
  "ix_mark_nodes ix refs [] marks = Some marks"
| "ix_mark_nodes ix refs (a # as) marks =
     (if a = 0 then ix_mark_nodes ix refs as marks
      else do { marks' \<leftarrow> ix_mark ix (refs a) marks; ix_mark_nodes ix refs as marks' })"

definition node_refs :: "ir_node \<Rightarrow> addr list" where
  "node_refs x = n_operands x @ (if n_gam x \<noteq> 0 then [n_gam x] else [])
     @ (if n_omg x \<noteq> 0 then [n_omg x] else [])"

definition ix_for :: "ir_index \<Rightarrow> addr list \<Rightarrow> bool" where
  "ix_for ix ps \<longleftrightarrow> (\<forall>p. ir_index_of ix p = Some (first_pos ps p))"

lemma ix_forD: "ix_for ix ps \<Longrightarrow> ir_index_of ix p = Some (first_pos ps p)"
  by (simp add: ix_for_def)

lemma ix_for_build:
  assumes "length ps < 2 ^ 31"
  obtains ix where "ir_index_build ps = Some ix" "ix_for ix ps"
  using ixp.build_returns [OF assms] ixp.look_first [OF assms] unfolding ix_for_def by metis

text \<open>What the loops mark: the first places of the pointers referred to.\<close>

lemma ix_mark_ok:
  assumes "ix_for ix ps" "length ps \<le> length marks"
  shows "\<exists>ms. ix_mark ix qs marks = Some ms \<and> length ms = length marks
    \<and> (\<forall>j<length marks. ms ! j \<longleftrightarrow> marks ! j \<or> (\<exists>q\<in>set qs. first_pos ps q = int j))"
  using assms(2)
proof (induction qs arbitrary: marks)
  case (Cons q qs)
  let ?m = "if first_pos ps q \<ge> 0 then marks[nat (first_pos ps q) := True] else marks"
  have "length ps \<le> length ?m" using Cons.prems by simp
  from Cons.IH [OF this] obtain ms where ms: "ix_mark ix qs ?m = Some ms" "length ms = length ?m"
    "\<forall>j<length ?m. ms ! j \<longleftrightarrow> ?m ! j \<or> (\<exists>q\<in>set qs. first_pos ps q = int j)" by blast
  have "?m ! j \<longleftrightarrow> marks ! j \<or> first_pos ps q = int j" if "j < length marks" for j
    using that by (cases "j = nat (first_pos ps q)") auto
  then show ?case using ms ix_forD [OF assms(1), of q] by auto
qed simp

lemma ix_mark_nodes_ok:
  assumes "ix_for ix ps" "length ps \<le> length marks"
  shows "\<exists>ms. ix_mark_nodes ix refs as marks = Some ms \<and> length ms = length marks
    \<and> (\<forall>j<length marks. ms ! j \<longleftrightarrow> marks ! j \<or> (\<exists>a\<in>set as - {0}. \<exists>q\<in>set (refs a). first_pos ps q = int j))"
  using assms(2)
proof (induction as arbitrary: marks)
  case (Cons a as)
  show ?case
  proof (cases "a = 0")
    case True
    then show ?thesis using Cons.IH [OF Cons.prems] by simp
  next
    case False
    obtain m1 where m1: "ix_mark ix (refs a) marks = Some m1" "length m1 = length marks"
        "\<forall>j<length marks. m1 ! j \<longleftrightarrow> marks ! j \<or> (\<exists>q\<in>set (refs a). first_pos ps q = int j)"
      using ix_mark_ok [OF assms(1) Cons.prems] by blast
    then have "length ps \<le> length m1" using Cons.prems by simp
    from Cons.IH [OF this] m1 False show ?thesis by fastforce
  qed
qed simp

section \<open>Well-formed graphs\<close>

text \<open>
  \<open>N\<close> is the set of the nodes allocated: fewer than the address space holds, closed under the references
  of its members, and containing whatever the graph refers to. The graph's array is indexed by \<open>int\<close>.
\<close>

definition node_links :: "ir_node \<Rightarrow> addr set" where
  "node_links x = set (n_operands x) \<union> {n_gam x, n_omg x}"

definition graph_ok :: "addr set \<Rightarrow> ir_graph \<Rightarrow> bool" where
  "graph_ok N g \<longleftrightarrow> set (g_heap g) = N \<and> finite N \<and> 0 \<notin> N \<and> card N < 2 ^ 60 \<and> length (g_all g) < 2 ^ 31
     \<and> set (g_all g) \<subseteq> insert 0 N \<and> g_entry g \<in> insert 0 N \<and> g_body_root g \<in> insert 0 N
     \<and> (\<forall>a\<in>N. node_links (g_node g a) \<subseteq> insert 0 N)"

lemma graph_ok_mono:
  assumes "graph_ok N g" "g_heap h = g_heap g" "g_all h = g_all g" "g_entry h = g_entry g"
    "g_body_root h = g_body_root g" "\<And>a. node_links (g_node h a) \<subseteq> node_links (g_node g a)"
  shows "graph_ok N h"
proof -
  have "node_links (g_node h a) \<subseteq> insert 0 N" if "a \<in> N" for a
    using assms(6) [of a] assms(1) that by (auto simp: graph_ok_def)
  then show ?thesis using assms(1-5) by (simp add: graph_ok_def)
qed

end
