(* ===== verification/Opt_Branch.thy ===== *)
theory Opt_Branch
  imports Ir_Graph
begin

text \<open>
  Branch chaining, \<open>src/optimizer/branch_chain.c\<close>: every edge of the graph that leads to a node which
  only passes control on is rerouted to the first node that does something, and the nodes on the way are
  rerouted along (\<open>bc_chase\<close>). The specification is what control does, \<open>lands\<close> and \<open>runs\<close>, and the
  theorem that a run visits the same nodes before and after.
\<close>

section \<open>The pass\<close>

definition bc_is_passthrough :: "ir_e \<Rightarrow> bool" where
  "bc_is_passthrough op \<longleftrightarrow> op = IR_SUCCEED \<or> op = IR_GOTO"

definition bc_stamped :: "opt_env \<Rightarrow> ir_node \<Rightarrow> bool" where
  "bc_stamped e x \<longleftrightarrow> e_bc_mon e \<and> n_op x = IR_GOTO \<and> ir_ival x > 0"

definition bc_build_protect :: "ir_graph \<Rightarrow> ir_index \<Rightarrow> bool list option" where
  "bc_build_protect g ix =
     ix_mark_nodes ix (\<lambda>a. n_operands (g_node g a)) (g_all g)
       (replicate (max (length (g_all g)) 1) False)"

record bc_walk =
  w_gen :: "int list"
  w_pos :: "int list"
  w_cur :: int

text \<open>The locals of \<open>bc_chase\<close>; \<open>c_list\<close> is the part of \<open>w->list\<close> the call has written.\<close>

record bc_state =
  c_node :: addr
  c_sz :: port
  c_list :: "addr list"
  c_gen :: "int list"
  c_pos :: "int list"
  c_out :: ir_pset
  c_rep :: bool
  c_m :: int

definition bc_goes_on :: "opt_env \<Rightarrow> ir_graph \<Rightarrow> addr \<Rightarrow> bool" where
  "bc_goes_on e g a \<longleftrightarrow> a \<noteq> 0 \<and> bc_is_passthrough (n_op (g_node g a))
     \<and> \<not> bc_stamped e (g_node g a) \<and> n_gam (g_node g a) \<noteq> 0"

partial_function (option) bc_walk_loop ::
    "opt_env \<Rightarrow> ir_graph \<Rightarrow> bool list \<Rightarrow> ir_index \<Rightarrow> int \<Rightarrow> bc_state \<Rightarrow> bc_state option" where
  "bc_walk_loop e g prot ix cur st =
     (if bc_goes_on e g (c_node st)
      then do {
        j \<leftarrow> ir_index_of ix (c_node st);
        if j \<ge> 0 \<and> prot ! nat j then Some st
        else do {
          seen \<leftarrow> (if j \<ge> 0 then Some (c_gen st ! nat j = cur) else ir_pset_has (c_out st) (c_node st));
          if seen then Some (st\<lparr>c_rep := True, c_m := (if j \<ge> 0 then c_pos st ! nat j else -1)\<rparr>)
          else do {
            out \<leftarrow> (if j \<ge> 0 then Some (c_out st) else ir_pset_add (c_out st) (c_node st));
            bc_walk_loop e g prot ix cur
              (st\<lparr>c_gen := (if j \<ge> 0 then (c_gen st)[nat j := cur] else c_gen st),
                  c_pos := (if j \<ge> 0 then (c_pos st)[nat j := int (length (c_list st))] else c_pos st),
                  c_out := out, c_list := c_list st @ [c_node st],
                  c_sz := n_gam_sz (g_node g (c_node st)), c_node := n_gam (g_node g (c_node st))\<rparr>)}}}
      else Some st)"

declare bc_walk_loop.simps [code]

text \<open>The loop that moves the nodes on the way.\<close>

fun bc_redirect :: "ir_index \<Rightarrow> addr \<Rightarrow> port \<Rightarrow> addr list \<Rightarrow> ir_graph \<Rightarrow> ir_graph option" where
  "bc_redirect ix t sz [] g = Some g"
| "bc_redirect ix t sz (x # xs) g = do {
     j \<leftarrow> ir_index_of ix x;
     bc_redirect ix t sz xs
       (if j \<ge> 0 then set_node x ((g_node g x)\<lparr>n_gam := t, n_gam_sz := sz\<rparr>) g else g) }"

definition bc_chase :: "opt_env \<Rightarrow> bool list \<Rightarrow> ir_index \<Rightarrow> bc_walk \<Rightarrow> ir_graph \<Rightarrow> addr \<Rightarrow> port
    \<Rightarrow> (addr \<times> port \<times> bc_walk \<times> ir_graph) option" where
  "bc_chase e prot ix w g node sz =
     (let cur = w_cur w + 1 in do {
        st \<leftarrow> bc_walk_loop e g prot ix cur
          \<lparr>c_node = node, c_sz = sz, c_list = [], c_gen = w_gen w, c_pos = w_pos w,
           c_out = ir_pset_init, c_rep = False, c_m = -1\<rparr>;
        g' \<leftarrow> bc_redirect ix (c_node st) (c_sz st)
          (take (nat (if c_rep st then c_m st - 1 else int (length (c_list st)) - 1)) (c_list st)) g;
        Some (c_node st, c_sz st, \<lparr>w_gen = c_gen st, w_pos = c_pos st, w_cur = cur\<rparr>, g') })"

definition bc_gamma :: "opt_env \<Rightarrow> bool list \<Rightarrow> ir_index \<Rightarrow> addr \<Rightarrow> bc_walk \<times> ir_graph \<times> nat
    \<Rightarrow> (bc_walk \<times> ir_graph \<times> nat) option" where
  "bc_gamma e prot ix a = (\<lambda>(w, g, total).
     if n_gam (g_node g a) = 0 then Some (w, g, total)
     else do {
       (t, sz, w, g) \<leftarrow> bc_chase e prot ix w g (n_gam (g_node g a)) (n_gam_sz (g_node g a));
       if t \<noteq> n_gam (g_node g a)
       then Some (w, set_node a ((g_node g a)\<lparr>n_gam := t, n_gam_sz := sz\<rparr>) g, total + 1)
       else Some (w, g, total) })"

definition bc_omega :: "opt_env \<Rightarrow> bool list \<Rightarrow> ir_index \<Rightarrow> addr \<Rightarrow> bc_walk \<times> ir_graph \<times> nat
    \<Rightarrow> (bc_walk \<times> ir_graph \<times> nat) option" where
  "bc_omega e prot ix a = (\<lambda>(w, g, total).
     if n_omg (g_node g a) = 0 then Some (w, g, total)
     else do {
       (t, sz, w, g) \<leftarrow> bc_chase e prot ix w g (n_omg (g_node g a)) (n_omg_sz (g_node g a));
       if t \<noteq> n_omg (g_node g a)
       then Some (w, set_node a ((g_node g a)\<lparr>n_omg := t, n_omg_sz := sz\<rparr>) g, total + 1)
       else Some (w, g, total) })"

fun bc_nodes :: "opt_env \<Rightarrow> bool list \<Rightarrow> ir_index \<Rightarrow> addr list \<Rightarrow> bc_walk \<times> ir_graph \<times> nat
    \<Rightarrow> (bc_walk \<times> ir_graph \<times> nat) option" where
  "bc_nodes e prot ix [] s = Some s"
| "bc_nodes e prot ix (a # as) s =
     (if a = 0 then bc_nodes e prot ix as s
      else do { s \<leftarrow> bc_gamma e prot ix a s; s \<leftarrow> bc_omega e prot ix a s; bc_nodes e prot ix as s })"

definition bc_entry :: "opt_env \<Rightarrow> bool list \<Rightarrow> ir_index \<Rightarrow> bc_walk \<times> ir_graph \<times> nat
    \<Rightarrow> (bc_walk \<times> ir_graph \<times> nat) option" where
  "bc_entry e prot ix = (\<lambda>(w, g, total).
     if g_entry g = 0 then Some (w, g, total)
     else do {
       (t, sz, w, g) \<leftarrow> bc_chase e prot ix w g (g_entry g) [0, 0, 0, 0];
       if t \<noteq> g_entry g then Some (w, g\<lparr>g_entry := t\<rparr>, total + 1) else Some (w, g, total) })"

definition bc_body :: "opt_env \<Rightarrow> bool list \<Rightarrow> ir_index \<Rightarrow> bc_walk \<times> ir_graph \<times> nat
    \<Rightarrow> (bc_walk \<times> ir_graph \<times> nat) option" where
  "bc_body e prot ix = (\<lambda>(w, g, total).
     if g_body_root g = 0 then Some (w, g, total)
     else do {
       (t, sz, w, g) \<leftarrow> bc_chase e prot ix w g (g_body_root g) [0, 0, 0, 0];
       if t \<noteq> g_body_root g then Some (w, g\<lparr>g_body_root := t\<rparr>, total + 1) else Some (w, g, total) })"

definition bc_run :: "opt_env \<Rightarrow> ir_graph \<Rightarrow> (ir_graph \<times> nat) option" where
  "bc_run e g = do {
     ix \<leftarrow> ir_index_build (g_all g);
     prot \<leftarrow> bc_build_protect g ix;
     s \<leftarrow> bc_nodes e prot ix (g_all g)
       (\<lparr>w_gen = replicate (max (length (g_all g)) 1) 0,
         w_pos = replicate (max (length (g_all g)) 1) 0, w_cur = 0\<rparr>, g, 0);
     s \<leftarrow> bc_entry e prot ix s;
     (w, g', total) \<leftarrow> bc_body e prot ix s;
     Some (g', total) }"

section \<open>Where control lands\<close>

text \<open>
  One step of control through a node that passes it on. The port a node is entered by rides along, a
  node that passes control on leaves by its own edge whatever the port.
\<close>

definition passes_on :: "opt_env \<Rightarrow> ir_graph \<Rightarrow> addr \<Rightarrow> bool" where
  "passes_on e g a \<longleftrightarrow> a \<noteq> 0 \<and> n_gam (g_node g a) \<noteq> 0 \<and>
     (n_op (g_node g a) = IR_SUCCEED
      \<or> n_op (g_node g a) = IR_GOTO \<and> \<not> (e_bc_mon e \<and> 0 < ir_ival (g_node g a)))"

lemma bc_goes_on_eq: "bc_goes_on e g a \<longleftrightarrow> passes_on e g a"
  by (auto simp: bc_goes_on_def passes_on_def bc_is_passthrough_def bc_stamped_def)

definition hop :: "opt_env \<Rightarrow> ir_graph \<Rightarrow> addr \<times> port \<Rightarrow> addr \<times> port \<Rightarrow> bool" where
  "hop e g p q \<longleftrightarrow> passes_on e g (fst p)
     \<and> q = (n_gam (g_node g (fst p)), n_gam_sz (g_node g (fst p)))"

inductive lands :: "opt_env \<Rightarrow> ir_graph \<Rightarrow> addr \<times> port \<Rightarrow> addr \<times> port \<Rightarrow> bool" for e g where
  stop: "\<not> passes_on e g (fst p) \<Longrightarrow> lands e g p p"
| skip: "hop e g p q \<Longrightarrow> lands e g q r \<Longrightarrow> lands e g p r"

inductive_cases lands_elim: "lands e g p r"

text \<open>
  A run from a place: the nodes that do something, each with the port it is entered by, when the
  booleans say of each whether it leaves by its success edge.
\<close>

definition edge :: "ir_graph \<Rightarrow> bool \<Rightarrow> addr \<Rightarrow> addr \<times> port" where
  "edge g b a = (if b then (n_gam (g_node g a), n_gam_sz (g_node g a))
                 else (n_omg (g_node g a), n_omg_sz (g_node g a)))"

inductive runs :: "opt_env \<Rightarrow> ir_graph \<Rightarrow> addr \<times> port \<Rightarrow> bool list \<Rightarrow> (addr \<times> port) list \<Rightarrow> bool"
  for e g where
  last: "lands e g p q \<Longrightarrow> runs e g p [] [q]"
| more: "lands e g p q \<Longrightarrow> fst q \<noteq> 0 \<Longrightarrow> runs e g (edge g b (fst q)) bs tr \<Longrightarrow> runs e g p (b # bs) (q # tr)"

inductive_simps runs_Nil: "runs e g p [] tr"
inductive_simps runs_Cons: "runs e g p (b # bs) tr"

lemma hop_det: "hop e g p q \<Longrightarrow> hop e g p r \<Longrightarrow> q = r"
  by (simp add: hop_def)

lemma lands_hop: "hop e g p q \<Longrightarrow> lands e g p r \<longleftrightarrow> lands e g q r"
  by (auto elim: lands_elim intro: lands.skip dest: hop_det simp: hop_def)

lemma lands_hops: "(hop e g)\<^sup>*\<^sup>* p q \<Longrightarrow> lands e g p r \<longleftrightarrow> lands e g q r"
  by (induction rule: rtranclp_induct) (auto simp: lands_hop)

lemma lands_stops: "lands e g p r \<Longrightarrow> \<not> passes_on e g (fst r)"
  by (induction rule: lands.induct)

lemma lands_path: "lands e g p r \<Longrightarrow> \<exists>n. (hop e g ^^ n) p r"
proof (induction rule: lands.induct)
  case (stop p)
  then show ?case by (intro exI [of _ 0]) simp
next
  case (skip p q r)
  then show ?case by (meson relpowp_Suc_I2)
qed

lemma path_lands: "(hop e g ^^ n) p r \<Longrightarrow> \<not> passes_on e g (fst r) \<Longrightarrow> lands e g p r"
  using lands_hops [of e g p r r] relpowp_imp_rtranclp [of n "hop e g" p r] lands.stop by blast

lemma lands_port: "lands e g (a, z) r \<Longrightarrow> \<exists>r'. lands e g (a, z') r' \<and> fst r' = fst r"
proof (cases "passes_on e g a")
  case True
  assume r: "lands e g (a, z) r"
  have "hop e g (a, y) (edge g True a)" for y using True by (simp add: hop_def edge_def)
  then show ?thesis using lands_hop r by blast
next
  case False
  assume "lands e g (a, z) r"
  then have "r = (a, z)" using False by (auto elim: lands_elim simp: hop_def)
  moreover have "lands e g (a, z') (a, z')" using False by (intro lands.stop) simp
  ultimately show ?thesis by (metis fst_conv)
qed

text \<open>A node further along the way is nearer to where control lands.\<close>

lemma path_suffix:
  assumes "(hop e g ^^ n) p r" "\<not> passes_on e g (fst r)" "(hop e g)\<^sup>*\<^sup>* p q"
  shows "\<exists>k\<le>n. (hop e g ^^ k) q r"
  using assms(3)
proof (induction rule: rtranclp_induct)
  case base
  then show ?case using assms(1) by blast
next
  case (step q s)
  then obtain k where k: "k \<le> n" "(hop e g ^^ k) q r" by blast
  have "k \<noteq> 0" using k(2) step.hyps(2) assms(2) by (cases k) (auto simp: hop_def)
  then obtain j where j: "k = Suc j" by (cases k) auto
  then obtain s' where "hop e g q s'" "(hop e g ^^ j) s' r" using k(2) by (meson relpowp_Suc_D2)
  then have "(hop e g ^^ j) s r" using step.hyps(2) hop_det by blast
  then show ?case using k(1) j by (intro exI [of _ j]) simp
qed

section \<open>Moving edges along\<close>

text \<open>
  \<open>g'\<close> is \<open>g\<close> with edges rerouted along the way control takes: what a node does is the same, and every
  edge leads to a place its old place passes control on to.
\<close>

definition acts :: "ir_node \<Rightarrow> ir_node" where
  "acts x = x\<lparr>n_gam := 0, n_gam_sz := [], n_omg := 0, n_omg_sz := []\<rparr>"

definition shape :: "ir_graph \<Rightarrow> ir_graph" where
  "shape g = g\<lparr>g_node := (\<lambda>a. acts (g_node g a)), g_entry := 0, g_body_root := 0\<rparr>"

definition rerouted :: "opt_env \<Rightarrow> ir_graph \<Rightarrow> ir_graph \<Rightarrow> bool" where
  "rerouted e g g' \<longleftrightarrow> shape g' = shape g \<and> (\<forall>a b. (hop e g)\<^sup>*\<^sup>* (edge g b a) (edge g' b a))
     \<and> (\<forall>z. \<exists>z'. (hop e g)\<^sup>*\<^sup>* (g_entry g, z) (g_entry g', z'))
     \<and> (\<forall>z. \<exists>z'. (hop e g)\<^sup>*\<^sup>* (g_body_root g, z) (g_body_root g', z'))"

lemma acts_eq: "acts x = acts y \<longleftrightarrow>
    n_op x = n_op y \<and> n_op0 x = n_op0 y \<and> n_operands x = n_operands y \<and> n_seal x = n_seal y
    \<and> n_pat_static x = n_pat_static y \<and> n_strict x = n_strict y \<and> n_elem_access x = n_elem_access y
    \<and> n_lit x = n_lit y"
  by (cases x; cases y) (auto simp: acts_def)

lemma shape_eq: "shape g = shape h \<longleftrightarrow>
    (\<forall>a. acts (g_node g a) = acts (g_node h a)) \<and> g_byte g = g_byte h \<and> g_heap g = g_heap h \<and> g_all g = g_all h
    \<and> g_max g = g_max h \<and> g_dead g = g_dead h \<and> g_nparams g = g_nparams h
    \<and> g_resumable_callable g = g_resumable_callable h \<and> g_smx g = g_smx h"
  by (cases g; cases h) (auto simp: shape_def fun_eq_iff)

lemma hops_nonzero: "(hop e g)\<^sup>*\<^sup>* p q \<Longrightarrow> fst p \<noteq> 0 \<longleftrightarrow> fst q \<noteq> 0"
  by (induction rule: rtranclp_induct) (auto simp: hop_def passes_on_def)

lemma rerouted_shape: "rerouted e g g' \<Longrightarrow> shape g' = shape g"
  and rerouted_edge: "rerouted e g g' \<Longrightarrow> (hop e g)\<^sup>*\<^sup>* (edge g b a) (edge g' b a)"
  and rerouted_entry: "rerouted e g g' \<Longrightarrow> \<exists>z'. (hop e g)\<^sup>*\<^sup>* (g_entry g, z) (g_entry g', z')"
  and rerouted_body: "rerouted e g g' \<Longrightarrow> \<exists>z'. (hop e g)\<^sup>*\<^sup>* (g_body_root g, z) (g_body_root g', z')"
  by (simp_all add: rerouted_def)

lemma rerouted_goes_on:
  assumes "rerouted e g g'"
  shows "passes_on e g' a \<longleftrightarrow> passes_on e g a"
proof -
  have "n_op (g_node g' a) = n_op (g_node g a)" "n_lit (g_node g' a) = n_lit (g_node g a)"
    using rerouted_shape [OF assms] by (simp_all add: shape_eq acts_eq)
  moreover have "n_gam (g_node g' a) = 0 \<longleftrightarrow> n_gam (g_node g a) = 0"
    using hops_nonzero [OF rerouted_edge [OF assms, of True a]] by (simp add: edge_def)
  ultimately show ?thesis by (simp add: passes_on_def ir_ival_def)
qed

lemma rerouted_hop:
  assumes "rerouted e g g'" "hop e g' p q"
  shows "(hop e g)\<^sup>+\<^sup>+ p q"
proof -
  have on: "passes_on e g (fst p)" and q: "q = edge g' True (fst p)"
    using assms rerouted_goes_on by (auto simp: hop_def edge_def)
  have "hop e g p (edge g True (fst p))" using on by (simp add: hop_def edge_def)
  moreover have "(hop e g)\<^sup>*\<^sup>* (edge g True (fst p)) q" using rerouted_edge [OF assms(1)] by (simp add: q)
  ultimately show ?thesis by (rule rtranclp_into_tranclp2)
qed

lemma rerouted_hops:
  assumes "rerouted e g g'" "(hop e g')\<^sup>*\<^sup>* p q"
  shows "(hop e g)\<^sup>*\<^sup>* p q"
  using assms(2)
proof (induction rule: rtranclp_induct)
  case (step q r)
  then show ?case using rerouted_hop [OF assms(1) step.hyps(2)] by (meson rtranclp_trans tranclp_into_rtranclp)
qed simp

lemma rerouted_refl [simp, intro]: "rerouted e g g"
  by (auto simp: rerouted_def)

lemma rerouted_trans:
  assumes "rerouted e g g1" "rerouted e g1 g2"
  shows "rerouted e g g2"
proof -
  note hops = rerouted_hops [OF assms(1)]
  have "(hop e g)\<^sup>*\<^sup>* (edge g b a) (edge g2 b a)" for a b
    using rerouted_edge [OF assms(1)] hops [OF rerouted_edge [OF assms(2)]] by (rule rtranclp_trans)
  moreover have "\<exists>z'. (hop e g)\<^sup>*\<^sup>* (g_entry g, z) (g_entry g2, z')" for z
    using rerouted_entry [OF assms(1)] rerouted_entry [OF assms(2)] hops by (meson rtranclp_trans)
  moreover have "\<exists>z'. (hop e g)\<^sup>*\<^sup>* (g_body_root g, z) (g_body_root g2, z')" for z
    using rerouted_body [OF assms(1)] rerouted_body [OF assms(2)] hops by (meson rtranclp_trans)
  ultimately show ?thesis
    using rerouted_shape [OF assms(1)] rerouted_shape [OF assms(2)] by (simp add: rerouted_def)
qed

text \<open>Control lands at the same places and runs the same way.\<close>

lemma rerouted_lands_sound:
  assumes "rerouted e g g'" "lands e g' p r"
  shows "lands e g p r"
  using assms(2)
proof (induction rule: lands.induct)
  case (stop p)
  then show ?case using rerouted_goes_on [OF assms(1)] by (auto intro: lands.stop)
next
  case (skip p q r)
  then show ?case using lands_hops [OF tranclp_into_rtranclp [OF rerouted_hop [OF assms(1) skip.hyps(1)]]] by blast
qed

lemma rerouted_lands_complete:
  assumes "rerouted e g g'" "(hop e g ^^ n) p r" "\<not> passes_on e g (fst r)"
  shows "lands e g' p r"
  using assms(2)
proof (induction n arbitrary: p rule: less_induct)
  case (less n)
  show ?case
  proof (cases n)
    case 0
    then show ?thesis using less.prems assms(3) rerouted_goes_on [OF assms(1)] by (auto intro: lands.stop)
  next
    case (Suc m)
    then obtain q where q: "hop e g p q" "(hop e g ^^ m) q r" using less.prems by (meson relpowp_Suc_D2)
    then have on: "passes_on e g (fst p)" and q': "q = edge g True (fst p)" by (auto simp: hop_def edge_def)
    let ?s = "edge g' True (fst p)"
    obtain k where k: "k \<le> m" "(hop e g ^^ k) ?s r"
      using path_suffix [OF q(2) assms(3)] rerouted_edge [OF assms(1)] unfolding q' by blast
    have "hop e g' p ?s" using on rerouted_goes_on [OF assms(1)] by (simp add: hop_def edge_def)
    moreover have "lands e g' ?s r" using less.IH [of k] k Suc by simp
    ultimately show ?thesis by (rule lands.skip)
  qed
qed

lemma rerouted_lands: "rerouted e g g' \<Longrightarrow> lands e g' p r \<longleftrightarrow> lands e g p r"
  using rerouted_lands_sound rerouted_lands_complete lands_path lands_stops by metis

lemma runs_from: "(\<And>r. lands e g p r \<longleftrightarrow> lands e g q r) \<Longrightarrow> runs e g p bs tr \<longleftrightarrow> runs e g q bs tr"
  by (cases bs) (simp_all add: runs_Nil runs_Cons)

lemma rerouted_runs: "rerouted e g g' \<Longrightarrow> runs e g' p bs tr \<longleftrightarrow> runs e g p bs tr"
proof (induction bs arbitrary: p tr)
  case Nil
  then show ?case by (simp add: runs_Nil rerouted_lands)
next
  case (Cons b bs)
  have "runs e g' (edge g' b a) bs t \<longleftrightarrow> runs e g (edge g b a) bs t" for a t
  proof -
    have "runs e g (edge g b a) bs t \<longleftrightarrow> runs e g (edge g' b a) bs t"
      by (rule runs_from) (rule lands_hops [OF rerouted_edge [OF Cons.prems]])
    then show ?thesis using Cons.IH [OF Cons.prems] by simp
  qed
  then show ?case by (simp add: runs_Cons rerouted_lands [OF Cons.prems])
qed

section \<open>Where an edge may rest\<close>

text \<open>
  The pass leaves an edge at a node that does something, at a node some other node has as its operand,
  or on a circle of nodes that pass control on for ever.
\<close>

definition protected :: "ir_graph \<Rightarrow> addr \<Rightarrow> bool" where
  "protected g t \<longleftrightarrow> t \<in> set (g_all g) \<and> (\<exists>a\<in>set (g_all g) - {0}. t \<in> set (n_operands (g_node g a)))"

definition settled :: "opt_env \<Rightarrow> ir_graph \<Rightarrow> addr \<Rightarrow> bool" where
  "settled e g t \<longleftrightarrow> \<not> passes_on e g t \<or> protected g t \<or> (\<forall>z r. \<not> lands e g (t, z) r)"

lemma protected_moved: "rerouted e g g' \<Longrightarrow> protected g' t \<longleftrightarrow> protected g t"
  using rerouted_shape by (fastforce simp: protected_def shape_eq acts_eq)

lemma settled_moved: "rerouted e g g' \<Longrightarrow> settled e g' t \<longleftrightarrow> settled e g t"
  by (simp add: settled_def rerouted_goes_on protected_moved rerouted_lands)

lemma settled_null [simp]: "settled e g 0"
  by (simp add: settled_def passes_on_def)

lemma circle_never_lands:
  assumes "(hop e g)\<^sup>+\<^sup>+ p q" "fst q = fst p"
  shows "\<not> lands e g (fst p, z) r"
proof
  assume "lands e g (fst p, z) r"
  then obtain n r' where n: "(hop e g ^^ n) p r'" "\<not> passes_on e g (fst r')"
    using lands_port [of e g "fst p" z r "snd p"] lands_path lands_stops by (metis prod.collapse)
  have "\<not> (\<exists>r'. (hop e g ^^ n) (fst p, y) r' \<and> \<not> passes_on e g (fst r'))" for y n
  proof (induction n arbitrary: y rule: less_induct)
    case (less n)
    show ?case
    proof
      assume "\<exists>r'. (hop e g ^^ n) (fst p, y) r' \<and> \<not> passes_on e g (fst r')"
      then obtain r' where r': "(hop e g ^^ n) (fst p, y) r'" "\<not> passes_on e g (fst r')" by blast
      obtain s where s: "hop e g p s" "(hop e g)\<^sup>*\<^sup>* s q" using assms(1) by (meson tranclpD)
      then have on: "passes_on e g (fst p)" and hop: "hop e g (fst p, y) s" by (auto simp: hop_def)
      then obtain m where m: "n = Suc m" using r' by (cases n) auto
      then have "(hop e g ^^ m) s r'" using r'(1) hop hop_det by (metis relpowp_Suc_D2)
      from path_suffix [OF this r'(2) s(2)] obtain k where "k \<le> m" "(hop e g ^^ k) q r'" by blast
      moreover have "q = (fst p, snd q)" using assms(2) by (metis prod.collapse)
      ultimately show False using less.IH [of k "snd q"] m r'(2) by (metis le_imp_less_Suc)
    qed
  qed
  then show False using n by (metis prod.collapse)
qed

lemma first_pos_inj:
  assumes "x \<in> set ps" "y \<in> set ps" "first_pos ps x = first_pos ps y"
  shows "x = y"
  using assms by (metis first_pos_nonneg first_pos_nth)

definition prot_for :: "bool list \<Rightarrow> ir_graph \<Rightarrow> bool" where
  "prot_for prot g \<longleftrightarrow> (\<forall>t\<in>set (g_all g). prot ! nat (first_pos (g_all g) t) \<longleftrightarrow> protected g t)"

lemma bc_build_protect_ok:
  assumes "ix_for ix (g_all g)"
  shows "\<exists>prot. bc_build_protect g ix = Some prot \<and> prot_for prot g"
proof -
  let ?L = "max (length (g_all g)) 1"
  obtain ms where ms: "bc_build_protect g ix = Some ms"
    "\<forall>j<?L. ms ! j \<longleftrightarrow> (\<exists>a\<in>set (g_all g) - {0}. \<exists>q\<in>set (n_operands (g_node g a)). first_pos (g_all g) q = int j)"
    using ix_mark_nodes_ok [OF assms, of "replicate ?L False" "\<lambda>a. n_operands (g_node g a)" "g_all g"]
    by (auto simp: bc_build_protect_def)
  have "ms ! nat (first_pos (g_all g) t) \<longleftrightarrow> protected g t" if t: "t \<in> set (g_all g)" for t
  proof -
    have pos: "0 \<le> first_pos (g_all g) t" "nat (first_pos (g_all g) t) < ?L"
      using t first_pos_nth [of "g_all g" t] by (auto simp: first_pos_nonneg)
    have "first_pos (g_all g) q = first_pos (g_all g) t \<longleftrightarrow> q = t" for q
      using first_pos_inj [of q "g_all g" t] t pos(1) first_pos_nonneg [of "g_all g" q] by auto
    then show ?thesis using ms(2) pos t by (auto simp: protected_def)
  qed
  then show ?thesis using ms(1) by (auto simp: prot_for_def)
qed

lemma prot_for_moved: "rerouted e g g' \<Longrightarrow> prot_for prot g' \<longleftrightarrow> prot_for prot g"
  using rerouted_shape by (fastforce simp: prot_for_def protected_moved shape_eq)

section \<open>The walk\<close>

text \<open>
  What holds of the locals of \<open>bc_chase\<close>: the stamps say which nodes of the graph have been walked, the
  set which nodes outside of it, and every node walked leads to the present one.
\<close>

definition walk_inv :: "opt_env \<Rightarrow> ir_graph \<Rightarrow> addr set \<Rightarrow> int \<Rightarrow> addr \<times> port \<Rightarrow> bc_state \<Rightarrow> bool" where
  "walk_inv e g N cur p st \<longleftrightarrow> c_node st \<in> insert 0 N \<and> set (c_list st) \<subseteq> N
     \<and> length (c_gen st) = max (length (g_all g)) 1 \<and> length (c_pos st) = max (length (g_all g)) 1
     \<and> (\<forall>j<length (c_gen st). c_gen st ! j \<le> cur)
     \<and> (\<forall>x\<in>set (g_all g). c_gen st ! nat (first_pos (g_all g) x) = cur \<longleftrightarrow> x \<in> set (c_list st))
     \<and> pset_holds (c_out st) (set (c_list st) - set (g_all g))
     \<and> (hop e g)\<^sup>*\<^sup>* p (c_node st, c_sz st)
     \<and> (\<forall>x\<in>set (c_list st). (hop e g)\<^sup>*\<^sup>* (edge g True x) (c_node st, c_sz st))"

lemma walk_step_hop:
  "passes_on e g (c_node st) \<Longrightarrow> hop e g (c_node st, c_sz st) (edge g True (c_node st))"
  by (simp add: hop_def edge_def)

lemma walk_next_in:
  assumes inv: "walk_inv e g N cur p st" and ok: "graph_ok N g" and on: "passes_on e g (c_node st)"
    and j: "j = first_pos (g_all g) (c_node st)" "j \<ge> 0" and unseen: "c_gen st ! nat j \<noteq> cur"
  shows "c_node st \<notin> set (c_list st) \<and> walk_inv e g N cur p
    (st\<lparr>c_gen := (c_gen st)[nat j := cur], c_pos := (c_pos st)[nat j := int (length (c_list st))],
       c_list := c_list st @ [c_node st], c_sz := n_gam_sz (g_node g (c_node st)),
       c_node := n_gam (g_node g (c_node st))\<rparr>)"
proof -
  let ?x = "c_node st"
  have mem: "?x \<in> set (g_all g)" and xN: "?x \<in> N"
    using j on inv by (auto simp: first_pos_nonneg walk_inv_def passes_on_def)
  have lt: "nat j < length (g_all g)" using first_pos_nth [of "g_all g" ?x] j by simp
  have new: "?x \<notin> set (c_list st)" using inv unseen mem j(1) by (simp add: walk_inv_def)
  have next_N: "n_gam (g_node g ?x) \<in> insert 0 N" using ok xN by (auto simp: graph_ok_def node_links_def)
  have stamp: "(c_gen st)[nat j := cur] ! nat (first_pos (g_all g) y) = cur \<longleftrightarrow> y \<in> set (c_list st @ [?x])"
    if y: "y \<in> set (g_all g)" for y
  proof (cases "y = ?x")
    case True
    then show ?thesis using lt inv j(1) by (simp add: walk_inv_def)
  next
    case False
    then have "first_pos (g_all g) y \<noteq> j" using first_pos_inj [OF y mem] j(1) by auto
    then have "nat (first_pos (g_all g) y) \<noteq> nat j" using y j(2) by (simp add: first_pos_nonneg eq_nat_nat_iff)
    then show ?thesis using inv y False by (simp add: walk_inv_def)
  qed
  have "(hop e g)\<^sup>*\<^sup>* (?x, c_sz st) (edge g True ?x)" using walk_step_hop [OF on] by simp
  then have way: "(hop e g)\<^sup>*\<^sup>* q (edge g True ?x)" if "(hop e g)\<^sup>*\<^sup>* q (?x, c_sz st)" for q
    using that by (meson rtranclp_trans)
  have out: "set (c_list st @ [?x]) - set (g_all g) = set (c_list st) - set (g_all g)" using mem by auto
  note I = inv [unfolded walk_inv_def]
  have "walk_inv e g N cur p
    (st\<lparr>c_gen := (c_gen st)[nat j := cur], c_pos := (c_pos st)[nat j := int (length (c_list st))],
       c_list := c_list st @ [?x], c_sz := n_gam_sz (g_node g ?x), c_node := n_gam (g_node g ?x)\<rparr>)"
    (is "walk_inv e g N cur p ?s")
    unfolding walk_inv_def
  proof (intro conjI)
    show "c_node ?s \<in> insert 0 N" using next_N by simp
    show "set (c_list ?s) \<subseteq> N" using I xN by simp
    show "length (c_gen ?s) = max (length (g_all g)) 1" "length (c_pos ?s) = max (length (g_all g)) 1"
      using I by simp_all
    show "\<forall>i<length (c_gen ?s). c_gen ?s ! i \<le> cur"
    proof (intro allI impI)
      fix i assume "i < length (c_gen ?s)"
      then show "c_gen ?s ! i \<le> cur" using I by (cases "i = nat j") auto
    qed
    show "\<forall>y\<in>set (g_all g). c_gen ?s ! nat (first_pos (g_all g) y) = cur \<longleftrightarrow> y \<in> set (c_list ?s)"
      using stamp by simp
    show "pset_holds (c_out ?s) (set (c_list ?s) - set (g_all g))" using I out by simp
    show "(hop e g)\<^sup>*\<^sup>* p (c_node ?s, c_sz ?s)" using I way by (simp add: edge_def)
    show "\<forall>y\<in>set (c_list ?s). (hop e g)\<^sup>*\<^sup>* (edge g True y) (c_node ?s, c_sz ?s)"
      using I way by (simp add: edge_def)
  qed
  then show ?thesis using new by simp
qed

lemma walk_next_out:
  assumes inv: "walk_inv e g N cur p st" and ok: "graph_ok N g" and on: "passes_on e g (c_node st)"
    and absent: "c_node st \<notin> set (g_all g)" and unseen: "ir_pset_has (c_out st) (c_node st) = Some False"
  shows "\<exists>out. c_node st \<notin> set (c_list st) \<and> ir_pset_add (c_out st) (c_node st) = Some out
    \<and> walk_inv e g N cur p
    (st\<lparr>c_out := out, c_list := c_list st @ [c_node st], c_sz := n_gam_sz (g_node g (c_node st)),
       c_node := n_gam (g_node g (c_node st))\<rparr>)"
proof -
  let ?x = "c_node st" and ?S = "set (c_list st) - set (g_all g)"
  have xN: "?x \<in> N" using on inv by (auto simp: walk_inv_def passes_on_def)
  have holds: "pset_holds (c_out st) ?S" using inv by (simp add: walk_inv_def)
  have new: "?x \<notin> set (c_list st)" using pset.holds_has [OF holds, of ?x] unseen absent by simp
  have "?S \<subseteq> N" using inv by (auto simp: walk_inv_def)
  then have "card ?S < 2 ^ 60" using ok card_mono [of N ?S] by (auto simp: graph_ok_def)
  from pset.holds_add [OF holds this, of ?x] obtain out where
    out: "ir_pset_add (c_out st) ?x = Some out" "pset_holds out (insert ?x ?S)" by blast
  have next_N: "n_gam (g_node g ?x) \<in> insert 0 N" using ok xN by (auto simp: graph_ok_def node_links_def)
  have "(hop e g)\<^sup>*\<^sup>* (?x, c_sz st) (edge g True ?x)" using walk_step_hop [OF on] by simp
  then have way: "(hop e g)\<^sup>*\<^sup>* q (edge g True ?x)" if "(hop e g)\<^sup>*\<^sup>* q (?x, c_sz st)" for q
    using that by (meson rtranclp_trans)
  have "insert ?x ?S = set (c_list st @ [?x]) - set (g_all g)" using absent by auto
  then have holds': "pset_holds out (set (c_list st @ [?x]) - set (g_all g))" using out(2) by simp
  note I = inv [unfolded walk_inv_def]
  have "walk_inv e g N cur p (st\<lparr>c_out := out, c_list := c_list st @ [?x],
      c_sz := n_gam_sz (g_node g ?x), c_node := n_gam (g_node g ?x)\<rparr>)" (is "walk_inv e g N cur p ?s")
    unfolding walk_inv_def
  proof (intro conjI)
    show "c_node ?s \<in> insert 0 N" using next_N by simp
    show "set (c_list ?s) \<subseteq> N" using I xN by simp
    show "length (c_gen ?s) = max (length (g_all g)) 1" "length (c_pos ?s) = max (length (g_all g)) 1"
      using I by simp_all
    show "\<forall>i<length (c_gen ?s). c_gen ?s ! i \<le> cur" using I by simp
    show "\<forall>y\<in>set (g_all g). c_gen ?s ! nat (first_pos (g_all g) y) = cur \<longleftrightarrow> y \<in> set (c_list ?s)"
      using I absent by auto
    show "pset_holds (c_out ?s) (set (c_list ?s) - set (g_all g))" using holds' by simp
    show "(hop e g)\<^sup>*\<^sup>* p (c_node ?s, c_sz ?s)" using I way by (simp add: edge_def)
    show "\<forall>y\<in>set (c_list ?s). (hop e g)\<^sup>*\<^sup>* (edge g True y) (c_node ?s, c_sz ?s)"
      using I way by (simp add: edge_def)
  qed
  then show ?thesis using new out(1) by blast
qed

lemma bc_walk_returns:
  assumes "graph_ok N g" "ix_for ix (g_all g)" "prot_for prot g"
  shows "walk_inv e g N cur p st \<Longrightarrow>
    \<exists>st'. bc_walk_loop e g prot ix cur st = Some st' \<and> walk_inv e g N cur p st'
      \<and> (\<not> passes_on e g (c_node st') \<or> protected g (c_node st') \<or> c_node st' \<in> set (c_list st'))"
proof (induction "card (N - set (c_list st))" arbitrary: st rule: less_induct)
  case less
  let ?x = "c_node st" and ?j = "first_pos (g_all g) (c_node st)"
  note ix = ix_forD [OF assms(2), of ?x]
  have smaller: "card (N - set (c_list st @ [?x])) < card (N - set (c_list st))"
    if "?x \<notin> set (c_list st)" "passes_on e g ?x"
  proof (rule psubset_card_mono)
    show "finite (N - set (c_list st))" using assms(1) by (simp add: graph_ok_def)
    have "?x \<in> N" using less.prems that(2) by (auto simp: walk_inv_def passes_on_def)
    then show "N - set (c_list st @ [?x]) \<subset> N - set (c_list st)" using that(1) by auto
  qed
  show ?case
  proof (cases "passes_on e g ?x \<and> \<not> (?j \<ge> 0 \<and> prot ! nat ?j)")
    case False
    have "?j \<ge> 0 \<Longrightarrow> prot ! nat ?j \<Longrightarrow> protected g ?x"
      using assms(3) first_pos_nonneg [of "g_all g" ?x] by (auto simp: prot_for_def)
    then show ?thesis using False less.prems ix by (subst bc_walk_loop.simps) (auto simp: bc_goes_on_eq)
  next
    case go: True
    show ?thesis
    proof (cases "?j \<ge> 0")
      case inside: True
      show ?thesis
      proof (cases "c_gen st ! nat ?j = cur")
        case True
        have "walk_inv e g N cur p (st\<lparr>c_rep := True, c_m := c_pos st ! nat ?j\<rparr>)"
          using less.prems by (simp add: walk_inv_def)
        moreover have "?x \<in> set (c_list st)"
          using less.prems True inside first_pos_nonneg [of "g_all g" ?x] by (simp add: walk_inv_def)
        ultimately show ?thesis using go inside True ix by (subst bc_walk_loop.simps) (simp add: bc_goes_on_eq)
      next
        case False
        from walk_next_in [OF less.prems assms(1) _ refl inside False] go
        have n: "?x \<notin> set (c_list st)" "walk_inv e g N cur p
          (st\<lparr>c_gen := (c_gen st)[nat ?j := cur], c_pos := (c_pos st)[nat ?j := int (length (c_list st))],
             c_list := c_list st @ [?x], c_sz := n_gam_sz (g_node g ?x), c_node := n_gam (g_node g ?x)\<rparr>)"
          by auto
        from less.hyps [OF _ n(2)] smaller [OF n(1)] go show ?thesis
          using inside False ix by (subst bc_walk_loop.simps) (simp add: Let_def bc_goes_on_eq)
      qed
    next
      case outside: False
      then have absent: "?x \<notin> set (g_all g)" by (simp add: first_pos_nonneg)
      have holds: "pset_holds (c_out st) (set (c_list st) - set (g_all g))"
        using less.prems by (simp add: walk_inv_def)
      note has = pset.holds_has [OF holds, of ?x]
      show ?thesis
      proof (cases "?x \<in> set (c_list st) - set (g_all g)")
        case True
        have "walk_inv e g N cur p (st\<lparr>c_rep := True, c_m := -1\<rparr>)"
          using less.prems by (simp add: walk_inv_def)
        then show ?thesis using go outside True ix has by (subst bc_walk_loop.simps) (simp add: bc_goes_on_eq)
      next
        case False
        then have "ir_pset_has (c_out st) ?x = Some False" using has by simp
        from walk_next_out [OF less.prems assms(1) _ absent this] go
        obtain out where n: "?x \<notin> set (c_list st)" "ir_pset_add (c_out st) ?x = Some out"
          "walk_inv e g N cur p (st\<lparr>c_out := out, c_list := c_list st @ [?x],
             c_sz := n_gam_sz (g_node g ?x), c_node := n_gam (g_node g ?x)\<rparr>)" by auto
        from less.hyps [OF _ n(3)] smaller [OF n(1)] go show ?thesis
          using outside n(2) \<open>ir_pset_has (c_out st) ?x = Some False\<close> ix
          by (subst bc_walk_loop.simps) (simp add: bc_goes_on_eq)
      qed
    qed
  qed
qed

section \<open>The pass moves edges along\<close>

text \<open>Well-formedness goes with the edges.\<close>

lemma hops_in:
  assumes "graph_ok N g" "(hop e g)\<^sup>*\<^sup>* p q" "fst p \<in> insert 0 N"
  shows "fst q \<in> insert 0 N"
  using assms(2,3)
proof (induction rule: rtranclp_induct)
  case (step q r)
  then have "fst q \<in> N" by (auto simp: hop_def passes_on_def)
  then show ?case using assms(1) step.hyps(2) by (auto simp: hop_def graph_ok_def node_links_def)
qed

lemma rerouted_ok:
  assumes "rerouted e g g'" "graph_ok N g"
  shows "graph_ok N g'"
proof -
  have "fst (edge g b a) \<in> insert 0 N" if "a \<in> N" for a b
    using assms(2) that by (auto simp: edge_def graph_ok_def node_links_def)
  then have edge_in: "fst (edge g' b a) \<in> insert 0 N" if "a \<in> N" for a b
    using hops_in [OF assms(2) rerouted_edge [OF assms(1)]] that by blast
  have sh: "acts (g_node g' a) = acts (g_node g a)" "g_all g' = g_all g \<and> g_heap g' = g_heap g" for a
    using rerouted_shape [OF assms(1)] by (simp_all add: shape_eq)
  have links: "node_links (g_node g' a) \<subseteq> insert 0 N" if "a \<in> N" for a
  proof -
    have "set (n_operands (g_node g' a)) \<subseteq> insert 0 N"
      using sh(1) [of a] assms(2) that by (simp add: acts_eq graph_ok_def node_links_def)
    moreover have "n_gam (g_node g' a) \<in> insert 0 N" "n_omg (g_node g' a) \<in> insert 0 N"
      using edge_in [OF that, of True] edge_in [OF that, of False] by (simp_all add: edge_def)
    ultimately show ?thesis unfolding node_links_def by blast
  qed
  have "fst (g_entry g, [] :: port) \<in> insert 0 N" "fst (g_body_root g, [] :: port) \<in> insert 0 N"
    using assms(2) by (simp_all add: graph_ok_def)
  then have "g_entry g' \<in> insert 0 N" "g_body_root g' \<in> insert 0 N"
    using rerouted_entry [OF assms(1), of "[]"] rerouted_body [OF assms(1), of "[]"] hops_in [OF assms(2)]
    by (metis fst_conv)+
  then show ?thesis using assms(2) sh(2) links by (simp add: graph_ok_def)
qed

text \<open>The four places the pass writes.\<close>

lemma acts_edges [simp]:
  "acts (x\<lparr>n_gam := t, n_gam_sz := sz\<rparr>) = acts x" "acts (x\<lparr>n_omg := t, n_omg_sz := sz\<rparr>) = acts x"
  by (simp_all add: acts_def)

lemma rerouted_set_gam:
  assumes "rerouted e g h" "(hop e g)\<^sup>*\<^sup>* (edge g True a) (t, sz)"
  shows "rerouted e g (set_node a ((g_node h a)\<lparr>n_gam := t, n_gam_sz := sz\<rparr>) h)" (is "rerouted e g ?h")
proof -
  have "(hop e g)\<^sup>*\<^sup>* (edge g b c) (edge ?h b c)" for b c
    using rerouted_edge [OF assms(1), of b c] assms(2) by (auto simp: edge_def set_node_def split: if_splits)
  then show ?thesis
    using assms(1) by (auto simp: rerouted_def shape_eq set_node_def)
qed

lemma rerouted_set_omg:
  assumes "rerouted e g h" "(hop e g)\<^sup>*\<^sup>* (edge g False a) (t, sz)"
  shows "rerouted e g (set_node a ((g_node h a)\<lparr>n_omg := t, n_omg_sz := sz\<rparr>) h)" (is "rerouted e g ?h")
proof -
  have "(hop e g)\<^sup>*\<^sup>* (edge g b c) (edge ?h b c)" for b c
    using rerouted_edge [OF assms(1), of b c] assms(2) by (auto simp: edge_def set_node_def split: if_splits)
  then show ?thesis
    using assms(1) by (auto simp: rerouted_def shape_eq set_node_def)
qed

lemma hops_any_port:
  assumes "(hop e g)\<^sup>*\<^sup>* (a, z) (b, y)"
  shows "\<exists>y'. (hop e g)\<^sup>*\<^sup>* (a, z') (b, y')"
  using assms
proof (cases rule: converse_rtranclpE)
  case (step q)
  then have "hop e g (a, z') q" by (simp add: hop_def)
  then show ?thesis using step(2) by (meson converse_rtranclp_into_rtranclp)
qed auto

lemma edge_roots [simp]:
  "edge (g\<lparr>g_entry := t\<rparr>) = edge g" "edge (g\<lparr>g_body_root := t\<rparr>) = edge g"
  by (simp_all add: edge_def fun_eq_iff)

lemma rerouted_set_entry:
  assumes "rerouted e g h" "(hop e g)\<^sup>*\<^sup>* (g_entry g, z) (t, sz)"
  shows "rerouted e g (h\<lparr>g_entry := t\<rparr>)"
  using assms(1) hops_any_port [OF assms(2)] by (auto simp: rerouted_def shape_eq)

lemma rerouted_set_body:
  assumes "rerouted e g h" "(hop e g)\<^sup>*\<^sup>* (g_body_root g, z) (t, sz)"
  shows "rerouted e g (h\<lparr>g_body_root := t\<rparr>)"
  using assms(1) hops_any_port [OF assms(2)] by (auto simp: rerouted_def shape_eq)

text \<open>\<open>only\<close>: the edges of \<open>h\<close> that are not those of \<open>g\<close> end at places in \<open>T\<close>.\<close>

definition only :: "addr set \<Rightarrow> ir_graph \<Rightarrow> ir_graph \<Rightarrow> bool" where
  "only T g h \<longleftrightarrow> (\<forall>a b. edge h b a = edge g b a \<or> fst (edge h b a) \<in> T)"

lemma only_refl [simp]: "only T g g"
  by (simp add: only_def)

lemma only_trans: "only T g h \<Longrightarrow> only T h k \<Longrightarrow> only T g k"
  unfolding only_def by metis

lemma only_mono: "only T g h \<Longrightarrow> T \<subseteq> U \<Longrightarrow> only U g h"
  unfolding only_def by blast

lemma edge_set_node:
  "edge (set_node a ((g_node h a)\<lparr>n_gam := t, n_gam_sz := sz\<rparr>) h) b c
     = (if c = a \<and> b then (t, sz) else edge h b c)"
  "edge (set_node a ((g_node h a)\<lparr>n_omg := t, n_omg_sz := sz\<rparr>) h) b c
     = (if c = a \<and> \<not> b then (t, sz) else edge h b c)"
  by (simp_all add: edge_def set_node_def)

lemma only_set:
  "t \<in> T \<Longrightarrow> only T g h \<Longrightarrow> only T g (set_node a ((g_node h a)\<lparr>n_gam := t, n_gam_sz := sz\<rparr>) h)"
  "t \<in> T \<Longrightarrow> only T g h \<Longrightarrow> only T g (set_node a ((g_node h a)\<lparr>n_omg := t, n_omg_sz := sz\<rparr>) h)"
  by (simp_all add: only_def edge_set_node)

lemma only_roots: "only T g h \<Longrightarrow> only T g (h\<lparr>g_entry := t\<rparr>)" "only T g h \<Longrightarrow> only T g (h\<lparr>g_body_root := t\<rparr>)"
  by (simp_all add: only_def)

lemma bc_redirect_ok:
  assumes "ix_for ix (g_all g)" "\<forall>x\<in>set xs. (hop e g)\<^sup>*\<^sup>* (edge g True x) (t, sz)"
  shows "rerouted e g h \<Longrightarrow> only {t} g h \<Longrightarrow> \<exists>h'. bc_redirect ix t sz xs h = Some h' \<and> rerouted e g h' \<and> only {t} g h'
    \<and> g_entry h' = g_entry h \<and> g_body_root h' = g_body_root h"
  using assms(2)
proof (induction xs arbitrary: h)
  case (Cons x xs)
  let ?h = "set_node x ((g_node h x)\<lparr>n_gam := t, n_gam_sz := sz\<rparr>) h"
  have "rerouted e g ?h" using Cons.prems by (intro rerouted_set_gam) auto
  moreover have "only {t} g ?h" using Cons.prems(2) by (intro only_set) simp
  moreover have "g_entry ?h = g_entry h" "g_body_root ?h = g_body_root h" by (simp_all add: set_node_def)
  ultimately have "\<exists>h'. bc_redirect ix t sz xs (if b then ?h else h) = Some h' \<and> rerouted e g h' \<and> only {t} g h'
      \<and> g_entry h' = g_entry h \<and> g_body_root h' = g_body_root h" for b
    using Cons.IH [of ?h] Cons.IH [of h] Cons.prems by (cases b) auto
  then show ?case using ix_forD [OF assms(1), of x] by simp
qed auto

definition walk_ok :: "ir_graph \<Rightarrow> bc_walk \<Rightarrow> bool" where
  "walk_ok g w \<longleftrightarrow> length (w_gen w) = max (length (g_all g)) 1 \<and> length (w_pos w) = max (length (g_all g)) 1
     \<and> (\<forall>j<length (w_gen w). w_gen w ! j \<le> w_cur w)"

lemma bc_chase_ok:
  assumes "graph_ok N g" "ix_for ix (g_all g)" "prot_for prot g" "walk_ok g w" "node \<in> insert 0 N"
  shows "\<exists>t sz' w' g'. bc_chase e prot ix w g node sz = Some (t, sz', w', g') \<and> walk_ok g w'
    \<and> rerouted e g g' \<and> (hop e g)\<^sup>*\<^sup>* (node, sz) (t, sz') \<and> settled e g t \<and> only {t} g g'
    \<and> g_entry g' = g_entry g \<and> g_body_root g' = g_body_root g"
proof -
  let ?st = "\<lparr>c_node = node, c_sz = sz, c_list = [], c_gen = w_gen w, c_pos = w_pos w,
      c_out = ir_pset_init, c_rep = False, c_m = -1\<rparr>"
  have fresh: "w_gen w ! nat (first_pos (g_all g) x) \<noteq> w_cur w + 1" if "x \<in> set (g_all g)" for x
  proof -
    have "nat (first_pos (g_all g) x) < length (g_all g)"
      using first_pos_nth [of "g_all g" x] that by (simp add: first_pos_nonneg)
    then have "w_gen w ! nat (first_pos (g_all g) x) \<le> w_cur w" using assms(4) by (simp add: walk_ok_def)
    then show ?thesis by simp
  qed
  have "walk_inv e g N (w_cur w + 1) (node, sz) ?st"
    using assms(4,5) fresh pset.holds_empty by (fastforce simp: walk_inv_def walk_ok_def)
  from bc_walk_returns [OF assms(1-3) this] obtain st where
    st: "bc_walk_loop e g prot ix (w_cur w + 1) ?st = Some st" "walk_inv e g N (w_cur w + 1) (node, sz) st"
      "\<not> passes_on e g (c_node st) \<or> protected g (c_node st) \<or> c_node st \<in> set (c_list st)"
    by blast
  let ?t = "c_node st"
  have "settled e g ?t"
  proof (cases "passes_on e g ?t \<and> ?t \<in> set (c_list st)")
    case True
    then have "hop e g (?t, c_sz st) (edge g True ?t)" by (simp add: hop_def edge_def)
    moreover have "(hop e g)\<^sup>*\<^sup>* (edge g True ?t) (?t, c_sz st)" using st(2) True by (simp add: walk_inv_def)
    ultimately have "(hop e g)\<^sup>+\<^sup>+ (?t, c_sz st) (?t, c_sz st)" by (rule rtranclp_into_tranclp2)
    then have "\<not> lands e g (?t, z) r" for z r using circle_never_lands [of e g "(?t, c_sz st)"] by simp
    then show ?thesis by (simp add: settled_def)
  next
    case False
    then show ?thesis using st(3) by (auto simp: settled_def)
  qed
  let ?xs = "take (nat (if c_rep st then c_m st - 1 else int (length (c_list st)) - 1)) (c_list st)"
  have "\<forall>x\<in>set ?xs. (hop e g)\<^sup>*\<^sup>* (edge g True x) (?t, c_sz st)"
    using st(2) by (auto simp: walk_inv_def dest: in_set_takeD)
  from bc_redirect_ok [OF assms(2) this rerouted_refl only_refl] obtain g' where
    "bc_redirect ix ?t (c_sz st) ?xs g = Some g'" "rerouted e g g'" "only {?t} g g'"
    "g_entry g' = g_entry g" "g_body_root g' = g_body_root g" by blast
  then show ?thesis using st \<open>settled e g ?t\<close> by (simp add: bc_chase_def Let_def walk_ok_def walk_inv_def)
qed

text \<open>
  Each step of the pass keeps the graph well formed, moves edges along and leaves the edges \<open>E\<close> dealt
  with at places where they may rest.
\<close>

definition bc_good :: "opt_env \<Rightarrow> addr set \<Rightarrow> ir_graph \<Rightarrow> (addr \<times> bool) set \<Rightarrow> bc_walk \<times> ir_graph \<times> nat \<Rightarrow> bool" where
  "bc_good e N g0 E = (\<lambda>(w, g, total). graph_ok N g \<and> walk_ok g w \<and> rerouted e g0 g
     \<and> (\<forall>(a, b)\<in>E. settled e g0 (fst (edge g b a))))"

lemma walk_ok_moved: "rerouted e g g' \<Longrightarrow> walk_ok g' w \<longleftrightarrow> walk_ok g w"
  using rerouted_shape by (fastforce simp: walk_ok_def shape_eq)

lemma bc_goodI:
  assumes "bc_good e N g0 E (w0, g, n0)" "rerouted e g h" "walk_ok g w" "only {t} g h" "settled e g t"
  shows "bc_good e N g0 E (w, h, n)"
    and "fst (edge h b a) = t \<Longrightarrow> bc_good e N g0 (insert (a, b) E) (w, h, n)"
proof -
  have G: "graph_ok N g" "rerouted e g0 g" "\<forall>(a, b)\<in>E. settled e g0 (fst (edge g b a))"
    using assms(1) by (simp_all add: bc_good_def)
  have t: "settled e g0 t" using assms(5) settled_moved [OF G(2)] by simp
  have "settled e g0 (fst (edge h b a))" if "(a, b) \<in> E" for a b
    using assms(4) G(3) t that unfolding only_def by (metis case_prodD singletonD)
  then show "bc_good e N g0 E (w, h, n)"
    using G assms(2,3) rerouted_ok [OF assms(2)] rerouted_trans [OF G(2) assms(2)] walk_ok_moved [OF assms(2)]
    by (auto simp: bc_good_def)
  then show "bc_good e N g0 (insert (a, b) E) (w, h, n)" if "fst (edge h b a) = t"
    using t that by (simp add: bc_good_def)
qed

text \<open>The chase as every caller makes it.\<close>

lemma bc_good_chase:
  assumes "bc_good e N g0 E (w, g, n)" "ix_for ix (g_all g0)" "prot_for prot g0" "node \<in> insert 0 N"
  obtains t sz' w' h where "bc_chase e prot ix w g node sz = Some (t, sz', w', h)" "walk_ok g w'"
    "rerouted e g h" "(hop e g)\<^sup>*\<^sup>* (node, sz) (t, sz')" "settled e g t" "only {t} g h"
    "g_entry h = g_entry g" "g_body_root h = g_body_root g"
proof -
  have G: "graph_ok N g" "walk_ok g w" "rerouted e g0 g" using assms(1) by (simp_all add: bc_good_def)
  have ix: "ix_for ix (g_all g)" using assms(2) rerouted_shape [OF G(3)] by (simp add: shape_eq)
  have "prot_for prot g" using assms(3) prot_for_moved [OF G(3)] by simp
  from bc_chase_ok [OF G(1) ix this G(2) assms(4), of e sz] that show thesis by blast
qed

lemma bc_gamma_ok:
  assumes "bc_good e N g0 E s" "ix_for ix (g_all g0)" "prot_for prot g0" "a \<in> N"
  shows "\<exists>s'. bc_gamma e prot ix a s = Some s' \<and> bc_good e N g0 (insert (a, True) E) s'"
proof -
  obtain w g n where s: "s = (w, g, n)" by (cases s)
  note good = assms(1) [unfolded s]
  have "n_gam (g_node g a) \<in> insert 0 N"
    using good assms(4) by (auto simp: bc_good_def graph_ok_def node_links_def)
  from bc_good_chase [OF good assms(2,3) this] obtain t sz w' h where
    c: "bc_chase e prot ix w g (n_gam (g_node g a)) (n_gam_sz (g_node g a)) = Some (t, sz, w', h)"
      "walk_ok g w'" "rerouted e g h" "(hop e g)\<^sup>*\<^sup>* (edge g True a) (t, sz)" "settled e g t" "only {t} g h"
    unfolding edge_def by (metis if_True)
  let ?h = "set_node a ((g_node h a)\<lparr>n_gam := t, n_gam_sz := sz\<rparr>) h"
  have "only {t} g ?h" using c(6) by (intro only_set) simp
  note new = bc_goodI(2) [OF good rerouted_set_gam [OF c(3,4)] c(2) this c(5), of True a]
  have "fst (edge ?h True a) = t" by (simp add: edge_def set_node_def)
  note new = new [OF this]
  have old: "fst (edge h True a) = t \<Longrightarrow> bc_good e N g0 (insert (a, True) E) (w', h, k)" for k
    by (rule bc_goodI(2) [OF good c(3,2,6,5)])
  show ?thesis
  proof (cases "n_gam (g_node g a) = 0")
    case True
    then show ?thesis using good by (simp add: s bc_gamma_def bc_good_def edge_def)
  next
    case False
    then show ?thesis using c(1) new old by (auto simp: s bc_gamma_def edge_def)
  qed
qed

lemma bc_omega_ok:
  assumes "bc_good e N g0 E s" "ix_for ix (g_all g0)" "prot_for prot g0" "a \<in> N"
  shows "\<exists>s'. bc_omega e prot ix a s = Some s' \<and> bc_good e N g0 (insert (a, False) E) s'"
proof -
  obtain w g n where s: "s = (w, g, n)" by (cases s)
  note good = assms(1) [unfolded s]
  have "n_omg (g_node g a) \<in> insert 0 N"
    using good assms(4) by (auto simp: bc_good_def graph_ok_def node_links_def)
  from bc_good_chase [OF good assms(2,3) this] obtain t sz w' h where
    c: "bc_chase e prot ix w g (n_omg (g_node g a)) (n_omg_sz (g_node g a)) = Some (t, sz, w', h)"
      "walk_ok g w'" "rerouted e g h" "(hop e g)\<^sup>*\<^sup>* (edge g False a) (t, sz)" "settled e g t" "only {t} g h"
    unfolding edge_def by (metis if_False)
  let ?h = "set_node a ((g_node h a)\<lparr>n_omg := t, n_omg_sz := sz\<rparr>) h"
  have "only {t} g ?h" using c(6) by (intro only_set) simp
  note new = bc_goodI(2) [OF good rerouted_set_omg [OF c(3,4)] c(2) this c(5), of False a]
  have "fst (edge ?h False a) = t" by (simp add: edge_def set_node_def)
  note new = new [OF this]
  have old: "fst (edge h False a) = t \<Longrightarrow> bc_good e N g0 (insert (a, False) E) (w', h, k)" for k
    by (rule bc_goodI(2) [OF good c(3,2,6,5)])
  show ?thesis
  proof (cases "n_omg (g_node g a) = 0")
    case True
    then show ?thesis using good by (simp add: s bc_omega_def bc_good_def edge_def)
  next
    case False
    then show ?thesis using c(1) new old by (auto simp: s bc_omega_def edge_def)
  qed
qed

lemma bc_nodes_ok:
  "bc_good e N g0 E s \<Longrightarrow> ix_for ix (g_all g0) \<Longrightarrow> prot_for prot g0 \<Longrightarrow> set as \<subseteq> insert 0 N \<Longrightarrow>
   \<exists>s'. bc_nodes e prot ix as s = Some s' \<and> bc_good e N g0 (E \<union> (set as - {0}) \<times> UNIV) s'"
proof (induction as arbitrary: s E)
  case (Cons a as)
  show ?case
  proof (cases "a = 0")
    case True
    then show ?thesis using Cons.IH [OF Cons.prems(1-3)] Cons.prems(4) by simp
  next
    case False
    then have a: "a \<in> N" using Cons.prems(4) by simp
    let ?E = "insert (a, False) (insert (a, True) E)"
    obtain s1 where s1: "bc_gamma e prot ix a s = Some s1" "bc_good e N g0 (insert (a, True) E) s1"
      using bc_gamma_ok [OF Cons.prems(1-3) a] by blast
    obtain s2 where s2: "bc_omega e prot ix a s1 = Some s2" "bc_good e N g0 ?E s2"
      using bc_omega_ok [OF s1(2) Cons.prems(2,3) a] by blast
    have "?E \<union> (set as - {0}) \<times> UNIV = E \<union> (set (a # as) - {0}) \<times> UNIV" using False by (auto simp: UNIV_bool)
    with Cons.IH [OF s2(2) Cons.prems(2,3)] Cons.prems(4) show ?thesis using s1(1) s2(1) False by simp
  qed
qed auto

lemma bc_entry_ok:
  assumes "bc_good e N g0 E s" "ix_for ix (g_all g0)" "prot_for prot g0"
  shows "\<exists>s'. bc_entry e prot ix s = Some s' \<and> bc_good e N g0 E s' \<and> settled e g0 (g_entry (fst (snd s')))"
proof -
  obtain w g n where s: "s = (w, g, n)" by (cases s)
  note good = assms(1) [unfolded s]
  have "g_entry g \<in> insert 0 N" and m: "rerouted e g0 g" using good by (auto simp: bc_good_def graph_ok_def)
  from bc_good_chase [OF good assms(2,3) this(1), where sz = "[0, 0, 0, 0]"] obtain t sz w' h where
    c: "bc_chase e prot ix w g (g_entry g) [0, 0, 0, 0] = Some (t, sz, w', h)"
      "walk_ok g w'" "rerouted e g h" "(hop e g)\<^sup>*\<^sup>* (g_entry g, [0, 0, 0, 0]) (t, sz)" "settled e g t"
      "only {t} g h" "g_entry h = g_entry g" by metis
  have "settled e g0 t" using c(5) settled_moved [OF m] by simp
  moreover note kept = bc_goodI(1) [OF good c(3,2,6,5)]
    and set = bc_goodI(1) [OF good rerouted_set_entry [OF c(3,4)] c(2) only_roots(1) [OF c(6)] c(5)]
  ultimately show ?thesis using good kept [of n] set [of "n + 1"] c(1,7)
    by (cases "g_entry g = 0"; cases "t = g_entry g") (simp_all add: s bc_entry_def)
qed

lemma bc_body_ok:
  assumes "bc_good e N g0 E s" "ix_for ix (g_all g0)" "prot_for prot g0"
  shows "\<exists>s'. bc_body e prot ix s = Some s' \<and> bc_good e N g0 E s' \<and> g_entry (fst (snd s')) = g_entry (fst (snd s))
    \<and> settled e g0 (g_body_root (fst (snd s')))"
proof -
  obtain w g n where s: "s = (w, g, n)" by (cases s)
  note good = assms(1) [unfolded s]
  have "g_body_root g \<in> insert 0 N" and m: "rerouted e g0 g" using good by (auto simp: bc_good_def graph_ok_def)
  from bc_good_chase [OF good assms(2,3) this(1), where sz = "[0, 0, 0, 0]"] obtain t sz w' h where
    c: "bc_chase e prot ix w g (g_body_root g) [0, 0, 0, 0] = Some (t, sz, w', h)"
      "walk_ok g w'" "rerouted e g h" "(hop e g)\<^sup>*\<^sup>* (g_body_root g, [0, 0, 0, 0]) (t, sz)" "settled e g t"
      "only {t} g h" "g_entry h = g_entry g" "g_body_root h = g_body_root g" by metis
  have "settled e g0 t" using c(5) settled_moved [OF m] by simp
  moreover note kept = bc_goodI(1) [OF good c(3,2,6,5)]
    and set = bc_goodI(1) [OF good rerouted_set_body [OF c(3,4)] c(2) only_roots(2) [OF c(6)] c(5)]
  ultimately show ?thesis using good kept [of n] set [of "n + 1"] c(1,7,8)
    by (cases "g_body_root g = 0"; cases "t = g_body_root g") (simp_all add: s bc_body_def)
qed

lemma bc_run_moved:
  assumes "graph_ok N g"
  shows "\<exists>g' n. bc_run e g = Some (g', n) \<and> rerouted e g g'
    \<and> (\<forall>a\<in>set (g_all g) - {0}. \<forall>b. settled e g (fst (edge g' b a)))
    \<and> settled e g (g_entry g') \<and> settled e g (g_body_root g')"
proof -
  have len: "length (g_all g) < 2 ^ 31" using assms by (simp add: graph_ok_def)
  obtain ix where ix: "ir_index_build (g_all g) = Some ix" "ix_for ix (g_all g)"
    using ix_for_build [OF len] by blast
  obtain prot where prot: "bc_build_protect g ix = Some prot" "prot_for prot g"
    using bc_build_protect_ok [OF ix(2)] by blast
  let ?s = "(\<lparr>w_gen = replicate (max (length (g_all g)) 1) 0,
      w_pos = replicate (max (length (g_all g)) 1) 0, w_cur = 0\<rparr>, g, 0 :: nat)"
  let ?E = "{} \<union> (set (g_all g) - {0}) \<times> UNIV"
  have "bc_good e N g {} ?s" using assms by (simp add: bc_good_def walk_ok_def)
  moreover have "set (g_all g) \<subseteq> insert 0 N" using assms by (simp add: graph_ok_def)
  ultimately obtain s1 where s1: "bc_nodes e prot ix (g_all g) ?s = Some s1" "bc_good e N g ?E s1"
    using bc_nodes_ok ix(2) prot(2) by blast
  obtain s2 where s2: "bc_entry e prot ix s1 = Some s2" "bc_good e N g ?E s2"
      "settled e g (g_entry (fst (snd s2)))"
    using bc_entry_ok [OF s1(2) ix(2) prot(2)] by blast
  obtain w g' n where s3: "bc_body e prot ix s2 = Some (w, g', n)" "bc_good e N g ?E (w, g', n)"
      "g_entry g' = g_entry (fst (snd s2))" "settled e g (g_body_root g')"
    using bc_body_ok [OF s2(2) ix(2) prot(2)] by (metis fst_conv snd_conv prod_cases3)
  show ?thesis using ix(1) prot(1) s1(1) s2(1,3) s3 by (auto simp: bc_run_def bc_good_def)
qed

text \<open>The port of the place a run starts at matters to the first node's port only.\<close>

lemma runs_port:
  "runs e g (a, z) bs tr \<Longrightarrow> \<exists>tr'. runs e g (a, z') bs tr' \<and> map fst tr' = map fst tr"
proof (cases bs)
  case Nil
  assume "runs e g (a, z) bs tr"
  then obtain q where q: "lands e g (a, z) q" "tr = [q]" using Nil by (auto simp: runs_Nil)
  then obtain q' where "lands e g (a, z') q'" "fst q' = fst q" using lands_port by blast
  then show ?thesis using q Nil by (intro exI [of _ "[q']"]) (cases q', simp add: runs_Nil)
next
  case (Cons b cs)
  assume "runs e g (a, z) bs tr"
  then obtain q t where q: "lands e g (a, z) q" "fst q \<noteq> 0" "runs e g (edge g b (fst q)) cs t" "tr = q # t"
    using Cons by (auto simp: runs_Cons)
  then obtain q' where "lands e g (a, z') q'" "fst q' = fst q" using lands_port by blast
  then show ?thesis using q Cons by (intro exI [of _ "q' # t"]) (cases q', auto simp: runs_Cons)
qed

definition visits :: "opt_env \<Rightarrow> ir_graph \<Rightarrow> addr \<Rightarrow> bool list \<Rightarrow> addr list \<Rightarrow> bool" where
  "visits e g a bs ns \<longleftrightarrow> (\<exists>z tr. runs e g (a, z) bs tr \<and> map fst tr = ns)"

lemma visits_hops:
  assumes "(hop e g)\<^sup>*\<^sup>* (a, z) (b, y)"
  shows "visits e g b bs ns \<longleftrightarrow> visits e g a bs ns"
proof -
  have same: "runs e g (a, z) bs tr \<longleftrightarrow> runs e g (b, y) bs tr" for tr
    by (rule runs_from) (rule lands_hops [OF assms])
  show ?thesis unfolding visits_def using runs_port [of e g a _ bs _ z] runs_port [of e g b _ bs _ y] same
    by metis
qed

lemma rerouted_visits:
  assumes "rerouted e g g'"
  shows "visits e g' (g_entry g') bs ns \<longleftrightarrow> visits e g (g_entry g) bs ns"
    and "visits e g' (g_body_root g') bs ns \<longleftrightarrow> visits e g (g_body_root g) bs ns"
proof -
  have v: "visits e g' a bs ns \<longleftrightarrow> visits e g a bs ns" for a
    unfolding visits_def by (simp add: rerouted_runs [OF assms])
  show "visits e g' (g_entry g') bs ns \<longleftrightarrow> visits e g (g_entry g) bs ns"
    using v rerouted_entry [OF assms] visits_hops by metis
  show "visits e g' (g_body_root g') bs ns \<longleftrightarrow> visits e g (g_body_root g) bs ns"
    using v rerouted_body [OF assms] visits_hops by metis
qed

lemma rerouted_edge_runs:
  assumes "rerouted e g g'"
  shows "runs e g' (edge g' b a) bs tr \<longleftrightarrow> runs e g (edge g b a) bs tr"
proof -
  have "runs e g (edge g b a) bs tr \<longleftrightarrow> runs e g (edge g' b a) bs tr"
    by (rule runs_from) (rule lands_hops [OF rerouted_edge [OF assms]])
  then show ?thesis by (simp add: rerouted_runs [OF assms])
qed

text \<open>
  C2. Branch chaining preserves control. On every well-formed graph the pass comes back with a well-formed
  graph whose nodes do what they did, and a run of the new graph from the entry, from any edge and
  whatever way each node leaves, visits exactly the nodes a run of the old graph visits, entering
  each by the same port (the first node's port is not stored with the entry).
\<close>

theorem bc_run_preserves:
  assumes "graph_ok N g"
  shows "\<exists>g' n. bc_run e g = Some (g', n) \<and> graph_ok N g' \<and> g_all g' = g_all g
    \<and> (\<forall>a. n_op (g_node g' a) = n_op (g_node g a) \<and> n_operands (g_node g' a) = n_operands (g_node g a)
         \<and> n_lit (g_node g' a) = n_lit (g_node g a))
    \<and> (\<forall>a b bs tr. runs e g' (edge g' b a) bs tr \<longleftrightarrow> runs e g (edge g b a) bs tr)
    \<and> (\<forall>bs ns. visits e g' (g_entry g') bs ns \<longleftrightarrow> visits e g (g_entry g) bs ns)
    \<and> (\<forall>bs ns. visits e g' (g_body_root g') bs ns \<longleftrightarrow> visits e g (g_body_root g) bs ns)"
proof -
  obtain g' n where g': "bc_run e g = Some (g', n)" "rerouted e g g'" using bc_run_moved [OF assms] by blast
  have "shape g' = shape g" by (rule rerouted_shape [OF g'(2)])
  then show ?thesis
    using g'(1) rerouted_ok [OF g'(2) assms] rerouted_visits [OF g'(2)] rerouted_edge_runs [OF g'(2)]
    by (simp add: shape_eq acts_eq)
qed

text \<open>
  C12. Branch chaining does its work: after the pass no edge of a node of the graph, nor its entry or
  body, leads to a node that only passes control on, but for nodes kept because another node has
  them as operands and for circles on which control never does anything.
\<close>

theorem bc_run_settles:
  assumes "graph_ok N g" "bc_run e g = Some (g', n)" "a \<in> set (g_all g')" "a \<noteq> 0"
  shows "settled e g' (fst (edge g' b a)) \<and> settled e g' (g_entry g') \<and> settled e g' (g_body_root g')"
proof -
  obtain h m where h: "bc_run e g = Some (h, m)" "rerouted e g h"
    "\<forall>a\<in>set (g_all g) - {0}. \<forall>b. settled e g (fst (edge h b a))"
    "settled e g (g_entry h)" "settled e g (g_body_root h)" using bc_run_moved [OF assms(1)] by blast
  have "h = g'" using h(1) assms(2) by simp
  moreover have "g_all h = g_all g" using rerouted_shape [OF h(2)] by (simp add: shape_eq)
  ultimately show ?thesis using h(3-5) assms(3,4) by (simp add: settled_moved [OF h(2), symmetric])
qed

text \<open>A node 16 that goes through two GOTOs, 32 and 48, to a node 64, which fails back through the first.\<close>

definition branch_demo :: ir_graph where
  "branch_demo = \<lparr>g_node = (\<lambda>_. zero_node)
      (16 := zero_node\<lparr>n_op := IR_BINOP, n_gam := 32, n_gam_sz := [206, 177, 0, 0]\<rparr>,
       32 := zero_node\<lparr>n_op := IR_GOTO, n_gam := 48, n_gam_sz := [206, 177, 0, 0]\<rparr>,
       48 := zero_node\<lparr>n_op := IR_GOTO, n_gam := 64, n_gam_sz := [206, 178, 0, 0]\<rparr>,
       64 := zero_node\<lparr>n_op := IR_UNOP, n_omg := 32, n_omg_sz := [206, 177, 0, 0]\<rparr>),
     g_byte = (\<lambda>_. 0), g_heap = [16, 32, 48, 64], g_all = [16, 32, 48, 64], g_max = 16, g_entry = 32, g_body_root = 0,
     g_dead = [], g_nparams = 0, g_resumable_callable = 0, g_smx = 0\<rparr>"

lemma branch_demo_ok: "graph_ok {16, 32, 48, 64} branch_demo"
  by (simp add: graph_ok_def branch_demo_def node_links_def zero_node_def)

definition plain_env :: opt_env where
  "plain_env = \<lparr>e_bc_mon = False, e_dg_mon = False, e_nullcat = True, e_cf_spine = True\<rparr>"

lemma branch_demo_run:
  "runs plain_env branch_demo (edge branch_demo True 16) [False]
     [(64, [206, 178, 0, 0]), (64, [206, 178, 0, 0])]"
proof -
  have h: "hop plain_env branch_demo (32, z) (48, [206, 177, 0, 0])"
      "hop plain_env branch_demo (48, z) (64, [206, 178, 0, 0])" for z
    by (simp_all add: hop_def passes_on_def branch_demo_def zero_node_def plain_env_def)
  have "\<not> passes_on plain_env branch_demo 64" by (simp add: passes_on_def branch_demo_def zero_node_def)
  then have "lands plain_env branch_demo (64, [206, 178, 0, 0]) (64, [206, 178, 0, 0])"
    by (intro lands.stop) simp
  then have l: "lands plain_env branch_demo (32, z) (64, [206, 178, 0, 0])" for z
    using h by (meson lands.skip)
  have "edge branch_demo True 16 = (32, [206, 177, 0, 0])" "edge branch_demo False 64 = (32, [206, 177, 0, 0])"
    by (simp_all add: edge_def branch_demo_def zero_node_def)
  then show ?thesis using l by (simp add: runs_Cons runs_Nil)
qed

theorem bc_run_preserves_witness:
  "\<exists>g' n. bc_run plain_env branch_demo = Some (g', n)
    \<and> runs plain_env g' (edge g' True 16) [False] [(64, [206, 178, 0, 0]), (64, [206, 178, 0, 0])]"
  using bc_run_preserves [OF branch_demo_ok, of plain_env] branch_demo_run by auto

theorem bc_run_settles_witness:
  "\<exists>g' n. bc_run plain_env branch_demo = Some (g', n) \<and> settled plain_env g' (fst (edge g' True 16))"
proof -
  obtain g' n where g': "bc_run plain_env branch_demo = Some (g', n)" "rerouted plain_env branch_demo g'"
    using bc_run_moved [OF branch_demo_ok] by blast
  have "16 \<in> set (g_all g')" using rerouted_shape [OF g'(2)] by (simp add: shape_eq branch_demo_def)
  then show ?thesis using bc_run_settles [OF branch_demo_ok g'(1), of 16 True] g'(1) by simp
qed

text \<open>What the pass does to the example: three edges and the entry go to 64, whatever was on the way.\<close>

lemma branch_demo_result:
  "map_option (\<lambda>(g, n). (n, edge g True 16, edge g True 32, fst (edge g False 64), g_entry g))
     (bc_run plain_env branch_demo)
   = Some (3, (64, [206, 178, 0, 0]), (64, [206, 178, 0, 0]), 64, 64)"
  by code_simp

end
