(* ===== verification/Opt_Dead.thy ===== *)
theory Opt_Dead
  imports Opt_Branch
begin

text \<open>
  The passes that take nodes away: \<open>src/optimizer/copy_prop.c\<close> replaces an operand by the node it copies,
  \<open>src/optimizer/dead_pure.c\<close> empties literals nobody uses and \<open>src/optimizer/dead_goto.c\<close> takes unreferenced
  jumps out of the graph. An emptied node becomes an \<open>IR_SUCCEED\<close> that branch chaining then skips.
\<close>

section \<open>Copy propagation\<close>

abbreviation "BINOP_CONCAT \<equiv> 11 :: int"
abbreviation "BINOP_CONCAT_SNO \<equiv> 31 :: int"

text \<open>The node whose value \<open>c\<close> copies, null when it copies none.\<close>

definition cp_source :: "opt_env \<Rightarrow> ir_graph \<Rightarrow> addr \<Rightarrow> addr" where
  "cp_source e g c =
     (let x = g_node g c; ops = n_operands x; o0 = ops ! 0; o1 = ops ! 1 in
      if c = 0 \<or> ops = [] \<or> o0 = 0 then 0
      else if n_op x = IR_COERCE_STRING \<and> n_op (g_node g o0) = IR_LIT_STRING then o0
      else if n_op x = IR_COERCE_INTEGER \<and> n_op (g_node g o0) = IR_LIT_INTEGER
        \<and> (ir_ival (g_node g o0) \<ge> 0 \<or> drop_bit 16 (n_lit x) AND 0xFFFF = 0) then o0
      else if e_nullcat e \<and> n_op x = IR_BINOP \<and> length ops = 2 \<and> o1 \<noteq> 0
        \<and> (ir_ival x = BINOP_CONCAT \<or> ir_ival x = BINOP_CONCAT_SNO)
      then if ir_value_is_null_string g o0 then o1
           else if ir_value_is_null_string g o1 then o0 else 0
      else 0)"

definition set_operand :: "addr \<Rightarrow> nat \<Rightarrow> addr \<Rightarrow> ir_graph \<Rightarrow> ir_graph" where
  "set_operand a k p g = set_node a ((g_node g a)\<lparr>n_operands := (n_operands (g_node g a))[k := p]\<rparr>) g"

text \<open>The \<open>while\<close> over one operand, at most \<open>guard\<close> rounds of it.\<close>

primrec cp_operand :: "opt_env \<Rightarrow> addr \<Rightarrow> nat \<Rightarrow> nat \<Rightarrow> ir_graph \<times> nat \<Rightarrow> ir_graph \<times> nat" where
  "cp_operand e a k 0 s = s"
| "cp_operand e a k (Suc guard) s =
     (let src = cp_source e (fst s) (n_operands (g_node (fst s) a) ! k) in
      if src = 0 then s else cp_operand e a k guard (set_operand a k src (fst s), snd s + 1))"

definition cp_node :: "opt_env \<Rightarrow> addr \<Rightarrow> ir_graph \<times> nat \<Rightarrow> ir_graph \<times> nat" where
  "cp_node e a s =
     (if a = 0 then s
      else fold (\<lambda>k. cp_operand e a k 32) [0..<length (n_operands (g_node (fst s) a))] s)"

text \<open>An emptied node.\<close>

definition empty_node :: "addr \<Rightarrow> ir_graph \<Rightarrow> ir_graph" where
  "empty_node a g = set_node a ((g_node g a)\<lparr>n_op := IR_SUCCEED, n_operands := []\<rparr>) g"

text \<open>
  The loop that ends \<open>cp_run\<close> and \<open>dp_run\<close>: the nodes that are \<open>dead\<close> and not marked are emptied, one
  after the other.
\<close>

fun sweep :: "(ir_graph \<Rightarrow> addr \<Rightarrow> bool) \<Rightarrow> bool list \<Rightarrow> nat \<Rightarrow> addr list \<Rightarrow> ir_graph \<times> nat \<Rightarrow> ir_graph \<times> nat" where
  "sweep dead marks i [] s = s"
| "sweep dead marks i (a # as) s =
     sweep dead marks (Suc i) as
       (if a \<noteq> 0 \<and> dead (fst s) a \<and> \<not> marks ! i then (empty_node a (fst s), snd s + 1) else s)"

definition mark_operands :: "ir_graph \<Rightarrow> bool list option" where
  "mark_operands g = do {
     ix \<leftarrow> ir_index_build (g_all g);
     ix_mark_nodes ix (\<lambda>a. n_operands (g_node g a)) (g_all g) (replicate (length (g_all g)) False) }"

definition cp_run :: "opt_env \<Rightarrow> ir_graph \<Rightarrow> (ir_graph \<times> nat) option" where
  "cp_run e g =
     (if g_all g = [] then Some (g, 0)
      else let s = fold (cp_node e) (g_all g) (g, 0) in
        if snd s = 0 then Some (fst s, 0)
        else do {
          marks \<leftarrow> mark_operands (fst s);
          Some (sweep (\<lambda>g a. cp_source e g a \<noteq> 0) marks 0 (g_all g) s) })"

section \<open>Dead literals\<close>

definition dp_pure_lit :: "ir_e \<Rightarrow> bool" where
  "dp_pure_lit op \<longleftrightarrow> op = IR_LIT_INTEGER \<or> op = IR_LIT_REAL \<or> ir_is_lit_text_kind op \<or> op = IR_LIT_ATOM"

definition dp_run :: "ir_graph \<Rightarrow> (ir_graph \<times> nat) option" where
  "dp_run g =
     (if g_all g = [] then Some (g, 0)
      else do {
        marks \<leftarrow> mark_operands g;
        Some (sweep (\<lambda>g a. dp_pure_lit (n_op (g_node g a))) marks 0 (g_all g) (g, 0)) })"

section \<open>Dead jumps\<close>

definition dg_mark :: "ir_graph \<Rightarrow> bool list option" where
  "dg_mark g = do {
     ix \<leftarrow> ir_index_build (g_all g);
     marks \<leftarrow> ix_mark_nodes ix (\<lambda>a. node_refs (g_node g a)) (g_all g) (replicate (length (g_all g)) False);
     marks \<leftarrow> ix_mark ix (if g_entry g \<noteq> 0 then [g_entry g] else []) marks;
     ix_mark ix (if g_body_root g \<noteq> 0 then [g_body_root g] else []) marks }"

definition dg_dead :: "opt_env \<Rightarrow> ir_graph \<Rightarrow> addr \<Rightarrow> bool" where
  "dg_dead e g a \<longleftrightarrow> a \<noteq> 0 \<and> n_op (g_node g a) = IR_GOTO \<and> \<not> (e_dg_mon e \<and> ir_ival (g_node g a) > 0)"

text \<open>The nodes marked 2, moved from the graph to its list of dead nodes.\<close>

fun dg_take :: "opt_env \<Rightarrow> ir_graph \<Rightarrow> bool list \<Rightarrow> addr list \<Rightarrow> addr list \<times> addr list" where
  "dg_take e g (r # rs) (a # as) =
     (let (all', dead) = dg_take e g rs as
      in if dg_dead e g a \<and> \<not> r then (0 # all', a # dead) else (a # all', dead))"
| "dg_take e g _ as = (as, [])"

definition dg_run :: "opt_env \<Rightarrow> ir_graph \<Rightarrow> (ir_graph \<times> nat) option" where
  "dg_run e g =
     (if g_all g = [] then Some (g, 0)
      else do {
        marks \<leftarrow> dg_mark g;
        let (all', dead) = dg_take e g marks (g_all g);
        Some (g\<lparr>g_all := all', g_dead := g_dead g @ dead\<rparr>, length dead) })"

section \<open>Which nodes are marked\<close>

text \<open>No node stands twice in the array of the graph; the array may have any number of holes.\<close>

definition all_once :: "ir_graph \<Rightarrow> bool" where
  "all_once g \<longleftrightarrow> (\<forall>i<length (g_all g). \<forall>j<length (g_all g). g_all g ! i = g_all g ! j \<longrightarrow> g_all g ! i \<noteq> 0 \<longrightarrow> i = j)"

lemma all_once_first:
  assumes "all_once g" "i < length (g_all g)" "g_all g ! i \<noteq> 0"
  shows "first_pos (g_all g) q = int i \<longleftrightarrow> q = g_all g ! i"
proof
  assume q: "first_pos (g_all g) q = int i"
  then have "q \<in> set (g_all g)" using first_pos_nonneg [of "g_all g" q] by simp
  then show "q = g_all g ! i" using first_pos_nth [of "g_all g" q] q by simp
next
  assume q: "q = g_all g ! i"
  then obtain k where "k < length (g_all g)" "first_pos (g_all g) q = int k" "g_all g ! k = q"
    using first_pos_present [of q "g_all g"] assms(2) by auto
  then show "first_pos (g_all g) q = int i" using assms q by (simp add: all_once_def)
qed

lemma mark_operands_ok:
  assumes "graph_ok N g" "all_once g"
  shows "\<exists>marks. mark_operands g = Some marks \<and> length marks = length (g_all g)
    \<and> (\<forall>i<length (g_all g). g_all g ! i \<noteq> 0 \<longrightarrow> marks ! i = protected g (g_all g ! i))"
proof -
  have "length (g_all g) < 2 ^ 31" using assms(1) by (simp add: graph_ok_def)
  then obtain ix where ix: "ir_index_build (g_all g) = Some ix" "ix_for ix (g_all g)"
    using ix_for_build by blast
  obtain ms where ms: "ix_mark_nodes ix (\<lambda>a. n_operands (g_node g a)) (g_all g)
      (replicate (length (g_all g)) False) = Some ms" "length ms = length (g_all g)"
    "\<forall>j<length (g_all g). ms ! j \<longleftrightarrow>
      (\<exists>a\<in>set (g_all g) - {0}. \<exists>q\<in>set (n_operands (g_node g a)). first_pos (g_all g) q = int j)"
    using ix_mark_nodes_ok [OF ix(2), of "replicate (length (g_all g)) False"
      "\<lambda>a. n_operands (g_node g a)" "g_all g"] by auto
  have "ms ! i = protected g (g_all g ! i)" if "i < length (g_all g)" "g_all g ! i \<noteq> 0" for i
    using ms(3) that all_once_first [OF assms(2) that] by (auto simp: protected_def)
  then show ?thesis using ix(1) ms(1,2) by (simp add: mark_operands_def)
qed

section \<open>Emptying nodes\<close>

text \<open>
  \<open>emptied D g g'\<close>: \<open>g'\<close> is \<open>g\<close> with the nodes of \<open>D\<close> emptied.
\<close>

definition emptied :: "addr set \<Rightarrow> ir_graph \<Rightarrow> ir_graph \<Rightarrow> bool" where
  "emptied D g g' \<longleftrightarrow> g' = g\<lparr>g_node := (\<lambda>a. if a \<in> D
     then (g_node g a)\<lparr>n_op := IR_SUCCEED, n_operands := []\<rparr> else g_node g a)\<rparr>"

lemma emptied_none [simp]: "emptied {} g g"
  by (simp add: emptied_def)

lemma emptied_node: "emptied D g h \<Longrightarrow> emptied (insert a D) g (empty_node a h)"
  by (auto simp: emptied_def empty_node_def set_node_def fun_eq_iff)

lemma emptied_nodes: "emptied D g h \<Longrightarrow> a \<notin> D \<Longrightarrow> g_node h a = g_node g a"
  by (simp add: emptied_def)

lemma emptied_ok:
  assumes "emptied D g h" "graph_ok N g"
  shows "graph_ok N h"
proof -
  have "node_links (g_node h a) \<subseteq> node_links (g_node g a)" for a
    using assms(1) by (auto simp: emptied_def node_links_def)
  moreover have "g_heap h = g_heap g" "g_all h = g_all g" "g_entry h = g_entry g" "g_body_root h = g_body_root g"
    using assms(1) by (simp_all add: emptied_def)
  ultimately show ?thesis using graph_ok_mono [OF assms(2)] by blast
qed

text \<open>The sweep empties unmarked nodes only, and all of them where the test looks at one node's operation.\<close>

lemma sweep_some:
  "emptied D g (fst s) \<Longrightarrow> D \<subseteq> U \<Longrightarrow> (\<And>k. k < length as \<Longrightarrow> as ! k \<noteq> 0 \<Longrightarrow> \<not> marks ! (i + k) \<Longrightarrow> as ! k \<in> U) \<Longrightarrow>
   \<exists>D'. D \<subseteq> D' \<and> D' \<subseteq> U \<and> emptied D' g (fst (sweep dead marks i as s))"
proof (induction as arbitrary: i s D)
  case (Cons a as)
  have rest: "as ! k \<in> U" if "k < length as" "as ! k \<noteq> 0" "\<not> marks ! (Suc i + k)" for k
    using Cons.prems(3) [of "Suc k"] that by simp
  show ?case
  proof (cases "a \<noteq> 0 \<and> dead (fst s) a \<and> \<not> marks ! i")
    case True
    then have U: "insert a D \<subseteq> U" using Cons.prems(2) Cons.prems(3) [of 0] by auto
    have "\<exists>D'. insert a D \<subseteq> D' \<and> D' \<subseteq> U
        \<and> emptied D' g (fst (sweep dead marks (Suc i) as (empty_node a (fst s), snd s + 1)))"
      by (rule Cons.IH [OF _ U rest]) (simp_all add: emptied_node [OF Cons.prems(1)])
    then show ?thesis using True by auto
  next
    case False
    have "\<exists>D'. D \<subseteq> D' \<and> D' \<subseteq> U \<and> emptied D' g (fst (sweep dead marks (Suc i) as s))"
      by (rule Cons.IH [OF Cons.prems(1,2) rest])
    then show ?thesis by (simp only: sweep.simps False if_False)
  qed
qed auto

lemma sweep_all:
  assumes "\<And>h a D. emptied D g h \<Longrightarrow> a \<notin> D \<Longrightarrow> dead h a \<longleftrightarrow> P a" "distinct (filter (\<lambda>a. a \<noteq> 0) as)"
  shows "emptied D g (fst s) \<Longrightarrow> D \<inter> set as = {} \<Longrightarrow>
    (\<And>k. k < length as \<Longrightarrow> as ! k \<noteq> 0 \<Longrightarrow> marks ! (i + k) = Q (as ! k)) \<Longrightarrow>
    emptied (D \<union> {a \<in> set as. a \<noteq> 0 \<and> P a \<and> \<not> Q a}) g (fst (sweep dead marks i as s))
    \<and> snd (sweep dead marks i as s) = snd s + card {a \<in> set as. a \<noteq> 0 \<and> P a \<and> \<not> Q a}"
  using assms(2)
proof (induction as arbitrary: i s D)
  case (Cons a as)
  let ?S = "\<lambda>as. {a \<in> set as. a \<noteq> 0 \<and> P a \<and> \<not> Q a}"
  have rest: "marks ! (Suc i + k) = Q (as ! k)" if "k < length as" "as ! k \<noteq> 0" for k
    using Cons.prems(3) [of "Suc k"] that by simp
  have dist: "distinct (filter (\<lambda>a. a \<noteq> 0) as)" using Cons.prems(4) by (auto split: if_splits)
  have a: "dead (fst s) a \<longleftrightarrow> P a" "a \<noteq> 0 \<Longrightarrow> marks ! i = Q a"
    using assms(1) [OF Cons.prems(1), of a] Cons.prems(2) Cons.prems(3) [of 0] by auto
  show ?case
  proof (cases "a \<noteq> 0 \<and> P a \<and> \<not> Q a")
    case True
    have fresh: "a \<notin> set as" using Cons.prems(4) True by auto
    have "insert a D \<inter> set as = {}" using Cons.prems(2) fresh by auto
    moreover have "?S (a # as) = insert a (?S as)" using True by auto
    moreover have "card (insert a (?S as)) = Suc (card (?S as))" using fresh by simp
    moreover have "insert a D \<union> ?S as = D \<union> insert a (?S as)" by auto
    ultimately show ?thesis
      using Cons.IH [OF _ _ rest dist, of "insert a D" "(empty_node a (fst s), snd s + 1)"]
        emptied_node [OF Cons.prems(1), of a] True a by simp
  next
    case False
    then have "?S (a # as) = ?S as" by auto
    moreover have "D \<inter> set as = {}" using Cons.prems(2) by auto
    ultimately show ?thesis using Cons.IH [OF Cons.prems(1) _ rest dist] False a by auto
  qed
qed simp

lemma all_once_distinct: "all_once g \<Longrightarrow> distinct (filter (\<lambda>a. a \<noteq> 0) (g_all g))"
  by (rule distinct_filter_nth) (auto simp: all_once_def)

definition dp_dead :: "ir_graph \<Rightarrow> addr set" where
  "dp_dead g = {a \<in> set (g_all g). a \<noteq> 0 \<and> dp_pure_lit (n_op (g_node g a)) \<and> \<not> protected g a}"

lemma dp_run_empties:
  assumes "graph_ok N g" "all_once g"
  shows "\<exists>g'. dp_run g = Some (g', card (dp_dead g)) \<and> emptied (dp_dead g) g g'"
proof (cases "g_all g = []")
  case True
  then show ?thesis by (simp add: dp_run_def dp_dead_def)
next
  case False
  obtain marks where marks: "mark_operands g = Some marks"
      "\<forall>i<length (g_all g). g_all g ! i \<noteq> 0 \<longrightarrow> marks ! i = protected g (g_all g ! i)"
    using mark_operands_ok [OF assms] by blast
  have "emptied ({} \<union> {a \<in> set (g_all g). a \<noteq> 0 \<and> dp_pure_lit (n_op (g_node g a)) \<and> \<not> protected g a}) g
      (fst (sweep (\<lambda>g a. dp_pure_lit (n_op (g_node g a))) marks 0 (g_all g) (g, 0)))
    \<and> snd (sweep (\<lambda>g a. dp_pure_lit (n_op (g_node g a))) marks 0 (g_all g) (g, 0)) = snd (g, 0 :: nat)
      + card {a \<in> set (g_all g). a \<noteq> 0 \<and> dp_pure_lit (n_op (g_node g a)) \<and> \<not> protected g a}"
    by (rule sweep_all [OF _ all_once_distinct [OF assms(2)]])
      (use marks(2) in \<open>simp_all add: emptied_nodes\<close>)
  then show ?thesis
    using marks(1) False by (auto simp: dp_run_def dp_dead_def intro!: exI prod_eqI)
qed

text \<open>
  C37. Dead literals. The pass empties exactly the literals of the graph that are no operand of another
  of its nodes, and counts them; every other node, every edge and the array of the graph are what
  they were, so every operand of a node still is the literal it was.
\<close>

theorem dp_run_exact:
  assumes "graph_ok N g" "all_once g"
  shows "\<exists>g'. dp_run g = Some (g', card (dp_dead g)) \<and> graph_ok N g' \<and> g_all g' = g_all g
    \<and> g_entry g' = g_entry g \<and> g_body_root g' = g_body_root g
    \<and> (\<forall>a. if a \<in> dp_dead g
           then n_op (g_node g' a) = IR_SUCCEED \<and> n_operands (g_node g' a) = []
             \<and> edge g' True a = edge g True a \<and> edge g' False a = edge g False a
           else g_node g' a = g_node g a)
    \<and> (\<forall>a\<in>set (g_all g) - {0} - dp_dead g. \<forall>p\<in>set (n_operands (g_node g' a)) \<inter> set (g_all g).
         g_node g' p = g_node g p)"
proof -
  obtain g' where g': "dp_run g = Some (g', card (dp_dead g))" "emptied (dp_dead g) g g'"
    using dp_run_empties [OF assms] by blast
  have node: "g_node g' a = (if a \<in> dp_dead g then (g_node g a)\<lparr>n_op := IR_SUCCEED, n_operands := []\<rparr>
      else g_node g a)" for a using g'(2) by (simp add: emptied_def)
  have "\<forall>a\<in>set (g_all g) - {0} - dp_dead g. \<forall>p\<in>set (n_operands (g_node g' a)) \<inter> set (g_all g).
      p \<notin> dp_dead g"
    using node by (auto simp: dp_dead_def protected_def)
  then have "\<forall>a\<in>set (g_all g) - {0} - dp_dead g. \<forall>p\<in>set (n_operands (g_node g' a)) \<inter> set (g_all g).
      g_node g' p = g_node g p"
    by (simp add: node)
  moreover have "g_all g' = g_all g" "g_entry g' = g_entry g" "g_body_root g' = g_body_root g"
    using g'(2) by (simp_all add: emptied_def)
  ultimately show ?thesis
    using g'(1) emptied_ok [OF g'(2) assms(1)] by (intro exI [of _ g']) (simp add: edge_def node)
qed

section \<open>Taking jumps out\<close>

definition referenced :: "ir_graph \<Rightarrow> addr \<Rightarrow> bool" where
  "referenced g x \<longleftrightarrow> (\<exists>a\<in>set (g_all g) - {0}. x \<in> node_links (g_node g a)) \<or> x = g_entry g \<or> x = g_body_root g"

definition dg_set :: "opt_env \<Rightarrow> ir_graph \<Rightarrow> addr set" where
  "dg_set e g = {a \<in> set (g_all g). dg_dead e g a \<and> \<not> referenced g a}"

lemma dg_mark_ok:
  assumes "graph_ok N g" "all_once g"
  shows "\<exists>marks. dg_mark g = Some marks \<and> length marks = length (g_all g)
    \<and> (\<forall>i<length (g_all g). g_all g ! i \<noteq> 0 \<longrightarrow> marks ! i = referenced g (g_all g ! i))"
proof -
  have "length (g_all g) < 2 ^ 31" using assms(1) by (simp add: graph_ok_def)
  then obtain ix where ix: "ir_index_build (g_all g) = Some ix" "ix_for ix (g_all g)"
    using ix_for_build by blast
  let ?n = "length (g_all g)" and ?refs = "\<lambda>a. node_refs (g_node g a)"
  obtain m1 where m1: "ix_mark_nodes ix ?refs (g_all g) (replicate ?n False) = Some m1" "length m1 = ?n"
    "\<forall>j<?n. m1 ! j \<longleftrightarrow> (\<exists>a\<in>set (g_all g) - {0}. \<exists>q\<in>set (?refs a). first_pos (g_all g) q = int j)"
    using ix_mark_nodes_ok [OF ix(2), of "replicate ?n False" ?refs "g_all g"] by auto
  let ?e = "if g_entry g \<noteq> 0 then [g_entry g] else []" and ?b = "if g_body_root g \<noteq> 0 then [g_body_root g] else []"
  obtain m2 where m2: "ix_mark ix ?e m1 = Some m2" "length m2 = ?n"
    "\<forall>j<?n. m2 ! j \<longleftrightarrow> m1 ! j \<or> (\<exists>q\<in>set ?e. first_pos (g_all g) q = int j)"
    using ix_mark_ok [OF ix(2), of m1 ?e] m1(2) by auto
  obtain m3 where m3: "ix_mark ix ?b m2 = Some m3" "length m3 = ?n"
    "\<forall>j<?n. m3 ! j \<longleftrightarrow> m2 ! j \<or> (\<exists>q\<in>set ?b. first_pos (g_all g) q = int j)"
    using ix_mark_ok [OF ix(2), of m2 ?b] m2(2) by auto
  have "m3 ! i = referenced g (g_all g ! i)" if i: "i < ?n" "g_all g ! i \<noteq> 0" for i
  proof -
    have refs: "g_all g ! i \<in> set (node_refs y) \<longleftrightarrow> g_all g ! i \<in> node_links y" for y
      using i(2) by (auto simp: node_refs_def node_links_def)
    show ?thesis
      using m1(3) m2(3) m3(3) i all_once_first [OF assms(2) i] refs
      by (auto simp: referenced_def)
  qed
  then show ?thesis using ix(1) m1(1) m2(1) m3(1,2) by (simp add: dg_mark_def)
qed

lemma dg_take_ok:
  "length marks = length as \<Longrightarrow> (\<And>k. k < length as \<Longrightarrow> as ! k \<noteq> 0 \<Longrightarrow> marks ! k = Q (as ! k)) \<Longrightarrow>
   dg_take e g marks as = (map (\<lambda>a. if dg_dead e g a \<and> \<not> Q a then 0 else a) as,
     filter (\<lambda>a. dg_dead e g a \<and> \<not> Q a) as)"
proof (induction marks as rule: list_induct2)
  case (Cons r rs a as)
  have "rs ! k = Q (as ! k)" if "k < length as" "as ! k \<noteq> 0" for k
    using Cons.prems [of "Suc k"] that by simp
  moreover have "dg_dead e g a \<Longrightarrow> r = Q a" using Cons.prems [of 0] by (simp add: dg_dead_def)
  ultimately show ?case using Cons.IH by auto
qed simp

lemma dg_run_takes:
  assumes "graph_ok N g" "all_once g"
  shows "dg_run e g = Some (g\<lparr>g_all := map (\<lambda>a. if a \<in> dg_set e g then 0 else a) (g_all g),
      g_dead := g_dead g @ filter (\<lambda>a. a \<in> dg_set e g) (g_all g)\<rparr>, card (dg_set e g))"
proof (cases "g_all g = []")
  case True
  then show ?thesis by (cases g) (simp add: dg_run_def dg_set_def)
next
  case False
  obtain marks where marks: "dg_mark g = Some marks" "length marks = length (g_all g)"
      "\<forall>i<length (g_all g). g_all g ! i \<noteq> 0 \<longrightarrow> marks ! i = referenced g (g_all g ! i)"
    using dg_mark_ok [OF assms] by blast
  have "dg_take e g marks (g_all g) = (map (\<lambda>a. if dg_dead e g a \<and> \<not> referenced g a then 0 else a) (g_all g),
      filter (\<lambda>a. dg_dead e g a \<and> \<not> referenced g a) (g_all g))"
    by (rule dg_take_ok) (use marks(2,3) in simp_all)
  also have "\<dots> = (map (\<lambda>a. if a \<in> dg_set e g then 0 else a) (g_all g), filter (\<lambda>a. a \<in> dg_set e g) (g_all g))"
    by (auto simp: dg_set_def intro: filter_cong)
  finally have take: "dg_take e g marks (g_all g) = \<dots>" .
  have "filter (\<lambda>a. a \<in> dg_set e g) (g_all g) = filter (\<lambda>a. a \<in> dg_set e g) (filter (\<lambda>a. a \<noteq> 0) (g_all g))"
    by (auto simp: dg_set_def dg_dead_def intro: filter_cong)
  then have "distinct (filter (\<lambda>a. a \<in> dg_set e g) (g_all g))"
    using distinct_filter [OF all_once_distinct [OF assms(2)]] by metis
  moreover have "set (filter (\<lambda>a. a \<in> dg_set e g) (g_all g)) = dg_set e g" by (auto simp: dg_set_def)
  ultimately have "length (filter (\<lambda>a. a \<in> dg_set e g) (g_all g)) = card (dg_set e g)"
    using distinct_card by metis
  then show ?thesis using marks(1) take False by (simp add: dg_run_def)
qed

lemma dg_set_nonzero: "0 \<notin> dg_set e g"
  by (simp add: dg_set_def dg_dead_def)

text \<open>
  C16. Dead jumps. The pass takes out exactly the unstamped jumps nothing refers to, puts them in their
  order on the list of dead nodes and leaves holes in the array; no node that stays, nor the entry
  or the body, refers to a node taken out, and no node in memory changes.
\<close>

theorem dg_run_closed:
  assumes "graph_ok N g" "all_once g"
  shows "\<exists>g'. dg_run e g = Some (g', card (dg_set e g)) \<and> graph_ok N g' \<and> all_once g'
    \<and> g_all g' = map (\<lambda>a. if a \<in> dg_set e g then 0 else a) (g_all g)
    \<and> g_dead g' = g_dead g @ filter (\<lambda>a. a \<in> dg_set e g) (g_all g)
    \<and> g_node g' = g_node g \<and> g_entry g' = g_entry g \<and> g_body_root g' = g_body_root g
    \<and> (\<forall>a\<in>set (g_all g') - {0}. node_links (g_node g' a) \<inter> dg_set e g = {})
    \<and> g_entry g' \<notin> dg_set e g \<and> g_body_root g' \<notin> dg_set e g"
proof -
  let ?g = "g\<lparr>g_all := map (\<lambda>a. if a \<in> dg_set e g then 0 else a) (g_all g),
      g_dead := g_dead g @ filter (\<lambda>a. a \<in> dg_set e g) (g_all g)\<rparr>"
  have "set (g_all ?g) \<subseteq> insert 0 (set (g_all g))" by auto
  then have "graph_ok N ?g" using assms(1) by (auto simp: graph_ok_def)
  moreover have "all_once ?g" using assms(2) by (auto simp: all_once_def)
  moreover have "\<forall>a\<in>set (g_all ?g) - {0}. node_links (g_node g a) \<inter> dg_set e g = {}"
    by (auto simp: dg_set_def referenced_def split: if_splits)
  moreover have "g_entry g \<notin> dg_set e g" "g_body_root g \<notin> dg_set e g"
    by (auto simp: dg_set_def referenced_def)
  ultimately show ?thesis using dg_run_takes [OF assms] by (intro exI [of _ ?g]) simp
qed

text \<open>A literal 16 nobody uses, a literal 32 an operation 48 uses, and a jump 64 nothing refers to.\<close>

definition dead_demo :: ir_graph where
  "dead_demo = \<lparr>g_node = (\<lambda>_. zero_node)
      (16 := zero_node\<lparr>n_op := IR_LIT_INTEGER, n_lit := 7, n_gam := 32\<rparr>,
       32 := zero_node\<lparr>n_op := IR_LIT_INTEGER, n_lit := 9, n_gam := 48\<rparr>,
       48 := zero_node\<lparr>n_op := IR_UNOP, n_operands := [32]\<rparr>,
       64 := zero_node\<lparr>n_op := IR_GOTO, n_gam := 48\<rparr>),
     g_byte = (\<lambda>_. 0), g_heap = [16, 32, 48, 64], g_all = [16, 32, 48, 64], g_max = 16, g_entry = 16, g_body_root = 0,
     g_dead = [], g_nparams = 0, g_resumable_callable = 0, g_smx = 0\<rparr>"

lemma distinct_all_once: "distinct (g_all g) \<Longrightarrow> all_once g"
  by (simp add: all_once_def nth_eq_iff_index_eq)

lemma dead_demo_ok: "graph_ok {16, 32, 48, 64} dead_demo" "all_once dead_demo"
  by (simp add: graph_ok_def dead_demo_def node_links_def zero_node_def)
    (rule distinct_all_once, simp add: dead_demo_def)

lemma dead_demo_sets: "dp_dead dead_demo = {16}" "dg_set plain_env dead_demo = {64}"
proof -
  have in_demo: "{a \<in> set (g_all dead_demo). P a} = {a \<in> {16, 32, 48, 64}. P a}" for P
    by (simp add: dead_demo_def)
  show "dp_dead dead_demo = {16}"
    unfolding dp_dead_def in_demo
    by (auto simp: protected_def dp_pure_lit_def ir_is_lit_text_kind_def dead_demo_def zero_node_def)
  show "dg_set plain_env dead_demo = {64}"
    unfolding dg_set_def in_demo
    by (auto simp: referenced_def dg_dead_def plain_env_def dead_demo_def node_links_def zero_node_def)
qed

theorem dp_run_exact_witness:
  "\<exists>g'. dp_run dead_demo = Some (g', 1) \<and> n_op (g_node g' 16) = IR_SUCCEED
    \<and> g_node g' 32 = g_node dead_demo 32 \<and> edge g' True 16 = edge dead_demo True 16"
  using dp_run_exact [OF dead_demo_ok] unfolding dead_demo_sets by auto

theorem dg_run_closed_witness:
  "\<exists>g'. dg_run plain_env dead_demo = Some (g', 1) \<and> g_all g' = [16, 32, 48, 0] \<and> g_dead g' = [64]"
proof -
  have "g_all dead_demo = [16, 32, 48, 64]" "g_dead dead_demo = []" by (simp_all add: dead_demo_def)
  then show ?thesis using dg_run_closed [OF dead_demo_ok, of plain_env] unfolding dead_demo_sets by auto
qed

end
