(* ===== verification/Opt_Fold.thy ===== *)
theory Opt_Fold
  imports Opt_Dead Descr "HOL-Library.Signed_Division"
begin

text \<open>
  Constant folding, \<open>src/optimizer/const_fold.c\<close>, with the arithmetic of \<open>rt_num_arith\<close> on two integers
  (\<open>src/runtime/arithmetic.c\<close>) up to the overflow into big integers, the error it raises for a zero divisor
  (\<open>src/runtime/core/core.c\<close>, \<open>src/runtime/keywords.c\<close>), and the driver of the passes,
  \<open>src/optimizer/optimizer.c\<close>. What the runtime computes of other operands, the concatenation of texts, the
  allocators and the addresses of messages are arguments: \<open>cf_ops\<close>. The registers of the runtime's error
  handling are the record \<open>rt_err\<close>: the six \<open>cf_eval\<close> saves and restores, the context of the operation, and
  the keywords \<open>&ERRTYPE\<close> and \<open>&ERRTEXT\<close>, which an error sets and \<open>cf_eval\<close> leaves as they are then.
\<close>

record rt_err =
  icn_errnumber :: int
  icn_errtext :: u64
  icn_errvalue :: descr_t
  icn_err_valid :: int
  abi_error :: int
  errjmp_n :: int
  op_ctx :: bool
  kw_errtype :: int
  kw_errtext :: u64

type_synonym mem = "u64 \<Rightarrow> u8"

text \<open>
  \<open>arith_rest\<close> answers no descriptor when it leaves by the innermost error handler; \<open>empty_text\<close> is the
  address of the literal the code writes as \<open>""\<close>, \<open>msg_text\<close> that of a message, and \<open>heap_strdup\<close> copies a
  text into the collector's heap.
\<close>

record cf_ops =
  arith_rest :: "mem \<times> rt_err \<Rightarrow> descr_t \<Rightarrow> descr_t \<Rightarrow> int \<Rightarrow> (mem \<times> rt_err) \<times> descr_t option"
  str_concat :: "mem \<Rightarrow> descr_t \<Rightarrow> descr_t \<Rightarrow> mem \<times> descr_t"
  str_concat_fracdigit :: "mem \<Rightarrow> descr_t \<Rightarrow> descr_t \<Rightarrow> mem \<times> descr_t"
  alloc_bytes :: "ir_graph \<Rightarrow> nat \<Rightarrow> u64"
  alloc_node :: "addr list \<Rightarrow> addr"
  empty_text :: u64
  msg_text :: "string \<Rightarrow> u64"
  heap_strdup :: "mem \<Rightarrow> u64 \<Rightarrow> mem \<times> u64"

abbreviation "BINOP_ADD \<equiv> 0 :: int"
abbreviation "BINOP_SUB \<equiv> 1 :: int"
abbreviation "BINOP_MUL \<equiv> 2 :: int"
abbreviation "BINOP_DIV \<equiv> 3 :: int"
abbreviation "BINOP_MOD \<equiv> 4 :: int"
abbreviation "BINOP_CONCAT_FRACDIGIT \<equiv> 25 :: int"
abbreviation "BINOP_LCONCAT \<equiv> 30 :: int"

definition binop_is_concat :: "int \<Rightarrow> bool" where
  "binop_is_concat op \<longleftrightarrow> op = BINOP_CONCAT \<or> op = BINOP_CONCAT_FRACDIGIT \<or> op = BINOP_LCONCAT
     \<or> op = BINOP_CONCAT_SNO"

section \<open>Arithmetic of the runtime\<close>

text \<open>The test \<open>__builtin_add_overflow\<close> and its like answer.\<close>

definition no_overflow :: "int \<Rightarrow> bool" where
  "no_overflow z \<longleftrightarrow> - (2 ^ 63) \<le> z \<and> z < 2 ^ 63"

definition int_road :: "descr_t \<Rightarrow> descr_t \<Rightarrow> int \<Rightarrow> descr_t option" where
  "int_road a b op =
     (if has_tag DT_I a \<and> has_tag DT_I b
      then let x = sint (d_payload a); y = sint (d_payload b);
               guarded = (\<lambda>ok z. if ok then Some (INTVAL (of_int z)) else None) in
        if op = BINOP_ADD then guarded (no_overflow (x + y)) (x + y)
        else if op = BINOP_SUB then guarded (no_overflow (x - y)) (x - y)
        else if op = BINOP_MUL then guarded (no_overflow (x * y)) (x * y)
        else if op = BINOP_DIV then guarded (y \<noteq> 0 \<and> y \<noteq> -1) (x sdiv y)
        else if op = BINOP_MOD then guarded (y \<noteq> 0 \<and> y \<noteq> -1) (x smod y)
        else None
      else None)"

text \<open>
  Raising an error. Of \<open>core_runtime_error\<close> this is the branch for the error mode -2, which \<open>cf_eval\<close> sets:
  the registers and the keywords are written, and the run leaves by the innermost handler. Without that
  mode or without a handler it goes on to what the program installed with SETEXIT, which is not modelled
  (\<open>None\<close>). The map of error numbers before it, \<open>core_err_compat_map\<close>, does nothing, since
  \<open>core_errnum_csnobol4\<close> answers 0.
\<close>

definition core_err_msgs :: "string list" where
  "core_err_msgs = [[], ''Illegal data type'', ''Error in arithmetic operation'', ''Erroneous array or table reference'', ''Null string in illegal context'',
    ''Undefined function or operation'', ''Erroneous prototype'', ''Unknown keyword'', ''Variable not present where required'', ''Entry point of function not label'', ''Illegal argument to primitive function'',
    ''Reading error'', ''Illegal i/o unit'', ''Limit on defined data types exceeded'', ''Negative number in illegal context'', ''String overflow'', ''Overflow during pattern matching'', ''Error in SNOBOL4 system'',
    ''Return from level zero'', ''Failure during goto evaluation'', ''Insufficient storage to continue'', ''Stack overflow'', ''Limit on statement execution exceeded'', ''Object exceeds size limit'',
    ''Undefined or erroneous goto'', ''Incorrect number of arguments'', ''Limit on compilation errors exceeded'', ''Erroneous END statement'', ''Execution of statement with compilation error'',
    ''Erroneous INCLUDE statement'', ''Cannot open INCLUDE file'', ''Erroneous LINE statement'', ''Missing END statement'', ''Output error'', ''User interrupt'', ''Not in a SETEXIT handler'', ''Error in BLOCKS'',
    ''Too many warnings in BLOCKS'', ''Mystery error in BLOCKS'', ''Cannot CONTINUE from FATAL error'']"

definition rt_kw_publish_error :: "cf_ops \<Rightarrow> mem \<times> rt_err \<Rightarrow> int \<Rightarrow> string option \<Rightarrow> mem \<times> rt_err" where
  "rt_kw_publish_error ops me code msg =
     (let (m, p) = (case msg of Some s \<Rightarrow> heap_strdup ops (fst me) (msg_text ops s) | None \<Rightarrow> (fst me, empty_text ops))
      in (m, (snd me)\<lparr>kw_errtype := code, kw_errtext := p\<rparr>))"

definition core_runtime_error :: "cf_ops \<Rightarrow> mem \<times> rt_err \<Rightarrow> int \<Rightarrow> string option \<Rightarrow> (mem \<times> rt_err) option" where
  "core_runtime_error ops me code msg0 =
     (let (m, er) = me;
          msg = (if msg0 = None \<and> 1 \<le> code \<and> code \<le> 39 then Some (core_err_msgs ! nat code) else msg0)
      in if abi_error er = -2 \<and> 0 < errjmp_n er
         then Some (rt_kw_publish_error ops
                (m, er\<lparr>icn_errnumber := code,
                       icn_errtext := (case msg of Some s \<Rightarrow> msg_text ops s | None \<Rightarrow> empty_text ops),
                       icn_errvalue := mk_descr DT_SNUL 0 0, icn_err_valid := 1\<rparr>) code msg)
         else None)"

text \<open>
  Two integers in \<open>rt_num_arith_body\<close>, where they come when the integer road refused them: the divisors 0
  and -1. The inner option is a descriptor or the way out by the handler; the outer one is \<open>None\<close> where the
  rest of the runtime takes over, for sums, differences, products and the one quotient that overflow.
\<close>

definition rt_div_zero :: "cf_ops \<Rightarrow> mem \<times> rt_err \<Rightarrow> string option \<Rightarrow> (mem \<times> rt_err) option" where
  "rt_div_zero ops me msg = core_runtime_error ops (fst me, (snd me)\<lparr>op_ctx := True\<rparr>) 2 msg"

definition rt_int_neg_div :: "int \<Rightarrow> descr_t option" where
  "rt_int_neg_div li = (if li \<noteq> - (2 ^ 63) then Some (INTVAL (of_int (- li))) else None)"

definition int_body :: "cf_ops \<Rightarrow> mem \<times> rt_err \<Rightarrow> descr_t \<Rightarrow> descr_t \<Rightarrow> int
    \<Rightarrow> ((mem \<times> rt_err) \<times> descr_t option) option" where
  "int_body ops me a b op =
     (if has_tag DT_I a \<and> has_tag DT_I b
      then let li = sint (d_payload a); ri = sint (d_payload b);
               clear = (fst me, (snd me)\<lparr>op_ctx := False\<rparr>) in
        if op = BINOP_DIV
        then if ri = 0
             then map_option (\<lambda>me. (me, None)) (rt_div_zero ops me (Some ''division caused integer overflow''))
             else if ri = -1 then map_option (\<lambda>r. (clear, Some r)) (rt_int_neg_div li)
             else Some (clear, Some (INTVAL (of_int (li sdiv ri))))
        else if op = BINOP_MOD
        then if ri = 0 then map_option (\<lambda>me. (me, None)) (rt_div_zero ops me None)
             else if ri = -1 then Some (clear, Some (INTVAL 0))
             else Some (clear, Some (INTVAL (of_int (li smod ri))))
        else None
      else None)"

definition rt_num_arith :: "cf_ops \<Rightarrow> mem \<times> rt_err \<Rightarrow> descr_t \<Rightarrow> descr_t \<Rightarrow> int
    \<Rightarrow> (mem \<times> rt_err) \<times> descr_t" where
  "rt_num_arith ops me a b op =
     (case int_road a b op of
        Some r \<Rightarrow> (me, r)
      | None \<Rightarrow>
          let my = errjmp_n (snd me);
              inner = (fst me, (snd me)\<lparr>errjmp_n := my + 1\<rparr>) in
          case (case int_body ops inner a b op of Some r \<Rightarrow> r | None \<Rightarrow> arith_rest ops inner a b op) of
            ((m, er), Some r) \<Rightarrow> ((m, er\<lparr>errjmp_n := my\<rparr>), r)
          | ((m, er), None) \<Rightarrow> ((m, er\<lparr>errjmp_n := my, op_ctx := False\<rparr>), FAILDESCR))"

definition core_icn_str_ok :: "descr_t \<Rightarrow> bool" where
  "core_icn_str_ok d \<longleftrightarrow> has_tag DT_S d \<or> has_tag DT_I d \<or> has_tag DT_BOOL d \<or> has_tag DT_R d
     \<or> has_tag DT_BIG d \<or> IS_CSET_fn d"

section \<open>Folding one node\<close>

definition c_strlen :: "mem \<Rightarrow> u64 \<Rightarrow> nat option" where
  "c_strlen m s = while_option (\<lambda>k. m (s + of_nat k) \<noteq> 0) Suc 0"

text \<open>\<open>cf_lit_descr\<close>: the inner option is its answer, the outer one that \<open>strlen\<close> comes back.\<close>

definition cf_lit_descr :: "cf_ops \<Rightarrow> ir_graph \<Rightarrow> addr \<Rightarrow> descr_t option option" where
  "cf_lit_descr ops g nd =
     (let x = g_node g nd in
      if nd = 0 then Some None
      else if n_op x = IR_LIT_INTEGER then Some (Some (INTVAL (n_lit x)))
      else if n_op x = IR_LIT_REAL then Some (Some (REALVAL (n_lit x)))
      else if n_op x = IR_LIT_STRING
      then let s = (if n_lit x \<noteq> 0 then n_lit x else empty_text ops) in do {
        n \<leftarrow> (if lit_length_node g x \<and> ir_ival (g_node g (hd (n_operands x))) \<ge> 0
              then Some (unat (n_lit (g_node g (hd (n_operands x))))) else c_strlen (g_byte g) s);
        Some (Some (mk_descr DT_S (of_nat n) s)) }
      else Some None)"

text \<open>\<open>memcpy(c, s, n); c[n] = 0\<close>.\<close>

definition copy_text :: "u64 \<Rightarrow> u64 \<Rightarrow> nat \<Rightarrow> mem \<Rightarrow> mem" where
  "copy_text c s n m = (\<lambda>q. if q = c + of_nat n then 0 else if unat (q - c) < n then m (s + (q - c)) else m q)"

text \<open>The last branch of \<open>cf_store_descr\<close>: the \<open>n\<close> bytes of a text at \<open>s\<close> become a literal.\<close>

definition cf_store_text :: "cf_ops \<Rightarrow> ir_graph \<Rightarrow> addr \<Rightarrow> u64 \<Rightarrow> nat \<Rightarrow> (ir_graph \<times> bool) option" where
  "cf_store_text ops g nd s n =
     (let c = alloc_bytes ops g (n + 1);
          m = copy_text c s n (g_byte g);
          g = set_node nd ((g_node g nd)\<lparr>n_op := IR_LIT_STRING, n_lit := c, n_operands := []\<rparr>) (g\<lparr>g_byte := m\<rparr>)
      in do {
        len \<leftarrow> c_strlen m c;
        if n \<noteq> len
        then let ln = alloc_node ops (g_heap g);
                 g = IR_node_alloc ln IR_LIT_INTEGER g;
                 g = set_node ln ((g_node g ln)\<lparr>n_lit := of_nat n\<rparr>) g
             in Some (ir_operand_push nd ln g, True)
        else Some (g, True) })"

definition cf_store_descr :: "cf_ops \<Rightarrow> ir_graph \<Rightarrow> addr \<Rightarrow> descr_t \<Rightarrow> (ir_graph \<times> bool) option" where
  "cf_store_descr ops g nd r =
     (let x = g_node g nd in
      if has_tag DT_I r
      then Some (set_node nd (x\<lparr>n_op := IR_LIT_INTEGER, n_lit := d_payload r, n_operands := []\<rparr>) g, True)
      else if has_tag DT_R r
      then Some (set_node nd (x\<lparr>n_op := IR_LIT_REAL, n_lit := d_payload r, n_operands := []\<rparr>) g, True)
      else if has_tag DT_S r \<or> has_tag DT_SNUL r
      then let s = (if d_payload r \<noteq> 0 then d_payload r else empty_text ops) in do {
        n \<leftarrow> (if d_slen r \<noteq> 0 then Some (unat (d_slen r)) else c_strlen (g_byte g) s);
        cf_store_text ops g nd s n }
      else Some (g, False))"

definition cf_eval :: "cf_ops \<Rightarrow> mem \<times> rt_err \<Rightarrow> descr_t \<Rightarrow> descr_t \<Rightarrow> int \<Rightarrow> (mem \<times> rt_err) \<times> descr_t option" where
  "cf_eval ops me da db code =
     (let er = snd me; my = errjmp_n er;
          ((m, er'), out) = rt_num_arith ops (fst me, er\<lparr>abi_error := -2, errjmp_n := my + 1\<rparr>) da db code;
          er' = er'\<lparr>errjmp_n := my\<rparr>;
          er' = er'\<lparr>abi_error := abi_error er\<rparr>;
          er' = er'\<lparr>op_ctx := False\<rparr>;
          er' = er'\<lparr>icn_errnumber := icn_errnumber er, icn_errtext := icn_errtext er,
            icn_errvalue := icn_errvalue er, icn_err_valid := icn_err_valid er\<rparr>
      in ((m, er'), if has_tag DT_FAIL out then None else Some out))"

text \<open>\<open>fpclassify(d.r) == FP_SUBNORMAL\<close>, on the bits of the double.\<close>

definition cf_subnormal :: "descr_t \<Rightarrow> bool" where
  "cf_subnormal d \<longleftrightarrow> has_tag DT_R d \<and> d_payload d AND 0x7FF0000000000000 = 0
     \<and> d_payload d AND 0x000FFFFFFFFFFFFF \<noteq> 0"

type_synonym cf_state = "ir_graph \<times> rt_err"

definition cf_binop :: "cf_ops \<Rightarrow> cf_state \<Rightarrow> addr \<Rightarrow> int \<Rightarrow> descr_t \<Rightarrow> descr_t \<Rightarrow> (cf_state \<times> bool) option" where
  "cf_binop ops st nd code da db =
     (let (g, er) = st in
      if code = BINOP_LCONCAT then Some (st, False)
      else if code = BINOP_CONCAT_FRACDIGIT \<and> \<not> (core_icn_str_ok da \<and> core_icn_str_ok db)
      then Some (st, False)
      else if binop_is_concat code
      then let (m, r) = (if code = BINOP_CONCAT_FRACDIGIT then str_concat_fracdigit ops (g_byte g) da db
                         else str_concat ops (g_byte g) da db) in do {
        (g, b) \<leftarrow> cf_store_descr ops (g\<lparr>g_byte := m\<rparr>) nd r;
        Some ((g, er), b) }
      else if code \<in> {BINOP_ADD, BINOP_SUB, BINOP_MUL, BINOP_DIV, BINOP_MOD}
      then if cf_subnormal da \<or> cf_subnormal db then Some (st, False)
           else let ((m, er), out) = cf_eval ops (g_byte g, er) da db code;
                    g = g\<lparr>g_byte := m\<rparr> in
             case out of
               None \<Rightarrow> Some ((g, er), False)
             | Some r \<Rightarrow> if cf_subnormal r then Some ((g, er), False)
                 else do { (g, b) \<leftarrow> cf_store_descr ops g nd r; Some ((g, er), b) }
      else Some (st, False))"

definition cf_valued_operand_op :: "ir_e \<Rightarrow> bool" where
  "cf_valued_operand_op op \<longleftrightarrow> op = IR_BINOP \<or> op = IR_BINOP_TEST \<or> op = IR_BINOP_RELOP_VAL
     \<or> op = IR_UNOP \<or> op = IR_UNOP_TEST"

definition cf_fail_operand :: "ir_graph \<Rightarrow> addr \<Rightarrow> ir_graph option" where
  "cf_fail_operand g nd =
     (let x = g_node g nd; nv = (if n_op x = IR_UNOP \<or> n_op x = IR_UNOP_TEST then 1 else 2) in
      if length (n_operands x) < nv then None
      else if \<exists>p\<in>set (take nv (n_operands x)). p \<noteq> 0 \<and> n_op (g_node g p) = IR_FAIL
      then Some (set_node nd (x\<lparr>n_op := IR_FAIL, n_operands := []\<rparr>) g)
      else None)"

section \<open>The pass\<close>

definition cf_step :: "cf_ops \<Rightarrow> addr \<Rightarrow> cf_state \<Rightarrow> (cf_state \<times> bool) option" where
  "cf_step ops nd st =
     (let (g, er) = st; x = g_node g nd in
      if nd = 0 then Some (st, False)
      else case (if cf_valued_operand_op (n_op x) then cf_fail_operand g nd else None) of
          Some g' \<Rightarrow> Some ((g', er), True)
        | None \<Rightarrow>
            if n_op x = IR_BINOP \<and> length (n_operands x) = 2 \<and> n_operands x ! 0 \<noteq> 0 \<and> n_operands x ! 1 \<noteq> 0
            then do {
              da \<leftarrow> cf_lit_descr ops g (n_operands x ! 0);
              case da of None \<Rightarrow> Some (st, False) | Some da \<Rightarrow> do {
                db \<leftarrow> cf_lit_descr ops g (n_operands x ! 1);
                case db of None \<Rightarrow> Some (st, False)
                | Some db \<Rightarrow> cf_binop ops st nd (ir_ival x) da db }}
            else Some (st, False))"

text \<open>One pass over the array, which may grow under it; the count is of the nodes folded.\<close>

partial_function (option) cf_pass :: "cf_ops \<Rightarrow> nat \<Rightarrow> cf_state \<Rightarrow> nat \<Rightarrow> (cf_state \<times> nat) option" where
  "cf_pass ops i st changed =
     (if i < length (g_all (fst st))
      then do {
        (st, b) \<leftarrow> cf_step ops (g_all (fst st) ! i) st;
        cf_pass ops (Suc i) st (if b then changed + 1 else changed) }
      else Some (st, changed))"

declare cf_pass.simps [code]

primrec cf_rounds :: "cf_ops \<Rightarrow> nat \<Rightarrow> cf_state \<Rightarrow> nat \<Rightarrow> (cf_state \<times> nat) option" where
  "cf_rounds ops 0 st folds = Some (st, folds)"
| "cf_rounds ops (Suc r) st folds = do {
     (st, changed) \<leftarrow> cf_pass ops 0 st 0;
     if changed = 0 then Some (st, folds) else cf_rounds ops r st (folds + changed) }"

definition cf_run :: "cf_ops \<Rightarrow> cf_state \<Rightarrow> (cf_state \<times> nat) option" where
  "cf_run ops st = cf_rounds ops 8 st 0"

section \<open>The driver\<close>

text \<open>
  \<open>scc_taint_graph\<close> of \<open>proc_collect.c\<close>: whether a call of \<open>UNLOAD\<close>, or of \<open>OPSYN\<close> but for operators,
  forbids direct calls in the whole program. \<open>sval\<close> and \<open>ival\<close> of a node are the same cell.
\<close>

definition c_streq :: "mem \<Rightarrow> u64 \<Rightarrow> string \<Rightarrow> bool" where
  "c_streq m s t \<longleftrightarrow> (\<forall>k<length t. m (s + of_nat k) = of_char (t ! k)) \<and> m (s + of_nat (length t)) = 0"

definition ir_call_arg :: "ir_graph \<Rightarrow> addr \<Rightarrow> int \<Rightarrow> addr" where
  "ir_call_arg g nd j =
     (if nd = 0 \<or> j < 0 then 0
      else if j < int (length (n_operands (g_node g nd))) then n_operands (g_node g nd) ! nat j else 0)"

definition scc_taints :: "ir_graph \<Rightarrow> addr \<Rightarrow> bool" where
  "scc_taints g nd =
     (let x = g_node g nd in
      nd \<noteq> 0 \<and> n_lit x \<noteq> 0 \<and> (n_op x = IR_CALL \<or> n_op x = IR_CALL_PROC_STAGED)
      \<and> (c_streq (g_byte g) (n_lit x) ''UNLOAD''
         \<or> c_streq (g_byte g) (n_lit x) ''OPSYN''
           \<and> (let a2 = (if ir_ival x \<ge> 3 then ir_call_arg g nd 2 else 0) in
               \<not> (a2 \<noteq> 0 \<and> n_op (g_node g a2) = IR_LIT_INTEGER
                  \<and> (ir_ival (g_node g a2) = 1 \<or> ir_ival (g_node g a2) = 2)))))"

definition scc_taint_graph :: "ir_graph \<Rightarrow> bool \<Rightarrow> bool" where
  "scc_taint_graph g tainted \<longleftrightarrow> tainted \<or> (\<exists>nd\<in>set (g_all g). scc_taints g nd)"

definition g_is_proc_or_pat :: "ir_graph \<Rightarrow> bool" where
  "g_is_proc_or_pat g \<longleftrightarrow> g_nparams g > 0 \<or> g_resumable_callable g \<noteq> 0
     \<or> (\<exists>a\<in>set (g_all g). a \<noteq> 0 \<and> (ir_is_matcher (n_op (g_node g a))
          \<or> n_op (g_node g a) \<in> {IR_PATTERN_CAT, IR_PATTERN_ALT, IR_PATTERN_DEFER}))"

primrec opt_rounds :: "opt_env \<Rightarrow> cf_ops \<Rightarrow> bool \<Rightarrow> nat \<Rightarrow> cf_state \<Rightarrow> cf_state option" where
  "opt_rounds e ops do_cf 0 st = Some st"
| "opt_rounds e ops do_cf (Suc r) st = do {
     ((g, er), n_cf) \<leftarrow> (if do_cf then cf_run ops st else Some (st, 0));
     (g, n_cp) \<leftarrow> cp_run e g;
     (g, n_dp) \<leftarrow> dp_run g;
     (g, b) \<leftarrow> bc_run e g;
     if n_cf + n_cp + n_dp = 0 then Some (g, er) else opt_rounds e ops do_cf r (g, er) }"

primrec dg_rounds :: "opt_env \<Rightarrow> nat \<Rightarrow> ir_graph \<Rightarrow> ir_graph option" where
  "dg_rounds e 0 g = Some g"
| "dg_rounds e (Suc r) g = do {
     (g, n) \<leftarrow> dg_run e g;
     if n = 0 then Some g else dg_rounds e r g }"

text \<open>The driver: the graph, the error registers and the flag \<open>scc_taint\<close>.\<close>

definition optimizer_run :: "opt_env \<Rightarrow> cf_ops \<Rightarrow> cf_state \<Rightarrow> bool \<Rightarrow> (cf_state \<times> bool) option" where
  "optimizer_run e ops st tainted =
     (if g_smx (fst st) \<noteq> 0 then Some (st, tainted)
      else let tainted = scc_taint_graph (fst st) tainted in do {
        (g, er) \<leftarrow> opt_rounds e ops (e_cf_spine e \<or> g_is_proc_or_pat (fst st)) 8 st;
        g \<leftarrow> dg_rounds e 8 g;
        Some ((g, er), tainted) })"

end
