(* ===== verification/Opt_Props.thy ===== *)
theory Opt_Props
  imports Opt_Fold
begin

text \<open>
  What holds of the optimizer as a whole: every pass keeps the graph well formed, none of them runs out
  of the array's index type however many length nodes folding adds, and the driver comes back. And
  what folding computes on integers.
\<close>

section \<open>Room to grow\<close>

text \<open>
  A fold adds at most one node and takes an \<open>IR_BINOP\<close> away, so the nodes of the graph and its binary
  operations together never grow.
\<close>

definition binops :: "ir_graph \<Rightarrow> addr set" where
  "binops g = {a \<in> set (g_heap g). n_op (g_node g a) = IR_BINOP}"

definition array_need :: "ir_graph \<Rightarrow> nat" where
  "array_need g = length (g_all g) + card (binops g)"

definition heap_need :: "ir_graph \<Rightarrow> nat" where
  "heap_need g = card (set (g_heap g)) + card (binops g)"

definition opt_ok :: "ir_graph \<Rightarrow> bool" where
  "opt_ok g \<longleftrightarrow> graph_ok (set (g_heap g)) g \<and> all_once g \<and> array_need g < 2 ^ 31 \<and> heap_need g < 2 ^ 60"

text \<open>What a pass may do to a well-formed graph.\<close>

definition pass_ok :: "ir_graph \<Rightarrow> ir_graph \<Rightarrow> bool" where
  "pass_ok g h \<longleftrightarrow> opt_ok h \<and> array_need h \<le> array_need g \<and> heap_need h \<le> heap_need g"

definition has_nul :: "mem \<Rightarrow> bool" where
  "has_nul m \<longleftrightarrow> (\<exists>q. m q = 0)"

text \<open>
  What is assumed of the arguments: the allocator hands out a new node while there is room, and the
  runtime leaves a NUL somewhere in memory, so that \<open>strlen\<close> comes back.
\<close>

definition lawful :: "cf_ops \<Rightarrow> bool" where
  "lawful ops \<longleftrightarrow>
     (\<forall>hp. 0 \<notin> set hp \<longrightarrow> card (set hp) < 2 ^ 60 \<longrightarrow> alloc_node ops hp \<notin> insert 0 (set hp))
     \<and> (\<forall>m er a b op. has_nul m \<longrightarrow> has_nul (fst (fst (arith_rest ops (m, er) a b op))))
     \<and> (\<forall>m a b. has_nul m \<longrightarrow> has_nul (fst (str_concat ops m a b))
          \<and> has_nul (fst (str_concat_fracdigit ops m a b)))
     \<and> (\<forall>m p. has_nul m \<longrightarrow> has_nul (fst (heap_strdup ops m p)))"

lemma pass_ok_refl: "opt_ok g \<Longrightarrow> pass_ok g g"
  by (simp add: pass_ok_def)

lemma pass_ok_trans: "pass_ok g h \<Longrightarrow> pass_ok h k \<Longrightarrow> pass_ok g k"
  by (auto simp: pass_ok_def)

lemma finite_binops [simp]: "finite (binops g)"
  by (simp add: binops_def)

lemma pass_ok_mono:
  assumes "opt_ok g" "graph_ok (set (g_heap g)) h" "g_heap h = g_heap g" "all_once h"
    "length (g_all h) = length (g_all g)" "binops h \<subseteq> binops g"
  shows "pass_ok g h"
proof -
  have "card (binops h) \<le> card (binops g)" using assms(6) by (intro card_mono) auto
  then show ?thesis using assms by (auto simp: pass_ok_def opt_ok_def array_need_def heap_need_def)
qed

lemma pass_ok_nodes:
  assumes "opt_ok g" "g_heap h = g_heap g" "g_all h = g_all g" "g_entry h = g_entry g"
    "g_body_root h = g_body_root g" "\<And>a. node_links (g_node h a) \<subseteq> node_links (g_node g a)"
    "\<And>a. n_op (g_node h a) = IR_BINOP \<Longrightarrow> n_op (g_node g a) = IR_BINOP"
  shows "pass_ok g h"
proof (rule pass_ok_mono [OF assms(1)])
  show "graph_ok (set (g_heap g)) h"
    using assms(1-6) graph_ok_mono [of "set (g_heap g)" g h] by (simp add: opt_ok_def)
  show "all_once h" using assms(1,3) by (simp add: opt_ok_def all_once_def)
  show "binops h \<subseteq> binops g" using assms(2,7) by (auto simp: binops_def)
qed (simp_all add: assms)

lemma pass_ok_byte: "opt_ok g \<Longrightarrow> pass_ok g (g\<lparr>g_byte := m\<rparr>)"
  by (rule pass_ok_nodes) simp_all

lemma opt_ok_byte [simp]: "opt_ok (g\<lparr>g_byte := m\<rparr>) \<longleftrightarrow> opt_ok g"
  by (simp add: opt_ok_def graph_ok_def all_once_def array_need_def heap_need_def binops_def)

section \<open>Folding comes back\<close>

lemma c_strlen_returns:
  assumes "has_nul m"
  shows "\<exists>n. c_strlen m s = Some n"
proof -
  obtain q where q: "m q = 0" using assms by (auto simp: has_nul_def)
  have k: "m (s + of_nat (unat (q - s))) = 0" using q by simp
  show ?thesis unfolding c_strlen_def
  proof (rule measure_while_option_Some [where P = "\<lambda>k. k \<le> unat (q - s)" and f = "\<lambda>k. unat (q - s) - k"])
    fix i assume "i \<le> unat (q - s)" "m (s + of_nat i) \<noteq> 0"
    then have "i \<noteq> unat (q - s)" using k by auto
    then show "Suc i \<le> unat (q - s) \<and> unat (q - s) - Suc i < unat (q - s) - i"
      using \<open>i \<le> unat (q - s)\<close> by simp
  qed simp
qed

lemma copy_text_nul: "has_nul (copy_text c s n m)"
  unfolding has_nul_def copy_text_def by (rule exI [of _ "c + of_nat n"]) simp

text \<open>A fold that needs a node for the length of its text.\<close>

lemma fold_with_length:
  assumes ok: "opt_ok g" and nd: "nd \<in> set (g_all g)" "nd \<noteq> 0" "n_op (g_node g nd) = IR_BINOP"
    and ln: "ln \<notin> insert 0 (set (g_heap g))"
    and x: "x = (g_node g nd)\<lparr>n_op := IR_LIT_STRING, n_lit := c, n_operands := []\<rparr>"
  shows "pass_ok g (ir_operand_push nd ln (set_node ln (zero_node\<lparr>n_op := IR_LIT_INTEGER, n_lit := len\<rparr>)
    (IR_node_alloc ln IR_LIT_INTEGER (set_node nd x g))))" (is "pass_ok g ?h")
proof -
  let ?N = "set (g_heap g)"
  have G: "graph_ok ?N g" "all_once g" using ok by (simp_all add: opt_ok_def)
  have ndN: "nd \<in> ?N" using nd(1,2) G(1) by (auto simp: graph_ok_def)
  have ne: "nd \<noteq> ln" using ndN ln by auto
  define h where "h = ?h"
  have f: "g_heap h = ln # g_heap g" "g_all h = g_all g @ [ln]" "g_entry h = g_entry g"
      "g_body_root h = g_body_root g"
    using nd(2) by (simp_all add: h_def ir_operand_push_def IR_node_alloc_def set_node_def Let_def)
  have node: "g_node h a = (if a = nd then x\<lparr>n_operands := [ln]\<rparr>
      else if a = ln then zero_node\<lparr>n_op := IR_LIT_INTEGER, n_lit := len\<rparr> else g_node g a)" for a
    using nd(2) ne x by (auto simp: h_def ir_operand_push_def IR_node_alloc_def set_node_def Let_def)
  have op: "n_op (g_node h a) = (if a = nd then IR_LIT_STRING else if a = ln then IR_LIT_INTEGER
      else n_op (g_node g a))" for a
    by (simp add: node x)
  have bin: "binops h = binops g - {nd}"
    using ln unfolding binops_def f op by auto
  have "nd \<in> binops g" using nd(3) ndN by (simp add: binops_def)
  then have card: "Suc (card (binops h)) = card (binops g)" unfolding bin by (rule card_Suc_Diff1 [OF finite_binops])
  then have need: "array_need h = array_need g" "heap_need h = heap_need g"
    using ln by (simp_all add: array_need_def heap_need_def f)
  have "node_links (g_node h a) \<subseteq> insert 0 (insert ln ?N)" if aN: "a \<in> insert ln ?N" for a
  proof -
    have links: "node_links (g_node g b) \<subseteq> insert 0 ?N" if "b \<in> ?N" for b
      using G(1) that by (simp add: graph_ok_def)
    consider "a = nd" | "a \<noteq> nd" "a = ln" | "a \<noteq> nd" "a \<noteq> ln" "a \<in> ?N" using aN by blast
    then show ?thesis
    proof cases
      case 1
      then show ?thesis using links [OF ndN] by (auto simp: node x node_links_def)
    next
      case 2
      then show ?thesis by (simp add: node node_links_def zero_node_def)
    next
      case 3
      then show ?thesis using links [of a] by (auto simp: node)
    qed
  qed
  moreover have "length (g_all h) < 2 ^ 31" "card (set (g_heap h)) < 2 ^ 60"
    using need ok card by (auto simp: opt_ok_def array_need_def heap_need_def)
  ultimately have "graph_ok (set (g_heap h)) h"
    using G(1) ln unfolding graph_ok_def f by auto
  moreover have "all_once h"
  proof -
    have "ln \<notin> set (g_all g)" using ln G(1) by (auto simp: graph_ok_def)
    then show ?thesis using G(2) unfolding all_once_def f by (auto simp: nth_append less_Suc_eq)
  qed
  ultimately have "pass_ok g h" using ok need by (simp add: pass_ok_def opt_ok_def)
  then show ?thesis by (simp only: h_def)
qed

lemma cf_store_text_ok:
  assumes "opt_ok g" "has_nul (g_byte g)" "lawful ops" "nd \<in> set (g_all g)" "nd \<noteq> 0"
    "n_op (g_node g nd) = IR_BINOP"
  shows "\<exists>h. cf_store_text ops g nd s n = Some (h, True) \<and> pass_ok g h \<and> has_nul (g_byte h)"
proof -
  define c where "c = alloc_bytes ops g (n + 1)"
  define m where "m = copy_text c s n (g_byte g)"
  define g1 where "g1 = g\<lparr>g_byte := m\<rparr>"
  define x where "x = (g_node g nd)\<lparr>n_op := IR_LIT_STRING, n_lit := c, n_operands := []\<rparr>"
  define ln where "ln = alloc_node ops (g_heap (set_node nd x g1))"
  define k where "k = IR_node_alloc ln IR_LIT_INTEGER (set_node nd x g1)"
  define h where "h = ir_operand_push nd ln (set_node ln ((g_node k ln)\<lparr>n_lit := of_nat n\<rparr>) k)"
  have m: "has_nul m" unfolding m_def by (rule copy_text_nul)
  obtain len where len: "c_strlen m c = Some len" using c_strlen_returns [OF m] by blast
  have store: "cf_store_text ops g nd s n = Some (if n \<noteq> len then h else set_node nd x g1, True)"
    unfolding cf_store_text_def Let_def c_def [symmetric] m_def [symmetric] x_def [symmetric] g1_def [symmetric]
      ln_def [symmetric] k_def [symmetric] h_def [symmetric] len by simp
  have g1: "opt_ok g1" "nd \<in> set (g_all g1)" "n_op (g_node g1 nd) = IR_BINOP" "g_heap g1 = g_heap g"
      "x = (g_node g1 nd)\<lparr>n_op := IR_LIT_STRING, n_lit := c, n_operands := []\<rparr>"
    using assms(1,4,6) by (simp_all add: g1_def x_def)
  have p1: "pass_ok g g1" unfolding g1_def by (rule pass_ok_byte [OF assms(1)])
  have kept: "pass_ok g1 (set_node nd x g1)"
    by (rule pass_ok_nodes [OF g1(1)]) (auto simp: g1(5) set_node_def node_links_def split: if_splits)
  have "0 \<notin> set (g_heap g)" "card (set (g_heap g)) < 2 ^ 60"
    using assms(1) by (auto simp: opt_ok_def graph_ok_def)
  then have fresh: "ln \<notin> insert 0 (set (g_heap g1))"
    using assms(3) by (simp add: lawful_def g1(4) ln_def set_node_def)
  have "g_node k ln = zero_node\<lparr>n_op := IR_LIT_INTEGER\<rparr>"
    by (simp add: k_def IR_node_alloc_def set_node_def Let_def)
  then have grown: "pass_ok g1 h"
    using fold_with_length [OF g1(1,2) assms(5) g1(3) fresh g1(5), of "of_nat n"]
    by (simp add: h_def k_def)
  have "g_byte (set_node nd x g1) = m" "g_byte h = m"
    by (simp_all add: h_def k_def set_node_def g1_def ir_operand_push_def IR_node_alloc_def Let_def)
  then show ?thesis
    using store pass_ok_trans [OF p1 kept] pass_ok_trans [OF p1 grown] m by (cases "n = len") simp_all
qed

lemma cf_store_ok:
  assumes "opt_ok g" "has_nul (g_byte g)" "lawful ops" "nd \<in> set (g_all g)" "nd \<noteq> 0"
    "n_op (g_node g nd) = IR_BINOP"
  shows "\<exists>h b. cf_store_descr ops g nd r = Some (h, b) \<and> pass_ok g h \<and> has_nul (g_byte h)"
proof -
  have lit: "pass_ok g (set_node nd ((g_node g nd)\<lparr>n_op := k, n_lit := v, n_operands := []\<rparr>) g)"
    if "k \<noteq> IR_BINOP" for k v
    by (rule pass_ok_nodes [OF assms(1)]) (use that in \<open>auto simp: set_node_def node_links_def split: if_splits\<close>)
  define s where "s = (if d_payload r \<noteq> 0 then d_payload r else empty_text ops)"
  obtain n where n: "(if d_slen r \<noteq> 0 then Some (unat (d_slen r)) else c_strlen (g_byte g) s) = Some n"
    using c_strlen_returns [OF assms(2), of s] by (cases "d_slen r = 0") auto
  obtain h where h: "cf_store_text ops g nd s n = Some (h, True)" "pass_ok g h" "has_nul (g_byte h)"
    using cf_store_text_ok [OF assms, of s n] by blast
  have byte: "g_byte (set_node nd y g) = g_byte g" for y by (simp add: set_node_def)
  consider "has_tag DT_I r" | "\<not> has_tag DT_I r" "has_tag DT_R r"
    | "\<not> has_tag DT_I r" "\<not> has_tag DT_R r" "has_tag DT_S r \<or> has_tag DT_SNUL r"
    | "\<not> has_tag DT_I r" "\<not> has_tag DT_R r" "\<not> (has_tag DT_S r \<or> has_tag DT_SNUL r)" by blast
  then show ?thesis
  proof cases
    case 1
    then show ?thesis using lit [of IR_LIT_INTEGER "d_payload r"] byte assms(2) by (auto simp: cf_store_descr_def)
  next
    case 2
    then show ?thesis using lit [of IR_LIT_REAL "d_payload r"] byte assms(2) by (auto simp: cf_store_descr_def)
  next
    case 3
    then have "cf_store_descr ops g nd r = Some (h, True)"
      unfolding cf_store_descr_def Let_def s_def [symmetric] n using h(1) by simp
    then show ?thesis using h by blast
  next
    case 4
    then show ?thesis using pass_ok_refl [OF assms(1)] assms(2) by (auto simp: cf_store_descr_def)
  qed
qed

lemma cf_lit_descr_returns:
  assumes "has_nul (g_byte g)"
  shows "\<exists>d. cf_lit_descr ops g p = Some d"
  using c_strlen_returns [OF assms, of "if n_lit (g_node g p) \<noteq> 0 then n_lit (g_node g p) else empty_text ops"]
  by (auto simp: cf_lit_descr_def Let_def)

text \<open>
  The registers \<open>cf_eval\<close> saves are what they were; the context is cleared, and of the keywords nothing is
  said.
\<close>

definition saved_regs :: "rt_err \<Rightarrow> int \<times> u64 \<times> descr_t \<times> int \<times> int \<times> int" where
  "saved_regs er = (icn_errnumber er, icn_errtext er, icn_errvalue er, icn_err_valid er, abi_error er, errjmp_n er)"

lemma saved_regs_other [simp]:
  "saved_regs (er\<lparr>op_ctx := c\<rparr>) = saved_regs er" "saved_regs (er\<lparr>kw_errtype := k\<rparr>) = saved_regs er"
  "saved_regs (er\<lparr>kw_errtext := p\<rparr>) = saved_regs er"
  by (simp_all add: saved_regs_def)

lemma core_runtime_error_nul:
  "core_runtime_error ops me code msg = Some me' \<Longrightarrow> lawful ops \<Longrightarrow> has_nul (fst me) \<Longrightarrow> has_nul (fst me')"
  by (auto simp: core_runtime_error_def rt_kw_publish_error_def lawful_def Let_def
      split: prod.splits if_splits option.splits) (metis fst_conv)+

lemma int_body_nul:
  "int_body ops me a b op = Some (me', out) \<Longrightarrow> lawful ops \<Longrightarrow> has_nul (fst me) \<Longrightarrow> has_nul (fst me')"
  by (auto simp: int_body_def rt_div_zero_def Let_def dest!: core_runtime_error_nul split: if_splits)

lemma rt_num_arith_nul:
  assumes "lawful ops" "has_nul (fst me)"
  shows "has_nul (fst (fst (rt_num_arith ops me a b op)))"
proof -
  let ?inner = "(fst me, (snd me)\<lparr>errjmp_n := errjmp_n (snd me) + 1\<rparr>)"
  have "has_nul (fst (fst (case int_body ops ?inner a b op of Some r \<Rightarrow> r | None \<Rightarrow> arith_rest ops ?inner a b op)))"
    using int_body_nul [OF _ assms(1), of ?inner a b op] assms by (auto simp: lawful_def split: option.split)
  then show ?thesis using assms(2) by (auto simp: rt_num_arith_def Let_def split: option.splits prod.splits)
qed

lemma cf_eval_restores:
  assumes "lawful ops" "has_nul (fst me)"
  shows "\<exists>m er out. cf_eval ops me da db code = ((m, er), out) \<and> has_nul m \<and> saved_regs er = saved_regs (snd me)"
proof -
  let ?er = "(snd me)\<lparr>abi_error := -2, errjmp_n := errjmp_n (snd me) + 1\<rparr>"
  obtain m er out where r: "rt_num_arith ops (fst me, ?er) da db code = ((m, er), out)" by (metis prod_cases3 prod.collapse)
  then have "has_nul m" using rt_num_arith_nul [OF assms(1), of "(fst me, ?er)" da db code] assms(2) by simp
  then show ?thesis unfolding cf_eval_def Let_def r prod.case by (simp add: saved_regs_def)
qed

lemma cf_binop_ok:
  assumes "opt_ok g" "has_nul (g_byte g)" "lawful ops" "nd \<in> set (g_all g)" "nd \<noteq> 0"
    "n_op (g_node g nd) = IR_BINOP"
  shows "\<exists>h er' b. cf_binop ops (g, er) nd code da db = Some ((h, er'), b) \<and> pass_ok g h \<and> has_nul (g_byte h)
    \<and> saved_regs er' = saved_regs er"
proof -
  let ?done = "\<lambda>r. \<exists>h er' b. r = Some ((h, er'), b) \<and> pass_ok g h \<and> has_nul (g_byte h)
    \<and> saved_regs er' = saved_regs er"
  have same: "?done (Some ((g, er), b))" for b using pass_ok_refl [OF assms(1)] assms(2) by simp
  have store: "?done (do { (h, b) \<leftarrow> cf_store_descr ops (g\<lparr>g_byte := m\<rparr>) nd r; Some ((h, er'), b) })"
    if "has_nul m" "saved_regs er' = saved_regs er" for m er' r
  proof -
    have "\<exists>h b. cf_store_descr ops (g\<lparr>g_byte := m\<rparr>) nd r = Some (h, b)
        \<and> pass_ok (g\<lparr>g_byte := m\<rparr>) h \<and> has_nul (g_byte h)"
      by (rule cf_store_ok) (use assms that(1) in simp_all)
    then obtain h b where h: "cf_store_descr ops (g\<lparr>g_byte := m\<rparr>) nd r = Some (h, b)"
        "pass_ok (g\<lparr>g_byte := m\<rparr>) h" "has_nul (g_byte h)" by blast
    then show ?thesis using pass_ok_trans [OF pass_ok_byte [OF assms(1)] h(2)] that(2) by simp
  qed
  have nuls: "has_nul (fst (str_concat_fracdigit ops (g_byte g) da db))" "has_nul (fst (str_concat ops (g_byte g) da db))"
    using assms(2,3) by (simp_all add: lawful_def)
  obtain m er1 out where ev: "cf_eval ops (g_byte g, er) da db code = ((m, er1), out)" "has_nul m"
      "saved_regs er1 = saved_regs er"
    using cf_eval_restores [OF assms(3), of "(g_byte g, er)" da db code] assms(2) by auto
  have none: "?done (Some ((g\<lparr>g_byte := m\<rparr>, er1), False))"
    using pass_ok_byte [OF assms(1)] ev(2,3) by auto
  show ?thesis
    unfolding cf_binop_def Let_def prod.case ev(1)
    using same none nuls store [of m er1] ev(2,3) store [of _ er]
    by (auto split: prod.split option.split)
qed

text \<open>What a pass may do to the graph and the error registers.\<close>

definition fold_ok :: "cf_state \<Rightarrow> cf_state \<Rightarrow> bool" where
  "fold_ok st st' \<longleftrightarrow> pass_ok (fst st) (fst st') \<and> has_nul (g_byte (fst st'))
     \<and> saved_regs (snd st') = saved_regs (snd st)"

lemma fold_ok_refl: "opt_ok (fst st) \<Longrightarrow> has_nul (g_byte (fst st)) \<Longrightarrow> fold_ok st st"
  by (simp add: fold_ok_def pass_ok_refl)

lemma fold_ok_trans: "fold_ok st st1 \<Longrightarrow> fold_ok st1 st2 \<Longrightarrow> fold_ok st st2"
  using pass_ok_trans by (auto simp: fold_ok_def)

lemma fold_okD: "fold_ok st st' \<Longrightarrow> opt_ok (fst st') \<and> has_nul (g_byte (fst st'))"
  by (simp add: fold_ok_def pass_ok_def)

lemma cf_step_ok:
  assumes "opt_ok (fst st)" "has_nul (g_byte (fst st))" "lawful ops" "nd \<in> set (g_all (fst st))"
  shows "\<exists>st' b. cf_step ops nd st = Some (st', b) \<and> fold_ok st st'"
proof -
  obtain g er where st: "st = (g, er)" by (cases st)
  let ?x = "g_node g nd"
  note A = assms [unfolded st fst_conv]
  have same: "fold_ok st (g, er)" using fold_ok_refl [OF assms(1,2)] by (simp add: st)
  show ?thesis
  proof (cases "nd = 0")
    case True
    then show ?thesis using same by (auto simp: cf_step_def st)
  next
    case nz: False
    show ?thesis
    proof (cases "if cf_valued_operand_op (n_op ?x) then cf_fail_operand g nd else None")
      case (Some h)
      then have h: "h = set_node nd (?x\<lparr>n_op := IR_FAIL, n_operands := []\<rparr>) g"
        by (auto simp: cf_fail_operand_def Let_def split: if_splits)
      have "pass_ok g h"
        unfolding h by (rule pass_ok_nodes [OF A(1)]) (auto simp: set_node_def node_links_def split: if_splits)
      moreover have "g_byte h = g_byte g" by (simp add: h set_node_def)
      ultimately show ?thesis using Some nz A(2) by (auto simp: cf_step_def st Let_def fold_ok_def)
    next
      case None
      show ?thesis
      proof (cases "n_op ?x = IR_BINOP \<and> length (n_operands ?x) = 2 \<and> n_operands ?x ! 0 \<noteq> 0 \<and> n_operands ?x ! 1 \<noteq> 0")
        case False
        then show ?thesis
          unfolding cf_step_def st Let_def prod.case None using nz same by (auto simp: st)
      next
        case True
        obtain da where da: "cf_lit_descr ops g (n_operands ?x ! 0) = Some da"
          using cf_lit_descr_returns [OF A(2)] by blast
        obtain db where db: "cf_lit_descr ops g (n_operands ?x ! 1) = Some db"
          using cf_lit_descr_returns [OF A(2)] by blast
        have step: "cf_step ops nd st = (case da of None \<Rightarrow> Some (st, False)
            | Some da \<Rightarrow> (case db of None \<Rightarrow> Some (st, False) | Some db \<Rightarrow> cf_binop ops st nd (ir_ival ?x) da db))"
          unfolding cf_step_def st Let_def prod.case None using nz True da db by (auto split: option.split)
        show ?thesis
        proof (cases "\<exists>a b. da = Some a \<and> db = Some b")
          case True
          then obtain a b where ab: "da = Some a" "db = Some b" by blast
          from cf_binop_ok [OF A nz, of er "ir_ival ?x" a b] \<open>n_op ?x = _ \<and> _\<close>
          show ?thesis using step ab by (auto simp: st fold_ok_def)
        next
          case False
          then show ?thesis using step same by (cases da; cases db) (auto simp: st)
        qed
      qed
    qed
  qed
qed

lemma cf_pass_ok:
  assumes "lawful ops"
  shows "opt_ok (fst st) \<Longrightarrow> has_nul (g_byte (fst st)) \<Longrightarrow>
    \<exists>st' n. cf_pass ops i st k = Some (st', n) \<and> fold_ok st st'"
proof (induction "array_need (fst st) - i" arbitrary: i st k rule: less_induct)
  case less
  show ?case
  proof (cases "i < length (g_all (fst st))")
    case False
    then show ?thesis using fold_ok_refl [OF less.prems] by (subst cf_pass.simps) simp
  next
    case True
    then have "g_all (fst st) ! i \<in> set (g_all (fst st))" by simp
    from cf_step_ok [OF less.prems assms this] obtain st1 b where
      st1: "cf_step ops (g_all (fst st) ! i) st = Some (st1, b)" "fold_ok st st1" by blast
    have "array_need (fst st1) \<le> array_need (fst st)" using st1(2) by (simp add: fold_ok_def pass_ok_def)
    moreover have "i < array_need (fst st)" using True by (simp add: array_need_def)
    ultimately have "array_need (fst st1) - Suc i < array_need (fst st) - i" by linarith
    from less.hyps [OF this, of "if b then k + 1 else k"] fold_okD [OF st1(2)]
    obtain st2 n where "cf_pass ops (Suc i) st1 (if b then k + 1 else k) = Some (st2, n)" "fold_ok st1 st2" by blast
    then show ?thesis using True st1 fold_ok_trans [OF st1(2)] by (subst cf_pass.simps) auto
  qed
qed

lemma cf_rounds_ok:
  assumes "lawful ops"
  shows "opt_ok (fst st) \<Longrightarrow> has_nul (g_byte (fst st)) \<Longrightarrow>
    \<exists>st' n. cf_rounds ops r st k = Some (st', n) \<and> fold_ok st st'"
proof (induction r arbitrary: st k)
  case 0
  then show ?case by (simp add: fold_ok_refl)
next
  case (Suc r)
  obtain st1 n where st1: "cf_pass ops 0 st 0 = Some (st1, n)" "fold_ok st st1"
    using cf_pass_ok [OF assms Suc.prems] by blast
  have ok1: "opt_ok (fst st1)" "has_nul (g_byte (fst st1))" using fold_okD [OF st1(2)] by simp_all
  obtain st2 n2 where "cf_rounds ops r st1 (k + n) = Some (st2, n2)" "fold_ok st1 st2"
    using Suc.IH [OF ok1] by blast
  then show ?case using st1 fold_ok_trans [OF st1(2)] by (cases "n = 0") auto
qed

section \<open>The other passes keep the graph\<close>

lemma emptied_pass:
  assumes "emptied D g h" "opt_ok g"
  shows "pass_ok g h"
  by (rule pass_ok_nodes [OF assms(2)]) (use assms(1) in \<open>auto simp: emptied_def node_links_def split: if_splits\<close>)

lemma set_operand_pass:
  assumes "opt_ok g" "p \<in> insert 0 (set (g_heap g))"
  shows "pass_ok g (set_operand a k p g)" (is "pass_ok g ?h")
proof (rule pass_ok_mono [OF assms(1)])
  let ?N = "set (g_heap g)"
  have G: "graph_ok ?N g" "all_once g" using assms(1) by (simp_all add: opt_ok_def)
  have "node_links (g_node ?h b) \<subseteq> insert 0 ?N" if "b \<in> ?N" for b
  proof -
    have "node_links (g_node ?h b) \<subseteq> insert p (node_links (g_node g b))"
      using set_update_subset_insert [of "n_operands (g_node g a)" k p]
      by (auto simp: set_operand_def set_node_def node_links_def split: if_splits)
    then show ?thesis using G(1) that assms(2) unfolding graph_ok_def by blast
  qed
  then show "graph_ok ?N ?h" using G(1) by (simp add: graph_ok_def set_operand_def set_node_def)
  show "all_once ?h" using G(2) by (simp add: all_once_def set_operand_def set_node_def)
  show "binops ?h \<subseteq> binops g" by (auto simp: binops_def set_operand_def set_node_def split: if_splits)
qed (simp_all add: set_operand_def set_node_def)

text \<open>What copy propagation keeps while it replaces the operands of a node.\<close>

definition cp_ok :: "ir_graph \<Rightarrow> ir_graph \<times> nat \<Rightarrow> bool" where
  "cp_ok g s \<longleftrightarrow> pass_ok g (fst s) \<and> g_all (fst s) = g_all g \<and> g_heap (fst s) = g_heap g
     \<and> g_byte (fst s) = g_byte g \<and> g_entry (fst s) = g_entry g \<and> g_body_root (fst s) = g_body_root g
     \<and> (\<forall>a. length (n_operands (g_node (fst s) a)) = length (n_operands (g_node g a))
          \<and> edge (fst s) True a = edge g True a \<and> edge (fst s) False a = edge g False a
          \<and> n_op (g_node (fst s) a) = n_op (g_node g a))"

lemma cp_source_in:
  "cp_source e g c \<noteq> 0 \<Longrightarrow> c \<noteq> 0 \<and> cp_source e g c \<in> set (n_operands (g_node g c))"
  by (auto simp: cp_source_def Let_def split: if_splits)

lemma cp_operand_ok:
  "cp_ok g s \<Longrightarrow> a \<in> set (g_heap g) \<Longrightarrow> k < length (n_operands (g_node g a)) \<Longrightarrow> cp_ok g (cp_operand e a k n s)"
proof (induction n arbitrary: s)
  case (Suc n)
  let ?h = "fst s" and ?c = "n_operands (g_node (fst s) a) ! k"
  show ?case
  proof (cases "cp_source e ?h ?c = 0")
    case True
    then show ?thesis using Suc.prems(1) by simp
  next
    case False
    note src = cp_source_in [OF False]
    have h: "opt_ok ?h" "g_heap ?h = g_heap g" using Suc.prems(1) by (simp_all add: cp_ok_def pass_ok_def)
    have links: "node_links (g_node ?h b) \<subseteq> insert 0 (set (g_heap g))" if "b \<in> set (g_heap g)" for b
      using h that by (simp add: opt_ok_def graph_ok_def)
    have "?c \<in> set (n_operands (g_node ?h a))" using Suc.prems(1,3) by (simp add: cp_ok_def)
    then have "?c \<in> set (g_heap g)" using links [OF Suc.prems(2)] src by (auto simp: node_links_def)
    then have "cp_source e ?h ?c \<in> insert 0 (set (g_heap ?h))"
      using links [of ?c] src h(2) by (auto simp: node_links_def)
    from set_operand_pass [OF h(1) this]
    have "cp_ok g (set_operand a k (cp_source e ?h ?c) ?h, snd s + 1)"
      using Suc.prems(1) pass_ok_trans by (auto simp: cp_ok_def set_operand_def set_node_def edge_def)
    from Suc.IH [OF this Suc.prems(2,3)] show ?thesis using False by (simp add: Let_def)
  qed
qed simp

lemma cp_node_ok:
  assumes "cp_ok g s" "a \<in> insert 0 (set (g_heap g))"
  shows "cp_ok g (cp_node e a s)"
proof (cases "a = 0")
  case False
  then have a: "a \<in> set (g_heap g)" using assms(2) by simp
  have "cp_ok g (fold (\<lambda>k. cp_operand e a k 32) ks t)"
    if "cp_ok g t" "\<forall>k\<in>set ks. k < length (n_operands (g_node g a))" for ks t
    using that by (induction ks arbitrary: t) (simp_all add: cp_operand_ok [OF _ a])
  moreover have "length (n_operands (g_node (fst s) a)) = length (n_operands (g_node g a))"
    using assms(1) by (simp add: cp_ok_def)
  ultimately show ?thesis using assms(1) False by (simp add: cp_node_def)
qed (use assms(1) in \<open>simp add: cp_node_def\<close>)

lemma cp_nodes_ok: "cp_ok g s \<Longrightarrow> set as \<subseteq> insert 0 (set (g_heap g)) \<Longrightarrow> cp_ok g (fold (cp_node e) as s)"
  by (induction as arbitrary: s) (simp_all add: cp_node_ok)

text \<open>
  Copy propagation leaves every edge and the array, and empties only nodes that are no operand of a
  node of the graph any more.
\<close>

lemma cp_run_ok:
  assumes "opt_ok g"
  shows "\<exists>h n. cp_run e g = Some (h, n) \<and> pass_ok g h \<and> g_byte h = g_byte g \<and> g_all h = g_all g
    \<and> g_entry h = g_entry g \<and> g_body_root h = g_body_root g
    \<and> (\<forall>a. edge h True a = edge g True a \<and> edge h False a = edge g False a
         \<and> (n_op (g_node h a) = n_op (g_node g a) \<or> n_op (g_node h a) = IR_SUCCEED \<and> \<not> protected h a))"
proof (cases "g_all g = []")
  case True
  then show ?thesis using pass_ok_refl [OF assms] by (simp add: cp_run_def)
next
  case False
  let ?s = "fold (cp_node e) (g_all g) (g, 0)"
  have G: "graph_ok (set (g_heap g)) g" "all_once g" using assms by (simp_all add: opt_ok_def)
  have "cp_ok g (g, 0)" using pass_ok_refl [OF assms] by (simp add: cp_ok_def)
  moreover have "set (g_all g) \<subseteq> insert 0 (set (g_heap g))" using G(1) by (simp add: graph_ok_def)
  ultimately have s: "cp_ok g ?s" by (rule cp_nodes_ok)
  then have s_all: "g_all (fst ?s) = g_all g" and s_ok: "opt_ok (fst ?s)" by (simp_all add: cp_ok_def pass_ok_def)
  show ?thesis
  proof (cases "snd ?s = 0")
    case True
    then show ?thesis using s False by (simp add: cp_run_def Let_def cp_ok_def)
  next
    case changed: False
    have S: "graph_ok (set (g_heap (fst ?s))) (fst ?s)" "all_once (fst ?s)"
      using s_ok by (simp_all add: opt_ok_def)
    obtain marks where marks: "mark_operands (fst ?s) = Some marks"
        "\<forall>i<length (g_all g). g_all g ! i \<noteq> 0 \<longrightarrow> marks ! i = protected (fst ?s) (g_all g ! i)"
      using mark_operands_ok [OF S] s_all by auto
    let ?t = "sweep (\<lambda>g a. cp_source e g a \<noteq> 0) marks 0 (g_all g) ?s"
    have "\<exists>D. {} \<subseteq> D \<and> D \<subseteq> {a. \<not> protected (fst ?s) a} \<and> emptied D (fst ?s) (fst ?t)"
      by (rule sweep_some) (use marks(2) in auto)
    then obtain D where D: "D \<subseteq> {a. \<not> protected (fst ?s) a}" "emptied D (fst ?s) (fst ?t)" by blast
    have h: "pass_ok g (fst ?t)"
      using s pass_ok_trans emptied_pass [OF D(2) s_ok] by (auto simp: cp_ok_def)
    have f: "g_all (fst ?t) = g_all g" "g_byte (fst ?t) = g_byte g" "g_entry (fst ?t) = g_entry g"
        "g_body_root (fst ?t) = g_body_root g"
      using D(2) s by (simp_all add: emptied_def cp_ok_def)
    have less: "protected (fst ?t) a \<Longrightarrow> protected (fst ?s) a" for a
      using D(2) s_all f(1) by (auto simp: protected_def emptied_def split: if_splits)
    have "edge (fst ?t) b a = edge (fst ?s) b a" for b a using D(2) by (simp add: edge_def emptied_def)
    moreover have "n_op (g_node (fst ?t) a) = n_op (g_node (fst ?s) a)
        \<or> n_op (g_node (fst ?t) a) = IR_SUCCEED \<and> \<not> protected (fst ?t) a" for a
    proof (cases "a \<in> D")
      case True
      then show ?thesis using D less by (auto simp: emptied_def)
    next
      case False
      then show ?thesis using emptied_nodes [OF D(2)] by simp
    qed
    moreover have "cp_run e g = Some ?t" using False changed marks(1) by (simp add: cp_run_def Let_def)
    ultimately show ?thesis using h f s by (intro exI [of _ "fst ?t"] exI [of _ "snd ?t"]) (simp add: cp_ok_def)
  qed
qed

lemma dp_run_ok:
  assumes "opt_ok g"
  shows "\<exists>h n. dp_run g = Some (h, n) \<and> pass_ok g h \<and> g_byte h = g_byte g"
proof -
  obtain h where h: "dp_run g = Some (h, card (dp_dead g))" "emptied (dp_dead g) g h"
    using dp_run_empties assms unfolding opt_ok_def by blast
  then show ?thesis using emptied_pass [OF h(2) assms] by (simp add: emptied_def)
qed

lemma bc_run_ok:
  assumes "opt_ok g"
  shows "\<exists>h n. bc_run e g = Some (h, n) \<and> pass_ok g h \<and> g_byte h = g_byte g"
proof -
  have G: "graph_ok (set (g_heap g)) g" using assms by (simp add: opt_ok_def)
  obtain h n where h: "bc_run e g = Some (h, n)" "rerouted e g h" using bc_run_moved [OF G] by blast
  have sh: "g_heap h = g_heap g" "g_all h = g_all g" "g_byte h = g_byte g"
      "\<And>a. n_op (g_node h a) = n_op (g_node g a)"
    using rerouted_shape [OF h(2)] by (simp_all add: shape_eq acts_eq)
  have "pass_ok g h"
    by (rule pass_ok_mono [OF assms rerouted_ok [OF h(2) G]])
      (use assms sh in \<open>simp_all add: opt_ok_def all_once_def binops_def\<close>)
  then show ?thesis using h(1) sh(3) by blast
qed

lemma dg_run_ok:
  assumes "opt_ok g"
  shows "\<exists>h n. dg_run e g = Some (h, n) \<and> pass_ok g h \<and> g_byte h = g_byte g"
proof -
  have G: "graph_ok (set (g_heap g)) g" "all_once g" using assms by (simp_all add: opt_ok_def)
  let ?h = "g\<lparr>g_all := map (\<lambda>a. if a \<in> dg_set e g then 0 else a) (g_all g),
      g_dead := g_dead g @ filter (\<lambda>a. a \<in> dg_set e g) (g_all g)\<rparr>"
  have "pass_ok g ?h"
  proof (rule pass_ok_mono [OF assms])
    have "set (g_all ?h) \<subseteq> insert 0 (set (g_all g))" by auto
    then show "graph_ok (set (g_heap g)) ?h" using G(1) by (auto simp: graph_ok_def)
    show "all_once ?h" using G(2) by (auto simp: all_once_def)
  qed (simp_all add: binops_def)
  then show ?thesis using dg_run_takes [OF G] by (intro exI [of _ ?h]) simp
qed

section \<open>The driver comes back\<close>

lemma cf_run_ok:
  assumes "lawful ops" "opt_ok (fst st)" "has_nul (g_byte (fst st))"
  shows "\<exists>st' n. cf_run ops st = Some (st', n) \<and> fold_ok st st'"
  unfolding cf_run_def by (rule cf_rounds_ok [OF assms])

lemma fold_ok_graph:
  "fold_ok st (g, er) \<Longrightarrow> pass_ok g h \<Longrightarrow> g_byte h = g_byte g \<Longrightarrow> fold_ok st (h, er)"
  using pass_ok_trans by (auto simp: fold_ok_def)

lemma opt_rounds_ok:
  assumes "lawful ops"
  shows "opt_ok (fst st) \<Longrightarrow> has_nul (g_byte (fst st)) \<Longrightarrow>
    \<exists>st'. opt_rounds e ops do_cf r st = Some st' \<and> fold_ok st st'"
proof (induction r arbitrary: st)
  case 0
  then show ?case by (simp add: fold_ok_refl)
next
  case (Suc r)
  obtain g er n where cf: "(if do_cf then cf_run ops st else Some (st, 0)) = Some ((g, er), n)" "fold_ok st (g, er)"
    using cf_run_ok [OF assms Suc.prems] fold_ok_refl [OF Suc.prems] by (cases do_cf; cases st) auto
  then have "opt_ok g" using fold_okD by fastforce
  then obtain g1 n1 where g1: "cp_run e g = Some (g1, n1)" "pass_ok g g1" "g_byte g1 = g_byte g"
    using cp_run_ok by blast
  then obtain g2 n2 where g2: "dp_run g1 = Some (g2, n2)" "pass_ok g1 g2" "g_byte g2 = g_byte g1"
    using dp_run_ok unfolding pass_ok_def by blast
  then obtain g3 n3 where g3: "bc_run e g2 = Some (g3, n3)" "pass_ok g2 g3" "g_byte g3 = g_byte g2"
    using bc_run_ok unfolding pass_ok_def by blast
  have ok3: "fold_ok st (g3, er)"
    using fold_ok_graph [OF cf(2)] g1 g2 g3 pass_ok_trans by metis
  then obtain h er' where h: "opt_rounds e ops do_cf r (g3, er) = Some (h, er')" "fold_ok (g3, er) (h, er')"
    using Suc.IH [of "(g3, er)"] fold_okD by fastforce
  have "fold_ok st (h, er')" by (rule fold_ok_trans [OF ok3 h(2)])
  then show ?case using cf(1) g1(1) g2(1) g3(1) ok3 h(1) by simp
qed

lemma dg_rounds_ok:
  "opt_ok g \<Longrightarrow> \<exists>h. dg_rounds e r g = Some h \<and> pass_ok g h \<and> g_byte h = g_byte g"
proof (induction r arbitrary: g)
  case 0
  then show ?case by (simp add: pass_ok_refl)
next
  case (Suc r)
  obtain g1 n where g1: "dg_run e g = Some (g1, n)" "pass_ok g g1" "g_byte g1 = g_byte g"
    using dg_run_ok [OF Suc.prems] by blast
  then obtain h where "dg_rounds e r g1 = Some h" "pass_ok g1 h" "g_byte h = g_byte g1"
    using Suc.IH unfolding pass_ok_def by blast
  then show ?case using g1 pass_ok_trans [OF g1(2)] by auto
qed

text \<open>
  C10. The driver comes back with a well-formed graph. On every well-formed graph, with lawful arguments, all
  rounds of all passes end; the graph they leave is well formed, has no node twice and needs no more
  room than before; the six registers of the runtime's error handling that folding saves, the number, text
  and value of the last error, whether there is one, the error mode and the depth of the handlers, are what
  they were, and the flag that forbids direct calls is never taken back. Folding also clears the context of
  the operation, and it does not save \<open>&ERRTYPE\<close> and \<open>&ERRTEXT\<close>, which a folded error leaves changed
  (\<open>cf_step_zero_divisor\<close>).
\<close>

theorem optimizer_run_keeps:
  assumes "opt_ok (fst st)" "has_nul (g_byte (fst st))" "lawful ops"
  shows "\<exists>g er t. optimizer_run e ops st tainted = Some ((g, er), t) \<and> (tainted \<longrightarrow> t)
    \<and> graph_ok (set (g_heap g)) g \<and> all_once g \<and> array_need g \<le> array_need (fst st)
    \<and> heap_need g \<le> heap_need (fst st) \<and> saved_regs er = saved_regs (snd st)"
proof (cases "g_smx (fst st) \<noteq> 0")
  case True
  then show ?thesis using assms(1) by (cases st) (simp add: optimizer_run_def opt_ok_def)
next
  case False
  obtain g er where g: "opt_rounds e ops (e_cf_spine e \<or> g_is_proc_or_pat (fst st)) 8 st = Some (g, er)"
      "fold_ok st (g, er)"
    using opt_rounds_ok [OF assms(3,1,2)] by (metis prod.collapse)
  then obtain h where h: "dg_rounds e 8 g = Some h" "pass_ok g h"
    using dg_rounds_ok [of g] fold_okD [OF g(2)] by auto
  have "pass_ok (fst st) h" using g(2) h(2) pass_ok_trans by (auto simp: fold_ok_def)
  then show ?thesis
    using False g h(1) by (simp add: optimizer_run_def Let_def scc_taint_graph_def pass_ok_def opt_ok_def fold_ok_def)
qed

section \<open>What is folded\<close>

text \<open>The operations of the source language on integers, as C computes them without overflow.\<close>

definition int_result :: "int \<Rightarrow> int \<Rightarrow> int \<Rightarrow> int" where
  "int_result code x y =
     (if code = BINOP_ADD then x + y else if code = BINOP_SUB then x - y
      else if code = BINOP_MUL then x * y else if code = BINOP_DIV then x sdiv y else x smod y)"

definition foldable :: "int \<Rightarrow> int \<Rightarrow> int \<Rightarrow> bool" where
  "foldable code x y \<longleftrightarrow> code \<in> {BINOP_ADD, BINOP_SUB, BINOP_MUL, BINOP_DIV, BINOP_MOD}
     \<and> (code \<in> {BINOP_DIV, BINOP_MOD} \<longrightarrow> y \<noteq> 0) \<and> no_overflow (int_result code x y)"

lemma no_overflow_sint [simp]: "no_overflow (sint (w :: u64))"
  using sint_greater_eq [of w] sint_less [of w] by (simp add: no_overflow_def)

lemma sint_no_overflow: "no_overflow z \<Longrightarrow> sint (of_int z :: u64) = z"
  by (simp add: no_overflow_def sint_sbintrunc' signed_take_bit_int_eq_self)

lemma sdiv_no_overflow:
  assumes "no_overflow x" "y \<noteq> -1"
  shows "no_overflow (x sdiv y)"
proof (cases "y = 0 \<or> y = 1")
  case True
  then show ?thesis using assms by (auto simp: signed_divide_int_def no_overflow_def sgn_if)
next
  case False
  then have "2 \<le> \<bar>y\<bar>" using assms(2) by linarith
  then have "\<bar>x\<bar> div \<bar>y\<bar> \<le> \<bar>x\<bar> div 2" by (intro zdiv_mono2) simp_all
  moreover have "\<bar>x\<bar> \<le> 2 ^ 63" using assms(1) by (auto simp: no_overflow_def)
  ultimately have "\<bar>x\<bar> div \<bar>y\<bar> \<le> 2 ^ 62" by simp
  moreover have "0 \<le> \<bar>x\<bar> div \<bar>y\<bar>" by (simp add: div_int_pos_iff)
  ultimately show ?thesis by (auto simp: signed_divide_int_def no_overflow_def sgn_if)
qed

lemma smod_no_overflow:
  assumes "no_overflow y" "y \<noteq> 0"
  shows "no_overflow (x smod y)"
proof -
  have "- \<bar>y\<bar> + 1 \<le> x smod y" "x smod y \<le> \<bar>y\<bar> - 1" using smod_int_range [OF assms(2), of x] by simp_all
  then show ?thesis using assms(1) by (auto simp: no_overflow_def)
qed

text \<open>A quotient fits but for the one of the least integer by -1, and a remainder always fits.\<close>

lemma foldable_div:
  assumes "no_overflow x" "no_overflow y" "y \<noteq> 0"
  shows "foldable BINOP_DIV x y \<longleftrightarrow> \<not> (x = - (2 ^ 63) \<and> y = -1)" "foldable BINOP_MOD x y"
proof -
  have "no_overflow (x sdiv y) \<longleftrightarrow> \<not> (x = - (2 ^ 63) \<and> y = -1)"
    using sdiv_no_overflow [OF assms(1), of y] assms(1) by (cases "y = -1") (auto simp: no_overflow_def)
  then show "foldable BINOP_DIV x y \<longleftrightarrow> \<not> (x = - (2 ^ 63) \<and> y = -1)" "foldable BINOP_MOD x y"
    using smod_no_overflow [OF assms(2,3), of x] assms(3) by (simp_all add: foldable_def int_result_def)
qed

lemma INTVAL_tags [simp]: "has_tag DT_I (INTVAL w)" "\<not> has_tag DT_FAIL (INTVAL w)" "d_payload (INTVAL w) = w"
  "\<not> has_tag DT_I FAILDESCR" "has_tag DT_FAIL FAILDESCR"
  by (simp_all add: INTVAL_def FAILDESCR_def has_tag_def mk_descr_def)

lemma num_arith_int:
  assumes "foldable code (sint a) (sint b)"
  shows "\<exists>c. rt_num_arith ops me (INTVAL a) (INTVAL b) code =
    ((fst me, (snd me)\<lparr>op_ctx := c\<rparr>), INTVAL (of_int (int_result code (sint a) (sint b))))"
proof -
  let ?z = "int_result code (sint a) (sint b)"
  have keep: "(snd me)\<lparr>op_ctx := op_ctx (snd me)\<rparr> = snd me" by (cases "snd me") simp
  consider "code \<in> {BINOP_ADD, BINOP_SUB, BINOP_MUL}" | "code \<in> {BINOP_DIV, BINOP_MOD}" "sint b \<noteq> -1"
    | "code = BINOP_DIV" "sint b = -1" | "code = BINOP_MOD" "sint b = -1"
    using assms by (auto simp: foldable_def)
  then show ?thesis
  proof cases
    case 1
    moreover have "no_overflow ?z" using assms by (simp add: foldable_def)
    ultimately have "int_road (INTVAL a) (INTVAL b) code = Some (INTVAL (of_int ?z))"
      by (elim insertE emptyE) (simp_all add: int_road_def int_result_def)
    then show ?thesis using keep by (intro exI [of _ "op_ctx (snd me)"]) (simp add: rt_num_arith_def)
  next
    case 2
    have "sint b \<noteq> 0" using 2(1) assms by (simp add: foldable_def)
    then have "int_road (INTVAL a) (INTVAL b) code = Some (INTVAL (of_int ?z))"
      using 2 by (elim insertE emptyE) (simp_all add: int_road_def int_result_def)
    then show ?thesis using keep by (intro exI [of _ "op_ctx (snd me)"]) (simp add: rt_num_arith_def)
  next
    case 3
    have z: "?z = - sint a" using 3 by (simp add: int_result_def)
    have "sint a \<noteq> - (2 ^ 63)" using assms unfolding foldable_def z by (auto simp: no_overflow_def)
    then show ?thesis unfolding z using 3
      by (intro exI [of _ False]) (simp add: rt_num_arith_def int_road_def int_body_def rt_int_neg_div_def Let_def)
  next
    case 4
    have "?z = 0" using 4 by (simp add: int_result_def signed_modulo_int_def)
    then show ?thesis using 4
      by (intro exI [of _ False]) (simp add: rt_num_arith_def int_road_def int_body_def Let_def)
  qed
qed

lemma cf_eval_int:
  assumes "foldable code (sint a) (sint b)"
  shows "cf_eval ops me (INTVAL a) (INTVAL b) code =
    ((fst me, (snd me)\<lparr>op_ctx := False\<rparr>), Some (INTVAL (of_int (int_result code (sint a) (sint b)))))"
proof -
  obtain c where "rt_num_arith ops (fst me, (snd me)\<lparr>abi_error := -2, errjmp_n := errjmp_n (snd me) + 1\<rparr>) (INTVAL a) (INTVAL b) code
      = ((fst me, (snd me)\<lparr>abi_error := -2, errjmp_n := errjmp_n (snd me) + 1, op_ctx := c\<rparr>),
         INTVAL (of_int (int_result code (sint a) (sint b))))"
    using num_arith_int [OF assms, of ops "(fst me, (snd me)\<lparr>abi_error := -2, errjmp_n := errjmp_n (snd me) + 1\<rparr>)"] by auto
  then show ?thesis by (cases me; cases "snd me") (simp add: cf_eval_def)
qed

text \<open>An operation on two integer literals goes to \<open>cf_binop\<close>.\<close>

lemma cf_step_literals:
  assumes "nd \<noteq> 0" "n_op (g_node g nd) = IR_BINOP" "n_operands (g_node g nd) = [p, q]" "p \<noteq> 0" "q \<noteq> 0"
    "n_op (g_node g p) = IR_LIT_INTEGER" "n_op (g_node g q) = IR_LIT_INTEGER"
  shows "cf_step ops nd (g, er) =
    cf_binop ops (g, er) nd (ir_ival (g_node g nd)) (INTVAL (n_lit (g_node g p))) (INTVAL (n_lit (g_node g q)))"
proof -
  have "cf_lit_descr ops g p = Some (Some (INTVAL (n_lit (g_node g p))))" "cf_lit_descr ops g q = Some (Some (INTVAL (n_lit (g_node g q))))"
    using assms(4-7) by (simp_all add: cf_lit_descr_def)
  moreover have "cf_fail_operand g nd = None" using assms(2,3,6,7) by (simp add: cf_fail_operand_def)
  ultimately show ?thesis using assms(1-5) by (simp add: cf_step_def Let_def)
qed

lemma cf_binop_five:
  assumes "code \<in> {BINOP_ADD, BINOP_SUB, BINOP_MUL, BINOP_DIV, BINOP_MOD}"
    "cf_eval ops (g_byte g, er) (INTVAL a) (INTVAL b) code = ((m, er'), out)"
  shows "cf_binop ops (g, er) nd code (INTVAL a) (INTVAL b) =
    (case out of None \<Rightarrow> Some ((g\<lparr>g_byte := m\<rparr>, er'), False)
     | Some r \<Rightarrow> if cf_subnormal r then Some ((g\<lparr>g_byte := m\<rparr>, er'), False)
         else do { (g, b) \<leftarrow> cf_store_descr ops (g\<lparr>g_byte := m\<rparr>) nd r; Some ((g, er'), b) })"
proof -
  have "(code = BINOP_LCONCAT) = False" "(code = BINOP_CONCAT_FRACDIGIT) = False" "binop_is_concat code = False"
    using assms(1) by (auto simp: binop_is_concat_def)
  moreover have "cf_subnormal (INTVAL w) = False" for w by (simp add: cf_subnormal_def INTVAL_def has_tag_def mk_descr_def)
  ultimately show ?thesis
    unfolding cf_binop_def Let_def prod.case assms(2) using assms(1) by (simp split: option.split)
qed

text \<open>
  C11. Folding computes exactly. A sum, difference, product, quotient or remainder of two integer literals
  whose divisor is not 0 becomes the literal of the result, the quotient and the remainder rounded to zero,
  whenever the result fits in 64 bits; a remainder always fits, and a quotient unless it is that of the least
  integer by -1 (\<open>foldable_div\<close>). The operands are dropped and nothing else of the graph, nor of memory or
  of the error registers, changes, but for the context of the operation, which is cleared.
\<close>

theorem cf_step_integers:
  assumes "nd \<noteq> 0" "n_op (g_node g nd) = IR_BINOP" "n_operands (g_node g nd) = [p, q]" "p \<noteq> 0" "q \<noteq> 0"
    "n_op (g_node g p) = IR_LIT_INTEGER" "n_op (g_node g q) = IR_LIT_INTEGER"
    "foldable (ir_ival (g_node g nd)) (ir_ival (g_node g p)) (ir_ival (g_node g q))"
  shows "\<exists>x. cf_step ops nd (g, er) = Some ((set_node nd x g, er\<lparr>op_ctx := False\<rparr>), True)
    \<and> n_op x = IR_LIT_INTEGER \<and> n_operands x = []
    \<and> ir_ival x = int_result (ir_ival (g_node g nd)) (ir_ival (g_node g p)) (ir_ival (g_node g q))
    \<and> n_gam x = n_gam (g_node g nd) \<and> n_omg x = n_omg (g_node g nd)"
proof -
  let ?code = "ir_ival (g_node g nd)" and ?a = "n_lit (g_node g p)" and ?b = "n_lit (g_node g q)"
  let ?z = "int_result ?code (sint ?a) (sint ?b)"
  let ?x = "(g_node g nd)\<lparr>n_op := IR_LIT_INTEGER, n_lit := of_int ?z, n_operands := []\<rparr>"
  have f: "foldable ?code (sint ?a) (sint ?b)" using assms(8) by (simp add: ir_ival_def)
  have code: "?code \<in> {BINOP_ADD, BINOP_SUB, BINOP_MUL, BINOP_DIV, BINOP_MOD}" using f by (simp add: foldable_def)
  have sub: "cf_subnormal (INTVAL w) = False" for w by (simp add: cf_subnormal_def INTVAL_def has_tag_def mk_descr_def)
  have "cf_step ops nd (g, er) = Some ((set_node nd ?x g, er\<lparr>op_ctx := False\<rparr>), True)"
    unfolding cf_step_literals [OF assms(1-7)] cf_binop_five [OF code cf_eval_int [OF f]]
    by (simp add: sub cf_store_descr_def)
  moreover have "ir_ival ?x = ?z" using f by (simp add: foldable_def ir_ival_def sint_no_overflow)
  ultimately show ?thesis by (intro exI [of _ ?x]) (simp add: ir_ival_def)
qed

lemma core_err_msgs_2: "core_err_msgs ! 2 = ''Error in arithmetic operation''"
  by (simp add: core_err_msgs_def)

lemma cf_eval_zero:
  assumes "code \<in> {BINOP_DIV, BINOP_MOD}" "0 \<le> errjmp_n er"
    "heap_strdup ops m (msg_text ops (if code = BINOP_DIV then ''division caused integer overflow'' else core_err_msgs ! 2)) = (m', t)"
  shows "cf_eval ops (m, er) (INTVAL a) (INTVAL 0) code = ((m', er\<lparr>op_ctx := False, kw_errtype := 2, kw_errtext := t\<rparr>), None)"
proof -
  have "code = BINOP_DIV \<or> code = BINOP_MOD" using assms(1) by simp
  then show ?thesis
    using assms(2,3)
    by (cases er; elim disjE)
       (simp_all add: cf_eval_def rt_num_arith_def int_road_def int_body_def rt_div_zero_def core_runtime_error_def
         rt_kw_publish_error_def Let_def)
qed

text \<open>
  Folding a quotient or a remainder by the literal 0 leaves the node as it is, as it must, and restores
  the saved registers; but the error it ran into stays visible to the program: \<open>&ERRTYPE\<close> is 2 and \<open>&ERRTEXT\<close>
  a copy of the message, before the program has run.
\<close>

lemma cf_step_zero_divisor:
  assumes "nd \<noteq> 0" "n_op (g_node g nd) = IR_BINOP" "n_operands (g_node g nd) = [p, q]" "p \<noteq> 0" "q \<noteq> 0"
    "n_op (g_node g p) = IR_LIT_INTEGER" "n_op (g_node g q) = IR_LIT_INTEGER"
    "ir_ival (g_node g nd) \<in> {BINOP_DIV, BINOP_MOD}" "n_lit (g_node g q) = 0" "0 \<le> errjmp_n er"
    "heap_strdup ops (g_byte g) (msg_text ops (if ir_ival (g_node g nd) = BINOP_DIV then ''division caused integer overflow''
       else ''Error in arithmetic operation'')) = (m, t)"
  shows "cf_step ops nd (g, er) =
    Some ((g\<lparr>g_byte := m\<rparr>, er\<lparr>op_ctx := False, kw_errtype := 2, kw_errtext := t\<rparr>), False)"
proof -
  have "heap_strdup ops (g_byte g) (msg_text ops (if ir_ival (g_node g nd) = BINOP_DIV then ''division caused integer overflow''
       else core_err_msgs ! 2)) = (m, t)"
    unfolding core_err_msgs_2 by (rule assms(11))
  from cf_eval_zero [OF assms(8,10) this] assms(8) show ?thesis
    unfolding cf_step_literals [OF assms(1-7)] assms(9) by (subst cf_binop_five) auto
qed

section \<open>An example\<close>

text \<open>The sum 16 of the literals 32 and 48 is the operand of the operation 64.\<close>

definition fold_demo :: ir_graph where
  "fold_demo = \<lparr>g_node = (\<lambda>_. zero_node)
      (16 := zero_node\<lparr>n_op := IR_BINOP, n_operands := [32, 48], n_gam := 64\<rparr>,
       32 := zero_node\<lparr>n_op := IR_LIT_INTEGER, n_lit := 20, n_gam := 48\<rparr>,
       48 := zero_node\<lparr>n_op := IR_LIT_INTEGER, n_lit := 22, n_gam := 16\<rparr>,
       64 := zero_node\<lparr>n_op := IR_UNOP, n_operands := [16]\<rparr>),
     g_byte = (\<lambda>_. 0), g_heap = [16, 32, 48, 64], g_all = [16, 32, 48, 64], g_max = 16, g_entry = 32, g_body_root = 0,
     g_dead = [], g_nparams = 0, g_resumable_callable = 0, g_smx = 0\<rparr>"

definition fresh_node :: "addr list \<Rightarrow> addr" where
  "fresh_node hp = hd (filter (\<lambda>a. a \<notin> set hp) (map of_nat [1..<card (set hp) + 2]))"

text \<open>A runtime that leaves every sum off the integer road by its error handler and joins no texts.\<close>

definition fold_demo_ops :: cf_ops where
  "fold_demo_ops = \<lparr>arith_rest = (\<lambda>me a b op. (me, None)), str_concat = (\<lambda>m a b. (m, FAILDESCR)),
     str_concat_fracdigit = (\<lambda>m a b. (m, FAILDESCR)), alloc_bytes = (\<lambda>g n. 4096), alloc_node = fresh_node,
     empty_text = 8192, msg_text = (\<lambda>s. 8192), heap_strdup = (\<lambda>m p. (m, 12288))\<rparr>"

definition no_errors :: rt_err where
  "no_errors = \<lparr>icn_errnumber = 0, icn_errtext = 0, icn_errvalue = FAILDESCR, icn_err_valid = 0,
     abi_error = 0, errjmp_n = 0, op_ctx = False, kw_errtype = 0, kw_errtext = 0\<rparr>"

lemma fresh_node_ok:
  assumes "card (set hp) < 2 ^ 60"
  shows "fresh_node hp \<notin> insert 0 (set hp)"
proof -
  let ?as = "map of_nat [1..<card (set hp) + 2] :: addr list"
  have unat_k: "unat (of_nat k :: addr) = k" if "k < card (set hp) + 2" for k
    using that assms by (intro of_nat_inverse [OF refl]) simp
  then have inj: "inj_on (of_nat :: nat \<Rightarrow> addr) {1..<card (set hp) + 2}"
    by (metis inj_onI atLeastLessThan_iff unat_k)
  have card: "card (set ?as) = card (set hp) + 1" using card_image [OF inj] by (simp del: upt_Suc add_2_eq_Suc')
  have "\<not> set ?as \<subseteq> set hp"
  proof
    assume "set ?as \<subseteq> set hp"
    then have "card (set ?as) \<le> card (set hp)" by (intro card_mono) simp_all
    then show False using card by simp
  qed
  then have "filter (\<lambda>a. a \<notin> set hp) ?as \<noteq> []" by (auto simp: filter_empty_conv)
  then have "fresh_node hp \<in> set (filter (\<lambda>a. a \<notin> set hp) ?as)" unfolding fresh_node_def by (rule hd_in_set)
  moreover have "(of_nat k :: addr) \<noteq> 0" if "1 \<le> k" "k < card (set hp) + 2" for k
    using that unat_k [of k] by (auto simp: unat_0_iff [symmetric])
  ultimately show ?thesis by (auto simp del: upt_Suc add_2_eq_Suc')
qed

lemma fold_demo_ok: "opt_ok fold_demo" "has_nul (g_byte fold_demo)" "lawful fold_demo_ops"
proof -
  have heap: "g_heap fold_demo = [16, 32, 48, 64]" "g_all fold_demo = [16, 32, 48, 64]" by (simp_all add: fold_demo_def)
  have "card (binops fold_demo) \<le> card (set (g_heap fold_demo))" by (intro card_mono) (auto simp: binops_def)
  then have "array_need fold_demo < 2 ^ 31" "heap_need fold_demo < 2 ^ 60"
    by (simp_all add: array_need_def heap_need_def heap)
  moreover have "graph_ok (set (g_heap fold_demo)) fold_demo"
    by (simp add: graph_ok_def fold_demo_def node_links_def zero_node_def)
  moreover have "all_once fold_demo" by (rule distinct_all_once) (simp add: heap)
  ultimately show "opt_ok fold_demo" by (simp add: opt_ok_def)
  show "has_nul (g_byte fold_demo)" by (simp add: has_nul_def fold_demo_def)
  show "lawful fold_demo_ops" using fresh_node_ok by (auto simp: lawful_def fold_demo_ops_def)
qed

theorem optimizer_run_keeps_witness:
  "\<exists>g er t. optimizer_run plain_env fold_demo_ops (fold_demo, no_errors) True = Some ((g, er), t)
    \<and> t \<and> graph_ok (set (g_heap g)) g \<and> all_once g"
  using optimizer_run_keeps [of "(fold_demo, no_errors)" fold_demo_ops plain_env True] fold_demo_ok
  by (auto simp: Let_def)

theorem cf_step_integers_witness:
  "\<exists>x. cf_step fold_demo_ops 16 (fold_demo, no_errors) = Some ((set_node 16 x fold_demo, no_errors), True)
    \<and> n_op x = IR_LIT_INTEGER \<and> ir_ival x = 42"
proof -
  have "foldable (ir_ival (g_node fold_demo 16)) (ir_ival (g_node fold_demo 32)) (ir_ival (g_node fold_demo 48))"
    "int_result (ir_ival (g_node fold_demo 16)) (ir_ival (g_node fold_demo 32)) (ir_ival (g_node fold_demo 48)) = 42"
    by code_simp+
  moreover have "no_errors\<lparr>op_ctx := False\<rparr> = no_errors" by (simp add: no_errors_def)
  ultimately show ?thesis
    using cf_step_integers [of 16 fold_demo 32 48 fold_demo_ops no_errors]
    by (auto simp: fold_demo_def zero_node_def)
qed

text \<open>The example with the quotient of 20 by 0.\<close>

definition zero_demo :: ir_graph where
  "zero_demo = set_node 48 ((g_node fold_demo 48)\<lparr>n_lit := 0\<rparr>) (set_node 16 ((g_node fold_demo 16)\<lparr>n_lit := 3\<rparr>) fold_demo)"

lemma cf_step_zero_divisor_demo:
  "cf_step fold_demo_ops 16 (zero_demo, no_errors) =
    Some ((zero_demo, no_errors\<lparr>kw_errtype := 2, kw_errtext := 12288\<rparr>), False)"
proof -
  have n: "g_node zero_demo 16 = zero_node\<lparr>n_op := IR_BINOP, n_operands := [32, 48], n_gam := 64, n_lit := 3\<rparr>"
    "n_op (g_node zero_demo 32) = IR_LIT_INTEGER" "n_op (g_node zero_demo 48) = IR_LIT_INTEGER" "n_lit (g_node zero_demo 48) = 0"
    by (simp_all add: zero_demo_def fold_demo_def set_node_def)
  have "ir_ival (g_node zero_demo 16) = 3" by (simp add: n ir_ival_def)
  moreover have "zero_demo\<lparr>g_byte := g_byte zero_demo\<rparr> = zero_demo" by (cases zero_demo) simp
  ultimately show ?thesis
    using cf_step_zero_divisor [of 16 zero_demo 32 48 no_errors fold_demo_ops "g_byte zero_demo" 12288] n
    by (simp add: fold_demo_ops_def no_errors_def)
qed

text \<open>
  The whole driver on the example: the sum is the literal 42, the literals it was the sum of are empty
  and the entry goes to it at once.
\<close>

lemma fold_demo_result:
  "map_option (\<lambda>((g, er), t). (n_op (g_node g 16), ir_ival (g_node g 16), n_operands (g_node g 16),
      n_op (g_node g 32), n_op (g_node g 48), g_entry g, t))
     (optimizer_run plain_env fold_demo_ops (fold_demo, no_errors) False)
   = Some (IR_LIT_INTEGER, 42, [], IR_SUCCEED, IR_SUCCEED, 16, False)"
  by code_simp

end
