(* ===== verification/Opt_Names.thy ===== *)
theory Opt_Names
  imports Opt_Props Numbering
begin

text \<open>
  The tables of names the emitter numbers its globals and procedures by: \<open>src/optimizer/gva_collect.c\<close>
  (global variables, a list with a hash table over it, and the names kept out of it) and
  \<open>src/optimizer/proc_collect.c\<close> (procedures called directly, a list). A name is its text, an option where
  the pointer may be null; the texts a table refers to do not change while it is in use. What the rest
  of the compiler relies on is the locale \<open>numbering_look\<close>.
\<close>

section \<open>Global variables\<close>

record gva =
  gva_names :: "string option list"
  gva_max :: nat
  gva_hx :: "(string \<times> nat) list"
  gva_hx_cap :: u32
  gva_hx_n :: nat
  gva_lo :: nat
  gva_io_names :: "string list"
  gva_io_max :: nat
  gva_kw_names :: "string list"
  gva_kw_max :: nat
  gva_kw_seeded :: bool
  gva_sn4_family :: bool
  gva_trace_demote :: bool

definition gva_hash :: "string \<Rightarrow> u32" where
  "gva_hash s = foldl (\<lambda>h c. (h XOR of_char c) * 16777619) 2166136261 s"

definition gva_hx_put :: "string \<Rightarrow> nat \<Rightarrow> gva \<Rightarrow> gva option" where
  "gva_hx_put name k g =
     (let m = gva_hx_cap g - 1 in do {
        h \<leftarrow> probe_run (\<lambda>e. snd e = 0) (gva_hx g) m (gva_hash name AND m);
        Some (g\<lparr>gva_hx := (gva_hx g)[unat h := (name, k + 1)]\<rparr>) })"

definition gva_io_refused :: "gva \<Rightarrow> string \<Rightarrow> bool" where
  "gva_io_refused g name \<longleftrightarrow> name \<in> set (gva_io_names g)"

definition gva_io_refuse_name :: "string option \<Rightarrow> gva \<Rightarrow> gva" where
  "gva_io_refuse_name name g =
     (case name of None \<Rightarrow> g | Some s \<Rightarrow>
        if s = [] \<or> gva_io_refused g s then g
        else let g = (if length (gva_io_names g) \<ge> gva_io_max g
                      then g\<lparr>gva_io_max := (if gva_io_max g \<noteq> 0 then gva_io_max g * 2 else 32)\<rparr> else g)
             in g\<lparr>gva_io_names := gva_io_names g @ [s]\<rparr>)"

text \<open>The text at an address, none for a null pointer.\<close>

definition c_text :: "mem \<Rightarrow> u64 \<Rightarrow> string option option" where
  "c_text m s =
     (if s = 0 then Some None
      else do { n \<leftarrow> c_strlen m s; Some (Some (map (\<lambda>k. char_of (unat (m (s + of_nat k)))) [0..<n])) })"

definition ir_kind0 :: "ir_node \<Rightarrow> ir_e" where
  "ir_kind0 x = (if n_op0 x \<noteq> 0 then n_op0 x else n_op x)"

definition gva_io_step :: "ir_graph \<Rightarrow> addr \<Rightarrow> gva \<Rightarrow> gva option" where
  "gva_io_step h nd g =
     (let x = g_node h nd in
      if nd = 0 \<or> ir_kind0 x \<noteq> IR_CALL then Some g
      else if n_lit x = 0 \<or> \<not> (c_streq (g_byte h) (n_lit x) ''INPUT'' \<or> c_streq (g_byte h) (n_lit x) ''OUTPUT'')
      then Some g
      else if n_operands x = [] \<or> hd (n_operands x) = 0 then Some g
      else let arg = g_node h (hd (n_operands x)) in
        if (n_op arg = IR_LIT_NAME \<or> n_op arg = IR_LIT_STRING) \<and> n_lit arg \<noteq> 0
        then do { s \<leftarrow> c_text (g_byte h) (n_lit arg); Some (gva_io_refuse_name s g) }
        else Some g)"

fun gva_io_scan :: "ir_graph \<Rightarrow> addr list \<Rightarrow> gva \<Rightarrow> gva option" where
  "gva_io_scan h [] g = Some g"
| "gva_io_scan h (a # as) g = do { g \<leftarrow> gva_io_step h a g; gva_io_scan h as g }"

definition gva_io_refuse_scan_graph :: "ir_graph \<Rightarrow> gva \<Rightarrow> gva option" where
  "gva_io_refuse_scan_graph h g = gva_io_scan h (g_all h) g"

definition gva_keyword_refused :: "gva \<Rightarrow> string \<Rightarrow> bool" where
  "gva_keyword_refused g name \<longleftrightarrow> name \<in> set (gva_kw_names g)"

definition gva_keyword_refuse_name :: "string option \<Rightarrow> gva \<Rightarrow> gva" where
  "gva_keyword_refuse_name name g =
     (case name of None \<Rightarrow> g | Some s \<Rightarrow>
        if s = [] \<or> gva_keyword_refused g s then g
        else let g = (if length (gva_kw_names g) \<ge> gva_kw_max g
                      then g\<lparr>gva_kw_max := (if gva_kw_max g \<noteq> 0 then gva_kw_max g * 2 else 32)\<rparr> else g)
             in g\<lparr>gva_kw_names := gva_kw_names g @ [s]\<rparr>)"

definition gva_keyword_refuse_reset :: "gva \<Rightarrow> gva" where
  "gva_keyword_refuse_reset g =
     g\<lparr>gva_kw_names := [], gva_kw_seeded := True, gva_sn4_family := False, gva_trace_demote := False\<rparr>"

definition gva_snobol4_keywords :: "string list" where
  "gva_snobol4_keywords =
     [''INPUT'', ''OUTPUT'', ''PUNCH'', ''TERMINAL'', ''PUNCHAR'', ''STLIMIT'', ''STCOUNT'', ''STNO'', ''ANCHOR'',
      ''TRIM'', ''FULLSCAN'', ''CASE'', ''MAXLNGTH'', ''FTRACE'', ''TRACE'', ''ERRLIMIT'', ''CODE'', ''FNCLEVEL'',
      ''RTNTYPE'', ''ALPHABET'', ''ABEND'', ''DUMP'', ''STEXEC'', ''ERRTYPE'', ''ERRTEXT'', ''GTRACE'',
      ''FATALLIMIT'', ''PARM'', ''PI'']"

definition gva_keyword_refuse_seed_snobol4 :: "gva \<Rightarrow> gva" where
  "gva_keyword_refuse_seed_snobol4 g =
     fold (\<lambda>k. gva_keyword_refuse_name (Some k)) gva_snobol4_keywords (g\<lparr>gva_kw_seeded := True, gva_sn4_family := True\<rparr>)"

text \<open>\<open>strcasecmp\<close> in the C locale.\<close>

definition lower_byte :: "u8 \<Rightarrow> u8" where
  "lower_byte b = (if 65 \<le> b \<and> b \<le> 90 then b + 32 else b)"

definition c_strcaseeq :: "mem \<Rightarrow> u64 \<Rightarrow> string \<Rightarrow> bool" where
  "c_strcaseeq m s t \<longleftrightarrow> c_streq (\<lambda>q. lower_byte (m q)) s t"

definition gva_trace_type_provably_non_access :: "ir_graph \<Rightarrow> addr \<Rightarrow> bool" where
  "gva_trace_type_provably_non_access h arg =
     (let x = g_node h arg in
      if arg = 0 then False
      else if n_op x \<noteq> IR_LIT_NAME \<and> n_op x \<noteq> IR_LIT_STRING then False
      else if n_lit x = 0 then False
      else \<not> (c_strcaseeq (g_byte h) (n_lit x) ''a'' \<or> c_strcaseeq (g_byte h) (n_lit x) ''access''))"

definition gva_trace_access :: "ir_graph \<Rightarrow> addr \<Rightarrow> bool" where
  "gva_trace_access h nd \<longleftrightarrow>
     (let x = g_node h nd in
      nd \<noteq> 0 \<and> ir_kind0 x = IR_CALL \<and> n_lit x \<noteq> 0 \<and> c_streq (g_byte h) (n_lit x) ''TRACE''
      \<and> length (n_operands x) \<ge> 2 \<and> \<not> gva_trace_type_provably_non_access h (n_operands x ! 1))"

definition gva_trace_demote_scan_graph :: "ir_graph \<Rightarrow> gva \<Rightarrow> gva" where
  "gva_trace_demote_scan_graph h g =
     (if \<not> gva_sn4_family g \<or> gva_trace_demote g then g
      else if \<exists>nd\<in>set (g_all h). gva_trace_access h nd then g\<lparr>gva_trace_demote := True\<rparr> else g)"

text \<open>\<open>is_protected_pat_name\<close> of \<open>src/runtime/rt/rt_protected.c\<close>.\<close>

definition is_protected_pat_name :: "string \<Rightarrow> bool" where
  "is_protected_pat_name name \<longleftrightarrow>
     (case name of
        [] \<Rightarrow> False
      | c # _ \<Rightarrow>
          if c = CHR ''A'' then name = ''ARB'' \<or> name = ''ABORT''
          else if c = CHR ''B'' then name = ''BAL''
          else if c = CHR ''F'' then name = ''FENCE'' \<or> name = ''FAIL''
          else if c = CHR ''R'' then name = ''REM''
          else if c = CHR ''S'' then name = ''SUCCEED''
          else False)"

definition gva_name_eligible :: "gva \<Rightarrow> string option \<Rightarrow> bool" where
  "gva_name_eligible g name =
     (case name of None \<Rightarrow> False | Some s \<Rightarrow>
        if s = [] then False
        else if hd s = CHR ''&'' then False
        else if gva_keyword_refused g s then False
        else if is_protected_pat_name s then False
        else if gva_io_refused g s then False
        else True)"

definition gva_collect_reserve_n :: "int \<Rightarrow> gva \<Rightarrow> (gva \<times> int) option" where
  "gva_collect_reserve_n n g =
     (let base = length (gva_names g) in
      if n \<le> 0 then Some (g, int base)
      else do {
        nm \<leftarrow> (if int base + n > int (gva_max g)
               then while_option (\<lambda>nm. int nm < int base + n) (\<lambda>nm. nm * 2) (if gva_max g \<noteq> 0 then gva_max g else 256)
               else Some (gva_max g));
        Some (g\<lparr>gva_max := nm, gva_names := gva_names g @ replicate (nat n) None\<rparr>, int base) })"

text \<open>\<open>r\<close> is what \<open>rt_sc_gva_reserve\<close> of the runtime answers.\<close>

definition gva_collect_reset :: "int \<Rightarrow> gva \<Rightarrow> gva option" where
  "gva_collect_reset r g =
     (let g = g\<lparr>gva_names := [], gva_hx_n := 0, gva_lo := 0\<rparr>;
          g = (if gva_hx_cap g \<noteq> 0 then g\<lparr>gva_hx := replicate (unat (gva_hx_cap g)) ([], 0)\<rparr> else g)
      in if r > 0 then map_option fst (gva_collect_reserve_n r g) else Some g)"

definition gva_index_of :: "gva \<Rightarrow> string option \<Rightarrow> int option" where
  "gva_index_of g name =
     (case name of None \<Rightarrow> Some (-1) | Some s \<Rightarrow>
        if gva_names g = [] \<or> gva_hx_cap g = 0 then Some (-1)
        else let m = gva_hx_cap g - 1 in do {
          h \<leftarrow> probe_run (\<lambda>e. snd e = 0 \<or> fst e = s) (gva_hx g) m (gva_hash s AND m);
          Some (if snd (gva_hx g ! unat h) \<noteq> 0 then int (snd (gva_hx g ! unat h)) - 1 else -1) })"

fun gva_hx_fill :: "nat \<Rightarrow> string option list \<Rightarrow> gva \<Rightarrow> gva option" where
  "gva_hx_fill i [] g = Some g"
| "gva_hx_fill i (None # os) g = gva_hx_fill (Suc i) os g"
| "gva_hx_fill i (Some s # os) g = do { g \<leftarrow> gva_hx_put s i g; gva_hx_fill (Suc i) os g }"

text \<open>The capacity the hash table grows to for \<open>n\<close> names.\<close>

definition gva_hx_grown :: "u32 \<Rightarrow> nat \<Rightarrow> u32 option" where
  "gva_hx_grown cap n =
     while_option (\<lambda>c. unat c < n * 2 + 2) (\<lambda>c. c * 2) (if cap \<noteq> 0 then cap * 2 else 256)"

definition gva_append :: "string option \<Rightarrow> gva \<Rightarrow> gva" where
  "gva_append name g =
     (let g = (if length (gva_names g) \<ge> gva_max g
               then g\<lparr>gva_max := (if gva_max g \<noteq> 0 then gva_max g * 2 else 256)\<rparr> else g)
      in g\<lparr>gva_names := gva_names g @ [name]\<rparr>)"

definition gva_collect_var :: "gva \<Rightarrow> string option \<Rightarrow> (gva \<times> int) option" where
  "gva_collect_var g name =
     (if \<not> gva_name_eligible g name then Some (g, -1)
      else do {
        k \<leftarrow> gva_index_of g name;
        if k \<ge> 0 then Some (g, k)
        else do {
          let g = gva_append name g;
          let k = length (gva_names g) - 1;
          let g = (if gva_hx_n g = 0 then g\<lparr>gva_lo := k\<rparr> else g);
          let g = g\<lparr>gva_hx_n := gva_hx_n g + 1\<rparr>;
          g \<leftarrow> (if gva_hx_n g * 2 > unat (gva_hx_cap g)
                then do {
                  c \<leftarrow> gva_hx_grown (gva_hx_cap g) (gva_hx_n g);
                  gva_hx_fill (gva_lo g) (drop (gva_lo g) (gva_names g))
                    (g\<lparr>gva_hx := replicate (unat c) ([], 0), gva_hx_cap := c\<rparr>) }
                else gva_hx_put (the name) k g);
          Some (g, int k) } })"

definition gva_collect_reserve :: "gva \<Rightarrow> gva \<times> int" where
  "gva_collect_reserve g = (gva_append None g, int (length (gva_names g)))"

definition gva_collect_var_copy :: "gva \<Rightarrow> string option \<Rightarrow> (gva \<times> int) option" where
  "gva_collect_var_copy g name =
     (if \<not> gva_name_eligible g name then Some (g, -1)
      else do {
        k \<leftarrow> gva_index_of g name;
        if k \<ge> 0 then Some (g, k) else gva_collect_var g name })"

definition starts_with :: "string \<Rightarrow> string \<Rightarrow> bool" where
  "starts_with p s \<longleftrightarrow> take (length p) s = p"

definition gva_name_hidden :: "string option \<Rightarrow> bool" where
  "gva_name_hidden name =
     (case name of None \<Rightarrow> False | Some s \<Rightarrow>
        starts_with ''SCV$'' s \<or> starts_with ''SNO$VL$'' s \<or> starts_with ''PATV$'' s \<or> starts_with ''PAT$'' s)"

definition gva_count :: "gva \<Rightarrow> int" where
  "gva_count g = int (length (gva_names g))"

definition gva_name :: "gva \<Rightarrow> int \<Rightarrow> string option" where
  "gva_name g k = (if 0 \<le> k \<and> k < int (length (gva_names g)) then gva_names g ! nat k else None)"

section \<open>Procedures\<close>

record proc_slots =
  proc_names :: "string list"
  proc_max :: nat
  scc_taint :: bool
  scc_inherited :: bool

definition proc_collect_reset :: "proc_slots \<Rightarrow> proc_slots" where
  "proc_collect_reset p = p\<lparr>proc_names := []\<rparr>"

fun proc_find :: "nat \<Rightarrow> string list \<Rightarrow> string \<Rightarrow> int" where
  "proc_find i [] s = -1"
| "proc_find i (x # xs) s = (if x = s then int i else proc_find (Suc i) xs s)"

definition proc_slot_of :: "proc_slots \<Rightarrow> string option \<Rightarrow> int" where
  "proc_slot_of p name = (case name of None \<Rightarrow> -1 | Some s \<Rightarrow> proc_find 0 (proc_names p) s)"

definition proc_collect_add :: "proc_slots \<Rightarrow> string option \<Rightarrow> proc_slots \<times> int" where
  "proc_collect_add p name =
     (case name of None \<Rightarrow> (p, -1) | Some s \<Rightarrow>
        if s = [] then (p, -1)
        else let k = proc_slot_of p name in
          if k \<ge> 0 then (p, k)
          else let p = (if length (proc_names p) \<ge> proc_max p
                        then p\<lparr>proc_max := (if proc_max p \<noteq> 0 then proc_max p * 2 else 64)\<rparr> else p)
               in (p\<lparr>proc_names := proc_names p @ [s]\<rparr>, int (length (proc_names p))))"

definition proc_slot_count :: "proc_slots \<Rightarrow> int" where
  "proc_slot_count p = int (length (proc_names p))"

definition proc_slot_name :: "proc_slots \<Rightarrow> int \<Rightarrow> string option" where
  "proc_slot_name p k = (if 0 \<le> k \<and> k < int (length (proc_names p)) then Some (proc_names p ! nat k) else None)"

text \<open>What the runtime knows of its procedures is an argument: which are registered, and their frames.\<close>

record proc_table =
  rt_proc_is_registered :: "string \<Rightarrow> bool"
  rt_proc_frame_nslots :: "string \<Rightarrow> int"

definition proc_direct_eligible :: "proc_table \<Rightarrow> string option \<Rightarrow> bool" where
  "proc_direct_eligible t name =
     (case name of None \<Rightarrow> False | Some s \<Rightarrow> s \<noteq> [] \<and> rt_proc_is_registered t s \<and> rt_proc_frame_nslots t s < 0)"

definition proc_step :: "proc_table \<Rightarrow> ir_graph \<Rightarrow> addr \<Rightarrow> proc_slots \<Rightarrow> proc_slots option" where
  "proc_step t h nd p =
     (let x = g_node h nd in
      if nd = 0 \<or> n_lit x = 0 then Some p
      else if n_op x = IR_CALL \<or> n_op x = IR_CALL_PROC_STAGED
      then do {
        s \<leftarrow> c_text (g_byte h) (n_lit x);
        Some (if proc_direct_eligible t s then fst (proc_collect_add p s) else p) }
      else Some p)"

fun proc_scan :: "proc_table \<Rightarrow> ir_graph \<Rightarrow> addr list \<Rightarrow> proc_slots \<Rightarrow> proc_slots option" where
  "proc_scan t h [] p = Some p"
| "proc_scan t h (a # as) p = do { p \<leftarrow> proc_step t h a p; proc_scan t h as p }"

definition proc_collect_graph :: "proc_table \<Rightarrow> ir_graph \<Rightarrow> proc_slots \<Rightarrow> proc_slots option" where
  "proc_collect_graph t h p = proc_scan t h (g_all h) p"

definition rt_scc_taint_inherit :: "proc_slots \<Rightarrow> proc_slots" where
  "rt_scc_taint_inherit p = p\<lparr>scc_inherited := True\<rparr>"

definition scc_program_ok :: "proc_slots \<Rightarrow> bool" where
  "scc_program_ok p \<longleftrightarrow> \<not> scc_taint p \<and> \<not> scc_inherited p"

section \<open>Procedures are numbered\<close>

lemma proc_find_cases:
  "if s \<in> set xs then \<exists>k<length xs. proc_find i xs s = int (i + k) \<and> xs ! k = s else proc_find i xs s = -1"
proof (induction xs arbitrary: i)
  case (Cons x xs)
  show ?case
  proof (cases "x = s")
    case False
    then show ?thesis using Cons.IH [of "Suc i"] by (auto split: if_splits)
  qed auto
qed simp

interpretation prx: numbering_look "\<lambda>p x. Some (proc_collect_add p (Some x))" proc_slot_name
  proc_slot_count "\<lambda>p x. x \<noteq> []" "\<lambda>p. distinct (proc_names p)" "\<lambda>p. 2 ^ 31 - 1 - length (proc_names p)" "-1"
  "\<lambda>p x. Some (proc_slot_of p (Some x))"
proof unfold_locales
  fix p :: proc_slots and x k
  assume p: "distinct (proc_names p)"
  have at: "proc_slot_name p k = Some x \<longleftrightarrow> (\<exists>i<length (proc_names p). k = int i \<and> proc_names p ! i = x)" for k x
    by (auto simp: proc_slot_name_def intro!: exI [of _ "nat k"])
  have known: "proc_slot_of p (Some x) = k" if "proc_slot_name p k = Some x" for k x
    using proc_find_cases [of x "proc_names p" 0] that p
    by (auto simp: proc_slot_of_def at nth_eq_iff_index_eq split: if_splits)
  have none: "(\<forall>k. proc_slot_name p k \<noteq> Some x) \<longleftrightarrow> x \<notin> set (proc_names p)" for x
    by (auto simp: at in_set_conv_nth)
  show "j = k" if "proc_slot_name p k = Some x" "proc_slot_name p j = Some x" for j
    using known [OF that(1)] known [OF that(2)] by simp
  show "k < proc_slot_count p" if "proc_slot_name p k = Some x" using that by (auto simp: at proc_slot_count_def)
  show "Some (proc_collect_add p (Some x)) = Some (p, -1)" if "\<not> x \<noteq> []" using that by (simp add: proc_collect_add_def)
  show "Some (proc_slot_of p (Some x)) = Some k" if "proc_slot_name p k = Some x" using known [OF that] by simp
  show "Some (proc_slot_of p (Some x)) = Some (-1)" if "\<forall>k. proc_slot_name p k \<noteq> Some x"
    using that proc_find_cases [of x "proc_names p" 0] unfolding none by (simp add: proc_slot_of_def)
  show "\<exists>s'. Some (proc_collect_add p (Some x)) = Some (s', k) \<and> distinct (proc_names s')
      \<and> 2 ^ 31 - 1 - length (proc_names p) \<le> Suc (2 ^ 31 - 1 - length (proc_names s')) \<and> proc_slot_count s' = proc_slot_count p
      \<and> (\<lambda>x :: string. x \<noteq> []) = (\<lambda>x. x \<noteq> []) \<and> proc_slot_name s' = proc_slot_name p"
    if "x \<noteq> []" "proc_slot_name p k = Some x"
    using that known [OF that(2)] at p by (intro exI [of _ p]) (auto simp: proc_collect_add_def)
  show "\<exists>s'. Some (proc_collect_add p (Some x)) = Some (s', proc_slot_count p) \<and> distinct (proc_names s')
      \<and> 2 ^ 31 - 1 - length (proc_names p) \<le> Suc (2 ^ 31 - 1 - length (proc_names s')) \<and> proc_slot_count s' = proc_slot_count p + 1
      \<and> (\<lambda>x :: string. x \<noteq> []) = (\<lambda>x. x \<noteq> []) \<and> proc_slot_name s' = (proc_slot_name p)(proc_slot_count p := Some x)"
    if "x \<noteq> []" "\<forall>k. proc_slot_name p k \<noteq> Some x"
  proof -
    have new: "x \<notin> set (proc_names p)" using that(2) none by blast
    then have "proc_slot_of p (Some x) = -1" using proc_find_cases [of x "proc_names p" 0] by (simp add: proc_slot_of_def)
    then show ?thesis using that(1) p new
      by (auto simp: proc_collect_add_def Let_def proc_slot_name_def proc_slot_count_def fun_eq_iff nth_append)
  qed
qed

section \<open>Global variables are numbered\<close>

definition gva_key :: "string \<times> nat \<Rightarrow> string option" where
  "gva_key e = (if snd e = 0 then None else Some (fst e))"

lemma gva_key_simps [simp]: "gva_key e = None \<longleftrightarrow> snd e = 0" "gva_key e = Some x \<longleftrightarrow> snd e \<noteq> 0 \<and> fst e = x"
  by (auto simp: gva_key_def)

interpretation gvx: probing "\<lambda>s msk. gva_hash s AND msk" gva_key
  by unfold_locales (rule unat_mask_slot)

definition named :: "string option list \<Rightarrow> string option list" where
  "named ns = filter (\<lambda>o'. o' \<noteq> None) ns"

lemma named_simps [simp]: "named [] = []" "named (ns @ ms) = named ns @ named ms"
    "named (None # ns) = named ns" "named (Some x # ns) = Some x # named ns"
  by (simp_all add: named_def)

lemma set_named: "Some x \<in> set (named ns) \<longleftrightarrow> Some x \<in> set ns"
  by (simp add: named_def)

text \<open>The hash table holds exactly the names of the list, each with its number.\<close>

definition gva_tab :: "nat \<Rightarrow> string option list \<Rightarrow> (string \<times> nat) list \<Rightarrow> bool" where
  "gva_tab m ns hx \<longleftrightarrow> gvx.reachable m hx \<and> gvx.keys hx = {x. Some x \<in> set ns}
     \<and> (\<forall>e\<in>set hx. snd e \<noteq> 0 \<longrightarrow> snd e \<le> length ns \<and> ns ! (snd e - 1) = Some (fst e))"

lemma gva_tab_empty:
  assumes "m < 32" "named ns = []"
  shows "gva_tab m ns (replicate (2 ^ m) ([], 0))"
proof -
  have "Some x \<notin> set ns" for x using assms(2) set_named [of x ns] by simp
  then show ?thesis using assms(1) by (simp add: gva_tab_def gvx.reachable_empty gvx.keys_empty)
qed

lemma gva_tab_roomy:
  assumes "gva_tab m ns hx" "length (named ns) < 2 ^ m"
  shows "gvx.roomy hx"
proof (rule gvx.roomy_few)
  show "gvx.reachable m hx" using assms(1) by (simp add: gva_tab_def)
  have "{x. Some x \<in> set ns} \<subseteq> the ` set (named ns)" by (force simp: named_def)
  then have "card (gvx.keys hx) \<le> card (the ` set (named ns))"
    using assms(1) by (intro card_mono) (simp_all add: gva_tab_def)
  also have "\<dots> \<le> length (named ns)" by (meson card_image_le card_length List.finite_set le_trans)
  finally show "card (gvx.keys hx) < 2 ^ m" using assms(2) by simp
qed

lemma cap_mask32: "c = (2 :: u32) ^ m \<Longrightarrow> c - 1 = mask m"
  by (simp add: mask_eq_exp_minus_1)

lemma gva_tab_none: "gva_tab m ns hx \<Longrightarrow> gva_tab m (ns @ [None]) hx"
  by (auto simp: gva_tab_def nth_append)

lemma gva_put_ok:
  assumes "gva_tab m ns (gva_hx g)" "length (named ns) < 2 ^ m" "gva_hx_cap g = 2 ^ m" "Some x \<notin> set ns"
  shows "\<exists>hx. gva_hx_put x (length ns) g = Some (g\<lparr>gva_hx := hx\<rparr>) \<and> gva_tab m (ns @ [Some x]) hx"
proof -
  let ?hx = "gva_hx g" and ?e = "(x, length ns + 1)"
  have r: "gvx.reachable m ?hx" and len: "length ?hx = 2 ^ m"
    using assms(1) by (auto simp: gva_tab_def gvx.reachable_def)
  note roomy = gva_tab_roomy [OF assms(1,2)]
  have new: "x \<notin> gvx.keys ?hx" using assms(1,4) by (simp add: gva_tab_def)
  have "probe_run (\<lambda>e. snd e = 0) ?hx (gva_hx_cap g - 1) (gva_hash x AND (gva_hx_cap g - 1)) = gvx.hunt ?hx m x"
    unfolding cap_mask32 [OF assms(3)] by (rule gvx.hunt_free [OF r roomy new]) simp
  moreover obtain t where t: "gvx.hunt ?hx m x = Some t" "unat t < 2 ^ m"
    using gvx.hunt_result [OF r roomy, of x] by blast
  ultimately have put: "gva_hx_put x (length ns) g = Some (g\<lparr>gva_hx := ?hx[unat t := ?e]\<rparr>)"
    by (simp add: gva_hx_put_def Let_def)
  have key: "gva_key ?e = Some x" by simp
  have "snd e \<le> length (ns @ [Some x]) \<and> (ns @ [Some x]) ! (snd e - 1) = Some (fst e)"
    if "e \<in> set (?hx[unat t := ?e])" "snd e \<noteq> 0" for e
  proof (cases "e = ?e")
    case False
    then have "e \<in> set ?hx" using that(1) set_update_subset_insert [of ?hx "unat t" ?e] by blast
    then have "snd e \<le> length ns" "ns ! (snd e - 1) = Some (fst e)" using assms(1) that(2) by (auto simp: gva_tab_def)
    moreover from this have "snd e - 1 < length ns" using that(2) by linarith
    ultimately show ?thesis by (simp add: nth_append)
  qed simp
  moreover have "gvx.keys (?hx[unat t := ?e]) = {y. Some y \<in> set (ns @ [Some x])}"
    using gvx.keys_store [OF r roomy t(1) key] assms(1) by (auto simp: gva_tab_def)
  ultimately show ?thesis using put gvx.reachable_store [OF r roomy t(1) key]
    by (intro exI [of _ "?hx[unat t := ?e]"]) (simp add: gva_tab_def)
qed

lemma gva_fill_ok:
  "gva_tab m ns (gva_hx g) \<Longrightarrow> length (named (ns @ os)) < 2 ^ m \<Longrightarrow> gva_hx_cap g = 2 ^ m \<Longrightarrow> distinct (named (ns @ os)) \<Longrightarrow>
   \<exists>hx. gva_hx_fill (length ns) os g = Some (g\<lparr>gva_hx := hx\<rparr>) \<and> gva_tab m (ns @ os) hx"
proof (induction os arbitrary: ns g)
  case Nil
  then show ?case by (intro exI [of _ "gva_hx g"]) simp
next
  case (Cons q os)
  show ?case
  proof (cases q)
    case None
    have "\<exists>hx. gva_hx_fill (length (ns @ [None])) os g = Some (g\<lparr>gva_hx := hx\<rparr>) \<and> gva_tab m ((ns @ [None]) @ os) hx"
      by (rule Cons.IH [OF gva_tab_none [OF Cons.prems(1)]]) (use Cons.prems None in simp_all)
    then show ?thesis using None by simp
  next
    case (Some x)
    have "Some x \<notin> set ns" using Cons.prems(4) Some set_named [of x ns] by simp
    then obtain hx where hx: "gva_hx_put x (length ns) g = Some (g\<lparr>gva_hx := hx\<rparr>)" "gva_tab m (ns @ [Some x]) hx"
      using gva_put_ok [OF Cons.prems(1) _ Cons.prems(3)] Cons.prems(2) by auto
    have "\<exists>hx'. gva_hx_fill (length (ns @ [Some x])) os (g\<lparr>gva_hx := hx\<rparr>) = Some (g\<lparr>gva_hx := hx, gva_hx := hx'\<rparr>)
        \<and> gva_tab m ((ns @ [Some x]) @ os) hx'"
      by (rule Cons.IH) (use Cons.prems Some hx(2) in simp_all)
    then show ?thesis using Some hx(1) by simp
  qed
qed

lemma gva_hx_grown_ok:
  assumes "m < 32" "cap = 0 \<or> cap = 2 ^ m \<and> m < 31" "n < 2 ^ 30"
  shows "\<exists>k. gva_hx_grown cap n = Some (2 ^ k) \<and> k < 32 \<and> 2 * n + 2 \<le> 2 ^ k"
proof -
  let ?j = "if cap \<noteq> 0 then Suc m else 8"
  have start: "(if cap \<noteq> 0 then cap * 2 else 256) = (2 :: u32) ^ ?j"
    using assms(2) by (auto simp: mult.commute)
  have "unat (of_nat (2 * n + 2) :: u32) = 2 * n + 2" using assms(3) by (intro of_nat_inverse [OF refl]) simp
  then have "unat c < n * 2 + 2 \<longleftrightarrow> c < of_nat (2 * n + 2)" for c :: u32
    unfolding word_less_nat_alt by (simp only: mult.commute)
  moreover have "c * 2 = push_bit 1 c" for c :: u32 by (simp add: push_bit_eq_mult mult.commute)
  ultimately have "gva_hx_grown cap n = while_option (\<lambda>c. c < of_nat (2 * n + 2)) (push_bit 1) (2 ^ ?j)"
    unfolding gva_hx_grown_def start by presburger
  moreover have "?j < LENGTH(32)" using assms(1,2) by auto
  moreover have "2 * n + 2 \<le> 2 ^ (LENGTH(32) - 1)" using assms(3) by simp
  ultimately show ?thesis using double_until [where 'w = 32, of "2 * n + 2" ?j] by auto
qed

text \<open>
  The state of the table. Reserved numbers have no name; the names begin at \<open>gva_lo\<close>, and half of the
  hash table is empty.
\<close>

definition gva_ok :: "gva \<Rightarrow> bool" where
  "gva_ok g \<longleftrightarrow> distinct (named (gva_names g)) \<and> gva_hx_n g = length (named (gva_names g))
     \<and> gva_lo g \<le> length (gva_names g) \<and> named (take (gva_lo g) (gva_names g)) = [] \<and> gva_hx_n g < 2 ^ 30
     \<and> (gva_hx_cap g = 0 \<and> gva_hx_n g = 0
        \<or> (\<exists>m<32. gva_hx_cap g = 2 ^ m \<and> gva_tab m (gva_names g) (gva_hx g) \<and> 2 * gva_hx_n g \<le> 2 ^ m))"

lemma named_unique:
  assumes "distinct (named ns)" "i < length ns" "j < length ns" "ns ! i = Some x" "ns ! j = Some x"
  shows "i = j"
proof -
  have "i \<le> j" if "distinct (named ns)" "i < length ns" "ns ! i = Some x" "j < length ns" "ns ! j = Some x" for i j
  proof (rule ccontr)
    assume "\<not> i \<le> j"
    then have "j < length (take i ns)" "take i ns ! j = Some x" using that(2,5) by simp_all
    then have "Some x \<in> set (named (take i ns))" unfolding set_named by (metis nth_mem)
    moreover have "named ns = named (take i ns) @ Some x # named (drop (Suc i) ns)"
      using id_take_nth_drop [OF that(2)] that(3) by (metis named_simps(2,4))
    ultimately show False using that(1) by simp
  qed
  then show ?thesis using assms by (meson le_antisym)
qed

lemma gva_name_at: "gva_name g k = Some x \<longleftrightarrow> (\<exists>i<length (gva_names g). k = int i \<and> gva_names g ! i = Some x)"
  by (auto simp: gva_name_def intro!: exI [of _ "nat k"])

lemma gva_name_none: "(\<forall>k. gva_name g k \<noteq> Some x) \<longleftrightarrow> Some x \<notin> set (gva_names g)"
  by (auto simp: gva_name_at in_set_conv_nth)

lemma gva_index_ok:
  assumes "gva_ok g"
  shows "if Some x \<in> set (gva_names g)
    then \<exists>i<length (gva_names g). gva_index_of g (Some x) = Some (int i) \<and> gva_names g ! i = Some x
    else gva_index_of g (Some x) = Some (-1)"
proof (cases "gva_names g = [] \<or> gva_hx_cap g = 0")
  case True
  have "Some x \<notin> set (gva_names g)"
  proof
    assume "Some x \<in> set (gva_names g)"
    then have "gva_hx_cap g = 0" "named (gva_names g) \<noteq> []" using True set_named [of x "gva_names g"] by auto
    then show False using assms by (auto simp: gva_ok_def)
  qed
  then show ?thesis using True by (simp add: gva_index_of_def)
next
  case False
  let ?hx = "gva_hx g"
  obtain m where m: "m < 32" "gva_hx_cap g = 2 ^ m" "gva_tab m (gva_names g) ?hx" "2 * gva_hx_n g \<le> 2 ^ m"
    using assms False by (auto simp: gva_ok_def)
  have "length (named (gva_names g)) < 2 ^ m" using assms m(4) by (cases "gva_hx_n g") (auto simp: gva_ok_def)
  note roomy = gva_tab_roomy [OF m(3) this]
  have r: "gvx.reachable m ?hx" "length ?hx = 2 ^ m" using m(3) by (auto simp: gva_tab_def gvx.reachable_def)
  have "gvx.stops x = (\<lambda>e. snd e = 0 \<or> fst e = x)" by (auto simp: gvx.stops_def fun_eq_iff)
  then have "probe_run (\<lambda>e. snd e = 0 \<or> fst e = x) ?hx (gva_hx_cap g - 1) (gva_hash x AND (gva_hx_cap g - 1))
      = gvx.hunt ?hx m x"
    unfolding cap_mask32 [OF m(2)] gvx.hunt_def by simp
  moreover obtain t where t: "gvx.hunt ?hx m x = Some t" "unat t < 2 ^ m"
      "gva_key (?hx ! unat t) = (if x \<in> gvx.keys ?hx then Some x else None)"
    using gvx.hunt_result [OF r(1) roomy, of x] by blast
  ultimately have look: "gva_index_of g (Some x)
      = Some (if snd (?hx ! unat t) \<noteq> 0 then int (snd (?hx ! unat t)) - 1 else -1)"
    using False by (simp add: gva_index_of_def Let_def)
  have keys: "x \<in> gvx.keys ?hx \<longleftrightarrow> Some x \<in> set (gva_names g)" using m(3) by (simp add: gva_tab_def)
  show ?thesis
  proof (cases "Some x \<in> set (gva_names g)")
    case True
    then have e: "snd (?hx ! unat t) \<noteq> 0" "fst (?hx ! unat t) = x" using t(3) keys by simp_all
    have "?hx ! unat t \<in> set ?hx" using t(2) r(2) by simp
    then have n: "snd (?hx ! unat t) \<le> length (gva_names g)" "gva_names g ! (snd (?hx ! unat t) - 1) = Some x"
      using m(3) e by (auto simp: gva_tab_def)
    have "int (snd (?hx ! unat t)) - 1 = int (snd (?hx ! unat t) - 1)" using e(1) by simp
    then show ?thesis using True look e(1) n by (intro if_P [THEN iffD2]) (auto intro!: exI [of _ "snd (?hx ! unat t) - 1"])
  next
    case False
    then show ?thesis using look t(3) keys by simp
  qed
qed

text \<open>A new name gets the next number.\<close>

lemma gva_collect_new:
  assumes ok: "gva_ok g" and el: "gva_name_eligible g (Some x)" and new: "Some x \<notin> set (gva_names g)"
    and room: "length (gva_names g) < 2 ^ 30 - 1"
  shows "\<exists>g'. gva_collect_var g (Some x) = Some (g', int (length (gva_names g))) \<and> gva_ok g'
    \<and> gva_names g' = gva_names g @ [Some x] \<and> gva_kw_names g' = gva_kw_names g \<and> gva_io_names g' = gva_io_names g"
proof -
  let ?ns = "gva_names g" and ?n = "length (gva_names g)"
  define g1 where "g1 = gva_append (Some x) g"
  define g2 where "g2 = (if gva_hx_n g1 = 0 then g1\<lparr>gva_lo := ?n\<rparr> else g1)"
  define g3 where "g3 = g2\<lparr>gva_hx_n := gva_hx_n g2 + 1\<rparr>"
  have f: "gva_names g3 = ?ns @ [Some x]" "gva_hx_n g3 = gva_hx_n g + 1" "gva_hx g3 = gva_hx g" "gva_hx_cap g3 = gva_hx_cap g"
      "gva_lo g3 = (if gva_hx_n g = 0 then ?n else gva_lo g)" "gva_kw_names g3 = gva_kw_names g" "gva_io_names g3 = gva_io_names g"
    by (simp_all add: g3_def g2_def g1_def gva_append_def Let_def)
  have dist: "distinct (named (?ns @ [Some x]))" using ok new set_named [of x ?ns] by (simp add: gva_ok_def)
  have cnt: "gva_hx_n g3 = length (named (?ns @ [Some x]))" using ok by (simp add: f gva_ok_def)
  have lo: "gva_lo g3 \<le> ?n" "named (take (gva_lo g3) (?ns @ [Some x])) = []"
    using ok by (auto simp: f gva_ok_def)
  have "length (named ?ns) \<le> ?n" by (simp add: named_def)
  then have few: "gva_hx_n g3 < 2 ^ 30" using room cnt by simp
  have run: "gva_collect_var g (Some x) = (do {
      g \<leftarrow> (if gva_hx_n g3 * 2 > unat (gva_hx_cap g3)
            then do {
              c \<leftarrow> gva_hx_grown (gva_hx_cap g3) (gva_hx_n g3);
              gva_hx_fill (gva_lo g3) (drop (gva_lo g3) (gva_names g3))
                (g3\<lparr>gva_hx := replicate (unat c) ([], 0), gva_hx_cap := c\<rparr>) }
            else gva_hx_put x ?n g3);
      Some (g, int ?n) })"
    using gva_index_ok [OF ok, of x] el new unfolding gva_collect_var_def
    by (simp add: Let_def g1_def [symmetric] g2_def [symmetric] g3_def [symmetric])
      (simp add: g1_def g2_def g3_def gva_append_def Let_def)
  have ends: ?thesis if "gva_collect_var g (Some x) = Some (g3\<lparr>gva_hx := hx, gva_hx_cap := 2 ^ m\<rparr>, int ?n)"
      "gva_tab m (?ns @ [Some x]) hx" "m < 32" "2 * gva_hx_n g3 \<le> 2 ^ m" for hx m
    using that dist cnt lo few by (auto simp: gva_ok_def f)
  show ?thesis
  proof (cases "gva_hx_n g3 * 2 > unat (gva_hx_cap g3)")
    case True
    have "\<exists>m<32. gva_hx_cap g3 = 0 \<or> gva_hx_cap g3 = 2 ^ m \<and> m < 31"
    proof (cases "gva_hx_cap g = 0")
      case True
      then show ?thesis by (intro exI [of _ 0]) (simp add: f)
    next
      case False
      then obtain m where m: "m < 32" "gva_hx_cap g = 2 ^ m" using ok by (auto simp: gva_ok_def)
      then have "(2::nat) ^ m < 2 ^ 31" using True few by (simp add: f unat_pow2)
      then have "m < 31" by (rule power_less_imp_less_exp [rotated]) simp
      then show ?thesis using m by (intro exI [of _ m]) (simp add: f)
    qed
    then obtain m where m: "m < 32" "gva_hx_cap g3 = 0 \<or> gva_hx_cap g3 = 2 ^ m \<and> m < 31" by blast
    obtain k where k: "gva_hx_grown (gva_hx_cap g3) (gva_hx_n g3) = Some (2 ^ k)" "k < 32" "2 * gva_hx_n g3 + 2 \<le> 2 ^ k"
      using gva_hx_grown_ok [OF m few] by blast
    let ?g = "g3\<lparr>gva_hx := replicate (2 ^ k) ([], 0), gva_hx_cap := 2 ^ k\<rparr>"
    define as where "as = take (gva_lo g3) (?ns @ [Some x])"
    define bs where "bs = drop (gva_lo g3) (?ns @ [Some x])"
    have split: "?ns @ [Some x] = as @ bs" by (simp only: as_def bs_def append_take_drop_id)
    have len: "length as = gva_lo g3" using lo(1) by (simp add: as_def)
    have "gva_tab k as (gva_hx ?g)" using gva_tab_empty [OF k(2)] lo(2) by (simp add: as_def)
    moreover have "length (named (as @ bs)) < 2 ^ k" using cnt k(3) unfolding split by simp
    moreover have "gva_hx_cap ?g = 2 ^ k" by simp
    ultimately obtain hx where fill: "gva_hx_fill (length as) bs ?g = Some (?g\<lparr>gva_hx := hx\<rparr>)" "gva_tab k (as @ bs) hx"
      using gva_fill_ok [of k as ?g bs] dist unfolding split by blast
    have hx: "gva_hx_fill (gva_lo g3) (drop (gva_lo g3) (gva_names g3)) ?g = Some (?g\<lparr>gva_hx := hx\<rparr>)"
      using fill(1) unfolding len bs_def f(1) .
    have tab: "gva_tab k (?ns @ [Some x]) hx" using fill(2) unfolding split .
    have "gva_collect_var g (Some x) = Some (g3\<lparr>gva_hx := hx, gva_hx_cap := 2 ^ k\<rparr>, int ?n)"
      using True k(1) hx unat_pow2 [where 'w = 32, of k] k(2) unfolding run by simp
    then show ?thesis by (rule ends [OF _ tab k(2)]) (use k(3) in linarith)
  next
    case False
    then have "gva_hx_cap g \<noteq> 0" using f by auto
    then obtain m where m: "m < 32" "gva_hx_cap g = 2 ^ m" "gva_tab m ?ns (gva_hx g)" using ok by (auto simp: gva_ok_def)
    then have le: "2 * gva_hx_n g3 \<le> 2 ^ m" using False by (simp add: f unat_pow2)
    obtain hx where hx: "gva_hx_put x ?n g3 = Some (g3\<lparr>gva_hx := hx\<rparr>)" "gva_tab m (?ns @ [Some x]) hx"
      using gva_put_ok [of m ?ns g3 x] m new le cnt by (auto simp: f)
    have "g3\<lparr>gva_hx := hx, gva_hx_cap := 2 ^ m\<rparr> = g3\<lparr>gva_hx := hx\<rparr>" using m(2) f(4) by simp
    then have "gva_collect_var g (Some x) = Some (g3\<lparr>gva_hx := hx, gva_hx_cap := 2 ^ m\<rparr>, int ?n)"
      using False hx(1) unfolding run by simp
    then show ?thesis by (rule ends [OF _ hx(2) m(1) le])
  qed
qed

interpretation gvn: numbering_look "\<lambda>g x. gva_collect_var g (Some x)" gva_name gva_count
  "\<lambda>g x. gva_name_eligible g (Some x)" gva_ok "\<lambda>g. 2 ^ 30 - 1 - length (gva_names g)" "-1"
  "\<lambda>g x. gva_index_of g (Some x)"
proof unfold_locales
  fix g :: gva and x k
  assume g: "gva_ok g"
  have dist: "distinct (named (gva_names g))" using g by (simp add: gva_ok_def)
  show "j = k" if "gva_name g k = Some x" "gva_name g j = Some x" for j
    using that named_unique [OF dist] unfolding gva_name_at by blast
  show "k < gva_count g" if "gva_name g k = Some x" using that by (auto simp: gva_name_at gva_count_def)
  show "gva_collect_var g (Some x) = Some (g, -1)" if "\<not> gva_name_eligible g (Some x)"
    using that by (simp add: gva_collect_var_def)
  have known: "gva_index_of g (Some x) = Some k" if at: "gva_name g k = Some x"
  proof -
    obtain i where i: "i < length (gva_names g)" "k = int i" "gva_names g ! i = Some x"
      using at unfolding gva_name_at by blast
    have "Some x \<in> set (gva_names g)" using i(1,3) by (metis nth_mem)
    then obtain j where j: "j < length (gva_names g)" "gva_index_of g (Some x) = Some (int j)" "gva_names g ! j = Some x"
      using gva_index_ok [OF g, of x] by auto
    have "i = j" using named_unique [OF dist] i(1,3) j(1,3) by blast
    then show ?thesis using i(2) j(2) by simp
  qed
  show "gva_index_of g (Some x) = Some k" if "gva_name g k = Some x" by (rule known [OF that])
  show "gva_index_of g (Some x) = Some (-1)" if "\<forall>k. gva_name g k \<noteq> Some x"
    using that gva_index_ok [OF g, of x] unfolding gva_name_none by simp
  show "\<exists>s'. gva_collect_var g (Some x) = Some (s', k) \<and> gva_ok s'
      \<and> 2 ^ 30 - 1 - length (gva_names g) \<le> Suc (2 ^ 30 - 1 - length (gva_names s')) \<and> gva_count s' = gva_count g
      \<and> (\<lambda>x. gva_name_eligible s' (Some x)) = (\<lambda>x. gva_name_eligible g (Some x)) \<and> gva_name s' = gva_name g"
    if "gva_name_eligible g (Some x)" "gva_name g k = Some x"
    using that known [OF that(2)] g by (intro exI [of _ g]) (auto simp: gva_collect_var_def gva_name_at)
  show "\<exists>s'. gva_collect_var g (Some x) = Some (s', gva_count g) \<and> gva_ok s'
      \<and> 2 ^ 30 - 1 - length (gva_names g) \<le> Suc (2 ^ 30 - 1 - length (gva_names s')) \<and> gva_count s' = gva_count g + 1
      \<and> (\<lambda>x. gva_name_eligible s' (Some x)) = (\<lambda>x. gva_name_eligible g (Some x))
      \<and> gva_name s' = (gva_name g)(gva_count g := Some x)"
    if el: "gva_name_eligible g (Some x)" and no: "\<forall>k. gva_name g k \<noteq> Some x"
      and room: "0 < 2 ^ 30 - 1 - length (gva_names g)"
  proof -
    have "length (gva_names g) < 2 ^ 30 - 1" using room by linarith
    then obtain g' where g': "gva_collect_var g (Some x) = Some (g', int (length (gva_names g)))" "gva_ok g'"
        "gva_names g' = gva_names g @ [Some x]" "gva_kw_names g' = gva_kw_names g" "gva_io_names g' = gva_io_names g"
      using gva_collect_new [OF g el] no unfolding gva_name_none by blast
    have "gva_name_eligible g' = gva_name_eligible g"
      using g'(4,5) by (simp add: gva_name_eligible_def gva_keyword_refused_def gva_io_refused_def fun_eq_iff split: option.split)
    moreover have "gva_name g' = (gva_name g)(gva_count g := Some x)"
      by (auto simp: gva_name_def gva_count_def g'(3) fun_eq_iff nth_append)
    ultimately show ?thesis using g'(1-3) by (intro exI [of _ g']) (simp add: gva_count_def)
  qed
qed

text \<open>The table between two programs, and the numbers that are set aside.\<close>

lemma named_replicate [simp]: "named (replicate n None) = []"
  by (simp add: named_def)

lemma gva_reserve_n_ok:
  assumes "gva_ok g"
  shows "\<exists>g'. gva_collect_reserve_n n g = Some (g', int (length (gva_names g))) \<and> gva_ok g'
    \<and> gva_names g' = gva_names g @ replicate (nat n) None"
proof (cases "n \<le> 0")
  case True
  then show ?thesis using assms by (simp add: gva_collect_reserve_n_def)
next
  case False
  let ?need = "\<lambda>nm. int nm < int (length (gva_names g)) + n"
  have "\<exists>nm. while_option ?need (\<lambda>nm. nm * 2) (if gva_max g \<noteq> 0 then gva_max g else 256) = Some nm"
    by (rule measure_while_option_Some [where P = "\<lambda>nm. 0 < nm" and f = "\<lambda>nm. nat (int (length (gva_names g)) + n) - nm"]) auto
  then obtain nm where nm: "(if int (length (gva_names g)) + n > int (gva_max g)
      then while_option ?need (\<lambda>nm. nm * 2) (if gva_max g \<noteq> 0 then gva_max g else 256) else Some (gva_max g)) = Some nm"
    by (metis (full_types))
  let ?g = "g\<lparr>gva_max := nm, gva_names := gva_names g @ replicate (nat n) None\<rparr>"
  have "gva_collect_reserve_n n g = Some (?g, int (length (gva_names g)))"
    using False nm by (simp add: gva_collect_reserve_n_def Let_def)
  moreover have "gva_tab m (gva_names g @ replicate k None) hx" if "gva_tab m (gva_names g) hx" for m hx k
    using that by (auto simp: gva_tab_def nth_append)
  then have "gva_ok ?g" using assms by (auto simp: gva_ok_def)
  ultimately show ?thesis by (intro exI [of _ ?g]) simp
qed

lemma gva_reset_ok:
  assumes "gva_ok g"
  shows "\<exists>g'. gva_collect_reset r g = Some g' \<and> gva_ok g' \<and> gva_names g' = replicate (nat r) None"
proof -
  define g1 where "g1 = g\<lparr>gva_names := [], gva_hx_n := 0, gva_lo := 0\<rparr>"
  define g2 where "g2 = (if gva_hx_cap g1 \<noteq> 0 then g1\<lparr>gva_hx := replicate (unat (gva_hx_cap g1)) ([], 0)\<rparr> else g1)"
  have "gva_ok g2"
    using assms gva_tab_empty [of _ "[]"] by (auto simp: gva_ok_def g2_def g1_def unat_pow2)
  moreover have "gva_names g2 = []" by (simp add: g2_def g1_def)
  ultimately obtain g3 where g3: "gva_collect_reserve_n r g2 = Some (g3, 0)" "gva_ok g3" "gva_names g3 = replicate (nat r) None"
    using gva_reserve_n_ok [of g2 r] by auto
  have reset: "gva_collect_reset r g = (if r > 0 then map_option fst (gva_collect_reserve_n r g2) else Some g2)"
    by (simp add: gva_collect_reset_def Let_def g2_def g1_def)
  show ?thesis
  proof (cases "r > 0")
    case True
    then show ?thesis using reset g3 by simp
  next
    case False
    then show ?thesis using reset \<open>gva_ok g2\<close> \<open>gva_names g2 = []\<close> by simp
  qed
qed

primrec gva_collect_names :: "string list \<Rightarrow> gva \<Rightarrow> gva option" where
  "gva_collect_names [] g = Some g"
| "gva_collect_names (x # xs) g = do { (g, k) \<leftarrow> gva_collect_var g (Some x); gva_collect_names xs g }"

lemma gva_collect_names_all: "gva_collect_names xs g = gvn.add_all g xs"
  by (induction xs arbitrary: g) (auto split: option.split)

text \<open>
  C19. Global variables are numbered. Whatever names are collected in whatever order, after any reset and
  reservation: no number is lost or changes its name, every name that may have a number is found
  under a number that leads back to it, names that may not get none, and no two names share one.
\<close>

theorem gva_collect_numbers:
  assumes "gva_ok g" "nat r + length xs < 2 ^ 30"
  shows "\<exists>g0 g'. gva_collect_reset r g = Some g0 \<and> gva_collect_names xs g0 = Some g' \<and> gva_ok g'
    \<and> (\<forall>x. if x \<in> set xs \<and> gva_name_eligible g (Some x)
           then \<exists>k\<ge>0. gva_index_of g' (Some x) = Some k \<and> gva_name g' k = Some x
           else gva_index_of g' (Some x) = Some (-1))
    \<and> (\<forall>x y k. gva_index_of g' (Some x) = Some k \<longrightarrow> gva_index_of g' (Some y) = Some k \<longrightarrow> 0 \<le> k \<longrightarrow> x = y)"
proof -
  obtain g0 where g0: "gva_collect_reset r g = Some g0" "gva_ok g0" "gva_names g0 = replicate (nat r) None"
    using gva_reset_ok [OF assms(1)] by blast
  have "gva_kw_names g0 = gva_kw_names g" "gva_io_names g0 = gva_io_names g"
    using g0(1) by (auto simp: gva_collect_reset_def gva_collect_reserve_n_def Let_def bind_eq_Some_conv split: if_splits)
  then have el: "gva_name_eligible g0 = gva_name_eligible g"
    by (simp add: gva_name_eligible_def gva_keyword_refused_def gva_io_refused_def fun_eq_iff split: option.split)
  have none: "gva_name g0 j \<noteq> Some y" for j y using g0(3) by (auto simp: gva_name_at)
  have "length xs \<le> 2 ^ 30 - 1 - length (gva_names g0)" using assms(2) g0(3) by simp
  from gvn.add_all_numbers [OF g0(2) this] obtain g' where g': "gva_collect_names xs g0 = Some g'" "gva_ok g'"
      "\<forall>j y. gva_name g' j = Some y \<longrightarrow> y \<in> set xs \<and> gva_name_eligible g (Some y)"
      "\<forall>x\<in>set xs. gva_name_eligible g (Some x) \<longrightarrow> (\<exists>k. gva_name g' k = Some x)"
    unfolding gva_collect_names_all el using none by auto
  have "if x \<in> set xs \<and> gva_name_eligible g (Some x)
      then \<exists>k\<ge>0. gva_index_of g' (Some x) = Some k \<and> gva_name g' k = Some x
      else gva_index_of g' (Some x) = Some (-1)" for x
  proof (cases "x \<in> set xs \<and> gva_name_eligible g (Some x)")
    case True
    then obtain k where k: "gva_name g' k = Some x" using g'(4) by blast
    then have "0 \<le> k" by (simp add: gva_name_def split: if_splits)
    then show ?thesis using True k gvn.look_known [OF g'(2) k] by auto
  next
    case False
    then show ?thesis using g'(3) gvn.look_unknown [OF g'(2), of x] by auto
  qed
  moreover have "x = y" if "gva_index_of g' (Some x) = Some k" "gva_index_of g' (Some y) = Some k" "0 \<le> k" for x y k
    by (rule gvn.look_apart [OF g'(2) that])
  ultimately show ?thesis using g0(1) g'(1,2) by blast
qed

text \<open>The table of a fresh process, with the keywords of SNOBOL4 kept out.\<close>

definition gva_start :: gva where
  "gva_start = gva_keyword_refuse_seed_snobol4
     \<lparr>gva_names = [], gva_max = 0, gva_hx = [], gva_hx_cap = 0, gva_hx_n = 0, gva_lo = 0, gva_io_names = [],
      gva_io_max = 0, gva_kw_names = [], gva_kw_max = 0, gva_kw_seeded = False, gva_sn4_family = False,
      gva_trace_demote = False\<rparr>"

lemma gva_start_fields: "gva_names gva_start = []" "gva_hx_cap gva_start = 0" "gva_hx_n gva_start = 0" "gva_lo gva_start = 0"
  by code_simp+

lemma gva_start_eligible:
  "gva_name_eligible gva_start (Some ''X'')" "\<not> gva_name_eligible gva_start (Some ''INPUT'')"
  "\<not> gva_name_eligible gva_start (Some ''ARB'')"
  by code_simp+

theorem gva_collect_numbers_witness:
  "\<exists>g0 g'. gva_collect_reset 2 gva_start = Some g0
    \<and> gva_collect_names [''X'', ''INPUT'', ''ARB'', ''X''] g0 = Some g'
    \<and> (\<exists>k\<ge>0. gva_index_of g' (Some ''X'') = Some k \<and> gva_name g' k = Some ''X'')
    \<and> gva_index_of g' (Some ''INPUT'') = Some (-1) \<and> gva_index_of g' (Some ''ARB'') = Some (-1)"
proof -
  let ?xs = "[''X'', ''INPUT'', ''ARB'', ''X'']"
  have ok: "gva_ok gva_start" by (simp add: gva_ok_def gva_start_fields)
  have "nat 2 + length ?xs < 2 ^ 30" by simp
  from gva_collect_numbers [OF ok this] obtain g0 g' where g: "gva_collect_reset 2 gva_start = Some g0"
      "gva_collect_names ?xs g0 = Some g'"
    and all: "\<forall>x. if x \<in> set ?xs \<and> gva_name_eligible gva_start (Some x)
           then \<exists>k\<ge>0. gva_index_of g' (Some x) = Some k \<and> gva_name g' k = Some x
           else gva_index_of g' (Some x) = Some (-1)" by (elim exE conjE) (rule that)
  show ?thesis using g all [rule_format, of "''X''"] all [rule_format, of "''INPUT''"] all [rule_format, of "''ARB''"]
      gva_start_eligible by (intro exI [of _ g0] exI [of _ g']) simp
qed

section \<open>The procedures of a graph\<close>

lemma c_text_returns: "has_nul m \<Longrightarrow> \<exists>o'. c_text m s = Some o'"
  using c_strlen_returns [of m s] by (auto simp: c_text_def)

text \<open>The names a node of the graph calls directly.\<close>

definition direct_call :: "proc_table \<Rightarrow> ir_graph \<Rightarrow> addr \<Rightarrow> string \<Rightarrow> bool" where
  "direct_call t h nd s \<longleftrightarrow> nd \<noteq> 0 \<and> (n_op (g_node h nd) = IR_CALL \<or> n_op (g_node h nd) = IR_CALL_PROC_STAGED)
     \<and> c_text (g_byte h) (n_lit (g_node h nd)) = Some (Some s) \<and> proc_direct_eligible t (Some s)"

lemma proc_step_adds:
  assumes "has_nul (g_byte h)"
  shows "\<exists>xs. proc_step t h nd p = prx.add_all p xs \<and> length xs \<le> 1 \<and> set xs = {s. direct_call t h nd s}"
proof -
  let ?x = "g_node h nd"
  obtain o' where o': "c_text (g_byte h) (n_lit ?x) = Some o'" using c_text_returns [OF assms] by blast
  show ?thesis
  proof (cases "nd \<noteq> 0 \<and> (n_op ?x = IR_CALL \<or> n_op ?x = IR_CALL_PROC_STAGED) \<and> proc_direct_eligible t o'")
    case True
    then obtain s where s: "o' = Some s" by (auto simp: proc_direct_eligible_def split: option.splits)
    then have "n_lit ?x \<noteq> 0" using o' by (auto simp: c_text_def)
    then show ?thesis using True o' s
      by (intro exI [of _ "[s]"]) (auto simp: proc_step_def Let_def direct_call_def split: prod.split)
  next
    case False
    then show ?thesis using o' by (intro exI [of _ "[]"]) (auto simp: proc_step_def Let_def direct_call_def)
  qed
qed

lemma prx_add_all_append:
  "prx.add_all p (xs @ ys) = (case prx.add_all p xs of None \<Rightarrow> None | Some p' \<Rightarrow> prx.add_all p' ys)"
  by (induction xs arbitrary: p) (auto split: prod.split)

lemma proc_scan_adds:
  assumes "has_nul (g_byte h)"
  shows "\<exists>xs. proc_scan t h as p = prx.add_all p xs \<and> length xs \<le> length as
    \<and> set xs = {s. \<exists>nd\<in>set as. direct_call t h nd s}"
proof (induction as arbitrary: p)
  case (Cons a as)
  obtain xs where xs: "proc_step t h a p = prx.add_all p xs" "length xs \<le> 1" "set xs = {s. direct_call t h a s}"
    using proc_step_adds [OF assms] by blast
  have "\<exists>p'. prx.add_all p xs = Some p'" for xs by (induction xs arbitrary: p) (auto split: prod.split)
  then obtain p' where p': "prx.add_all p xs = Some p'" by blast
  obtain ys where ys: "proc_scan t h as p' = prx.add_all p' ys" "length ys \<le> length as"
      "set ys = {s. \<exists>nd\<in>set as. direct_call t h nd s}" using Cons.IH by blast
  show ?case using xs p' ys by (intro exI [of _ "xs @ ys"]) (auto simp: prx_add_all_append)
qed simp

text \<open>
  C39. Procedures are numbered. Collecting the direct calls of a graph comes back, keeps the number of
  every procedure that had one, and exactly the procedures called directly get numbers, each its own.
\<close>

theorem proc_collect_graph_slots:
  assumes "distinct (proc_names p)" "has_nul (g_byte h)" "length (proc_names p) + length (g_all h) < 2 ^ 31"
  shows "\<exists>p'. proc_collect_graph t h p = Some p' \<and> distinct (proc_names p')
    \<and> (\<forall>k s. proc_slot_name p k = Some s \<longrightarrow> proc_slot_name p' k = Some s)
    \<and> (\<forall>nd\<in>set (g_all h). \<forall>s. direct_call t h nd s \<longrightarrow> proc_slot_name p' (proc_slot_of p' (Some s)) = Some s)
    \<and> (\<forall>k s. proc_slot_name p' k = Some s \<longrightarrow>
         proc_slot_name p k = Some s \<or> (\<exists>nd\<in>set (g_all h). direct_call t h nd s))"
proof -
  obtain xs where xs: "proc_collect_graph t h p = prx.add_all p xs" "length xs \<le> length (g_all h)"
      "set xs = {s. \<exists>nd\<in>set (g_all h). direct_call t h nd s}"
    using proc_scan_adds [OF assms(2), of t "g_all h" p] by (auto simp: proc_collect_graph_def)
  have "length xs \<le> 2 ^ 31 - 1 - length (proc_names p)" using xs(2) assms(3) by simp
  from prx.add_all_numbers [OF assms(1) this] obtain p' where p': "prx.add_all p xs = Some p'" "distinct (proc_names p')"
      "\<forall>j y. proc_slot_name p j = Some y \<longrightarrow> proc_slot_name p' j = Some y"
      "\<forall>j y. proc_slot_name p' j = Some y \<longrightarrow> proc_slot_name p j = Some y \<or> y \<in> set xs"
      "\<forall>x\<in>set xs. x \<noteq> [] \<longrightarrow> (\<exists>k. proc_slot_name p' k = Some x)" by blast
  have "s \<noteq> []" if "direct_call t h nd s" for nd s using that by (auto simp: direct_call_def proc_direct_eligible_def)
  then have "proc_slot_name p' (proc_slot_of p' (Some s)) = Some s" if "nd \<in> set (g_all h)" "direct_call t h nd s" for nd s
    using p'(5) xs(3) that prx.look_known [OF p'(2)] by (metis (mono_tags, lifting) mem_Collect_eq option.inject)
  then show ?thesis using xs(1,3) p'(1-4) by (intro exI [of _ p']) auto
qed

text \<open>A graph with one call of the procedure \<open>F\<close>.\<close>

definition call_demo :: ir_graph where
  "call_demo = \<lparr>g_node = (\<lambda>_. zero_node)(16 := zero_node\<lparr>n_op := IR_CALL, n_lit := 512\<rparr>),
     g_byte = (\<lambda>_. 0)(512 := 70), g_heap = [16], g_all = [16], g_max = 16, g_entry = 16, g_body_root = 0,
     g_dead = [], g_nparams = 0, g_resumable_callable = 0, g_smx = 0\<rparr>"

definition call_demo_table :: proc_table where
  "call_demo_table = \<lparr>rt_proc_is_registered = (\<lambda>s. s = ''F''), rt_proc_frame_nslots = (\<lambda>s. -1)\<rparr>"

definition no_procs :: proc_slots where
  "no_procs = \<lparr>proc_names = [], proc_max = 0, scc_taint = False, scc_inherited = False\<rparr>"

theorem proc_collect_graph_slots_witness:
  "\<exists>p'. proc_collect_graph call_demo_table call_demo no_procs = Some p'
    \<and> proc_slot_name p' (proc_slot_of p' (Some ''F'')) = Some ''F''"
proof -
  have "has_nul (g_byte call_demo)" by (auto simp: has_nul_def call_demo_def intro: exI [of _ 0])
  moreover have "direct_call call_demo_table call_demo 16 ''F''" by code_simp
  ultimately show ?thesis
    using proc_collect_graph_slots [of no_procs call_demo call_demo_table] by (auto simp: no_procs_def call_demo_def)
qed

end
