(* ===== verification/Spec2Isabelle.thy ===== *)
theory Spec2Isabelle
  imports Descr Bignum_Bits Bignum_Str Snocone_Lex Icon_Parse_Props Rk_Method Ir_Node_Index Opt_Names
begin

text \<open>
  SCRIP compiles SNOBOL4, Snocone, Icon, Rebus, Prolog, Raku and Pascal. A front end
  (\<open>src/parsers\<close>) turns a text into a tree (\<open>src/ir/ast.h\<close>); lowering, planner,
  optimizer and emitter (\<open>src/lower\<close>, \<open>src/planner\<close>, \<open>src/optimizer\<close>,
  \<open>src/emitter\<close>, \<open>src/templates\<close>) turn the tree into machine code, which calls the
  runtime (\<open>src/runtime\<close>). Every value of the runtime is a 16-byte descriptor
  (\<open>src/ir/descr.h\<close>). This development models the two ends that are programs of their own, the
  values with their exact arithmetic and two front ends, and of the middle the optimizer of the intermediate
  graph.

  Values and arithmetic.

  \<^item> \<open>Descr\<close>: the tags of \<open>src/ir/descr_tags.h\<close>, the record
    \<open>descr_t\<close>, its provenance stamp, constructors and predicates. Its lemmas: the static
    assertions hold of the numbering, the stamp reads back what was stored, the predicates separate the
    kinds of value.
  \<^item> \<open>Limbs\<close>, \<open>Bignum_Mul\<close>, \<open>Bignum_Div\<close>,
    \<open>Bignum\<close>, \<open>Bignum_Bits\<close>, \<open>Bignum_Str\<close>:
    \<open>src/runtime/bignum.c\<close>. A magnitude is the list of its 32-bit limbs, the accumulators are
    64-bit words, and \<open>lval\<close>, \<open>bval\<close> and \<open>ival\<close> give the number of a
    magnitude, a big integer and a descriptor. \<open>canonical\<close> is the normal form: no leading zero
    limbs, and a big integer only where 64 bits do not hold the number. The lemmas say of each routine that
    it keeps the normal form and computes the operation on numbers; Karatsuba agrees with the schoolbook,
    Algorithm D divides, decimal text reads back. The text buffer sized beforehand is shown to be large
    enough; for the scratch array of Karatsuba, \<open>lmul_mem\<close> is the same routine with the array
    as a list it reads and writes, shown to stay inside and to give the same limbs for operands of together
    less than \<open>2 ^ 30 - 64\<close> limbs.
  \<^item> \<open>Int_Ops\<close>: the interface \<open>integers\<close>, what a layer of exact integers
    promises (ring operations, truncating division, literals, sign, one representation per number), with
    floor division, exact quotients and Euclid's algorithm proved from it; and the layer at the head of
    \<open>pl_rat.c\<close>, machine arithmetic that falls back on \<open>bignum.c\<close> when it
    overflows, as its first interpretation.
  \<^item> \<open>Rk_Rat\<close>: \<open>src/runtime/rk_rat.c\<close>, Raku's \<open>Rat\<close> and
    \<open>FatRat\<close>. Its own integer layer is the second interpretation of \<open>integers\<close>.
    The operators refine the rational numbers: \<open>rk_operand\<close> relates an operand to its number
    and \<open>rat_result\<close> the stored result, in lowest terms, or a double where a
    \<open>Rat\<close>'s denominator has more than 64 bits by a count the code keeps in an
    \<open>int\<close> (\<open>c_int\<close>). Division by zero is followed on every branch.
  \<^item> \<open>Pl_Rat\<close>: \<open>src/runtime/pl_rat.c\<close>, the arithmetic of Prolog's integers
    and rationals, built on the values of \<open>Rk_Rat\<close>. \<open>qrep\<close> relates a value in
    normal form to its number; the operators, roundings, text, conversion from doubles and Newton's root are
    proved against it.

  \<^item> \<open>Rk_Text\<close>, \<open>Rk_Method\<close>: the text of Raku's rationals in
    \<open>rk_rat.c\<close>, literals, printing, printing in a base; the methods; numbers in a radix. The
    text of a \<open>Rat\<close> is a literal of the same \<open>Rat\<close>, and a number written in a base
    is read back, if it has less than \<open>2 ^ 31 - 3\<close> bits: beyond, the room the code counts for
    it in an \<open>int\<close> is wrong and the model answers \<open>None\<close>.

  Front ends.

  \<^item> \<open>Snocone_Lex\<close>: \<open>src/parsers/snocone/snocone_lex.c\<close>, a state machine
    over the characters, one definition per group of states; progress, the placing of concatenation,
    strings, line counts.
  \<^item> \<open>Icon_Tok\<close>, \<open>Icon_Lex\<close>, \<open>Icon_Lex_Props\<close>:
    \<open>src/parsers/icon/icon_lex.h\<close> and \<open>icon_lex.c\<close>. The lexer pulls preprocessed
    lines as it needs them; the model holds the whole preprocessed text, which is the argument
    \<open>pp\<close> of \<open>icn_lex_init\<close>. Progress, spellings, strings, the bounds of number
    literals.
  \<^item> \<open>Icon_Parse\<close>: \<open>src/parsers/icon/icon_parse.c\<close>, recursive descent over
    two tokens. A constructor of \<open>nt\<close> names each function and each loop of the code with what
    the loop has built; the body of a function is a definition over \<open>rec\<close>, its calls, and
    \<open>icn_parse\<close> is the least fixed point. A text between backquotes is read by a preprocessor,
    a lexer and a parser of its own, so with a preprocessor that makes such a text include itself the parser
    recurses for ever. \<open>nests_end\<close>, inductive over these texts, says that they do not nest
    without end. \<open>Icon_Parse_Total\<close> proves that every call then returns, with a measure of the
    text left and a rank on the calls that consume nothing; \<open>Icon_Parse_Type\<close> proves a typing
    of the trees by pre- and postconditions of the calls; \<open>Icon_Parse_Props\<close> states what
    follows for whole files.

  Optimizer, on the intermediate graph of \<open>src/ir/ir_node.h\<close> and \<open>ir_graph.h\<close>.

  \<^item> \<open>Probe\<close>: open addressing in a table that is a power of two long, with a key of 0 for
    a free place. The locale \<open>probing\<close> asks for the slot and the key of an entry alone; its
    lemmas say where a search ends, that it ends while a place is free, and what adding a key does to the
    other searches.
  \<^item> \<open>Ir_Index\<close>: \<open>src/optimizer/ir_index.h\<close>. \<open>node_places\<close> and
    \<open>node_set\<close> are what the passes rely on (the first place of a pointer in the array of nodes;
    the set of the pointers added); the hash index and the growing hash set are shown to be instances.
    \<open>place_table\<close> extends \<open>probing\<close> by what an index filled from an array holds.
  \<^item> \<open>Numbering\<close>, \<open>Ir_Node_Index\<close>: \<open>numbering\<close> is the interface
    of the tables that give numbers to keys, and \<open>numbering_look\<close> adds the search.
    \<open>src/ir/ir_node_index.c\<close>: \<open>bb_node_id\<close>, with its table, is a numbering of
    nodes; the live index of planner and emitter is a step relation over builds, resets, scopes and arrays
    rewritten in place, and what it answers is known in every state reached: the first place in the array as
    it is, or, for the array that is live, as it was when it was indexed. \<open>bb_node_id\<close> numbers
    nodes only with its switch on; otherwise it answers the address modulo 100000. The index of
    \<open>src/planner/frame_layout.c\<close> shares the model of the walk.
  \<^item> \<open>Opt_Names\<close>: \<open>gva_collect.c\<close> and \<open>proc_collect.c\<close>, the
    numbers of global variables (a hash table over a list, with names set aside) and of procedures called
    directly, both instances of \<open>numbering_look\<close>.
  \<^item> \<open>Ir_Graph\<close>: nodes, graphs and the queries of \<open>ir_query.c\<close> and
    \<open>scrip_ir.c\<close>. Nodes are memory by address: \<open>g_node\<close> is read and written at a
    pointer, \<open>g_byte\<close> is the memory of texts, \<open>g_heap\<close> the addresses of the nodes
    handed out so far. \<open>graph_ok\<close> says that every pointer a node of the graph holds is null or
    such an address.
  \<^item> \<open>Opt_Branch\<close>: \<open>branch_chain.c\<close>. \<open>runs\<close> is the meaning of a
    graph, the nodes control visits with the ports it enters them by, for any answers of the nodes;
    \<open>rerouted\<close> relates a graph to one whose edges were moved along nodes that only pass control
    on, and is what each step of the pass keeps.
  \<^item> \<open>Opt_Dead\<close>: \<open>copy_prop.c\<close>, \<open>dead_pure.c\<close> and
    \<open>dead_goto.c\<close>: which nodes are emptied or taken out, exactly.
  \<^item> \<open>Opt_Fold\<close>, \<open>Opt_Props\<close>: \<open>const_fold.c\<close> with
    \<open>rt_num_arith\<close> on two integers, zero divisors and -1 included, up to the overflow into big
    integers (\<open>src/runtime/arithmetic.c\<close>), the error a zero divisor raises
    (\<open>core_runtime_error\<close> of \<open>src/runtime/core/core.c\<close> in the mode folding sets,
    \<open>rt_kw_publish_error\<close> of \<open>src/runtime/keywords.c\<close>) with the registers and
    keywords it writes (\<open>rt_err\<close>), \<open>scc_taint_graph\<close> and the driver
    \<open>optimizer.c\<close>. What folding computes on integers, and the invariant \<open>opt_ok\<close>
    that every pass keeps: nodes and binary operations together never grow, so folding, which adds nodes for
    the lengths of texts, stays within the array.

  How the parts meet. The lexer and the parser of Icon share the lexer's state: \<open>advance\<close> calls
  \<open>icn_lex_next\<close>, and its progress lemma is what the parser's termination rests on. The
  rationals of Prolog are stored by the constructors of \<open>rk_rat.c\<close>, both stand on
  \<open>bignum.c\<close>, and both reach it only through the interface \<open>integers\<close>. The passes
  of the optimizer find nodes through \<open>ir_index.h\<close> alone, and the driver's theorem composes
  what each pass keeps; folded values are the descriptors of \<open>Descr\<close>.

  Conventions. A run that does not come back, because a loop goes on or the machine traps on a division by
  zero, is \<open>None\<close>; every theorem on such a function shows that it returns, the parser's under
  \<open>nests_end\<close>.  No fuel is used: recursion is structural, has a measure, or is a partial
  function or \<open>while_option\<close> with a proof that it ends. A C pointer that may be null is an
  option. Allocation succeeds. A double is its bit pattern; what the machine and the C library compute with
  doubles is the argument \<open>fp_ops\<close>, of which the theorems assume nothing, while
  \<open>frexp\<close>, \<open>isnan\<close> and \<open>isinf\<close> are read from the bits. What folding
  calls of the runtime for other operands, the concatenation of texts, the allocators and the addresses of
  messages are the argument \<open>cf_ops\<close>, of which \<open>lawful\<close> assumes that a node handed
  out is new and that a NUL is left somewhere in memory. The optimizer's switches, read from the environment
  once, are \<open>opt_env\<close>; its traces and statistics are not modelled. The bounds of
  \<open>opt_ok\<close>, \<open>2 ^ 31\<close> places of the array and \<open>2 ^ 60\<close> nodes in
  memory, are those of the types.

  Where the code does what it does not mean to, the model follows the code, and a lemma shows it: a new line
  after a star inside a Snocone comment is not counted (\<open>sc_lex_star_newline_lost\<close>); a minus
  moves Icon's column and may hide a line (\<open>icn_minus_column_drifts\<close>,
  \<open>icn_minus_import_hides_line\<close>); a radix of zero divides by zero
  (\<open>icn_radix_exact\<close>); the remainder of a \<open>Rat\<close> with a zero denominator traps
  (\<open>rk_rat_binop_mod_traps\<close>); \<open>pq_abs_value\<close> in \<open>pl_rat_pow\<close> leaves a
  negative rational negative; a radix from \<open>2 ^ 31\<close> on is cast to another one
  (\<open>icn_radix_exact\<close>); a denominator of \<open>2 ^ 31\<close> bits counts as short
  (\<open>long_den_wraps\<close>); the size of the scratch array wraps around
  (\<open>big_umul_tmp_wraps\<close>); folding a division by zero leaves \<open>&ERRTYPE\<close> and
  \<open>&ERRTEXT\<close> set (\<open>cf_step_zero_divisor\<close>); and a text between backquotes that
  includes itself is read for ever (\<open>nests_end_loops\<close>).

  Not modelled. Of the modelled files: \<open>rt_big_image_str\<close> (an estimate in doubles); the
  preprocessor of \<open>icon_lex.c\<close>; of \<open>rk_rat.c\<close> the double of a quotient and the
  conversions that start from a double. Of the rest: the generated scanners and parsers (Pascal, Rebus,
  SNOBOL4, Snocone) and the preludes; the readers of Prolog and Raku; lowering and planner; of the optimizer
  the report of regions, \<open>gva_note\<close>, which asks the emitter, and \<open>arith_fold.c\<close>,
  which is parked out of the build; emitter and templates, which write machine code and would need a model
  of the processor; the collector, the unification machine and the library of built-ins, which live on raw
  memory; the driver, which is input and output; the back ends under \<open>miscellaneous\<close> in other
  languages.
\<close>

end
